(* ===== verification/Alore_Prelude.thy ===== *)
theory Alore_Prelude
  imports "HOL-Library.Word" "HOL-Library.Multiset"
begin

text \<open>
  Shared vocabulary of the development.  The runtime is modelled in its 64-bit
  configuration (\<^verbatim>\<open>src/src/aconfig.h\<close>): an \<^verbatim>\<open>AValue\<close> is an unsigned 64-bit word, a long
  integer digit an unsigned 32-bit word and a double digit a 64-bit word.

  Every runtime operation that may allocate runs in a thread.  The part of the thread
  that matters here is the outcome of each allocation still to come (an oracle, since
  it depends on the garbage collector) and the temporary stack pointer.  An operation is
  a function from the thread to a result, an exception or a value, and the new thread.
  \<open>meets\<close> is the contract used throughout: the operation returns a value with the stated
  property, or raises a memory error in a run where an allocation failed, and it leaves
  the temporary stack balanced on every path.
\<close>

unbundle bit_operations_syntax

section \<open>Types\<close>

type_synonym avalue = "64 word"
type_synonym digit = "32 word"
type_synonym ddigit = "64 word"

text \<open>
  Exceptions raised by the modelled operations, C behaviour that is undefined, and a loop or
  a recursion that does not end.
\<close>

datatype aerror =
    MemoryError
  | ValueError string
  | ArithmeticError
  | TypeError
  | KeyError
  | IndexError
  | DecodeError
  | EncodeError
  | RuntimeError string
  | UndefinedBehaviour
  | NonTermination

text \<open>
  One allocation: it fails, or it yields a block whose payload holds the given left-over
  digits; the flag tells that a collection ran first and promoted the blocks that were
  live at that moment to the old generation.
\<close>

datatype alloc = AllocFail | AllocBlock bool "digit list"

record athread =
  allocs :: "alloc list"
  tempStackPtr :: nat

type_synonym 'a rt = "athread \<Rightarrow> (aerror + 'a) \<times> athread"

section \<open>Operations in a thread\<close>

definition ret :: "'a \<Rightarrow> 'a rt" where
  "ret x t = (Inr x, t)"

definition raise :: "aerror \<Rightarrow> 'a rt" where
  "raise e t = (Inl e, t)"

definition bindM :: "'a rt \<Rightarrow> ('a \<Rightarrow> 'b rt) \<Rightarrow> 'b rt" where
  "bindM m f t = (case m t of (Inl e, t') \<Rightarrow> (Inl e, t') | (Inr x, t') \<Rightarrow> f x t')"

text \<open>The same for steps that only raise exceptions.\<close>

definition bindE :: "aerror + 'a \<Rightarrow> ('a \<Rightarrow> aerror + 'b) \<Rightarrow> aerror + 'b" where
  "bindE m f = (case m of Inl e \<Rightarrow> Inl e | Inr x \<Rightarrow> f x)"

text \<open>The next allocation outcome; an oracle that has run out succeeds with a clean block.\<close>

definition next_alloc :: "(bool \<times> digit list) rt" where
  "next_alloc t =
     (case allocs t of
        [] \<Rightarrow> (Inr (False, []), t)
      | AllocFail # rest \<Rightarrow> (Inl MemoryError, t\<lparr>allocs := rest\<rparr>)
      | AllocBlock g junk # rest \<Rightarrow> (Inr (g, junk), t\<lparr>allocs := rest\<rparr>))"

text \<open>
  \<open>with_temps n m\<close>: reserve \<open>n\<close> slots of the temporary stack (which may itself run out
  of memory), run \<open>m\<close> and release them on both the normal and the exceptional path.
\<close>

definition with_temps :: "nat \<Rightarrow> 'a rt \<Rightarrow> 'a rt" where
  "with_temps n m =
     bindM next_alloc
       (\<lambda>_ t. case m (t\<lparr>tempStackPtr := tempStackPtr t + n\<rparr>) of
                (r, t') \<Rightarrow> (r, t'\<lparr>tempStackPtr := tempStackPtr t' - n\<rparr>))"

section \<open>The contract\<close>

text \<open>
  \<open>Q\<close> restricts the allocation outcomes considered (for instance, to runs without a
  collection); \<open>P\<close> is the property of the returned value.
\<close>

definition outcome_ok :: "('a \<Rightarrow> bool) \<Rightarrow> athread \<Rightarrow> (aerror + 'a) \<times> athread \<Rightarrow> bool" where
  "outcome_ok P t r \<longleftrightarrow>
     (\<forall>x. fst r = Inr x \<longrightarrow> P x) \<and>
     (\<forall>e. fst r = Inl e \<longrightarrow> e = MemoryError \<and> AllocFail \<in> set (allocs t)) \<and>
     set (allocs (snd r)) \<subseteq> set (allocs t) \<and>
     tempStackPtr (snd r) = tempStackPtr t"

definition meets :: "(alloc \<Rightarrow> bool) \<Rightarrow> 'a rt \<Rightarrow> ('a \<Rightarrow> bool) \<Rightarrow> bool" where
  "meets Q m P \<longleftrightarrow> (\<forall>t. list_all Q (allocs t) \<longrightarrow> outcome_ok P t (m t))"

definition any_alloc :: "alloc \<Rightarrow> bool" where
  "any_alloc x = True"

definition no_gc :: "alloc \<Rightarrow> bool" where
  "no_gc x = (case x of AllocFail \<Rightarrow> True | AllocBlock g _ \<Rightarrow> \<not> g)"

lemma meetsI:
  "(\<And>t :: athread. list_all Q (allocs t) \<Longrightarrow> outcome_ok P t (m t)) \<Longrightarrow> meets Q m P"
  unfolding meets_def by simp

lemma meetsD: "meets Q m P \<Longrightarrow> list_all Q (allocs t) \<Longrightarrow> outcome_ok P t (m t)"
  unfolding meets_def by blast

lemma meets_ret [intro]: "P x \<Longrightarrow> meets Q (ret x) P"
  by (rule meetsI) (simp add: outcome_ok_def ret_def)

lemma meets_bind:
  assumes m: "meets Q m P" and f: "\<And>x. P x \<Longrightarrow> meets Q (f x) R"
  shows "meets Q (bindM m f) R"
proof (rule meetsI)
  fix t :: athread assume t: "list_all Q (allocs t)"
  obtain r t' where mt: "m t = (r, t')" by fastforce
  have ok: "outcome_ok P t (r, t')" using meetsD [OF m t] mt by simp
  show "outcome_ok R t (bindM m f t)"
  proof (cases r)
    case (Inl e)
    with ok mt show ?thesis by (simp add: outcome_ok_def bindM_def)
  next
    case (Inr x)
    with ok have "P x" by (simp add: outcome_ok_def)
    moreover have "list_all Q (allocs t')"
      using t ok by (auto simp: list_all_iff outcome_ok_def)
    ultimately have "outcome_ok R t' (f x t')" by (intro meetsD [OF f])
    with Inr mt ok show ?thesis by (auto simp: bindM_def outcome_ok_def)
  qed
qed

lemma meets_mono: "meets Q m P \<Longrightarrow> (\<And>x. P x \<Longrightarrow> R x) \<Longrightarrow> meets Q m R"
  unfolding meets_def outcome_ok_def by blast

lemma meets_weaken: "meets Q m P \<Longrightarrow> (\<And>x. Q' x \<Longrightarrow> Q x) \<Longrightarrow> meets Q' m P"
  unfolding meets_def list_all_iff by blast

lemma meets_next_alloc:
  "meets Q next_alloc (\<lambda>r. Q (AllocBlock (fst r) (snd r)) \<or> r = (False, []))"
  by (rule meetsI)
    (auto simp: outcome_ok_def next_alloc_def split: list.splits alloc.splits)

lemma meets_with_temps:
  assumes "meets Q m P" shows "meets Q (with_temps n m) P"
  unfolding with_temps_def
proof (rule meets_bind [OF meets_next_alloc], rule meetsI)
  fix x and t :: athread assume t: "list_all Q (allocs t)"
  let ?t = "t\<lparr>tempStackPtr := tempStackPtr t + n\<rparr>"
  have "outcome_ok P ?t (m ?t)" using t by (intro meetsD [OF assms]) simp
  then show "outcome_ok P t (case m ?t of
                (r, t') \<Rightarrow> (r, t'\<lparr>tempStackPtr := tempStackPtr t' - n\<rparr>))"
    by (cases "m ?t") (simp add: outcome_ok_def)
qed

text \<open>In a run where no allocation fails, the operation returns.\<close>

lemma meets_returns:
  assumes "meets Q m P" and "list_all Q (allocs t)" and "AllocFail \<notin> set (allocs t)"
  shows "\<exists>x t'. m t = (Inr x, t') \<and> P x"
proof -
  have "outcome_ok P t (m t)" using assms(1,2) by (rule meetsD)
  with assms(3) show ?thesis
    by (cases "m t"; cases "fst (m t)") (auto simp: outcome_ok_def)
qed

lemma bind_ret: "bindM (ret x) f = f x"
  by (rule ext) (simp add: bindM_def ret_def)

text \<open>An operation that raises an exception in every run where memory suffices.\<close>

definition fails :: "aerror \<Rightarrow> 'a rt \<Rightarrow> bool" where
  "fails e m \<longleftrightarrow> (\<forall>t. AllocFail \<notin> set (allocs t) \<longrightarrow> fst (m t) = Inl e)"

lemma fails_raise [intro]: "fails e (raise e)"
  by (simp add: fails_def raise_def)

lemma fails_first: "fails e m \<Longrightarrow> fails e (bindM m f)"
  by (auto simp: fails_def bindM_def split: prod.splits sum.splits)

lemma fails_next:
  assumes m: "meets any_alloc m P" and f: "\<And>x. P x \<Longrightarrow> fails e (f x)"
  shows "fails e (bindM m f)"
  unfolding fails_def
proof (intro allI impI)
  fix t :: athread assume t: "AllocFail \<notin> set (allocs t)"
  have all: "list_all any_alloc (allocs t)" by (simp add: any_alloc_def list_all_iff)
  obtain x t' where x: "m t = (Inr x, t')" "P x" using meets_returns [OF m all t] by blast
  have "set (allocs t') \<subseteq> set (allocs t)" using meetsD [OF m all] x by (simp add: outcome_ok_def)
  then have "fst (f x t') = Inl e" using f [OF x(2)] t by (auto simp: fails_def)
  then show "fst (bindM m f t) = Inl e" using x by (simp add: bindM_def)
qed

section \<open>Digit strings\<close>

text \<open>The natural number written by a little-endian list of 32-bit digits.\<close>

fun digs_val :: "digit list \<Rightarrow> nat" where
  "digs_val [] = 0"
| "digs_val (x # xs) = unat x + 2 ^ 32 * digs_val xs"

lemma digs_val_append: "digs_val (xs @ ys) = digs_val xs + 2 ^ (32 * length xs) * digs_val ys"
  by (induction xs) (simp_all add: algebra_simps power_add)

lemma unat_digit_lt: "unat (x :: digit) < 4294967296"
  using unsigned_less [of x] by simp

lemma unat_ddigit_lt: "unat (x :: ddigit) < 18446744073709551616"
  using unsigned_less [of x] by simp

lemma digs_val_less: "digs_val xs < 2 ^ (32 * length xs)"
proof (induction xs)
  case (Cons x xs)
  have "Suc (digs_val xs) \<le> 2 ^ (32 * length xs)" using Cons.IH by simp
  then have "2 ^ 32 * Suc (digs_val xs) \<le> 2 ^ 32 * 2 ^ (32 * length xs)"
    by (rule mult_le_mono2)
  moreover have "unat x < 2 ^ 32" using unat_digit_lt [of x] by simp
  ultimately have "unat x + 2 ^ 32 * digs_val xs < 2 ^ 32 * 2 ^ (32 * length xs)"
    using unat_digit_lt [of x] by (simp only: mult_Suc_right)
  then show ?case by (simp add: power_add)
qed simp

lemma digs_val_less_int: "int (digs_val xs) < 2 ^ (32 * length xs)"
  by (metis digs_val_less of_nat_less_iff of_nat_numeral of_nat_power)

lemma digs_val_replicate_0 [simp]: "digs_val (replicate n 0) = 0"
  by (induction n) auto

lemma digs_val_snoc_0: "digs_val (xs @ [0]) = digs_val xs"
  by (simp add: digs_val_append)

section \<open>Lists\<close>

lemma last_take_nth: "0 < m \<Longrightarrow> m \<le> length xs \<Longrightarrow> last (take m xs) = xs ! (m - 1)"
  by (cases "xs = []") (simp_all add: last_conv_nth min_absorb2)

section \<open>Words\<close>

lemma unat_ucast_digit [simp]: "unat (ucast (x :: digit) :: ddigit) = unat x"
  by (simp add: unsigned_ucast_eq take_bit_nat_eq_self_iff less_trans [OF unsigned_less])

lemma uint_of_int_64: "uint (of_int i :: 64 word) = i mod 2 ^ 64"
  by (simp add: unsigned_of_int take_bit_eq_mod)

lemma unat_drop_32: "unat (drop_bit 32 (x :: ddigit)) = unat x div 2 ^ 32"
  by (simp add: drop_bit_eq_div unat_div_distrib)

lemma unat_low_digit: "unat (ucast (x :: ddigit) :: digit) = unat x mod 2 ^ 32"
  by (simp add: unsigned_ucast_eq take_bit_eq_mod)

lemma unat_mask_digit: "unat (ucast ((x :: ddigit) AND 0xFFFFFFFF) :: digit) = unat x mod 2 ^ 32"
proof -
  have "x AND 0xFFFFFFFF = take_bit 32 x"
    by (simp add: take_bit_eq_mask mask_eq_exp_minus_1)
  then show ?thesis
    by (simp add: unat_low_digit take_bit_eq_mod unat_mod_distrib)
qed

end
