(* ===== verification/Long_Int.thy ===== *)
theory Long_Int
  imports Alore_Prelude
begin

text \<open>
  Arbitrary precision integers (\<^verbatim>\<open>src/src/std_int_long.c\<close>): the heap block of a long
  integer, its normalisation and the digit loops of comparison, addition, subtraction,
  multiplication and the single-digit operations.  A block is kept at memory level: the
  payload cells include the padding cell of the block, so that a read behind the last
  digit, as \<^verbatim>\<open>ANormalize\<close> does, has the value the heap happens to hold.  Long integers have less than
  2^31 digits, so that a loop index that is a C \<^verbatim>\<open>int\<close> does not overflow.
\<close>

section \<open>Long integer blocks\<close>

record longint =
  li_len :: nat
  li_neg :: bool
  li_newGen :: bool
  li_cells :: "digit list"

text \<open>An Int value: a short integer (the tagged machine word) or a long integer block.\<close>

datatype aint = AShort avalue | ALong longint

abbreviation MASK :: ddigit where
  "MASK \<equiv> 0xFFFFFFFF"

text \<open>Block sizes in bytes (\<^verbatim>\<open>mem.h\<close>, \<^verbatim>\<open>int.h\<close>): 8-byte units, at least 16 bytes.\<close>

definition AGetBlockSize :: "nat \<Rightarrow> nat" where
  "AGetBlockSize sz = (if sz < 16 then 16 else (sz + 7) div 8 * 8)"

definition AGetLongIntSize :: "nat \<Rightarrow> nat" where
  "AGetLongIntSize numDigits = 8 + numDigits * 4"

definition capacity :: "nat \<Rightarrow> nat" where
  "capacity n = (AGetBlockSize (AGetLongIntSize n) - 8) div 4"

definition digits :: "longint \<Rightarrow> digit list" where
  "digits li = take (li_len li) (li_cells li)"

definition wf_li :: "longint \<Rightarrow> bool" where
  "wf_li li \<longleftrightarrow> length (li_cells li) = capacity (li_len li)"

definition put_digits :: "digit list \<Rightarrow> longint \<Rightarrow> longint" where
  "put_digits ds li = li\<lparr>li_cells := ds @ drop (length ds) (li_cells li)\<rparr>"

text \<open>A collection moves a live block to the old generation.\<close>

definition promote :: "bool \<Rightarrow> longint \<Rightarrow> longint" where
  "promote gc li = (if gc then li\<lparr>li_newGen := False\<rparr> else li)"

text \<open>\<^verbatim>\<open>header -= 4\<close>: sets a clear sign bit; a second application would drop a digit.\<close>

definition ASetLongIntSign :: "longint \<Rightarrow> longint" where
  "ASetLongIntSign li =
     (if li_neg li then li\<lparr>li_neg := False, li_len := li_len li - 1\<rparr>
      else li\<lparr>li_neg := True\<rparr>)"

text \<open>
  A new block of \<open>n\<close> digits with arbitrary contents, and whether the allocation ran a
  collection.
\<close>

definition CreateLongInt :: "nat \<Rightarrow> (bool \<times> longint) rt" where
  "CreateLongInt n =
     bindM next_alloc
       (\<lambda>(gc, junk). ret (gc,
          \<lparr>li_len = n, li_neg = False, li_newGen = True,
           li_cells = take (capacity n) (junk @ replicate (capacity n) 0)\<rparr>))"

definition AMakeLongInt :: "nat \<Rightarrow> bool \<Rightarrow> longint rt" where
  "AMakeLongInt n isNeg =
     bindM (CreateLongInt n) (\<lambda>(gc, li). ret (li\<lparr>li_neg := isNeg\<rparr>))"

text \<open>The \<^verbatim>\<open>do len--; while (len > 1 && digit[len - 1] == 0)\<close> loop.\<close>

fun trunc_len :: "digit list \<Rightarrow> nat \<Rightarrow> nat" where
  "trunc_len ds 0 = 0"
| "trunc_len ds (Suc n) = (if 1 < n \<and> ds ! (n - 1) = 0 then trunc_len ds n else n)"

definition TruncateZeroDigits :: "longint \<Rightarrow> bool \<Rightarrow> longint rt" where
  "TruncateZeroDigits li isNeg =
     (if li_len li = 0 then raise UndefinedBehaviour
      else if li_cells li ! (li_len li - 1) = 0 then
        let oldSize = AGetBlockSize (AGetLongIntSize (li_len li));
            n = trunc_len (li_cells li) (li_len li);
            newSize = AGetBlockSize (AGetLongIntSize n)
        in if \<not> li_newGen li \<and> newSize < oldSize \<and> oldSize - newSize < 16 then
             bindM (CreateLongInt n)
               (\<lambda>(gc, li2).
                  let li2 = put_digits (take n (li_cells li)) li2
                  in ret (if isNeg then ASetLongIntSign li2 else li2))
           else ret (li\<lparr>li_len := n, li_neg := isNeg,
                        li_cells := take (capacity n) (li_cells li)\<rparr>)
      else if isNeg then ret (ASetLongIntSign li)
      else ret li)"

text \<open>Tagging of short integers: two low zero bits (\<^verbatim>\<open>value.h\<close>).\<close>

definition AIntToValue :: "64 word \<Rightarrow> avalue" where
  "AIntToValue i = push_bit 2 i"

definition AValueToInt :: "avalue \<Rightarrow> 64 word" where
  "AValueToInt v = signed_drop_bit 2 v"

definition A_SHORT_INT_MAX :: "64 word" where
  "A_SHORT_INT_MAX = drop_bit 3 (- 1)"

definition A_SHORT_INT_MIN :: "64 word" where
  "A_SHORT_INT_MIN = - (drop_bit 3 (- 1)) - 1"

abbreviation SHORT_TOP :: digit where
  "SHORT_TOP \<equiv> ucast (drop_bit 32 (A_SHORT_INT_MAX + 1))"

text \<open>
  The reads of \<^verbatim>\<open>digit[0]\<close> and \<^verbatim>\<open>digit[1]\<close> go to the cells of the block, also where the
  block has fewer digits.
\<close>

definition ANormalize :: "longint \<Rightarrow> bool \<Rightarrow> aint rt" where
  "ANormalize li0 isNeg =
     bindM (TruncateZeroDigits li0 isNeg)
       (\<lambda>li. let d0 = li_cells li ! 0; d1 = li_cells li ! 1;
                 both = ucast d0 + push_bit 32 (ucast d1 :: ddigit)
             in if li_len li \<le> 2 then
                  (if isNeg then
                     (if d1 < SHORT_TOP \<or> (d0 = 0 \<and> d1 = SHORT_TOP)
                      then ret (AShort (AIntToValue (- both)))
                      else ret (ALong li))
                   else if li_len li = 1 then ret (AShort (AIntToValue (ucast d0)))
                   else if d1 < SHORT_TOP then ret (AShort (AIntToValue both))
                   else ret (ALong li))
                else ret (ALong li))"

definition ACreateLongIntFromIntND :: "64 word \<Rightarrow> aint rt" where
  "ACreateLongIntFromIntND intVal =
     (if intVal = push_bit 63 (- 1) then
        bindM (AMakeLongInt 2 True) (\<lambda>li. ret (ALong (put_digits [0, push_bit 31 1] li)))
      else
        let sign = sint intVal < 0;
            v = (if sign then - intVal else intVal);
            n = (if sint v > uint MASK then 2 else 1)
        in bindM (AMakeLongInt n sign)
             (\<lambda>li. ret (ALong (put_digits
                (if n > 1 then [ucast (v AND MASK), ucast (signed_drop_bit 32 v)]
                 else [ucast (v AND MASK)]) li))))"

section \<open>Digit loops\<close>

fun add_loop :: "ddigit \<Rightarrow> digit list \<Rightarrow> digit list \<Rightarrow> digit list" where
  "add_loop carry [] bs = [ucast carry]"
| "add_loop carry (a # as) [] =
     (let carry = carry + ucast a
      in ucast (carry AND MASK) # add_loop (drop_bit 32 carry) as [])"
| "add_loop carry (a # as) (b # bs) =
     (let carry = carry + (ucast a + ucast b)
      in ucast (carry AND MASK) # add_loop (drop_bit 32 carry) as bs)"

fun sub_loop :: "ddigit \<Rightarrow> digit list \<Rightarrow> digit list \<Rightarrow> digit list" where
  "sub_loop borrow [] bs = []"
| "sub_loop borrow (a # as) [] =
     (let borrow = ucast a - borrow
      in ucast (borrow AND MASK) # sub_loop (drop_bit 63 borrow) as [])"
| "sub_loop borrow (a # as) (b # bs) =
     (let borrow = ucast a - ucast b - borrow
      in ucast (borrow AND MASK) # sub_loop (drop_bit 63 borrow) as bs)"

text \<open>The most significant differing digit decides; the arguments are reversed lists.\<close>

fun below_top :: "digit list \<Rightarrow> digit list \<Rightarrow> bool" where
  "below_top (a # as) (b # bs) = (if a = b then below_top as bs else a < b)"
| "below_top _ _ = False"

fun cmp_loop :: "digit list \<Rightarrow> digit list \<Rightarrow> int" where
  "cmp_loop (a # as) (b # bs) = (if a \<noteq> b then uint a - uint b else cmp_loop as bs)"
| "cmp_loop _ _ = 0"

text \<open>Inner and outer loop of the schoolbook product; \<open>ds\<close> is the window of the result.\<close>

fun mul_row :: "ddigit \<Rightarrow> digit \<Rightarrow> digit list \<Rightarrow> digit list \<Rightarrow> digit list" where
  "mul_row carry a (b # bs) (d # ds) =
     (let carry = carry + (ucast d + ucast a * ucast b)
      in ucast (carry AND MASK) # mul_row (drop_bit 32 carry) a bs ds)"
| "mul_row carry a _ _ = [ucast carry]"

fun mul_loop :: "digit list \<Rightarrow> digit list \<Rightarrow> digit list \<Rightarrow> digit list" where
  "mul_loop [] bs ds = ds"
| "mul_loop (a # as) bs ds =
     (let row = mul_row 0 a bs ds in hd row # mul_loop as bs (tl row))"

fun add_single_loop :: "digit \<Rightarrow> digit list \<Rightarrow> digit list" where
  "add_single_loop carry [] = [carry]"
| "add_single_loop carry (a # as) =
     (let res = carry + a in if res \<ge> a then res # as @ [0] else res # add_single_loop 1 as)"

fun sub_single_loop :: "digit \<Rightarrow> digit list \<Rightarrow> digit list" where
  "sub_single_loop borrow [] = []"
| "sub_single_loop borrow (a # as) =
     (let res = a - borrow in if res \<le> a then res # as else res # sub_single_loop 1 as)"

text \<open>Short division runs from the most significant digit; both lists are reversed.\<close>

fun div_single_loop :: "ddigit \<Rightarrow> digit list \<Rightarrow> digit \<Rightarrow> digit list \<times> ddigit" where
  "div_single_loop rem [] b = ([], rem)"
| "div_single_loop rem (a # as) b =
     (let rem = push_bit 32 rem + ucast a;
          (qs, r) = div_single_loop (rem mod ucast b) as b
      in (ucast (rem div ucast b) # qs, r))"

fun mul_add_loop :: "ddigit \<Rightarrow> digit list \<Rightarrow> digit \<Rightarrow> digit list" where
  "mul_add_loop carry [] mul = [ucast carry]"
| "mul_add_loop carry (a # as) mul =
     (let carry = carry + ucast a * ucast mul
      in ucast (carry AND MASK) # mul_add_loop (drop_bit 32 carry) as mul)"

section \<open>Operations\<close>

definition ACompareLongInt :: "longint \<Rightarrow> longint \<Rightarrow> int" where
  "ACompareLongInt a b =
     (let signA = li_neg a;
          result = (if signA = li_neg b then
                      (if li_len a \<noteq> li_len b then int (li_len a) - int (li_len b)
                       else cmp_loop (rev (digits a)) (rev (digits b)))
                    else 1)
      in if signA then - result else result)"

definition AMultiplyLongInt :: "longint \<Rightarrow> longint \<Rightarrow> aint rt" where
  "AMultiplyLongInt a b =
     bindM (CreateLongInt (li_len a + li_len b))
       (\<lambda>(gc, d).
          let a = promote gc a; b = promote gc b;
              d = put_digits (mul_loop (digits a) (digits b) (replicate (li_len b) 0)) d
          in ANormalize d (li_neg a \<noteq> li_neg b))"

definition AddAbsolute :: "longint \<Rightarrow> longint \<Rightarrow> bool \<Rightarrow> aint rt" where
  "AddAbsolute a0 b0 isNorm =
     (let (a, b) = (if li_len a0 < li_len b0 then (b0, a0) else (a0, b0))
      in bindM (CreateLongInt (li_len a + 1))
           (\<lambda>(gc, d).
              let a = promote gc a; b = promote gc b;
                  d = put_digits (add_loop 0 (digits a) (digits b)) d
              in if isNorm then ANormalize d (li_neg a) else ret (ALong d)))"

definition SubAbsolute :: "longint \<Rightarrow> longint \<Rightarrow> bool \<Rightarrow> aint rt" where
  "SubAbsolute a0 b0 isNorm =
     (let sign = li_neg a0;
          (a, b, sign) =
            (if li_len a0 < li_len b0 then (b0, a0, \<not> sign)
             else if li_len a0 = li_len b0
                     \<and> below_top (rev (digits a0)) (rev (digits b0)) then (b0, a0, \<not> sign)
             else (a0, b0, sign))
      in bindM (CreateLongInt (li_len a))
           (\<lambda>(gc, d).
              let a = promote gc a; b = promote gc b;
                  d = put_digits (sub_loop 0 (digits a) (digits b)) d
              in if isNorm then ANormalize d sign else ret (ALong d)))"

definition AAddLongInt :: "longint \<Rightarrow> longint \<Rightarrow> aint rt" where
  "AAddLongInt a b =
     (if li_neg a = li_neg b then AddAbsolute a b True else SubAbsolute a b True)"

definition ASubLongInt :: "longint \<Rightarrow> longint \<Rightarrow> aint rt" where
  "ASubLongInt a b =
     (if li_neg a = li_neg b then SubAbsolute a b True else AddAbsolute a b True)"

definition ANegateLongInt :: "longint \<Rightarrow> aint rt" where
  "ANegateLongInt a =
     (if \<not> li_neg a \<and> li_cells a ! 0 = 0 \<and> li_cells a ! 1 = SHORT_TOP
      then ret (AShort (AIntToValue A_SHORT_INT_MIN))
      else bindM (CreateLongInt (li_len a))
             (\<lambda>(gc, d).
                let a = promote gc a; d = put_digits (digits a) d
                in ret (ALong (if \<not> li_neg a then ASetLongIntSign d else d))))"

definition AddAbsoluteSingle :: "longint \<Rightarrow> digit \<Rightarrow> aint rt" where
  "AddAbsoluteSingle a add =
     bindM (CreateLongInt (li_len a + 1))
       (\<lambda>(gc, d).
          let a = promote gc a; d = put_digits (add_single_loop add (digits a)) d
          in ANormalize d (li_neg a))"

definition SubAbsoluteSingle :: "longint \<Rightarrow> digit \<Rightarrow> bool \<Rightarrow> aint rt" where
  "SubAbsoluteSingle a sub isNorm =
     bindM (CreateLongInt (li_len a))
       (\<lambda>(gc, d).
          let a = promote gc a; d = put_digits (sub_single_loop sub (digits a)) d
          in if isNorm then ANormalize d (li_neg a) else ret (ALong d))"

definition AAddLongIntSingle :: "longint \<Rightarrow> digit \<Rightarrow> aint rt" where
  "AAddLongIntSingle a i =
     (if li_neg a then SubAbsoluteSingle a i True else AddAbsoluteSingle a i)"

definition ASubLongIntSingle :: "longint \<Rightarrow> digit \<Rightarrow> aint rt" where
  "ASubLongIntSingle a i =
     (if li_neg a then AddAbsoluteSingle a i else SubAbsoluteSingle a i True)"

definition ADivModSingle :: "longint \<Rightarrow> digit \<Rightarrow> (longint \<times> digit) rt" where
  "ADivModSingle a b =
     bindM (CreateLongInt (li_len a))
       (\<lambda>(gc, d).
          let a = promote gc a;
              (qs, rem) = div_single_loop 0 (rev (digits a)) b;
              d = put_digits (rev qs) d
          in bindM (TruncateZeroDigits d False) (\<lambda>d. ret (d, ucast rem)))"

definition AMulAddSingle :: "longint \<Rightarrow> digit \<Rightarrow> digit \<Rightarrow> longint rt" where
  "AMulAddSingle a mul add =
     bindM (CreateLongInt (li_len a + 1))
       (\<lambda>(gc, d).
          let a = promote gc a; d = put_digits (mul_add_loop (ucast add) (digits a) mul) d
          in TruncateZeroDigits d False)"

definition ALongIntHashValue :: "longint \<Rightarrow> avalue" where
  "ALongIntHashValue l =
     AIntToValue (foldl (\<lambda>h d. h + (h * 32 + ucast d)) 0 (digits l))"

end
