(* ===== verification/Int_Arith.thy ===== *)
theory Int_Arith
  imports Long_Int "HOL-Library.Signed_Division"
begin

text \<open>
  Int arithmetic on values that are short or long (\<^verbatim>\<open>src/src/std_int.c\<close>, the short integer
  parts of \<^verbatim>\<open>src/src/std_int_long.c\<close>, the overflow macros of \<^verbatim>\<open>src/src/int.h\<close> and the coercion
  of \<^verbatim>\<open>src/src/runtime.c\<close>).  Short integers are kept as tagged 64-bit words and all the
  arithmetic on them wraps.
\<close>

section \<open>Overflow tests\<close>

definition AIsAddOverflow :: "avalue \<Rightarrow> avalue \<Rightarrow> avalue \<Rightarrow> bool" where
  "AIsAddOverflow sm left right \<longleftrightarrow> sint (sm XOR left) < 0 \<and> sint (sm XOR right) < 0"

definition AIsSubOverflow :: "avalue \<Rightarrow> avalue \<Rightarrow> avalue \<Rightarrow> bool" where
  "AIsSubOverflow dif left right \<longleftrightarrow> sint (dif XOR left) < 0 \<and> sint (dif XOR right) \<ge> 0"

definition AHi :: "avalue \<Rightarrow> avalue" where
  "AHi val = drop_bit 33 val"

definition ALo :: "avalue \<Rightarrow> avalue" where
  "ALo val = val AND (push_bit 31 1 - 1)"

definition AIsIntTimesHalfIntOverflow :: "avalue \<Rightarrow> avalue \<Rightarrow> bool \<Rightarrow> bool" where
  "AIsIntTimesHalfIntOverflow full half isNeg \<longleftrightarrow>
     (AHi full * AValueToInt half \<ge> push_bit 30 1
        \<or> sint (AValueToInt full * AValueToInt half) \<ge> sint (push_bit 61 1 :: 64 word))
     \<and> (\<not> isNeg \<or> AHi full * AValueToInt half > push_bit 30 1 \<or> ALo full \<noteq> 0)"

section \<open>Coercion\<close>

text \<open>A short operand that meets a long one becomes a (not normalised) long integer.\<close>

fun ACoerce :: "aint \<Rightarrow> aint \<Rightarrow> (aint \<times> aint) rt" where
  "ACoerce (ALong l) (AShort r) =
     bindM (ACreateLongIntFromIntND (AValueToInt r)) (\<lambda>r. ret (ALong l, r))"
| "ACoerce (AShort l) (ALong r) =
     bindM (ACreateLongIntFromIntND (AValueToInt l)) (\<lambda>l. ret (l, ALong r))"
| "ACoerce l r = ret (l, r)"

text \<open>Operands of the same kind, the case the recursive call after the coercion is in.\<close>

fun AddSame :: "aint \<Rightarrow> aint \<Rightarrow> aint rt" where
  "AddSame (AShort a) (AShort b) =
     (let sm = a + b
      in if \<not> AIsAddOverflow sm a b then ret (AShort sm)
         else ACreateLongIntFromIntND (AValueToInt a + AValueToInt b))"
| "AddSame (ALong a) (ALong b) = AAddLongInt a b"
| "AddSame _ _ = raise UndefinedBehaviour"

fun AAddInts :: "aint \<Rightarrow> aint \<Rightarrow> aint rt" where
  "AAddInts (AShort a) (ALong b) = bindM (ACoerce (AShort a) (ALong b)) (\<lambda>(a, b). AddSame a b)"
| "AAddInts (ALong a) (AShort b) = bindM (ACoerce (ALong a) (AShort b)) (\<lambda>(a, b). AddSame a b)"
| "AAddInts a b = AddSame a b"

fun SubSame :: "aint \<Rightarrow> aint \<Rightarrow> aint rt" where
  "SubSame (AShort a) (AShort b) =
     (let dif = a - b
      in if \<not> AIsSubOverflow dif a b then ret (AShort dif)
         else ACreateLongIntFromIntND (AValueToInt a - AValueToInt b))"
| "SubSame (ALong a) (ALong b) = ASubLongInt a b"
| "SubSame _ _ = raise UndefinedBehaviour"

fun ASubInts :: "aint \<Rightarrow> aint \<Rightarrow> aint rt" where
  "ASubInts (AShort a) (ALong b) = bindM (ACoerce (AShort a) (ALong b)) (\<lambda>(a, b). SubSame a b)"
| "ASubInts (ALong a) (AShort b) = bindM (ACoerce (ALong a) (AShort b)) (\<lambda>(a, b). SubSame a b)"
| "ASubInts a b = SubSame a b"

section \<open>Multiplication of short integers\<close>

fun the_long :: "aint \<Rightarrow> (longint \<Rightarrow> 'a rt) \<Rightarrow> 'a rt" where
  "the_long (ALong li) f = f li"
| "the_long (AShort _) f = raise UndefinedBehaviour"

definition FullLongMul :: "bool \<Rightarrow> avalue \<Rightarrow> avalue \<Rightarrow> aint rt" where
  "FullLongMul isNeg left right =
     (let left = (if isNeg then - left else left)
      in bindM (ACreateLongIntFromIntND (AValueToInt left))
           (\<lambda>l. bindM (ACreateLongIntFromIntND (AValueToInt right))
              (\<lambda>r. the_long l (\<lambda>l. the_long r (\<lambda>r. AMultiplyLongInt l r)))))"

text \<open>
  A call that returns a null pointer when memory runs out, to code that takes the pointer for the
  block: the test of \<^verbatim>\<open>prod\<close> is for the error value, which a tagged null pointer is not.
\<close>

definition unnoticed :: "'a rt \<Rightarrow> 'a rt" where
  "unnoticed m t = (case m t of (Inl e, t') \<Rightarrow> (Inl UndefinedBehaviour, t') | (Inr x, t') \<Rightarrow> (Inr x, t'))"

definition ShortLongMul :: "bool \<Rightarrow> avalue \<Rightarrow> avalue \<Rightarrow> aint rt" where
  "ShortLongMul isNeg left right =
     bindM (ACreateLongIntFromIntND (AValueToInt left))
       (\<lambda>l. the_long l (\<lambda>l. bindM (unnoticed (AMulAddSingle l (ucast (AValueToInt right)) 0))
          (\<lambda>prod. ret (ALong (if isNeg then ASetLongIntSign prod else prod)))))"

text \<open>The tail of the general case: both operands are non-negative, \<open>isNeg\<close> is the sign.\<close>

definition MulMagnitudes :: "bool \<Rightarrow> avalue \<Rightarrow> avalue \<Rightarrow> aint rt" where
  "MulMagnitudes isNeg left0 right0 =
     (let (left, right) = (if right0 > left0 then (right0, left0) else (left0, right0))
      in if AHi right \<noteq> 0 then FullLongMul isNeg left right
         else if AIsIntTimesHalfIntOverflow left right isNeg then ShortLongMul isNeg left right
         else let prod = AValueToInt left * right
              in ret (AShort (if isNeg then - prod else prod)))"

definition MulRight :: "bool \<Rightarrow> avalue \<Rightarrow> avalue \<Rightarrow> aint rt" where
  "MulRight isNeg left right =
     (if sint right < 0 then
        (if sint (- right) < 0 then
           (if \<not> isNeg \<and> left \<le> AIntToValue 1
            then ret (AShort (left * AValueToInt (- right)))
            else FullLongMul isNeg left (- right))
         else MulMagnitudes (\<not> isNeg) left (- right))
      else MulMagnitudes isNeg left right)"

definition AMultiplyShortInt :: "avalue \<Rightarrow> avalue \<Rightarrow> aint rt" where
  "AMultiplyShortInt left right =
     (if AHi left \<noteq> 0 \<or> AHi right \<noteq> 0 then
        (if sint left < 0 then
           (if sint (- left) < 0 then
              (if right \<le> AIntToValue 1
               then ret (AShort (- left * AValueToInt right))
               else FullLongMul False (- left) right)
            else MulRight True (- left) right)
         else MulRight False left right)
      else
        let prod = AValueToInt left * right
        in if sint prod < 0 then ShortLongMul False left right else ret (AShort prod))"

section \<open>Division of short integers\<close>

text \<open>C division of signed 64-bit integers truncates towards zero.\<close>

definition cdiv :: "64 word \<Rightarrow> 64 word \<Rightarrow> 64 word" where
  "cdiv a b = of_int (sint a sdiv sint b)"

text \<open>The quotient and the remainder, both tagged.\<close>

definition AIntDivMod :: "avalue \<Rightarrow> avalue \<Rightarrow> (aint \<times> avalue) rt" where
  "AIntDivMod left right =
     (if right = 0 then raise ArithmeticError
      else if sint left < 0 \<and> sint right < 0
              \<and> left = AIntToValue A_SHORT_INT_MIN \<and> right = AIntToValue (- 1) then
        bindM (ACreateLongIntFromIntND (- A_SHORT_INT_MIN)) (\<lambda>q. ret (q, 0))
      else
        let quot = (if sint left < 0 then
                      (if sint right < 0
                       then AIntToValue (cdiv (- AValueToInt left) (- AValueToInt right))
                       else - AIntToValue (cdiv (- AValueToInt left) (AValueToInt right)))
                    else
                      (if sint right < 0 then - cdiv left (- AValueToInt right)
                       else cdiv left (AValueToInt right)));
            quot = quot AND NOT 3;
            md = left - quot * AValueToInt right
        in if (sint md < 0 \<and> sint right > 0) \<or> (sint md > 0 \<and> sint right < 0)
           then ret (AShort (quot - AIntToValue 1), md + right)
           else ret (AShort quot, md))"

section \<open>Conversion between C integers and Int values\<close>

definition AGetInt :: "aint \<Rightarrow> (32 word) rt" where
  "AGetInt val =
     (case val of
        AShort w \<Rightarrow>
          let v = AValueToInt w
          in if sint v > 0x7fffffff \<or> sint v < - 0x80000000
             then raise (ValueError ''Out of range'') else ret (ucast v)
      | ALong _ \<Rightarrow> raise (ValueError ''Out of range''))"

definition AGetIntU :: "aint \<Rightarrow> (32 word) rt" where
  "AGetIntU val =
     (case val of
        AShort w \<Rightarrow>
          let v = AValueToInt w
          in if sint v < 0 \<or> sint v > 0xffffffff
             then raise (ValueError ''Out of range'') else ret (ucast v)
      | ALong _ \<Rightarrow> raise (ValueError ''Out of range''))"

text \<open>\<^verbatim>\<open>i = (i << 32) + digit\<close>, from the most significant digit down.\<close>

fun join_digits :: "64 word \<Rightarrow> digit list \<Rightarrow> 64 word" where
  "join_digits i [] = i"
| "join_digits i (d # ds) = join_digits (push_bit 32 i + ucast d) ds"

definition AGetInt64 :: "aint \<Rightarrow> (64 word) rt" where
  "AGetInt64 val =
     (case val of
        AShort w \<Rightarrow> ret (AValueToInt w)
      | ALong li \<Rightarrow>
          if li_len li > 2 \<or> (li_len li = 2 \<and> digits li ! 1 > 0x80000000)
          then raise (ValueError ''Out of range'')
          else if li_len li = 2 \<and> digits li ! 1 = 0x80000000
                  \<and> (digits li ! 0 > 0 \<or> \<not> li_neg li)
          then raise (ValueError ''Out of range'')
          else let i = join_digits 0 (rev (digits li))
               in ret (if li_neg li then - i else i))"

definition AGetIntU64 :: "aint \<Rightarrow> (64 word) rt" where
  "AGetIntU64 val =
     (case val of
        AShort w \<Rightarrow> if sint w < 0 then raise (ValueError ''Negative value not expected'')
                    else ret (AValueToInt w)
      | ALong li \<Rightarrow>
          if li_neg li \<or> li_len li > 2 then raise (ValueError ''Out of range'')
          else ret (join_digits 0 (rev (digits li))))"

definition AMakeInt :: "32 word \<Rightarrow> aint" where
  "AMakeInt i = AShort (AIntToValue (scast i))"

definition AMakeIntU :: "32 word \<Rightarrow> aint" where
  "AMakeIntU i = AShort (AIntToValue (ucast i))"

definition AMakeInt64 :: "64 word \<Rightarrow> aint rt" where
  "AMakeInt64 i =
     (if sint i \<le> sint A_SHORT_INT_MAX \<and> sint i \<ge> sint A_SHORT_INT_MIN
      then ret (AShort (AIntToValue i))
      else bindM (AMakeLongInt 2 False)
             (\<lambda>v. let isneg = sint i < 0; ui = (if isneg then - i else i)
                  in ANormalize (put_digits [ucast (ui AND MASK), ucast (signed_drop_bit 32 ui)] v)
                       isneg))"

definition AMakeIntU64 :: "64 word \<Rightarrow> aint rt" where
  "AMakeIntU64 i =
     (if i \<le> A_SHORT_INT_MAX then ret (AShort (AIntToValue i))
      else bindM (AMakeLongInt 2 False)
             (\<lambda>v. ANormalize (put_digits [ucast (i AND MASK), ucast (drop_bit 32 i)] v) False))"

end
