(* ===== verification/Long_Int_Lemmas.thy ===== *)
theory Long_Int_Lemmas
  imports Long_Int
begin

text \<open>
  Facts about long integer blocks and the digit loops: what a block denotes, the contract
  of allocation, truncation and normalisation, and the value computed by each loop.
\<close>

section \<open>What a value denotes\<close>

definition li_value :: "longint \<Rightarrow> int" where
  "li_value li = (if li_neg li then - int (digs_val (digits li)) else int (digs_val (digits li)))"

fun int_value :: "aint \<Rightarrow> int" where
  "int_value (AShort w) = sint w div 4"
| "int_value (ALong li) = li_value li"

text \<open>
  The invariant of Int values that user code may see: a short integer has clear tag bits;
  a long integer has no leading zero digit and is outside the short range.
\<close>

definition fits_short :: "int \<Rightarrow> bool" where
  "fits_short i \<longleftrightarrow> - (2 ^ 61) \<le> i \<and> i < 2 ^ 61"

fun norm_int :: "aint \<Rightarrow> bool" where
  "norm_int (AShort w) \<longleftrightarrow> w AND 3 = 0"
| "norm_int (ALong li) \<longleftrightarrow>
     wf_li li \<and> 2 \<le> li_len li \<and> last (digits li) \<noteq> 0 \<and> \<not> fits_short (li_value li)"

definition fresh :: "nat \<Rightarrow> longint \<Rightarrow> bool" where
  "fresh n d \<longleftrightarrow> li_len d = n \<and> \<not> li_neg d \<and> li_newGen d \<and> wf_li d"

section \<open>Blocks\<close>

lemma capacity_eq: "capacity n = (if n \<le> 2 then 2 else 2 * ((n + 1) div 2))"
proof (cases "n \<le> 2")
  case True
  then have "n = 0 \<or> n = 1 \<or> n = 2" by linarith
  then show ?thesis by (auto simp: capacity_def AGetBlockSize_def AGetLongIntSize_def)
next
  case False
  have "(8 + n * 4 + 7) div 8 = 1 + (n + 1) div 2" by linarith
  with False show ?thesis
    by (simp add: capacity_def AGetBlockSize_def AGetLongIntSize_def)
qed

lemma capacity_ge [simp]: "n \<le> capacity n" "2 \<le> capacity n" "0 < capacity n" "Suc 0 < capacity n"
  by (auto simp: capacity_eq)

lemma wf_li_len: "wf_li li \<Longrightarrow> li_len li \<le> length (li_cells li)"
  by (simp add: wf_li_def)

lemma length_digits [simp]: "wf_li li \<Longrightarrow> length (digits li) = li_len li"
  by (simp add: digits_def wf_li_len min_absorb2)

lemma promote_simps [simp]:
  "li_len (promote gc li) = li_len li" "li_neg (promote gc li) = li_neg li"
  "li_cells (promote gc li) = li_cells li" "digits (promote gc li) = digits li"
  "li_value (promote gc li) = li_value li" "wf_li (promote gc li) = wf_li li"
  by (simp_all add: promote_def digits_def li_value_def wf_li_def)

lemma promote_False [simp]: "promote False li = li"
  by (simp add: promote_def)

lemma fresh_put_digits:
  assumes "fresh n d" and "length ds = n"
  shows "digits (put_digits ds d) = ds" and "fresh n (put_digits ds d)"
  using assms wf_li_len [of d] by (auto simp: fresh_def digits_def put_digits_def wf_li_def)

lemma digits_neg_update [simp]: "digits (li\<lparr>li_neg := s\<rparr>) = digits li"
  by (simp add: digits_def)

lemma wf_neg_update [simp]: "wf_li (li\<lparr>li_neg := s\<rparr>) = wf_li li"
  by (simp add: wf_li_def)

lemma digits_cells: "i < li_len li \<Longrightarrow> digits li ! i = li_cells li ! i"
  by (simp add: digits_def)

lemma meets_CreateLongInt:
  "meets Q (CreateLongInt n) (\<lambda>(gc, d). fresh n d \<and> (Q = no_gc \<longrightarrow> \<not> gc))"
  unfolding CreateLongInt_def
  by (rule meets_bind [OF meets_next_alloc])
    (auto intro!: meets_ret simp: fresh_def wf_li_def no_gc_def)

lemma meets_AMakeLongInt:
  "meets Q (AMakeLongInt n s) (\<lambda>d. fresh n (d\<lparr>li_neg := False\<rparr>) \<and> li_neg d = s)"
  unfolding AMakeLongInt_def
  by (rule meets_bind [OF meets_CreateLongInt])
    (auto intro!: meets_ret simp: fresh_def)

section \<open>Truncation\<close>

lemma trunc_len_le: "trunc_len ds (Suc n) \<le> n"
  by (induction n) (auto split: if_splits)

lemma trunc_len_pos: "1 \<le> n \<Longrightarrow> 1 \<le> trunc_len ds (Suc n)"
  by (induction n) (auto split: if_splits)

lemma trunc_len_top: "1 < trunc_len ds (Suc n) \<Longrightarrow> ds ! (trunc_len ds (Suc n) - 1) \<noteq> 0"
  by (induction n) (auto split: if_splits)

lemma digs_val_take_Suc_0:
  "n < length ds \<Longrightarrow> ds ! n = 0 \<Longrightarrow> digs_val (take (Suc n) ds) = digs_val (take n ds)"
  by (simp add: take_Suc_conv_app_nth digs_val_snoc_0)

lemma trunc_len_val:
  "n < length ds \<Longrightarrow> ds ! n = 0 \<Longrightarrow>
   digs_val (take (trunc_len ds (Suc n)) ds) = digs_val (take (Suc n) ds)"
proof (induction n)
  case (Suc n)
  have top: "digs_val (take (Suc (Suc n)) ds) = digs_val (take (Suc n) ds)"
    using Suc.prems by (rule digs_val_take_Suc_0)
  show ?case
  proof (cases "1 < Suc n \<and> ds ! n = 0")
    case True
    with Suc.prems have "digs_val (take (trunc_len ds (Suc n)) ds) = digs_val (take (Suc n) ds)"
      by (intro Suc.IH) auto
    with True top show ?thesis by simp
  next
    case False
    then have "trunc_len ds (Suc (Suc n)) = Suc n" by auto
    with top show ?thesis by simp
  qed
qed (simp add: digs_val_take_Suc_0)

lemma trunc_len_zero:
  "n < length ds \<Longrightarrow> ds ! n = 0 \<Longrightarrow> trunc_len ds (Suc n) \<le> i \<Longrightarrow> i \<le> n \<Longrightarrow> ds ! i = 0"
proof (induction n arbitrary: i)
  case (Suc n)
  show ?case
  proof (cases "i = Suc n")
    case False
    with Suc.prems have "i \<le> n" by simp
    show ?thesis
    proof (cases "1 < Suc n \<and> ds ! n = 0")
      case True
      with Suc.prems \<open>i \<le> n\<close> show ?thesis by (auto intro: Suc.IH [of i])
    next
      case False
      then have "trunc_len ds (Suc (Suc n)) = Suc n" by auto
      with Suc.prems \<open>i \<le> n\<close> show ?thesis by simp
    qed
  qed (use Suc.prems in simp)
qed simp

declare trunc_len.simps [simp del]

lemma set_sign: "\<not> li_neg p \<Longrightarrow> (if s then ASetLongIntSign p else p) = p\<lparr>li_neg := s\<rparr>"
  by (simp add: ASetLongIntSign_def)

text \<open>
  What truncation returns: the same magnitude without leading zero digits, and, when the
  block was truncated in place, a zero padding cell behind a single remaining digit.
\<close>

definition truncated :: "longint \<Rightarrow> bool \<Rightarrow> longint \<Rightarrow> bool" where
  "truncated li isNeg r \<longleftrightarrow>
     wf_li r \<and> li_neg r = isNeg \<and> digs_val (digits r) = digs_val (digits li) \<and>
     (1 < li_len r \<longrightarrow> last (digits r) \<noteq> 0) \<and>
     (2 \<le> li_len li \<longrightarrow> 1 \<le> li_len r) \<and> li_len r \<le> li_len li \<and>
     (2 \<le> li_len li \<and> li_newGen li \<and> li_len r = 1 \<longrightarrow> li_cells r ! 1 = 0)"

lemma capacity_mono: "m \<le> n \<Longrightarrow> capacity m \<le> capacity n"
  unfolding capacity_eq by (auto intro: div_le_mono)

lemma truncated_in_place:
  assumes wf: "wf_li li" and len: "li_len li = Suc n" and z: "li_cells li ! n = 0"
    and m: "m = trunc_len (li_cells li) (Suc n)"
  shows "truncated li isNeg (li\<lparr>li_len := m, li_neg := isNeg,
           li_cells := take (capacity m) (li_cells li)\<rparr>)"
proof -
  let ?r = "li\<lparr>li_len := m, li_neg := isNeg, li_cells := take (capacity m) (li_cells li)\<rparr>"
  have lt: "n < length (li_cells li)" using wf_li_len [OF wf] len by simp
  have mn: "m \<le> n" unfolding m by (rule trunc_len_le)
  have cap: "capacity m \<le> length (li_cells li)"
    using wf len mn capacity_mono [of m "Suc n"] by (simp add: wf_li_def)
  have dr: "digits ?r = take m (li_cells li)"
    by (simp add: digits_def min_absorb1)
  have "digs_val (digits ?r) = digs_val (digits li)"
    unfolding dr m using lt z len by (simp add: trunc_len_val digits_def)
  moreover have "1 < m \<longrightarrow> last (digits ?r) \<noteq> 0"
    unfolding dr using trunc_len_top [of "li_cells li" n] lt mn m
    by (auto simp: last_take_nth)
  moreover have "2 \<le> li_len li \<longrightarrow> 1 \<le> m"
    unfolding m using len trunc_len_pos by simp
  moreover have "2 \<le> li_len li \<and> m = 1 \<longrightarrow> li_cells ?r ! 1 = 0"
    using trunc_len_zero [OF lt z, of 1] len m by simp
  ultimately show ?thesis using cap mn len by (simp add: truncated_def wf_li_def)
qed

lemma truncated_copy:
  assumes wf: "wf_li li" and len: "li_len li = Suc n" and z: "li_cells li ! n = 0"
    and m: "m = trunc_len (li_cells li) (Suc n)" and old: "\<not> li_newGen li" and d: "fresh m d"
  shows "truncated li isNeg (put_digits (take m (li_cells li)) d\<lparr>li_neg := isNeg\<rparr>)"
proof -
  have t: "truncated li isNeg (li\<lparr>li_len := m, li_neg := isNeg,
           li_cells := take (capacity m) (li_cells li)\<rparr>)" (is "truncated li isNeg ?r")
    using wf len z m by (rule truncated_in_place)
  have lt: "n < length (li_cells li)" using wf_li_len [OF wf] len by simp
  have "m \<le> n" unfolding m by (rule trunc_len_le)
  with lt have l: "length (take m (li_cells li)) = m" by simp
  note f = fresh_put_digits [OF d l]
  have "digits ?r = take m (li_cells li)" by (simp add: digits_def min_absorb1)
  with t f old show ?thesis by (simp add: truncated_def fresh_def)
qed

lemma meets_TruncateZeroDigits:
  assumes wf: "wf_li li" and len: "1 \<le> li_len li" and neg: "\<not> li_neg li"
  shows "meets Q (TruncateZeroDigits li isNeg) (truncated li isNeg)"
proof -
  obtain n where n: "li_len li = Suc n" using len by (cases "li_len li") auto
  let ?m = "trunc_len (li_cells li) (Suc n)"
  show ?thesis
  proof (cases "li_cells li ! n = 0")
    case True
    note ip = truncated_in_place [OF wf n True refl, of isNeg]
    have copy: "meets Q (bindM (CreateLongInt ?m)
               (\<lambda>(gc, li2). let li2 = put_digits (take ?m (li_cells li)) li2
                  in ret (if isNeg then ASetLongIntSign li2 else li2))) (truncated li isNeg)"
      if "\<not> li_newGen li"
    proof (rule meets_bind [OF meets_CreateLongInt])
      fix x assume "case x of (gc, d) \<Rightarrow> fresh ?m d \<and> (Q = no_gc \<longrightarrow> \<not> gc)"
      then obtain gc d where x: "x = (gc, d)" and d: "fresh ?m d" by auto
      have "\<not> li_neg (put_digits (take ?m (li_cells li)) d)"
        using d by (simp add: fresh_def put_digits_def)
      with truncated_copy [OF wf n True refl that d, of isNeg]
      show "meets Q (case x of (gc, li2) \<Rightarrow> let li2 = put_digits (take ?m (li_cells li)) li2
                  in ret (if isNeg then ASetLongIntSign li2 else li2)) (truncated li isNeg)"
        unfolding x by (auto simp: Let_def set_sign intro!: meets_ret)
    qed
    show ?thesis
      using True ip copy n
      by (auto simp: TruncateZeroDigits_def Let_def intro!: meets_ret)
  next
    case False
    have lt: "n < length (li_cells li)" using wf_li_len [OF wf] n by simp
    have l: "last (digits li) \<noteq> 0"
      using False n lt by (simp add: digits_def last_conv_nth take_Suc_conv_app_nth)
    have "truncated li isNeg (li\<lparr>li_neg := isNeg\<rparr>)"
      using wf n l by (auto simp: truncated_def)
    moreover have "TruncateZeroDigits li isNeg = ret (li\<lparr>li_neg := isNeg\<rparr>)"
      using False n set_sign [OF neg, of isNeg]
      by (auto simp: TruncateZeroDigits_def split: if_splits)
    ultimately show ?thesis by (auto intro: meets_ret)
  qed
qed

section \<open>Short integers\<close>

lemma SHORT_TOP_eq: "SHORT_TOP = 0x20000000"
  by (simp add: A_SHORT_INT_MAX_def mask_eq_exp_minus_1)

lemma A_SHORT_INT_MIN_eq: "A_SHORT_INT_MIN = - 0x2000000000000000"
  by (simp add: A_SHORT_INT_MIN_def mask_eq_exp_minus_1)

lemma A_SHORT_INT_MAX_eq: "A_SHORT_INT_MAX = 0x1FFFFFFFFFFFFFFF"
  by (simp add: A_SHORT_INT_MAX_def mask_eq_exp_minus_1)

lemma sint_of_int_64:
  "- 9223372036854775808 \<le> i \<Longrightarrow> i < 9223372036854775808 \<Longrightarrow> sint (of_int i :: 64 word) = i"
  by (simp add: signed_of_int signed_take_bit_int_eq_self)

lemma AIntToValue_tag [simp]: "AIntToValue i AND 3 = 0"
proof -
  have "AIntToValue i AND 3 = take_bit 2 (push_bit 2 i)"
    by (simp add: AIntToValue_def take_bit_eq_mask mask_eq_exp_minus_1)
  then show ?thesis by (simp add: take_bit_push_bit)
qed

lemma AIntToValue_of_int: "AIntToValue (of_int i) = of_int (4 * i)"
  by (simp add: AIntToValue_def push_bit_eq_mult)

lemma short_of_int:
  assumes "fits_short i"
  shows "int_value (AShort (AIntToValue (of_int i))) = i"
proof -
  have "sint (of_int (4 * i) :: 64 word) = 4 * i"
    using assms by (intro sint_of_int_64) (simp_all add: fits_short_def)
  then show ?thesis by (simp add: AIntToValue_of_int)
qed

section \<open>Normalisation\<close>

lemma both_eq:
  "ucast (d0 :: digit) + push_bit 32 (ucast (d1 :: digit) :: ddigit) = of_nat (digs_val [d0, d1])"
  by (simp add: push_bit_eq_mult)

lemma digs_val_2: "length ds = 2 \<Longrightarrow> digs_val ds = digs_val [ds ! 0, ds ! 1]"
  by (cases ds rule: digs_val.cases; cases "tl ds") (auto simp: numeral_2_eq_2 length_Suc_conv)

lemma digs_val_top: "ds \<noteq> [] \<Longrightarrow> last ds \<noteq> 0 \<Longrightarrow> 2 ^ (32 * (length ds - 1)) \<le> digs_val ds"
proof (induction ds rule: rev_induct)
  case (snoc d ds)
  have "1 \<le> unat d" using snoc.prems by (simp add: unat_gt_0 Suc_le_eq)
  then have "2 ^ (32 * length ds) * 1 \<le> 2 ^ (32 * length ds) * unat d" by (rule mult_le_mono2)
  also have "\<dots> \<le> digs_val (ds @ [d])" by (simp add: digs_val_append)
  finally show ?case by simp
qed simp

text \<open>The contract of normalisation: a normalised value of the right sign and magnitude.\<close>

definition with_sign :: "bool \<Rightarrow> nat \<Rightarrow> int" where
  "with_sign s n = (if s then - int n else int n)"

lemma li_value_with_sign: "li_value li = with_sign (li_neg li) (digs_val (digits li))"
  by (simp add: li_value_def with_sign_def)

lemma norm_long:
  assumes "wf_li r" and "2 \<le> li_len r" and "last (digits r) \<noteq> 0"
    and big: "li_len r = 2 \<Longrightarrow> \<not> fits_short (li_value r)"
  shows "norm_int (ALong r)"
proof (cases "li_len r = 2")
  case False
  with assms have l: "3 \<le> length (digits r)" by simp
  then have "digits r \<noteq> []" by auto
  then have "2 ^ (32 * (length (digits r) - 1)) \<le> digs_val (digits r)"
    using assms by (intro digs_val_top)
  moreover have "(2::nat) ^ 64 \<le> 2 ^ (32 * (length (digits r) - 1))"
    using l by (intro power_increasing) auto
  ultimately have "2 ^ 64 \<le> digs_val (digits r)" by linarith
  then have "\<not> fits_short (li_value r)" by (auto simp: fits_short_def li_value_def)
  with assms show ?thesis by simp
qed (use assms in simp)

lemma meets_ANormalize:
  assumes wf: "wf_li li" and len: "2 \<le> li_len li" and neg: "\<not> li_neg li"
    and gen: "li_newGen li \<or> \<not> isNeg"
  shows "meets Q (ANormalize li isNeg)
           (\<lambda>v. norm_int v \<and> int_value v = with_sign isNeg (digs_val (digits li)))"
  unfolding ANormalize_def
proof (rule meets_bind [OF meets_TruncateZeroDigits [OF wf _ neg]])
  show "1 \<le> li_len li" using len by simp
next
  fix r assume r: "truncated li isNeg r"
  let ?d0 = "li_cells r ! 0" and ?d1 = "li_cells r ! 1"
  let ?n = "digs_val (digits li)"
  have wfr: "wf_li r" and r1: "1 \<le> li_len r" and val: "digs_val (digits r) = ?n"
    and rneg: "li_neg r = isNeg"
    using r len by (auto simp: truncated_def)
  have c2: "2 \<le> length (li_cells r)" using wfr by (simp add: wf_li_def)
  have one: "digits r = [?d0]" if "li_len r = 1"
    using that c2 by (cases "li_cells r") (auto simp: digits_def)
  have two: "digits r = [?d0, ?d1]" if "li_len r = 2"
    using that c2 by (cases "li_cells r"; cases "tl (li_cells r)") (auto simp: digits_def)
  have pad: "?d1 = 0" if "li_len r = 1" "isNeg"
    using r len gen that by (auto simp: truncated_def)
  have both: "?n = digs_val [?d0, ?d1]" if "li_len r \<le> 2" "isNeg \<or> li_len r \<noteq> 1"
    using that r1 one two pad val by (cases "li_len r = 1") (auto simp: le_Suc_eq numeral_2_eq_2)
  have long: "norm_int (ALong r)" if "li_len r = 2 \<Longrightarrow> \<not> fits_short (li_value r)" "li_len r \<noteq> 1"
    using r that wfr r1 by (intro norm_long) (auto simp: truncated_def)
  have lv: "li_value r = with_sign isNeg ?n" by (simp add: li_value_with_sign rneg val)
  have b0: "unat ?d0 < 4294967296" by (rule unat_digit_lt)
  have top: "?d1 < SHORT_TOP \<longleftrightarrow> unat ?d1 < 2 ^ 29" "?d1 = SHORT_TOP \<longleftrightarrow> unat ?d1 = 2 ^ 29"
    "?d0 = 0 \<longleftrightarrow> unat ?d0 = 0"
    by (simp_all add: SHORT_TOP_eq word_less_nat_alt word_unat_eq_iff)
  have F1: "int_value (AShort (AIntToValue (- (ucast ?d0 + push_bit 32 (ucast ?d1))))) = - int ?n"
    if "isNeg" "li_len r \<le> 2" "?d1 < SHORT_TOP \<or> (?d0 = 0 \<and> ?d1 = SHORT_TOP)"
  proof -
    have "?n \<le> 2 ^ 61" using both that top b0 by auto
    then have "fits_short (- int ?n)" by (simp add: fits_short_def)
    from short_of_int [OF this] both that show ?thesis by (simp add: both_eq)
  qed
  have F2: "int_value (AShort (AIntToValue (ucast ?d0))) = int ?n" if "li_len r = 1"
  proof -
    have n: "?n = unat ?d0" using one [OF that] val by simp
    then have "?n < 2 ^ 61" using b0 by simp
    then have "fits_short (int ?n)" by (simp add: fits_short_def)
    from short_of_int [OF this] n show ?thesis by simp
  qed
  have F3: "int_value (AShort (AIntToValue (ucast ?d0 + push_bit 32 (ucast ?d1)))) = int ?n"
    if "li_len r \<le> 2" "li_len r \<noteq> 1" "?d1 < SHORT_TOP"
  proof -
    have "?n < 2 ^ 61" using both that top b0 by auto
    then have "fits_short (int ?n)" by (simp add: fits_short_def)
    from short_of_int [OF this] both that show ?thesis by (simp add: both_eq)
  qed
  have F4: "norm_int (ALong r)"
    if cond: "li_len r \<le> 2 \<Longrightarrow> (if isNeg then \<not> (?d1 < SHORT_TOP \<or> (?d0 = 0 \<and> ?d1 = SHORT_TOP))
                                else li_len r \<noteq> 1 \<and> \<not> ?d1 < SHORT_TOP)"
  proof (rule long)
    show "li_len r \<noteq> 1" using cond pad by (cases isNeg) (auto simp: SHORT_TOP_eq)
    show "\<not> fits_short (li_value r)" if l: "li_len r = 2"
    proof -
      have "if isNeg then 2 ^ 61 < ?n else 2 ^ 61 \<le> ?n"
        using cond l both top by (auto split: if_splits)
      then show ?thesis by (simp add: lv fits_short_def with_sign_def split: if_splits)
    qed
  qed
  show "meets Q (let d0 = ?d0; d1 = ?d1; both = ucast d0 + push_bit 32 (ucast d1 :: ddigit)
       in if li_len r \<le> 2 then
            (if isNeg then
               (if d1 < SHORT_TOP \<or> (d0 = 0 \<and> d1 = SHORT_TOP)
                then ret (AShort (AIntToValue (- both))) else ret (ALong r))
             else if li_len r = 1 then ret (AShort (AIntToValue (ucast d0)))
             else if d1 < SHORT_TOP then ret (AShort (AIntToValue both))
             else ret (ALong r))
          else ret (ALong r))
       (\<lambda>v. norm_int v \<and> int_value v = with_sign isNeg ?n)"
    unfolding Let_def using F1 F2 F3 F4 lv
    by (simp add: with_sign_def del: int_value.simps(1) split: if_splits)
      (auto intro!: meets_ret simp del: int_value.simps(1))
qed

section \<open>The digit loops\<close>

text \<open>One step of a carry chain: the low half is stored, the high half carried.\<close>

lemma carry_step:
  "unat (ucast ((c :: ddigit) AND MASK) :: digit) + 2 ^ 32 * unat (drop_bit 32 c) = unat c"
  by (simp add: unat_mask_digit unat_drop_32)

lemma unat_sum_64: "unat a + unat b < 2 ^ 64 \<Longrightarrow> unat (a + b :: ddigit) = unat a + unat b"
  by (simp add: unat_word_ariths)

lemma unat_prod_64: "unat a * unat b < 2 ^ 64 \<Longrightarrow> unat (a * b :: ddigit) = unat a * unat b"
  by (simp add: unat_word_ariths)

lemma ucast_small: "unat (c :: ddigit) < 2 ^ 32 \<Longrightarrow> unat (ucast c :: digit) = unat c"
  by (simp add: unat_low_digit)

lemma length_add_loop [simp]: "length (add_loop c as bs) = Suc (length as)"
  by (induction c as bs rule: add_loop.induct) (auto simp: Let_def)

lemma add_loop_val:
  "length bs \<le> length as \<Longrightarrow> unat c \<le> 1 \<Longrightarrow>
   digs_val (add_loop c as bs) = unat c + digs_val as + digs_val bs"
proof (induction c as bs rule: add_loop.induct)
  case (1 c bs)
  then show ?case by (simp add: ucast_small)
next
  case (2 c a as)
  let ?c = "c + ucast a"
  have u: "unat ?c = unat c + unat a"
    using "2.prems" unat_digit_lt [of a] by (subst unat_sum_64) auto
  have "unat (drop_bit 32 ?c) \<le> 1"
    using u "2.prems" unat_digit_lt [of a] by (simp add: unat_drop_32)
  then have "digs_val (add_loop (drop_bit 32 ?c) as []) = unat (drop_bit 32 ?c) + digs_val as"
    using "2.IH" by simp
  with carry_step [of ?c] u show ?case by (simp add: Let_def algebra_simps)
next
  case (3 c a as b bs)
  let ?c = "c + (ucast a + ucast b)"
  have "unat (ucast a + ucast b :: ddigit) = unat a + unat b"
    using unat_digit_lt [of a] unat_digit_lt [of b] by (subst unat_sum_64) auto
  then have u: "unat ?c = unat c + (unat a + unat b)"
    using "3.prems" unat_digit_lt [of a] unat_digit_lt [of b] by (subst unat_sum_64) auto
  have "unat (drop_bit 32 ?c) \<le> 1"
    using u "3.prems" unat_digit_lt [of a] unat_digit_lt [of b] by (simp add: unat_drop_32)
  then have "digs_val (add_loop (drop_bit 32 ?c) as bs)
      = unat (drop_bit 32 ?c) + digs_val as + digs_val bs"
    using "3.IH" "3.prems" by simp
  with carry_step [of ?c] u show ?case by (simp add: Let_def algebra_simps)
qed

text \<open>A borrow step: the wrapped difference, its low half and its top bit.\<close>

lemma borrow_step:
  assumes w: "unat (w :: ddigit) = n" "n \<le> 1" and y: "y \<le> 4294967295"
    and x: "x < 4294967296" and d: "(d :: ddigit) = of_nat x - of_nat y - w"
  shows "int (unat (ucast (d AND MASK) :: digit)) + int y + int n
           = int x + 2 ^ 32 * int (unat (drop_bit 63 d))"
    and "unat (drop_bit 63 d) \<le> 1"
proof -
  let ?i = "int x - int y - int n"
  have "w = of_nat n" unfolding w(1) [symmetric] by simp
  with d have "d = of_int ?i" by simp
  then have "uint d = ?i mod 2 ^ 64" by (simp only: uint_of_int_64)
  then have ud: "int (unat d) = ?i mod 2 ^ 64" by simp
  have bnd: "- (2 ^ 32) \<le> ?i" "?i < 2 ^ 32" using w y x by simp_all
  have lo: "int (unat (ucast (d AND MASK) :: digit)) = ?i mod 2 ^ 32"
    using ud by (simp add: unat_mask_digit zmod_int mod_mod_cancel)
  have hi: "unat (drop_bit 63 d) = unat d div 2 ^ 63"
    by (simp add: drop_bit_eq_div unat_div_distrib)
  show "unat (drop_bit 63 d) \<le> 1" using unat_ddigit_lt [of d] by (simp add: hi)
  show "int (unat (ucast (d AND MASK) :: digit)) + int y + int n
           = int x + 2 ^ 32 * int (unat (drop_bit 63 d))"
  proof (cases "0 \<le> ?i")
    case True
    with bnd ud have "int (unat d) = ?i" by simp
    with bnd hi have "unat (drop_bit 63 d) = 0" by simp
    moreover have "?i mod 2 ^ 32 = ?i" using True bnd by simp
    ultimately show ?thesis using lo by simp
  next
    case False
    then have "?i mod 2 ^ 64 = ?i + 2 ^ 64"
      using bnd mod_pos_pos_trivial [of "?i + 2 ^ 64" "2 ^ 64"] by simp
    with ud have "int (unat d) = ?i + 2 ^ 64" by simp
    with bnd have "9223372036854775808 \<le> int (unat d)" by simp
    then have "9223372036854775808 \<le> unat d" by linarith
    with hi unat_ddigit_lt [of d] have "unat (drop_bit 63 d) = 1" by simp
    moreover have "?i mod 2 ^ 32 = ?i + 2 ^ 32"
      using False bnd mod_pos_pos_trivial [of "?i + 2 ^ 32" "2 ^ 32"] by simp
    ultimately show ?thesis using lo by simp
  qed
qed

lemma length_sub_loop [simp]: "length (sub_loop w as bs) = length as"
  by (induction w as bs rule: sub_loop.induct) (auto simp: Let_def)

lemma sub_loop_aux:
  "length bs \<le> length as \<Longrightarrow> unat w \<le> 1 \<Longrightarrow>
   \<exists>k. int (digs_val (sub_loop w as bs)) + int (digs_val bs) + int (unat w)
         = int (digs_val as) + k * 2 ^ (32 * length as)"
proof (induction w as bs rule: sub_loop.induct)
  case (1 w bs)
  then show ?case by (auto intro: exI [of _ "int (unat w)"])
next
  case (2 w a as)
  let ?d = "ucast a - w :: ddigit"
  note st = borrow_step [of w "unat w" 0 "unat a" ?d, OF refl _ _ unat_digit_lt]
  have s1: "int (unat (ucast (?d AND MASK) :: digit)) + int (unat w)
           = int (unat a) + 2 ^ 32 * int (unat (drop_bit 63 ?d))"
    and s2: "unat (drop_bit 63 ?d) \<le> 1"
    using st "2.prems" by simp_all
  from "2.IH" [OF refl] s2 obtain k where
    "int (digs_val (sub_loop (drop_bit 63 ?d) as [])) + int (unat (drop_bit 63 ?d))
       = int (digs_val as) + k * 2 ^ (32 * length as)" by auto
  with s1 show ?case by (intro exI [of _ k]) (simp add: Let_def algebra_simps power_add)
next
  case (3 w a as b bs)
  let ?d = "ucast a - ucast b - w :: ddigit"
  note st = borrow_step [of w "unat w" "unat b" "unat a" ?d, OF refl _ _ unat_digit_lt]
  have s1: "int (unat (ucast (?d AND MASK) :: digit)) + int (unat b) + int (unat w)
           = int (unat a) + 2 ^ 32 * int (unat (drop_bit 63 ?d))"
    and s2: "unat (drop_bit 63 ?d) \<le> 1"
    using st "3.prems" unat_digit_lt [of b] by simp_all
  from "3.IH" [OF refl] s2 "3.prems" obtain k where
    "int (digs_val (sub_loop (drop_bit 63 ?d) as bs)) + int (digs_val bs)
       + int (unat (drop_bit 63 ?d)) = int (digs_val as) + k * 2 ^ (32 * length as)" by auto
  with s1 show ?case by (intro exI [of _ k]) (simp add: Let_def algebra_simps power_add)
qed

lemma sub_loop_val:
  assumes "length bs \<le> length as" and "digs_val bs \<le> digs_val as"
  shows "digs_val (sub_loop 0 as bs) = digs_val as - digs_val bs"
proof -
  let ?B = "2 ^ (32 * length as) :: int" and ?r = "int (digs_val (sub_loop 0 as bs))"
  from sub_loop_aux [OF assms(1), of 0] obtain k where
    k: "?r + int (digs_val bs) = int (digs_val as) + k * ?B" by auto
  have r: "0 \<le> ?r" "?r < ?B" using digs_val_less_int [of "sub_loop 0 as bs"] by simp_all
  have d: "0 \<le> int (digs_val as) - int (digs_val bs)" "int (digs_val as) - int (digs_val bs) < ?B"
    using assms(2) digs_val_less_int [of as] by linarith+
  from k have "?r = int (digs_val as) - int (digs_val bs) + k * ?B" by linarith
  then have "?r mod ?B = (int (digs_val as) - int (digs_val bs)) mod ?B"
    by (metis mod_mult_self1)
  then have "?r = int (digs_val as) - int (digs_val bs)" using r d by simp
  then show ?thesis using assms(2) by linarith
qed

section \<open>Comparison\<close>

lemma digs_val_snoc_less:
  assumes "length as = length bs" and "unat a < unat b"
  shows "digs_val (as @ [a]) < digs_val (bs @ [b])"
proof -
  let ?B = "2 ^ (32 * length as) :: nat"
  have "digs_val (as @ [a]) < ?B + ?B * unat a"
    using digs_val_less [of as] by (simp add: digs_val_append)
  also have "\<dots> = ?B * Suc (unat a)" by simp
  also have "\<dots> \<le> ?B * unat b" using assms(2) by (intro mult_le_mono2) simp
  also have "\<dots> \<le> digs_val (bs @ [b])" using assms(1) by (simp add: digs_val_append)
  finally show ?thesis .
qed

lemma below_top_iff:
  "length as = length bs \<Longrightarrow> below_top (rev as) (rev bs) \<longleftrightarrow> digs_val as < digs_val bs"
proof (induction as arbitrary: bs rule: rev_induct)
  case (snoc a as)
  then obtain b bs' where bs: "bs = bs' @ [b]" and l: "length as = length bs'"
    by (metis length_0_conv length_append_singleton nat.distinct(1) rev_exhaust nat.inject)
  consider "a = b" | "unat a < unat b" | "unat b < unat a"
    by (metis linorder_neqE_nat word_unat_eq_iff)
  then show ?case
  proof cases
    case 1
    with snoc.IH [OF l] bs l show ?thesis by (simp add: digs_val_append)
  next
    case 2
    with digs_val_snoc_less [OF l] bs show ?thesis by (auto simp: word_less_nat_alt)
  next
    case 3
    with digs_val_snoc_less [OF l [symmetric]] bs show ?thesis
      by (auto simp: word_less_nat_alt dest: less_asym)
  qed
qed simp

lemma cmp_loop_sgn:
  "length as = length bs \<Longrightarrow>
   sgn (cmp_loop (rev as) (rev bs)) = sgn (int (digs_val as) - int (digs_val bs))"
proof (induction as arbitrary: bs rule: rev_induct)
  case (snoc a as)
  then obtain b bs' where bs: "bs = bs' @ [b]" and l: "length as = length bs'"
    by (metis length_0_conv length_append_singleton nat.distinct(1) rev_exhaust nat.inject)
  consider "a = b" | "unat a < unat b" | "unat b < unat a"
    by (metis linorder_neqE_nat word_unat_eq_iff)
  then show ?case
  proof cases
    case 1
    with snoc.IH [OF l] bs l show ?thesis by (simp add: digs_val_append)
  next
    case 2
    with digs_val_snoc_less [OF l 2] bs show ?thesis
      by (auto simp: word_less_nat_alt [symmetric] word_less_def sgn_if)
  next
    case 3
    with digs_val_snoc_less [OF l [symmetric] 3] bs show ?thesis
      by (auto simp: word_less_nat_alt [symmetric] word_less_def sgn_if)
  qed
qed simp

lemma digs_val_longer:
  assumes "length as < length bs" and "last bs \<noteq> 0"
  shows "digs_val as < digs_val bs"
proof -
  have "(2::nat) ^ (32 * length as) \<le> 2 ^ (32 * (length bs - 1))"
    using assms(1) by (intro power_increasing) auto
  also have "\<dots> \<le> digs_val bs" using assms by (intro digs_val_top) auto
  finally show ?thesis using digs_val_less [of as] by simp
qed

section \<open>Multiplication and single digits\<close>

lemma mult_bound: "unat (a :: digit) * unat (b :: digit) \<le> 4294967295 * 4294967295"
  using unat_digit_lt [of a] unat_digit_lt [of b] by (intro mult_le_mono) linarith+

lemma unat_mul_digits: "unat (ucast (a :: digit) * ucast (b :: digit) :: ddigit) = unat a * unat b"
  using mult_bound [of a b] by (subst unat_prod_64) auto

lemma length_mul_row: "length ds = length bs \<Longrightarrow> length (mul_row c a bs ds) = Suc (length bs)"
  by (induction c a bs ds rule: mul_row.induct) (auto simp: Let_def)

lemma mul_row_val:
  "length ds = length bs \<Longrightarrow> unat c < 2 ^ 32 \<Longrightarrow>
   digs_val (mul_row c a bs ds) = unat c + digs_val ds + unat a * digs_val bs"
proof (induction c a bs ds rule: mul_row.induct)
  case (1 c a b bs d ds)
  let ?c = "c + (ucast d + ucast a * ucast b)"
  note bd = mult_bound [of a b] unat_digit_lt [of d]
  have "unat (ucast d + ucast a * ucast b :: ddigit) = unat d + unat a * unat b"
    using bd by (subst unat_sum_64) (auto simp: unat_mul_digits)
  then have u: "unat ?c = unat c + (unat d + unat a * unat b)"
    using bd "1.prems" by (subst unat_sum_64) auto
  have "unat (drop_bit 32 ?c) < 2 ^ 32"
    using unat_ddigit_lt [of ?c] by (simp add: unat_drop_32)
  then have "digs_val (mul_row (drop_bit 32 ?c) a bs ds)
      = unat (drop_bit 32 ?c) + digs_val ds + unat a * digs_val bs"
    using "1.IH" "1.prems" by simp
  with carry_step [of ?c] u show ?case by (simp add: Let_def algebra_simps)
qed (simp_all add: ucast_small)

lemma length_mul_loop: "length ds = length bs \<Longrightarrow> length (mul_loop as bs ds) = length as + length bs"
proof (induction as arbitrary: ds)
  case (Cons a as)
  then have "length (mul_row 0 a bs ds) = Suc (length bs)" by (intro length_mul_row)
  then have "length (mul_loop as bs (tl (mul_row 0 a bs ds))) = length as + length bs"
    by (intro Cons.IH) simp
  then show ?case by (simp add: Let_def)
qed simp

lemma mul_loop_val:
  "length ds = length bs \<Longrightarrow>
   digs_val (mul_loop as bs ds) = digs_val ds + digs_val as * digs_val bs"
proof (induction as arbitrary: ds)
  case (Cons a as)
  let ?row = "mul_row 0 a bs ds"
  have l: "length ?row = Suc (length bs)" using Cons.prems by (rule length_mul_row)
  then obtain r rs where row: "?row = r # rs" and lr: "length rs = length bs"
    by (auto simp: length_Suc_conv)
  have "digs_val ?row = digs_val ds + unat a * digs_val bs"
    using mul_row_val [OF Cons.prems, of 0 a] by simp
  with row Cons.IH [OF lr] show ?case by (simp add: Let_def algebra_simps)
qed simp

lemma single_step:
  fixes x y :: digit
  shows "x + y \<ge> y \<Longrightarrow> unat (x + y) = unat x + unat y"
    and "\<not> x + y \<ge> y \<Longrightarrow> unat (x + y) + 2 ^ 32 = unat x + unat y"
proof -
  have m: "unat (x + y) = (unat x + unat y) mod 4294967296" by (simp add: unat_word_ariths)
  note b = unat_digit_lt [of x] unat_digit_lt [of y]
  show "unat (x + y) = unat x + unat y" if "x + y \<ge> y"
  proof (cases "unat x + unat y < 4294967296")
    case False
    with b have "unat (x + y) = unat x + unat y - 4294967296" unfolding m by (simp add: le_mod_geq)
    with that b False show ?thesis by (simp add: word_le_nat_alt)
  qed (simp add: m)
  show "unat (x + y) + 2 ^ 32 = unat x + unat y" if "\<not> x + y \<ge> y"
  proof (cases "unat x + unat y < 4294967296")
    case False
    with b have "unat (x + y) = unat x + unat y - 4294967296" unfolding m by (simp add: le_mod_geq)
    with False show ?thesis by simp
  qed (use that m in \<open>simp add: word_le_nat_alt\<close>)
qed

lemma length_add_single [simp]: "length (add_single_loop c as) = Suc (length as)"
  by (induction c as rule: add_single_loop.induct) (auto simp: Let_def)

lemma add_single_val: "digs_val (add_single_loop c as) = unat c + digs_val as"
proof (induction c as rule: add_single_loop.induct)
  case (2 c a as)
  show ?case
  proof (cases "c + a \<ge> a")
    case True
    then show ?thesis using single_step(1) [OF True] by (simp add: Let_def digs_val_snoc_0)
  next
    case False
    from "2.IH" [OF refl False] have "digs_val (add_single_loop 1 as) = 1 + digs_val as" by simp
    with single_step(2) [OF False] False show ?thesis by (simp add: Let_def)
  qed
qed simp

lemma single_borrow:
  fixes x y :: digit
  shows "x - y \<le> x \<Longrightarrow> unat (x - y) + unat y = unat x"
    and "\<not> x - y \<le> x \<Longrightarrow> unat (x - y) + unat y = unat x + 2 ^ 32"
  using single_step [of "x - y" y] word_le_def [of "x - y" x]
  by (auto simp: word_le_nat_alt)

lemma length_sub_single [simp]: "length (sub_single_loop c as) = length as"
  by (induction c as rule: sub_single_loop.induct) (auto simp: Let_def)

lemma sub_single_val:
  "unat w \<le> digs_val as \<Longrightarrow> digs_val (sub_single_loop w as) = digs_val as - unat w"
proof (induction w as rule: sub_single_loop.induct)
  case (2 w a as)
  show ?case
  proof (cases "a - w \<le> a")
    case True
    then show ?thesis using single_borrow(1) [OF True] by (simp add: Let_def)
  next
    case False
    note s = single_borrow(2) [OF False]
    have "1 \<le> digs_val as"
      using "2.prems" s unat_digit_lt [of "a - w"] by (cases "digs_val as") auto
    then have "digs_val (sub_single_loop 1 as) = digs_val as - 1" using "2.IH" [OF refl False] by simp
    with s False \<open>1 \<le> digs_val as\<close> show ?thesis by (simp add: Let_def diff_mult_distrib2)
  qed
qed simp

text \<open>Short division keeps the remainder below the divisor, so each quotient digit fits.\<close>

lemma div_single_val:
  assumes b: "0 < unat b"
  shows "unat rem < unat b \<Longrightarrow> div_single_loop rem (rev as) b = (qs, r) \<Longrightarrow>
     length qs = length as \<and> unat r < unat b \<and>
     digs_val (rev qs) * unat b + unat r = unat rem * 2 ^ (32 * length as) + digs_val as"
proof (induction as arbitrary: rem qs r rule: rev_induct)
  case (snoc a as)
  let ?m = "push_bit 32 rem + ucast a :: ddigit" and ?B = "2 ^ (32 * length as) :: nat"
  have rb: "unat rem < 4294967296" using snoc.prems(1) unat_digit_lt [of b] by simp
  have "unat (push_bit 32 rem) = 2 ^ 32 * unat rem"
    using rb by (simp add: push_bit_eq_mult unat_word_ariths)
  then have u: "unat ?m = 2 ^ 32 * unat rem + unat a"
    using rb unat_digit_lt [of a] by (subst unat_sum_64) auto
  have ub: "unat (ucast b :: ddigit) = unat b" by simp
  have mr: "unat (?m mod ucast b) = unat ?m mod unat b" and md: "unat (?m div ucast b) = unat ?m div unat b"
    by (simp_all add: unat_mod_distrib unat_div_distrib)
  have "2 ^ 32 * unat rem + unat a < 2 ^ 32 * unat b"
    using snoc.prems(1) unat_digit_lt [of a] by (simp add: less_eq_Suc_le)
  then have "unat ?m div unat b < 4294967296" using u b by (simp add: div_less_iff_less_mult)
  then have q: "unat (ucast (?m div ucast b) :: digit) = unat ?m div unat b"
    by (simp add: ucast_small md)
  obtain qs' r' where rec: "div_single_loop (?m mod ucast b) (rev as) b = (qs', r')" by fastforce
  have "unat (?m mod ucast b) < unat b" using b by (simp add: mr)
  from snoc.IH [OF this rec] mr have ih: "length qs' = length as" "unat r' < unat b"
    "digs_val (rev qs') * unat b + unat r' = unat ?m mod unat b * ?B + digs_val as" by auto
  from snoc.prems(2) rec have res: "qs = ucast (?m div ucast b) # qs'" "r = r'"
    by (auto simp: Let_def)
  define Q R where "Q = unat ?m div unat b" and "R = unat ?m mod unat b"
  have QR: "Q * unat b + R = unat ?m" by (simp add: Q_def R_def)
  have "digs_val (rev qs) = digs_val (rev qs') + ?B * Q"
    using res ih(1) q by (simp add: digs_val_append Q_def)
  then have "digs_val (rev qs) * unat b + unat r = ?B * (Q * unat b + R) + digs_val as"
    using ih(3) [folded R_def] res(2) by (simp add: algebra_simps)
  also have "\<dots> = unat rem * 2 ^ (32 * length (as @ [a])) + digs_val (as @ [a])"
    unfolding QR u by (simp add: digs_val_append algebra_simps power_add)
  finally show ?case using ih res by simp
qed simp

lemma length_mul_add [simp]: "length (mul_add_loop c as m) = Suc (length as)"
  by (induction c as m rule: mul_add_loop.induct) (auto simp: Let_def)

lemma mul_add_val:
  "unat c < 2 ^ 32 \<Longrightarrow> digs_val (mul_add_loop c as m) = unat c + digs_val as * unat m"
proof (induction c as m rule: mul_add_loop.induct)
  case (2 c a as m)
  let ?c = "c + ucast a * ucast m"
  have u: "unat ?c = unat c + unat a * unat m"
    using "2.prems" mult_bound [of a m] by (subst unat_sum_64) (auto simp: unat_mul_digits)
  have "unat (drop_bit 32 ?c) < 2 ^ 32"
    using unat_ddigit_lt [of ?c] by (simp add: unat_drop_32)
  then have "digs_val (mul_add_loop (drop_bit 32 ?c) as m) = unat (drop_bit 32 ?c) + digs_val as * unat m"
    using "2.IH" by simp
  with carry_step [of ?c] u show ?case by (simp add: Let_def algebra_simps)
qed (simp add: ucast_small)

end
