(* ===== verification/Long_Int_Ops.thy ===== *)
theory Long_Int_Ops
  imports Long_Int_Lemmas
begin

text \<open>
  Correctness of the long integer operations of \<^verbatim>\<open>src/src/std_int_long.c\<close>: each returns the
  mathematical result, normalised, or reports a failed allocation.  Two operations deviate
  from the mathematical result on some inputs; their exact behaviour is stated.
\<close>

section \<open>Shared step: write the digits of a new block and normalise\<close>

definition returns_int :: "int \<Rightarrow> aint \<Rightarrow> bool" where
  "returns_int i v \<longleftrightarrow> norm_int v \<and> int_value v = i"

lemma meets_create_then:
  assumes "\<And>gc d. fresh n d \<Longrightarrow> (Q = no_gc \<Longrightarrow> \<not> gc) \<Longrightarrow> meets Q (f (gc, d)) R"
  shows "meets Q (bindM (CreateLongInt n) f) R"
  by (rule meets_bind [OF meets_CreateLongInt]) (use assms in auto)

lemma meets_normalize_new:
  assumes "fresh n d" and "length ds = n" and "2 \<le> n"
  shows "meets Q (ANormalize (put_digits ds d) s) (returns_int (with_sign s (digs_val ds)))"
proof -
  note f = fresh_put_digits [OF assms(1,2)]
  have "meets Q (ANormalize (put_digits ds d) s)
          (\<lambda>v. norm_int v \<and> int_value v = with_sign s (digs_val (digits (put_digits ds d))))"
    using f(2) assms(3) by (intro meets_ANormalize) (auto simp: fresh_def)
  then show ?thesis by (simp add: f(1) returns_int_def [abs_def])
qed

section \<open>Addition and subtraction\<close>

definition longer_neg :: "longint \<Rightarrow> longint \<Rightarrow> bool" where
  "longer_neg a b = (if li_len a < li_len b then li_neg b else li_neg a)"

lemma meets_AddAbsolute:
  assumes "wf_li a" "wf_li b" and "1 \<le> max (li_len a) (li_len b)"
  shows "meets Q (AddAbsolute a b True)
           (returns_int (with_sign (longer_neg a b) (digs_val (digits a) + digs_val (digits b))))"
proof -
  have *: "meets Q (AddAbsolute a b True)
             (returns_int (with_sign (li_neg x) (digs_val (digits x) + digs_val (digits y))))"
    if "(if li_len a < li_len b then (b, a) else (a, b)) = (x, y)" for x y
  proof -
    have xy: "wf_li x" "wf_li y" "li_len y \<le> li_len x" "1 \<le> li_len x"
      using that assms by (auto split: if_splits)
    then have v: "digs_val (add_loop 0 (digits x) (digits y)) = digs_val (digits x) + digs_val (digits y)"
      by (subst add_loop_val) auto
    show ?thesis
      unfolding AddAbsolute_def that using xy v
      by (auto simp: Let_def intro!: meets_create_then
          meets_normalize_new [of "Suc (li_len x)", THEN meets_mono])
  qed
  show ?thesis
    using * [of b a] * [of a b] by (auto simp: longer_neg_def add.commute split: if_splits)
qed

lemma meets_SubAbsolute:
  assumes "wf_li a" "wf_li b" and "2 \<le> max (li_len a) (li_len b)"
    and la: "li_len b < li_len a \<Longrightarrow> last (digits a) \<noteq> 0"
    and lb: "li_len a < li_len b \<Longrightarrow> last (digits b) \<noteq> 0"
  shows "meets Q (SubAbsolute a b True)
     (\<lambda>v. norm_int v \<and> int_value v =
        (if li_neg a then - 1 else 1) * (int (digs_val (digits a)) - int (digs_val (digits b))))"
    (is "meets Q _ ?P")
proof -
  let ?va = "digs_val (digits a)" and ?vb = "digs_val (digits b)"
  define sw where "sw \<longleftrightarrow> li_len a < li_len b \<or>
      (li_len a = li_len b \<and> below_top (rev (digits a)) (rev (digits b)))"
  have le: "if sw then ?va \<le> ?vb else ?vb \<le> ?va"
  proof (cases "li_len a = li_len b")
    case True
    with assms show ?thesis by (auto simp: sw_def below_top_iff)
  next
    case False
    with assms show ?thesis
      using digs_val_longer [of "digits a" "digits b"] digs_val_longer [of "digits b" "digits a"]
      by (auto simp: sw_def)
  qed
  have main: "meets Q (bindM (CreateLongInt (li_len x))
           (\<lambda>(gc, d). let x = promote gc x; y = promote gc y;
                  d = put_digits (sub_loop 0 (digits x) (digits y)) d
              in ANormalize d s)) (returns_int (with_sign s (digs_val (digits x) - digs_val (digits y))))"
    if "wf_li x" "wf_li y" "li_len y \<le> li_len x" "2 \<le> li_len x"
       "digs_val (digits y) \<le> digs_val (digits x)" for x y s
    using that sub_loop_val [of "digits y" "digits x"]
    by (auto simp: Let_def intro!: meets_create_then
        meets_normalize_new [of "li_len x", THEN meets_mono])
  show ?thesis
  proof (cases sw)
    case True
    then have eq: "SubAbsolute a b True = bindM (CreateLongInt (li_len b))
           (\<lambda>(gc, d). let x = promote gc b; y = promote gc a;
                  d = put_digits (sub_loop 0 (digits x) (digits y)) d
              in ANormalize d (\<not> li_neg a))"
      by (auto simp: SubAbsolute_def sw_def Let_def)
    show ?thesis unfolding eq
      by (rule meets_mono [OF main]) (use True le assms in
        \<open>auto simp: sw_def returns_int_def with_sign_def of_nat_diff\<close>)
  next
    case False
    then have eq: "SubAbsolute a b True = bindM (CreateLongInt (li_len a))
           (\<lambda>(gc, d). let x = promote gc a; y = promote gc b;
                  d = put_digits (sub_loop 0 (digits x) (digits y)) d
              in ANormalize d (li_neg a))"
      by (auto simp: SubAbsolute_def sw_def Let_def)
    show ?thesis unfolding eq
      by (rule meets_mono [OF main]) (use False le assms in
        \<open>auto simp: sw_def returns_int_def with_sign_def of_nat_diff\<close>)
  qed
qed

text \<open>
  Operands of the two-operand operations: at least one has two digits or more, and a block
  that is the longer one has no leading zero digit.  Normalised long integers and long
  integers coerced from a short integer satisfy this together.
\<close>

definition operand :: "longint \<Rightarrow> bool" where
  "operand a \<longleftrightarrow> wf_li a \<and> 1 \<le> li_len a \<and> (2 \<le> li_len a \<longrightarrow> last (digits a) \<noteq> 0)"

lemma operand_norm: "norm_int (ALong a) \<Longrightarrow> operand a"
  by (simp add: operand_def)

lemma meets_AAddLongInt:
  assumes "operand a" "operand b" "2 \<le> max (li_len a) (li_len b)"
  shows "meets Q (AAddLongInt a b) (returns_int (li_value a + li_value b))"
proof (cases "li_neg a = li_neg b")
  case True
  have "meets Q (AddAbsolute a b True)
           (returns_int (with_sign (longer_neg a b) (digs_val (digits a) + digs_val (digits b))))"
    using assms by (intro meets_AddAbsolute) (auto simp: operand_def)
  moreover have "with_sign (longer_neg a b) (digs_val (digits a) + digs_val (digits b))
      = li_value a + li_value b"
    using True by (auto simp: li_value_with_sign longer_neg_def with_sign_def)
  ultimately show ?thesis using True by (simp add: AAddLongInt_def)
next
  case False
  have "meets Q (SubAbsolute a b True) (\<lambda>v. norm_int v \<and> int_value v =
        (if li_neg a then - 1 else 1) * (int (digs_val (digits a)) - int (digs_val (digits b))))"
    using assms by (intro meets_SubAbsolute) (auto simp: operand_def)
  then show ?thesis using False
    by (auto simp: AAddLongInt_def li_value_with_sign with_sign_def returns_int_def
        elim!: meets_mono)
qed

lemma meets_ASubLongInt:
  assumes "operand a" "operand b" "2 \<le> max (li_len a) (li_len b)"
  shows "meets Q (ASubLongInt a b) (returns_int
     (if li_neg a \<noteq> li_neg b \<and> li_len a < li_len b then li_value b - li_value a
      else li_value a - li_value b))"
proof (cases "li_neg a = li_neg b")
  case False
  have "meets Q (AddAbsolute a b True)
           (returns_int (with_sign (longer_neg a b) (digs_val (digits a) + digs_val (digits b))))"
    using assms by (intro meets_AddAbsolute) (auto simp: operand_def)
  moreover have "with_sign (longer_neg a b) (digs_val (digits a) + digs_val (digits b))
      = (if li_len a < li_len b then li_value b - li_value a else li_value a - li_value b)"
    using False by (auto simp: li_value_with_sign longer_neg_def with_sign_def)
  ultimately show ?thesis using False by (simp add: ASubLongInt_def)
next
  case True
  have "meets Q (SubAbsolute a b True) (\<lambda>v. norm_int v \<and> int_value v =
        (if li_neg a then - 1 else 1) * (int (digs_val (digits a)) - int (digs_val (digits b))))"
    using assms by (intro meets_SubAbsolute) (auto simp: operand_def)
  then show ?thesis using True
    by (auto simp: ASubLongInt_def li_value_with_sign with_sign_def returns_int_def
        elim!: meets_mono)
qed

section \<open>Multiplication\<close>

lemma meets_AMultiplyLongInt:
  assumes "wf_li a" "wf_li b" "1 \<le> li_len a" "1 \<le> li_len b"
  shows "meets Q (AMultiplyLongInt a b) (returns_int (li_value a * li_value b))"
proof -
  have l: "length (mul_loop (digits a) (digits b) (replicate (li_len b) 0)) = li_len a + li_len b"
    using assms by (subst length_mul_loop) auto
  have v: "digs_val (mul_loop (digits a) (digits b) (replicate (li_len b) 0))
      = digs_val (digits a) * digs_val (digits b)"
    using assms by (subst mul_loop_val) auto
  have "meets Q (AMultiplyLongInt a b)
      (returns_int (with_sign (li_neg a \<noteq> li_neg b) (digs_val (digits a) * digs_val (digits b))))"
    unfolding AMultiplyLongInt_def using assms l v
    by (auto simp: Let_def intro!: meets_create_then
        meets_normalize_new [of "li_len a + li_len b", THEN meets_mono])
  moreover have "with_sign (li_neg a \<noteq> li_neg b) (digs_val (digits a) * digs_val (digits b))
      = li_value a * li_value b"
    by (auto simp: with_sign_def li_value_def)
  ultimately show ?thesis by simp
qed

section \<open>Comparison and negation\<close>

lemma compare_sgn:
  assumes "operand a" "operand b" and "\<not> (li_neg a \<and> digs_val (digits a) = 0)"
    and "li_neg a \<noteq> li_neg b \<longrightarrow> digs_val (digits a) + digs_val (digits b) \<noteq> 0"
  shows "sgn (ACompareLongInt a b) = sgn (li_value a - li_value b)"
proof (cases "li_neg a = li_neg b")
  case True
  have "sgn (if li_len a \<noteq> li_len b then int (li_len a) - int (li_len b)
             else cmp_loop (rev (digits a)) (rev (digits b)))
        = sgn (int (digs_val (digits a)) - int (digs_val (digits b)))"
  proof (cases "li_len a = li_len b")
    case True
    then show ?thesis using assms by (simp add: operand_def cmp_loop_sgn)
  next
    case False
    then show ?thesis
      using assms digs_val_longer [of "digits a" "digits b"] digs_val_longer [of "digits b" "digits a"]
      by (auto simp: operand_def sgn_if)
  qed
  then show ?thesis using True
    by (auto simp: ACompareLongInt_def Let_def li_value_def sgn_if split: if_splits)
next
  case False
  then show ?thesis using assms
    by (auto simp: ACompareLongInt_def Let_def li_value_def sgn_if)
qed

lemma norm_long_nonzero: "norm_int (ALong a) \<Longrightarrow> digs_val (digits a) \<noteq> 0"
  by (auto simp: li_value_def fits_short_def split: if_splits)

lemma digits_two: "wf_li a \<Longrightarrow> li_len a = 2 \<Longrightarrow> digits a = [li_cells a ! 0, li_cells a ! 1]"
  using wf_li_len [of a]
  by (cases "li_cells a"; cases "tl (li_cells a)") (auto simp: digits_def)

lemma short_min: "int_value (AShort (AIntToValue A_SHORT_INT_MIN)) = - (2 ^ 61)"
  using short_of_int [of "- (2 ^ 61)"] by (simp add: A_SHORT_INT_MIN_eq fits_short_def)

definition negate_shortcut :: "longint \<Rightarrow> bool" where
  "negate_shortcut a \<longleftrightarrow>
     \<not> li_neg a \<and> li_cells a ! 0 = 0 \<and> li_cells a ! 1 = SHORT_TOP"

lemma meets_ANegateLongInt:
  assumes a: "norm_int (ALong a)"
  shows "meets Q (ANegateLongInt a) (returns_int
     (if negate_shortcut a \<and> 2 < li_len a then - (2 ^ 61) else - li_value a))"
proof (cases "negate_shortcut a")
  case True
  have "- li_value a = - (2 ^ 61)" if "li_len a = 2"
    using True digits_two [of a] a that
    by (simp add: negate_shortcut_def li_value_def SHORT_TOP_eq)
  moreover have "li_len a = 2 \<or> 2 < li_len a" using a by auto
  moreover have "meets Q (ret (AShort (AIntToValue A_SHORT_INT_MIN))) (returns_int (- (2 ^ 61)))"
    using short_min by (intro meets_ret) (simp add: returns_int_def)
  moreover have "ANegateLongInt a = ret (AShort (AIntToValue A_SHORT_INT_MIN))"
    using True by (simp add: ANegateLongInt_def negate_shortcut_def)
  ultimately show ?thesis using True by auto
next
  case False
  have nm: "\<not> fits_short (- li_value a)"
  proof
    assume "fits_short (- li_value a)"
    moreover have "\<not> fits_short (li_value a)" using a by simp
    ultimately have v: "li_value a = 2 ^ 61" by (simp add: fits_short_def)
    then have pos: "\<not> li_neg a" and n: "digs_val (digits a) = 2 ^ 61"
      by (auto simp: li_value_def split: if_splits)
    have len: "li_len a = 2"
    proof (rule ccontr)
      assume "li_len a \<noteq> 2"
      then have l: "3 \<le> length (digits a)" using a by simp
      then have "digits a \<noteq> []" by auto
      then have "2 ^ (32 * (length (digits a) - 1)) \<le> digs_val (digits a)"
        using a by (intro digs_val_top) auto
      moreover have "(2::nat) ^ 64 \<le> 2 ^ (32 * (length (digits a) - 1))"
        using l by (intro power_increasing) auto
      ultimately show False using n by simp
    qed
    let ?x = "unat (li_cells a ! 0)" and ?y = "unat (li_cells a ! 1)"
    have "?x + 4294967296 * ?y = 2305843009213693952" using n digits_two [OF _ len] a by simp
    then have "?x = 2305843009213693952 mod 4294967296"
      using unat_digit_lt [of "li_cells a ! 0"] by (metis mod_less mod_mult_self2)
    then have "?x = 0" "?y = 536870912"
      using \<open>?x + 4294967296 * ?y = 2305843009213693952\<close> by simp_all
    then have "li_cells a ! 0 = 0" "li_cells a ! 1 = SHORT_TOP"
      by (simp_all add: SHORT_TOP_eq word_unat_eq_iff)
    with pos False show False by (simp add: negate_shortcut_def)
  qed
  have "meets Q (bindM (CreateLongInt (li_len a))
             (\<lambda>(gc, d). let a = promote gc a; d = put_digits (digits a) d
                in ret (ALong (if \<not> li_neg a then ASetLongIntSign d else d))))
           (returns_int (- li_value a))"
  proof (rule meets_create_then)
    fix gc d assume d: "fresh (li_len a) d"
    note f = fresh_put_digits [OF d, of "digits a"]
    let ?d = "put_digits (digits a) d"
    have eq: "(if \<not> li_neg a then ASetLongIntSign ?d else ?d) = ?d\<lparr>li_neg := \<not> li_neg a\<rparr>"
      using f a by (intro set_sign) (simp add: fresh_def)
    have "li_value (?d\<lparr>li_neg := \<not> li_neg a\<rparr>) = - li_value a"
      using f a by (simp add: li_value_def)
    then have "returns_int (- li_value a)
        (ALong (if \<not> li_neg a then ASetLongIntSign ?d else ?d))"
      unfolding eq using f a nm by (simp add: returns_int_def fresh_def)
    then show "meets Q (case (gc, d) of (gc, d) \<Rightarrow> let a = promote gc a; d = put_digits (digits a) d
        in ret (ALong (if \<not> li_neg a then ASetLongIntSign d else d))) (returns_int (- li_value a))"
      by (auto simp: Let_def intro: meets_ret)
  qed
  then show ?thesis using False by (auto simp: ANegateLongInt_def negate_shortcut_def)
qed

section \<open>Single-digit operations\<close>

lemma meets_AddAbsoluteSingle:
  assumes "wf_li a" "1 \<le> li_len a"
  shows "meets Q (AddAbsoluteSingle a i)
           (returns_int (with_sign (li_neg a) (digs_val (digits a) + unat i)))"
  unfolding AddAbsoluteSingle_def using assms
  by (auto simp: Let_def add_single_val add.commute intro!: meets_create_then
      meets_normalize_new [of "Suc (li_len a)", THEN meets_mono])

lemma meets_SubAbsoluteSingle:
  assumes "wf_li a" "2 \<le> li_len a" "unat i \<le> digs_val (digits a)"
  shows "meets Q (SubAbsoluteSingle a i True)
           (returns_int (with_sign (li_neg a) (digs_val (digits a) - unat i)))"
  unfolding SubAbsoluteSingle_def using assms
  by (auto simp: Let_def sub_single_val intro!: meets_create_then
      meets_normalize_new [of "li_len a", THEN meets_mono])

lemma norm_long_big:
  assumes "norm_int (ALong a)" shows "unat (i :: digit) \<le> digs_val (digits a)"
proof -
  have "2 ^ 61 \<le> digs_val (digits a)"
    using assms by (auto simp: fits_short_def li_value_def not_le not_less split: if_splits)
  then show ?thesis using unat_digit_lt [of i] by simp
qed

lemma meets_AAddLongIntSingle:
  assumes "norm_int (ALong a)"
  shows "meets Q (AAddLongIntSingle a i) (returns_int (li_value a + int (unat i)))"
  using meets_AddAbsoluteSingle [of a Q i] meets_SubAbsoluteSingle [of a i Q] assms
    norm_long_big [OF assms, of i]
  by (cases "li_neg a")
    (simp_all add: AAddLongIntSingle_def li_value_with_sign with_sign_def of_nat_diff)

lemma meets_ASubLongIntSingle:
  assumes "norm_int (ALong a)"
  shows "meets Q (ASubLongIntSingle a i) (returns_int (li_value a - int (unat i)))"
  using meets_AddAbsoluteSingle [of a Q i] meets_SubAbsoluteSingle [of a i Q] assms
    norm_long_big [OF assms, of i]
  by (cases "li_neg a")
    (simp_all add: ASubLongIntSingle_def li_value_with_sign with_sign_def of_nat_diff)

text \<open>Operations that return a magnitude block, truncated but not normalised.\<close>

definition magnitude :: "nat \<Rightarrow> longint \<Rightarrow> bool" where
  "magnitude n r \<longleftrightarrow> wf_li r \<and> \<not> li_neg r \<and> digs_val (digits r) = n \<and>
     (1 < li_len r \<longrightarrow> last (digits r) \<noteq> 0)"

lemma meets_truncate_new:
  assumes "fresh n d" and "length ds = n" and "1 \<le> n"
  shows "meets Q (TruncateZeroDigits (put_digits ds d) False)
           (\<lambda>r. magnitude (digs_val ds) r \<and> li_len r \<le> n \<and> (2 \<le> n \<longrightarrow> 1 \<le> li_len r))"
proof -
  note f = fresh_put_digits [OF assms(1,2)]
  have "meets Q (TruncateZeroDigits (put_digits ds d) False) (truncated (put_digits ds d) False)"
    using f(2) assms(3) by (intro meets_TruncateZeroDigits) (auto simp: fresh_def)
  then show ?thesis
    by (rule meets_mono) (use f assms(3) in \<open>auto simp: truncated_def magnitude_def fresh_def\<close>)
qed

lemma meets_AMulAddSingle:
  assumes "wf_li a" "1 \<le> li_len a"
  shows "meets Q (AMulAddSingle a m i)
     (\<lambda>r. magnitude (digs_val (digits a) * unat m + unat i) r \<and> 1 \<le> li_len r
          \<and> li_len r \<le> li_len a + 1)"
proof -
  have v: "digs_val (mul_add_loop (ucast i) (digits a) m) = digs_val (digits a) * unat m + unat i"
    using unat_digit_lt [of i] by (subst mul_add_val) auto
  show ?thesis
    unfolding AMulAddSingle_def using assms
    by (auto simp: Let_def v intro!: meets_create_then
        meets_truncate_new [of "Suc (li_len a)", THEN meets_mono])
qed

lemma meets_ADivModSingle:
  assumes "wf_li a" "1 \<le> li_len a" "0 < unat b"
  shows "meets Q (ADivModSingle a b)
     (\<lambda>(q, r). magnitude (digs_val (digits a) div unat b) q \<and>
        unat r = digs_val (digits a) mod unat b \<and> li_len q \<le> li_len a \<and>
        (2 \<le> li_len a \<longrightarrow> 1 \<le> li_len q))"
proof -
  obtain qs r where dl: "div_single_loop 0 (rev (digits a)) b = (qs, r)" by fastforce
  have "length qs = length (digits a) \<and> unat r < unat b \<and>
     digs_val (rev qs) * unat b + unat r = unat (0 :: ddigit) * 2 ^ (32 * length (digits a)) + digs_val (digits a)"
    using div_single_val [OF assms(3) _ dl] assms(3) by simp
  then have l: "length qs = li_len a" and rb: "unat r < unat b"
    and eq: "digs_val (digits a) = digs_val (rev qs) * unat b + unat r"
    using assms by auto
  have q: "digs_val (digits a) div unat b = digs_val (rev qs)"
    and r: "digs_val (digits a) mod unat b = unat r"
    unfolding eq using rb assms(3) by simp_all
  have "unat (ucast r :: digit) = unat r"
    using rb unat_digit_lt [of b] by (intro ucast_small) simp
  then show ?thesis
    unfolding ADivModSingle_def using assms l
    by (auto simp: Let_def dl q r intro!: meets_create_then meets_ret
        meets_bind [OF meets_truncate_new [of "li_len a"]])
qed

section \<open>From machine integers\<close>

lemma meets_put_new:
  assumes "length ds = n"
  shows "meets Q (bindM (AMakeLongInt n s) (\<lambda>li. ret (ALong (put_digits ds li))))
     (\<lambda>v. \<exists>li. v = ALong li \<and> wf_li li \<and> digits li = ds \<and> li_neg li = s \<and> li_len li = n)"
proof (rule meets_bind [OF meets_AMakeLongInt], intro meets_ret)
  fix d assume d: "fresh n (d\<lparr>li_neg := False\<rparr>) \<and> li_neg d = s"
  then have "digits (put_digits ds (d\<lparr>li_neg := False\<rparr>)) = ds" "fresh n (put_digits ds (d\<lparr>li_neg := False\<rparr>))"
    using assms by (auto intro: fresh_put_digits)
  then show "\<exists>li. ALong (put_digits ds d) = ALong li \<and> wf_li li \<and> digits li = ds \<and> li_neg li = s \<and> li_len li = n"
    using d by (auto simp: fresh_def put_digits_def digits_def wf_li_def)
qed

lemma sint_bounds: "- 9223372036854775808 \<le> sint (v :: 64 word)" "sint (v :: 64 word) < 9223372036854775808"
  using sint_ge [of v] sint_lt [of v] by simp_all

lemma sint_unat:
  "sint (v :: 64 word) = (if unat v < 9223372036854775808 then int (unat v) else int (unat v) - 18446744073709551616)"
proof (cases "unat v < 9223372036854775808")
  case True
  have "sint (of_int (int (unat v)) :: 64 word) = int (unat v)"
    using True by (intro sint_of_int_64) linarith+
  then show ?thesis using True by simp
next
  case False
  have "sint (of_int (int (unat v) - 18446744073709551616) :: 64 word)
      = int (unat v) - 18446744073709551616"
    using False unat_ddigit_lt [of v] by (intro sint_of_int_64) linarith+
  moreover have "(18446744073709551616 :: 64 word) = 0" by (simp add: word_uint_eq_iff)
  ultimately show ?thesis using False by simp
qed

lemma unat_of_sint: "0 \<le> sint (v :: 64 word) \<Longrightarrow> int (unat v) = sint v"
  using sint_unat [of v] unat_ddigit_lt [of v] by (auto split: if_splits)

text \<open>A coerced integer: its value, and no leading zero digit in a two-digit block.\<close>

definition coerced :: "int \<Rightarrow> aint \<Rightarrow> bool" where
  "coerced i v \<longleftrightarrow> (\<exists>li. v = ALong li \<and> operand li \<and> li_value li = i \<and> li_len li \<le> 2 \<and>
     (li_len li = 2 \<longleftrightarrow> 2 ^ 32 \<le> \<bar>i\<bar>) \<and> li_neg li = (i < 0))"

lemma coercedI:
  assumes "length ds = n" "n = 1 \<or> n = 2 \<and> last ds \<noteq> 0" "with_sign s (digs_val ds) = i"
    "s = (i < 0)"
  shows "meets Q (bindM (AMakeLongInt n s) (\<lambda>li. ret (ALong (put_digits ds li)))) (coerced i)"
proof (rule meets_mono [OF meets_put_new [OF assms(1)]], elim exE conjE)
  fix v li assume v: "v = ALong li" "wf_li li" "digits li = ds" "li_neg li = s" "li_len li = n"
  have abs: "\<bar>i\<bar> = int (digs_val ds)" using assms(3) by (auto simp: with_sign_def)
  have "n = 2 \<longleftrightarrow> 2 ^ 32 \<le> \<bar>i\<bar>"
  proof (cases "n = 2")
    case True
    with assms have "2 ^ (32 * (length ds - 1)) \<le> digs_val ds" by (intro digs_val_top) auto
    with True assms(1) have "4294967296 \<le> digs_val ds" by simp
    with True show ?thesis by (simp add: abs)
  next
    case False
    with assms have "digs_val ds < 4294967296" using digs_val_less [of ds] by simp
    with False show ?thesis by (simp add: abs)
  qed
  then show "coerced i v"
    using v assms by (auto simp: coerced_def operand_def li_value_with_sign)
qed

lemma meets_ACreateLongIntFromIntND: "meets Q (ACreateLongIntFromIntND v) (coerced (sint v))"
proof (cases "v = push_bit 63 (- 1)")
  case True
  then have "v = of_int (- 9223372036854775808)" by (simp add: push_bit_eq_mult)
  then have s: "sint v = - 9223372036854775808"
    using sint_of_int_64 [of "- 9223372036854775808"] by simp
  show ?thesis
    unfolding ACreateLongIntFromIntND_def using True s
    by (auto intro!: coercedI simp: with_sign_def)
next
  case False
  define s where "s \<longleftrightarrow> sint v < 0"
  define u where "u = (if s then - v else v)"
  define n where "n = (if sint u > uint MASK then 2 else 1 :: nat)"
  define ds where "ds = (if n > 1 then [ucast (u AND MASK), ucast (signed_drop_bit 32 u)]
                 else [ucast (u AND MASK)] :: digit list)"
  have eq: "ACreateLongIntFromIntND v
      = bindM (AMakeLongInt n s) (\<lambda>li. ret (ALong (put_digits ds li)))"
    using False by (simp add: ACreateLongIntFromIntND_def Let_def s_def u_def n_def ds_def)
  have nm: "sint v \<noteq> - 9223372036854775808"
  proof
    assume "sint v = - 9223372036854775808"
    moreover have "(of_int (sint v) :: 64 word) = v" by simp
    ultimately have "v = of_int (- 9223372036854775808)" by metis
    with False show False by (simp add: push_bit_eq_mult)
  qed
  have "u = of_int \<bar>sint v\<bar>" by (simp add: u_def s_def)
  moreover have "sint (of_int \<bar>sint v\<bar> :: 64 word) = \<bar>sint v\<bar>"
    using sint_bounds [of v] nm by (intro sint_of_int_64) simp_all
  ultimately have su: "sint u = \<bar>sint v\<bar>" by simp
  then have un: "int (unat u) = \<bar>sint v\<bar>" by (simp only: unat_of_sint)
  then have ub: "unat u < 9223372036854775808" using sint_bounds [of v] nm by linarith
  have "sint u > 4294967295 \<longleftrightarrow> 4294967296 \<le> unat u" using su un by linarith
  then have n2: "n = 2 \<longleftrightarrow> 4294967296 \<le> unat u" by (simp add: n_def)
  have sd: "sint (signed_drop_bit 32 u) = int (unat u div 2 ^ 32)"
    using su un by (simp add: sint_signed_drop_bit_eq drop_bit_eq_div zdiv_int)
  then have "int (unat (signed_drop_bit 32 u)) = int (unat u div 2 ^ 32)"
    by (metis unat_of_sint of_nat_0_le_iff)
  then have "unat (signed_drop_bit 32 u) = unat u div 2 ^ 32" by (simp only: of_nat_eq_iff)
  then have hi: "unat (ucast (signed_drop_bit 32 u) :: digit) = unat u div 2 ^ 32"
    using ub by (subst ucast_small) simp_all
  have lo: "unat (ucast (u AND MASK) :: digit) = unat u mod 2 ^ 32" by (rule unat_mask_digit)
  have val: "digs_val ds = unat u"
    using n2 lo hi by (cases "n = 2") (auto simp: ds_def n_def split: if_splits)
  have last: "last ds \<noteq> 0" if "n = 2"
    using that n2 hi by (auto simp: ds_def word_unat_eq_iff)
  show ?thesis
    unfolding eq
  proof (rule coercedI)
    show "length ds = n" by (simp add: ds_def n_def)
    show "n = 1 \<or> n = 2 \<and> last ds \<noteq> 0" using last by (simp add: n_def)
    show "with_sign s (digs_val ds) = sint v"
      using val un by (simp add: with_sign_def s_def)
    show "s = (sint v < 0)" by (simp add: s_def)
  qed
qed

end
