(* ===== verification/Int_Arith_Lemmas.thy ===== *)
theory Int_Arith_Lemmas
  imports Int_Arith Long_Int_Ops
begin

text \<open>
  Facts about tagged words and wrapping arithmetic, and the contracts of the Int operations
  of \<open>Int_Arith\<close>.
\<close>

section \<open>Tagged words\<close>

lemma sint_of_int_wrap: "\<exists>k. sint (of_int i :: 64 word) = i + k * 18446744073709551616"
proof -
  let ?r = "sint (of_int i :: 64 word)"
  have "(of_int ?r :: 64 word) = of_int i" by simp
  then have "uint (of_int ?r :: 64 word) = uint (of_int i :: 64 word)" by simp
  then have "?r mod 18446744073709551616 = i mod 18446744073709551616"
    by (simp only: uint_of_int_64) simp
  then have "18446744073709551616 dvd ?r - i" by (simp add: mod_eq_dvd_iff)
  then obtain k where "?r - i = 18446744073709551616 * k" by (auto simp: dvd_def)
  then have "?r = i + k * 18446744073709551616" by simp
  then show ?thesis by blast
qed

lemma sint_wrap_cases:
  assumes "- 27670116110564327424 \<le> i" and "i < 27670116110564327424"
  shows "sint (of_int i :: 64 word) =
     (if i < - 9223372036854775808 then i + 18446744073709551616
      else if i < 9223372036854775808 then i else i - 18446744073709551616)"
proof -
  obtain k where k: "sint (of_int i :: 64 word) = i + k * 18446744073709551616"
    using sint_of_int_wrap by blast
  note b = sint_bounds [of "of_int i :: 64 word"]
  have "- 2 < k" "k < 2" using k b assms by linarith+
  then have "k = - 1 \<or> k = 0 \<or> k = 1" by linarith
  then show ?thesis using k b by auto
qed

lemma sint_xor_neg: "sint (x XOR y) < 0 \<longleftrightarrow> (sint x < 0) \<noteq> (sint (y :: 64 word) < 0)"
  by (auto simp flip: bit_last_iff simp: bit_xor_iff)

lemma sint_xor_nonneg: "0 \<le> sint (x XOR y) \<longleftrightarrow> (sint x < 0) = (sint (y :: 64 word) < 0)"
  using sint_xor_neg [of x y] by auto

definition short_val :: "avalue \<Rightarrow> int" where
  "short_val w = sint w div 4"

lemma int_value_short: "int_value (AShort w) = short_val w"
  by (simp add: short_val_def)

lemma unat_and_3: "unat (w AND 3) = unat (w :: 64 word) mod 4"
proof -
  have "w AND 3 = take_bit 2 w" by (simp add: take_bit_eq_mask mask_eq_exp_minus_1)
  then show ?thesis by (simp add: take_bit_eq_mod unat_mod_distrib)
qed

lemma tagged_sint: assumes "w AND 3 = 0" shows "sint w = 4 * short_val w"
proof -
  have "unat w mod 4 = 0" using assms unat_and_3 [of w] by simp
  then obtain m where "unat w = 4 * m" by (metis mod_eq_0_iff_dvd dvdE)
  then show ?thesis by (auto simp: short_val_def sint_unat)
qed

lemma sint_AValueToInt: "sint (AValueToInt w) = short_val w"
  by (simp add: AValueToInt_def sint_signed_drop_bit_eq drop_bit_eq_div short_val_def)

lemma short_val_bounds: "- 2305843009213693952 \<le> short_val w" "short_val w < 2305843009213693952"
  using sint_bounds [of w] by (auto simp: short_val_def)

lemma fits_short_val: "fits_short (short_val w)"
  using short_val_bounds [of w] by (simp add: fits_short_def)

lemma tag_of_int: "(of_int (4 * i) :: 64 word) AND 3 = 0"
  using AIntToValue_tag [of "of_int i"] by (simp only: AIntToValue_of_int)

lemma tagged_of_int: assumes "w AND 3 = 0" shows "w = of_int (4 * short_val w)"
proof -
  have "(of_int (sint w) :: 64 word) = w" by simp
  then show ?thesis using tagged_sint [OF assms] by simp
qed

lemma returns_short:
  assumes "w = of_int (4 * i)" and "fits_short i"
  shows "returns_int i (AShort w)"
proof -
  have w: "w = AIntToValue (of_int i)" unfolding assms(1) by (rule AIntToValue_of_int [symmetric])
  show ?thesis unfolding w returns_int_def using short_of_int [OF assms(2)] by simp
qed

section \<open>Addition and subtraction\<close>

lemma coerced_long:
  assumes "coerced i v" and "\<not> fits_short i"
  shows "returns_int i v"
proof -
  obtain li where v: "v = ALong li" "operand li" "li_value li = i" "li_len li = 2 \<longleftrightarrow> 2 ^ 32 \<le> \<bar>i\<bar>"
    using assms(1) by (auto simp: coerced_def)
  have "2 ^ 32 \<le> \<bar>i\<bar>" using assms(2) by (auto simp: fits_short_def)
  with v assms(2) show ?thesis by (auto simp: returns_int_def operand_def)
qed

lemma AValueToInt_of_int: "AValueToInt w = of_int (short_val w)"
proof -
  have "(of_int (sint (AValueToInt w)) :: 64 word) = AValueToInt w" by simp
  then show ?thesis by (simp add: sint_AValueToInt)
qed

lemma meets_create_of_int:
  assumes "- 9223372036854775808 \<le> i" "i < 9223372036854775808" "\<not> fits_short i" "v = of_int i"
  shows "meets Q (ACreateLongIntFromIntND v) (returns_int i)"
  using meets_ACreateLongIntFromIntND [of Q v] sint_of_int_64 [OF assms(1,2)] assms(3,4)
  by (auto elim!: meets_mono intro: coerced_long)

lemma meets_add_short:
  assumes a: "a AND 3 = 0" and b: "b AND 3 = 0"
  shows "meets Q (AddSame (AShort a) (AShort b)) (returns_int (short_val a + short_val b))"
proof -
  let ?s = "short_val a + short_val b"
  note bd = short_val_bounds [of a] short_val_bounds [of b]
  have bs: "- 4611686018427387904 \<le> ?s" "?s < 4611686018427387904" using bd by linarith+
  have eq: "a + b = of_int (4 * ?s)"
    using tagged_of_int [OF a] tagged_of_int [OF b] by (metis distrib_left of_int_add)
  have r: "sint (a + b) = (if 4 * ?s < - 9223372036854775808 then 4 * ?s + 18446744073709551616
      else if 4 * ?s < 9223372036854775808 then 4 * ?s else 4 * ?s - 18446744073709551616)"
    unfolding eq using bs by (intro sint_wrap_cases) simp_all
  have ov: "AIsAddOverflow (a + b) a b \<longleftrightarrow> \<not> fits_short ?s"
    using r bd tagged_sint [OF a] tagged_sint [OF b]
    by (auto simp: AIsAddOverflow_def sint_xor_neg fits_short_def split: if_splits)
  show ?thesis
  proof (cases "fits_short ?s")
    case True
    with ov eq show ?thesis by (auto intro!: meets_ret returns_short)
  next
    case False
    have "meets Q (ACreateLongIntFromIntND (AValueToInt a + AValueToInt b)) (returns_int ?s)"
      using False bd by (intro meets_create_of_int) (auto simp: AValueToInt_of_int)
    with False ov show ?thesis by simp
  qed
qed

lemma meets_sub_short:
  assumes a: "a AND 3 = 0" and b: "b AND 3 = 0"
  shows "meets Q (SubSame (AShort a) (AShort b)) (returns_int (short_val a - short_val b))"
proof -
  let ?s = "short_val a - short_val b"
  note bd = short_val_bounds [of a] short_val_bounds [of b]
  have bs: "- 4611686018427387904 \<le> ?s" "?s < 4611686018427387904" using bd by linarith+
  have eq: "a - b = of_int (4 * ?s)"
    using tagged_of_int [OF a] tagged_of_int [OF b] by (metis right_diff_distrib of_int_diff)
  have r: "sint (a - b) = (if 4 * ?s < - 9223372036854775808 then 4 * ?s + 18446744073709551616
      else if 4 * ?s < 9223372036854775808 then 4 * ?s else 4 * ?s - 18446744073709551616)"
    unfolding eq using bs by (intro sint_wrap_cases) simp_all
  have ov: "AIsSubOverflow (a - b) a b \<longleftrightarrow> \<not> fits_short ?s"
    using r bd tagged_sint [OF a] tagged_sint [OF b]
    by (auto simp: AIsSubOverflow_def sint_xor_neg sint_xor_nonneg fits_short_def split: if_splits)
  show ?thesis
  proof (cases "fits_short ?s")
    case True
    with ov eq show ?thesis by (auto intro!: meets_ret returns_short)
  next
    case False
    have "meets Q (ACreateLongIntFromIntND (AValueToInt a - AValueToInt b)) (returns_int ?s)"
      using False bd by (intro meets_create_of_int) (auto simp: AValueToInt_of_int)
    with False ov show ?thesis by simp
  qed
qed

text \<open>The number of digits an operand has as a long integer.\<close>

fun ndig :: "aint \<Rightarrow> nat" where
  "ndig (AShort w) = (if \<bar>short_val w\<bar> < 2 ^ 32 then 1 else 2)"
| "ndig (ALong li) = li_len li"

fun is_long :: "aint \<Rightarrow> bool" where
  "is_long (ALong _) = True"
| "is_long (AShort _) = False"

lemma norm_long_neg: "norm_int (ALong li) \<Longrightarrow> li_neg li \<longleftrightarrow> li_value li < 0"
  using norm_long_nonzero [of li] by (auto simp: li_value_def)

lemma meets_coerce_left:
  "meets Q (ACoerce (AShort a) (ALong b))
     (\<lambda>(l, r). \<exists>li. l = ALong li \<and> r = ALong b \<and> operand li \<and> li_value li = short_val a
        \<and> li_len li = ndig (AShort a) \<and> li_neg li = (short_val a < 0))"
  unfolding ACoerce.simps
  by (rule meets_bind [OF meets_ACreateLongIntFromIntND], rule meets_ret)
    (auto simp: coerced_def sint_AValueToInt operand_def)

lemma meets_coerce_right:
  "meets Q (ACoerce (ALong a) (AShort b))
     (\<lambda>(l, r). \<exists>li. l = ALong a \<and> r = ALong li \<and> operand li \<and> li_value li = short_val b
        \<and> li_len li = ndig (AShort b) \<and> li_neg li = (short_val b < 0))"
  unfolding ACoerce.simps
  by (rule meets_bind [OF meets_ACreateLongIntFromIntND], rule meets_ret)
    (auto simp: coerced_def sint_AValueToInt operand_def)

lemma meets_AAddInts:
  assumes "norm_int a" "norm_int b"
  shows "meets Q (AAddInts a b) (returns_int (int_value a + int_value b))"
proof (cases a)
  case (AShort x)
  show ?thesis
  proof (cases b)
    case (AShort y)
    with \<open>a = AShort x\<close> assms meets_add_short [of x y Q] show ?thesis by (simp add: short_val_def)
  next
    case (ALong y)
    then have y: "operand y" "2 \<le> li_len y" using assms(2) operand_norm by auto
    show ?thesis
      unfolding AShort ALong AAddInts.simps
    proof (rule meets_bind [OF meets_coerce_left], clarify)
      fix li assume "operand li" "li_value li = short_val x"
      then show "meets Q (AddSame (ALong li) (ALong y)) (returns_int (int_value (AShort x) + int_value (ALong y)))"
        using meets_AAddLongInt [of li y Q] y by (simp add: short_val_def)
    qed
  qed
next
  case (ALong x)
  then have x: "operand x" "2 \<le> li_len x" using assms(1) operand_norm by auto
  show ?thesis
  proof (cases b)
    case (AShort y)
    show ?thesis
      unfolding AShort ALong AAddInts.simps
    proof (rule meets_bind [OF meets_coerce_right], clarify)
      fix li assume "operand li" "li_value li = short_val y"
      then show "meets Q (AddSame (ALong x) (ALong li)) (returns_int (int_value (ALong x) + int_value (AShort y)))"
        using meets_AAddLongInt [of x li Q] x by (simp add: short_val_def)
    qed
  next
    case (ALong y)
    with \<open>a = ALong x\<close> x assms operand_norm [of y] show ?thesis
      using meets_AAddLongInt [of x y Q] by simp
  qed
qed

definition sub_result :: "aint \<Rightarrow> aint \<Rightarrow> int" where
  "sub_result a b =
     (if (is_long a \<or> is_long b) \<and> (int_value a < 0) \<noteq> (int_value b < 0) \<and> ndig a < ndig b
      then int_value b - int_value a else int_value a - int_value b)"

lemma meets_ASubInts:
  assumes "norm_int a" "norm_int b"
  shows "meets Q (ASubInts a b) (returns_int (sub_result a b))"
proof (cases a)
  case (AShort x)
  show ?thesis
  proof (cases b)
    case (AShort y)
    with \<open>a = AShort x\<close> assms meets_sub_short [of x y Q] show ?thesis
      by (simp add: short_val_def sub_result_def)
  next
    case (ALong y)
    then have y: "operand y" "2 \<le> li_len y" "li_neg y \<longleftrightarrow> li_value y < 0"
      using assms(2) operand_norm norm_long_neg by auto
    show ?thesis
      unfolding AShort ALong ASubInts.simps
    proof (rule meets_bind [OF meets_coerce_left], clarify)
      fix li assume li: "operand li" "li_value li = short_val x" "li_len li = ndig (AShort x)"
        "li_neg li = (short_val x < 0)"
      then have "meets Q (ASubLongInt li y) (returns_int
         (if li_neg li \<noteq> li_neg y \<and> li_len li < li_len y then li_value y - li_value li
          else li_value li - li_value y))"
        using y by (intro meets_ASubLongInt) auto
      moreover have "sub_result (AShort x) (ALong y) =
         (if li_neg li \<noteq> li_neg y \<and> li_len li < li_len y then li_value y - li_value li
          else li_value li - li_value y)"
        using li y by (simp add: sub_result_def short_val_def del: ndig.simps(1))
      ultimately show "meets Q (SubSame (ALong li) (ALong y)) (returns_int (sub_result (AShort x) (ALong y)))"
        by simp
    qed
  qed
next
  case (ALong x)
  then have x: "operand x" "2 \<le> li_len x" "li_neg x \<longleftrightarrow> li_value x < 0"
    using assms(1) operand_norm norm_long_neg by auto
  show ?thesis
  proof (cases b)
    case (AShort y)
    show ?thesis
      unfolding AShort ALong ASubInts.simps
    proof (rule meets_bind [OF meets_coerce_right], clarify)
      fix li assume li: "operand li" "li_value li = short_val y" "li_len li = ndig (AShort y)"
        "li_neg li = (short_val y < 0)"
      then have "meets Q (ASubLongInt x li) (returns_int
         (if li_neg x \<noteq> li_neg li \<and> li_len x < li_len li then li_value li - li_value x
          else li_value x - li_value li))"
        using x by (intro meets_ASubLongInt) auto
      moreover have "sub_result (ALong x) (AShort y) =
         (if li_neg x \<noteq> li_neg li \<and> li_len x < li_len li then li_value li - li_value x
          else li_value x - li_value li)"
        using li x by (simp add: sub_result_def short_val_def del: ndig.simps(1))
      ultimately show "meets Q (SubSame (ALong x) (ALong li)) (returns_int (sub_result (ALong x) (AShort y)))"
        by simp
    qed
  next
    case (ALong y)
    then have y: "operand y" "li_neg y \<longleftrightarrow> li_value y < 0"
      using assms(2) operand_norm norm_long_neg by auto
    have "meets Q (ASubLongInt x y) (returns_int
         (if li_neg x \<noteq> li_neg y \<and> li_len x < li_len y then li_value y - li_value x
          else li_value x - li_value y))"
      using x y by (intro meets_ASubLongInt) auto
    moreover have "sub_result a b = (if li_neg x \<noteq> li_neg y \<and> li_len x < li_len y
        then li_value y - li_value x else li_value x - li_value y)"
      using \<open>a = ALong x\<close> ALong x y by (simp add: sub_result_def)
    ultimately show ?thesis using \<open>a = ALong x\<close> ALong by simp
  qed
qed

section \<open>Multiplication\<close>

lemma meets_FullLongMul:
  assumes "left = of_int (4 * l)" "right = of_int (4 * r)" "fits_short l" "fits_short r"
    and "\<not> (isNeg \<and> l = - (2 ^ 61))"
  shows "meets Q (FullLongMul isNeg left right) (returns_int ((if isNeg then - l else l) * r))"
proof -
  have vr: "sint (AValueToInt right) = r" and vl: "sint (AValueToInt (if isNeg then - left else left))
      = (if isNeg then - l else l)"
  proof -
    have *: "sint (AValueToInt (of_int (4 * i))) = i" if "fits_short i" for i
      using short_of_int [OF that] by (simp only: AIntToValue_of_int int_value_short sint_AValueToInt)
    show "sint (AValueToInt right) = r" using assms * by simp
    have "(if isNeg then - left else left) = of_int (4 * (if isNeg then - l else l))"
      using assms(1) by simp
    moreover have "fits_short (if isNeg then - l else l)"
      using assms by (auto simp: fits_short_def)
    ultimately show "sint (AValueToInt (if isNeg then - left else left)) = (if isNeg then - l else l)"
      using * by (metis (full_types))
  qed
  have len: "1 \<le> li_len x" "wf_li x" if "operand x" for x using that by (auto simp: operand_def)
  show ?thesis
    unfolding FullLongMul_def Let_def
  proof (rule meets_bind [OF meets_ACreateLongIntFromIntND])
    fix L assume L: "coerced (sint (AValueToInt (if isNeg then - left else left))) L"
    show "meets Q (bindM (ACreateLongIntFromIntND (AValueToInt right))
              (\<lambda>r. the_long L (\<lambda>l. the_long r (\<lambda>r. AMultiplyLongInt l r))))
            (returns_int ((if isNeg then - l else l) * r))"
    proof (rule meets_bind [OF meets_ACreateLongIntFromIntND])
      fix R assume R: "coerced (sint (AValueToInt right)) R"
      from L R show "meets Q (the_long L (\<lambda>l. the_long R (\<lambda>r. AMultiplyLongInt l r)))
          (returns_int ((if isNeg then - l else l) * r))"
        using meets_AMultiplyLongInt [of _ _ Q] len unfolding vl vr coerced_def by fastforce
    qed
  qed
qed

text \<open>Where no allocation fails there is nothing to notice.\<close>

definition enough_mem :: "alloc \<Rightarrow> bool" where
  "enough_mem r \<longleftrightarrow> r \<noteq> AllocFail"

lemma not_enough_mem [simp]: "\<not> enough_mem AllocFail"
  by (simp add: enough_mem_def)

lemma meets_unnoticed:
  assumes "meets Q m P" "\<not> Q AllocFail"
  shows "meets Q (unnoticed m) P"
proof (rule meetsI)
  fix t :: athread assume t: "list_all Q (allocs t)"
  then have "AllocFail \<notin> set (allocs t)" using assms(2) by (auto simp: list_all_iff)
  then obtain x t' where "m t = (Inr x, t')" using meets_returns [OF assms(1) t] by blast
  then show "outcome_ok P t (unnoticed m t)" using meetsD [OF assms(1) t] by (simp add: unnoticed_def)
qed

lemma meets_ShortLongMul:
  assumes "left = of_int (4 * l)" "right = of_int (4 * r)" "fits_short l" "0 \<le> l"
    and r: "0 \<le> r" "r < 2 ^ 32" and big: "if isNeg then 2 ^ 61 < l * r else 2 ^ 61 \<le> l * r"
    and mem: "\<not> Q AllocFail"
  shows "meets Q (ShortLongMul isNeg left right) (returns_int (if isNeg then - (l * r) else l * r))"
proof -
  have vl: "sint (AValueToInt left) = l"
    using short_of_int [OF assms(3)] assms(1)
    by (simp only: AIntToValue_of_int int_value_short sint_AValueToInt)
  have fr: "fits_short r" using r by (simp add: fits_short_def)
  have "sint (AValueToInt right) = r"
    using short_of_int [OF fr] assms(2)
    by (simp only: AIntToValue_of_int int_value_short sint_AValueToInt)
  then have u: "int (unat (AValueToInt right)) = r" using unat_of_sint r(1) by simp
  have "r < 4294967296" using r(2) by simp
  then have "unat (AValueToInt right) < 4294967296" using u by linarith
  then have "unat (AValueToInt right) < 2 ^ 32" by simp
  then have ur: "int (unat (ucast (AValueToInt right) :: digit)) = r" using u ucast_small by metis
  show ?thesis
    unfolding ShortLongMul_def
  proof (rule meets_bind [OF meets_ACreateLongIntFromIntND], unfold vl)
    fix L assume "coerced l L"
    then obtain li where li: "L = ALong li" "operand li" "li_value li = l" "\<not> li_neg li"
      using \<open>0 \<le> l\<close> by (auto simp: coerced_def)
    then have dl: "int (digs_val (digits li)) = l" by (simp add: li_value_def)
    have "meets Q (bindM (unnoticed (AMulAddSingle li (ucast (AValueToInt right)) 0))
          (\<lambda>prod. ret (ALong (if isNeg then ASetLongIntSign prod else prod))))
          (returns_int (if isNeg then - (l * r) else l * r))"
    proof (rule meets_bind [OF meets_unnoticed [where Q = Q, OF meets_AMulAddSingle mem]], goal_cases)
      case (3 p)
      let ?n = "digs_val (digits li) * unat (ucast (AValueToInt right) :: digit) + unat (0 :: digit)"
      have n: "int ?n = l * r" using dl ur by simp
      have p: "magnitude ?n p" "\<not> li_neg p" using 3 by (auto simp: magnitude_def)
      have "2 ^ 61 \<le> l * r" using big by (auto split: if_splits)
      then have "int (2 ^ 61) \<le> int ?n" unfolding n by simp
      then have ge: "2 ^ 61 \<le> ?n" by (simp only: of_nat_le_iff)
      have len: "2 \<le> li_len p"
      proof (rule ccontr)
        assume "\<not> 2 \<le> li_len p"
        then have "length (digits p) \<le> 1" using p by (auto simp: magnitude_def)
        then have "(2::nat) ^ (32 * length (digits p)) \<le> 2 ^ 32" by (intro power_increasing) auto
        then show False using digs_val_less [of "digits p"] p ge by (simp add: magnitude_def)
      qed
      have v: "li_value (p\<lparr>li_neg := isNeg\<rparr>) = (if isNeg then - (l * r) else l * r)"
        using p n by (simp add: li_value_def magnitude_def)
      have "\<not> fits_short (if isNeg then - (l * r) else l * r)"
        using big by (auto simp: fits_short_def split: if_splits)
      with p len v have "returns_int (if isNeg then - (l * r) else l * r) (ALong (p\<lparr>li_neg := isNeg\<rparr>))"
        by (simp add: returns_int_def magnitude_def)
      then show ?case using p(2) by (auto simp: set_sign intro!: meets_ret)
    qed (use li in \<open>auto simp: operand_def\<close>)
    then show "meets Q (the_long L (\<lambda>l. bindM (unnoticed (AMulAddSingle l (ucast (AValueToInt right)) 0))
          (\<lambda>prod. ret (ALong (if isNeg then ASetLongIntSign prod else prod)))))
          (returns_int (if isNeg then - (l * r) else l * r))"
      by (simp add: li)
  qed
qed

text \<open>
  The overflow test for a negative product looks at the low 31 bits of the tagged larger
  operand, that is at its low 29 bits only.  \<open>mul_hole\<close> describes the magnitudes for which
  the test therefore misses an overflow.
\<close>

definition mul_hole :: "nat \<Rightarrow> nat \<Rightarrow> bool" where
  "mul_hole l r \<longleftrightarrow> 2 ^ 61 < l * r \<and> r < 2 ^ 31 \<and> l div 2 ^ 31 * r \<le> 2 ^ 30 \<and> 2 ^ 29 dvd l"

lemma factor_power2: "(l :: nat) * r = 2 ^ n \<Longrightarrow> \<exists>k. l = 2 ^ k"
proof (induction n arbitrary: l r)
  case 0
  then show ?case by (auto intro: exI [of _ 0])
next
  case (Suc n)
  then have "even (l * r)" by simp
  then consider l' where "l = 2 * l'" | r' where "r = 2 * r'" by (auto elim!: evenE)
  then show ?case
  proof cases
    case 1
    with Suc.prems have "l' * r = 2 ^ n" by simp
    then obtain k where "l' = 2 ^ k" using Suc.IH by blast
    with 1 have "l = 2 ^ Suc k" by simp
    then show ?thesis by blast
  next
    case 2
    with Suc.prems have "l * r' = 2 ^ n" by simp
    then show ?thesis using Suc.IH by blast
  qed
qed

lemma exact_product_dvd:
  assumes "l * r = 2 ^ 61" and "r < 2 ^ 31" shows "(2 :: nat) ^ 29 dvd l"
proof -
  obtain k where k: "l = 2 ^ k" using factor_power2 [OF assms(1)] by blast
  have "29 \<le> k"
  proof (rule ccontr)
    assume "\<not> 29 \<le> k"
    then have "l \<le> 2 ^ 28" unfolding k by (intro power_increasing) auto
    then have "l * r \<le> 2 ^ 28 * 2 ^ 31" using assms(2) by (intro mult_le_mono) auto
    then show False using assms(1) by simp
  qed
  then show ?thesis unfolding k by (rule le_imp_power_dvd)
qed

lemma unat_of_nat_64: "n < 18446744073709551616 \<Longrightarrow> unat (of_nat n :: 64 word) = n"
  by (simp add: unsigned_of_nat take_bit_nat_eq_self_iff)

lemma unat_AHi: "unat (AHi v) = unat v div 8589934592"
  by (simp add: AHi_def drop_bit_eq_div unat_div_distrib)

lemma unat_ALo: "unat (ALo v) = unat v mod 2147483648"
proof -
  have "ALo v = take_bit 31 v" by (simp add: ALo_def take_bit_eq_mask mask_eq_exp_minus_1)
  then show ?thesis by (simp add: take_bit_eq_mod unat_mod_distrib)
qed

lemma AValueToInt_of_nat:
  assumes "n < 2305843009213693952" shows "AValueToInt (of_nat (4 * n)) = of_nat n"
proof -
  have "fits_short (int n)" using assms by (simp add: fits_short_def)
  from short_of_int [OF this] have "short_val (of_int (4 * int n)) = int n"
    by (simp only: AIntToValue_of_int int_value_short)
  then have "AValueToInt (of_int (4 * int n)) = of_int (int n)" by (simp only: AValueToInt_of_int)
  then show ?thesis by simp
qed

lemma half_overflow_iff:
  assumes l: "l < 2305843009213693952" and r: "r < 2147483648"
  shows "AIsIntTimesHalfIntOverflow (of_nat (4 * l)) (of_nat (4 * r)) isNeg \<longleftrightarrow>
     2305843009213693952 \<le> l * r \<and>
     (\<not> isNeg \<or> 1073741824 < l div 2147483648 * r \<or> \<not> 536870912 dvd l)"
proof -
  let ?h = "l div 2147483648"
  have hb: "?h < 1073741824" using l by (simp add: div_less_iff_less_mult)
  have hr: "?h * r \<le> 1073741824 * 2147483648" using hb r by (intro mult_le_mono) auto
  have vr: "AValueToInt (of_nat (4 * r)) = of_nat r" using r by (intro AValueToInt_of_nat) simp
  have vl: "AValueToInt (of_nat (4 * l)) = of_nat l" using l by (intro AValueToInt_of_nat)
  have ul: "unat (of_nat (4 * l) :: 64 word) = 4 * l" using l by (intro unat_of_nat_64) simp
  have "unat (AHi (of_nat (4 * l))) = ?h" by (simp only: unat_AHi ul)
  moreover have "of_nat (unat (AHi (of_nat (4 * l)))) = AHi (of_nat (4 * l))" by simp
  ultimately have hi: "AHi (of_nat (4 * l)) = of_nat ?h" by simp
  have "AHi (of_nat (4 * l)) * AValueToInt (of_nat (4 * r)) = of_nat (?h * r)"
    by (simp only: hi vr of_nat_mult [of ?h])
  moreover have "unat (of_nat (?h * r) :: 64 word) = ?h * r" using hr by (intro unat_of_nat_64) simp
  ultimately have hp: "unat (AHi (of_nat (4 * l)) * AValueToInt (of_nat (4 * r))) = ?h * r" by simp
  have lo: "ALo (of_nat (4 * l)) \<noteq> 0 \<longleftrightarrow> \<not> 536870912 dvd l"
  proof -
    have "ALo (of_nat (4 * l)) = 0 \<longleftrightarrow> (4 * l) mod 2147483648 = 0"
      using unat_ALo [of "of_nat (4 * l)"] by (simp only: ul word_unat_eq_iff) simp
    also have "\<dots> \<longleftrightarrow> 4 * 536870912 dvd 4 * l" by (simp only: mod_eq_0_iff_dvd) simp
    also have "\<dots> \<longleftrightarrow> 536870912 dvd l" by (subst nat_mult_dvd_cancel1) auto
    finally show ?thesis by simp
  qed
  have split: "l = 2147483648 * ?h + l mod 2147483648" by simp
  have lr: "l * r = 2147483648 * (?h * r) + l mod 2147483648 * r"
    using arg_cong [OF split, of "\<lambda>x. x * r"] by (simp only: distrib_right mult.assoc)
  have lm: "l mod 2147483648 * r \<le> 2147483648 * 2147483648" using r by (intro mult_le_mono) auto
  have first: "(1073741824 \<le> ?h * r \<or>
      sint (of_nat l * of_nat r :: 64 word) \<ge> 2305843009213693952) \<longleftrightarrow> 2305843009213693952 \<le> l * r"
  proof (cases "1073741824 \<le> ?h * r")
    case True
    then have "2305843009213693952 \<le> l * r" using lr by linarith
    with True show ?thesis by simp
  next
    case False
    then have small: "l * r < 9223372036854775808" using lr lm by linarith
    have "sint (of_int (int (l * r)) :: 64 word) = int (l * r)"
      using small by (intro sint_of_int_64) linarith+
    then have "sint (of_nat l * of_nat r :: 64 word) = int (l * r)" by simp
    with False show ?thesis by linarith
  qed
  have k: "unat (push_bit 30 1 :: 64 word) = 1073741824"
    "sint (push_bit 61 1 :: 64 word) = 2305843009213693952" by simp_all
  show ?thesis
    unfolding AIsIntTimesHalfIntOverflow_def word_le_nat_alt word_less_nat_alt hp
    unfolding k lo vl vr using first by auto
qed


lemma hole_or_exact:
  assumes "2 ^ 61 \<le> l * r" "r < 2 ^ 31"
  shows "mul_hole l r \<or> (l * r = 2 ^ 61 \<and> l div 2147483648 * r \<le> 1073741824 \<and> 536870912 dvd l)
     \<or> 2 ^ 61 < l * r \<and> (1073741824 < l div 2147483648 * r \<or> \<not> 536870912 dvd l)"
proof (cases "l * r = 2 ^ 61")
  case True
  have "l div 2147483648 * 2147483648 \<le> l" by simp
  then have "l div 2147483648 * 2147483648 * r \<le> l * r" by (rule mult_le_mono1)
  then have "l div 2147483648 * r * 2147483648 \<le> 1073741824 * 2147483648"
    using True by (simp add: algebra_simps)
  then have "l div 2147483648 * r \<le> 1073741824" by (simp only: mult_le_cancel2)
  with True exact_product_dvd [OF True assms(2)] show ?thesis by simp
next
  case False
  with assms show ?thesis by (auto simp: mul_hole_def)
qed

lemma short_product:
  assumes "l * r < 2 ^ 61 \<or> isNeg \<and> l * r = 2 ^ 61"
  shows "returns_int (if isNeg then - int (l * r) else int (l * r))
     (AShort (if isNeg then - (of_nat l * of_nat (4 * r)) else of_nat l * of_nat (4 * r)))"
proof (rule returns_short)
  have "(of_nat l * of_nat (4 * r) :: 64 word) = of_int (4 * int (l * r))"
    by (simp add: algebra_simps)
  then show "(if isNeg then - (of_nat l * of_nat (4 * r)) else of_nat l * of_nat (4 * r)) =
     (of_int (4 * (if isNeg then - int (l * r) else int (l * r))) :: 64 word)"
    by (simp only: mult_minus_right of_int_minus split: if_splits) simp
  have "l * r < 2305843009213693952 \<or> isNeg \<and> l * r = 2305843009213693952" using assms by simp
  then have "int (l * r) < 2305843009213693952 \<or> isNeg \<and> int (l * r) = 2305843009213693952"
    by linarith
  then show "fits_short (if isNeg then - int (l * r) else int (l * r))"
    using of_nat_0_le_iff [of "l * r"] by (simp only: fits_short_def) (auto simp del: of_nat_mult)
qed

lemma AHi_of_nat: "l < 2305843009213693952 \<Longrightarrow> AHi (of_nat (4 * l)) = 0 \<longleftrightarrow> l < 2147483648"
proof -
  assume l: "l < 2305843009213693952"
  have ul: "unat (of_nat (4 * l) :: 64 word) = 4 * l" using l by (intro unat_of_nat_64) simp
  have "AHi (of_nat (4 * l)) = 0 \<longleftrightarrow> unat (AHi (of_nat (4 * l))) = 0" by (simp add: word_unat_eq_iff)
  also have "\<dots> \<longleftrightarrow> l < 2147483648" unfolding unat_AHi ul by auto
  finally show ?thesis .
qed

lemma mul_ordered:
  assumes l: "l < 2305843009213693952" and rl: "r \<le> l" and hole: "\<not> (isNeg \<and> mul_hole l r)"
    and left: "left = of_nat (4 * l)" and right: "right = of_nat (4 * r)" and mem: "\<not> Q AllocFail"
  shows "meets Q (if AHi right \<noteq> 0 then FullLongMul isNeg left right
         else if AIsIntTimesHalfIntOverflow left right isNeg then ShortLongMul isNeg left right
         else let prod = AValueToInt left * right
              in ret (AShort (if isNeg then - prod else prod)))
     (returns_int (if isNeg then - int (l * r) else int (l * r)))"
proof -
  have il: "left = of_int (4 * int l)" and ir: "right = of_int (4 * int r)"
    unfolding left right by simp_all
  have fl: "fits_short (int l)" and fr: "fits_short (int r)"
    using l rl by (simp_all add: fits_short_def)
  have hi: "AHi right = 0 \<longleftrightarrow> r < 2147483648" unfolding right using l rl by (intro AHi_of_nat) simp
  show ?thesis
  proof (cases "r < 2147483648")
    case False
    have "meets Q (FullLongMul isNeg left right) (returns_int ((if isNeg then - int l else int l) * int r))"
      using il ir fl fr by (intro meets_FullLongMul) auto
    moreover have "(if isNeg then - int l else int l) * int r = (if isNeg then - int (l * r) else int (l * r))"
      by simp
    ultimately show ?thesis using False hi by (simp only: if_True simp_thms)
  next
    case True
    note ov = half_overflow_iff [OF l True, of isNeg, folded left right]
    show ?thesis
    proof (cases "AIsIntTimesHalfIntOverflow left right isNeg")
      case ovt: True
      then have lr: "2 ^ 61 \<le> l * r" using ov by simp
      have "isNeg \<Longrightarrow> 2 ^ 61 < l * r"
        using hole_or_exact [OF lr] True hole ov ovt by auto
      with lr have "isNeg \<Longrightarrow> 2 ^ 61 < int l * int r" "2 ^ 61 \<le> int l * int r"
        by (simp_all flip: of_nat_mult)
      then have "meets Q (ShortLongMul isNeg left right)
          (returns_int (if isNeg then - (int l * int r) else int l * int r))"
        using il ir fl True mem by (intro meets_ShortLongMul) auto
      then show ?thesis using True hi ovt by (cases isNeg) simp_all
    next
      case ovf: False
      have "l * r < 2 ^ 61 \<or> isNeg \<and> l * r = 2 ^ 61"
      proof (cases "2 ^ 61 \<le> l * r")
        case ge: True
        then show ?thesis using hole_or_exact [OF ge] True hole ov ovf by auto
      qed simp
      note sp = short_product [OF this]
      have "AValueToInt left = of_nat l" unfolding left using l by (rule AValueToInt_of_nat)
      with sp show ?thesis using True hi ovf right by (auto intro!: meets_ret simp: Let_def)
    qed
  qed
qed

lemma meets_MulMagnitudes:
  assumes l: "l < 2305843009213693952" and r: "r < 2305843009213693952"
    and hole: "\<not> (isNeg \<and> mul_hole (max l r) (min l r))"
    and left: "left = of_nat (4 * l)" and right: "right = of_nat (4 * r)" and mem: "\<not> Q AllocFail"
  shows "meets Q (MulMagnitudes isNeg left right)
     (returns_int (if isNeg then - int (l * r) else int (l * r)))"
proof -
  have u: "unat left = 4 * l" "unat right = 4 * r"
    unfolding left right using l r by (simp_all only: unat_of_nat_64)
  then have gt: "right > left \<longleftrightarrow> r > l" by (simp add: word_less_nat_alt)
  show ?thesis
  proof (cases "r > l")
    case True
    then show ?thesis
      using mul_ordered [of r l isNeg right left Q] r hole left right gt mem
      by (simp add: MulMagnitudes_def mult.commute max_def min_def split: if_splits)
  next
    case False
    then show ?thesis
      using mul_ordered [of l r isNeg left right Q] l hole left right gt mem
      by (simp add: MulMagnitudes_def max_def min_def split: if_splits)
  qed
qed


text \<open>The products that come out wrong: negative, with a missed overflow.\<close>

definition mul_wrong :: "int \<Rightarrow> int \<Rightarrow> bool" where
  "mul_wrong a b \<longleftrightarrow> a * b < 0 \<and> mul_hole (nat (max \<bar>a\<bar> \<bar>b\<bar>)) (nat (min \<bar>a\<bar> \<bar>b\<bar>))"

lemma nat_max_abs: "nat (max \<bar>a\<bar> \<bar>b\<bar>) = max (nat \<bar>a\<bar>) (nat \<bar>b\<bar>)"
  "nat (min \<bar>a\<bar> \<bar>b\<bar>) = min (nat \<bar>a\<bar>) (nat \<bar>b\<bar>)"
  by (auto simp: max_def min_def)

lemma hole_pos: "mul_hole l r \<Longrightarrow> 0 < l \<and> 0 < r"
  by (auto simp: mul_hole_def intro: Nat.gr0I)

lemma meets_MulRight:
  assumes l: "0 \<le> l" "l < 2305843009213693952" and r: "fits_short r"
    and left: "left = of_int (4 * l)" and right: "right = of_int (4 * r)"
    and hole: "\<not> mul_wrong (if isNeg then - l else l) r" and mem: "\<not> Q AllocFail"
  shows "meets Q (MulRight isNeg left right) (returns_int ((if isNeg then - l else l) * r))"
proof -
  have rb: "- 2305843009213693952 \<le> r" "r < 2305843009213693952" using r by (simp_all add: fits_short_def)
  have sr: "sint right = 4 * r" unfolding right using rb by (intro sint_of_int_64) linarith+
  have nr: "- right = of_int (4 * - r)" unfolding right by simp
  have fl: "fits_short l" using l by (simp add: fits_short_def)
  have ln: "left = of_nat (4 * nat l)" unfolding left using l by simp
  have mags: "meets Q (MulMagnitudes s left (of_nat (4 * nat \<bar>r\<bar>))) (returns_int v)"
    if "\<bar>r\<bar> < 2305843009213693952" "v = (if s then - (l * \<bar>r\<bar>) else l * \<bar>r\<bar>)"
      "s \<Longrightarrow> 0 < l \<Longrightarrow> r \<noteq> 0 \<Longrightarrow> (if isNeg then - l else l) * r < 0" for s v
  proof -
    have "\<not> (s \<and> mul_hole (max (nat l) (nat \<bar>r\<bar>)) (min (nat l) (nat \<bar>r\<bar>)))"
    proof
      assume a: "s \<and> mul_hole (max (nat l) (nat \<bar>r\<bar>)) (min (nat l) (nat \<bar>r\<bar>))"
      then have "0 < min (nat l) (nat \<bar>r\<bar>)" using hole_pos by blast
      then have "0 < l" "r \<noteq> 0" by auto
      with a that(3) have "(if isNeg then - l else l) * r < 0" by blast
      with a hole l show False by (auto simp: mul_wrong_def nat_max_abs split: if_splits)
    qed
    then have "meets Q (MulMagnitudes s left (of_nat (4 * nat \<bar>r\<bar>)))
        (returns_int (if s then - int (nat l * nat \<bar>r\<bar>) else int (nat l * nat \<bar>r\<bar>)))"
      using l that(1) ln mem by (intro meets_MulMagnitudes) auto
    moreover have "(if s then - int (nat l * nat \<bar>r\<bar>) else int (nat l * nat \<bar>r\<bar>)) = v"
      using that(2) l by simp
    ultimately show ?thesis by simp
  qed
  consider (pos) "0 \<le> r" | (minv) "r = - 2305843009213693952" | (neg) "- 2305843009213693952 < r" "r < 0"
    using rb by linarith
  then show ?thesis
  proof cases
    case pos
    then have "right = of_nat (4 * nat \<bar>r\<bar>)" unfolding right by simp
    moreover have "meets Q (MulMagnitudes isNeg left (of_nat (4 * nat \<bar>r\<bar>)))
        (returns_int ((if isNeg then - l else l) * r))"
      using pos rb by (intro mags) (auto simp: mult_neg_pos)
    ultimately show ?thesis using pos sr by (simp add: MulRight_def)
  next
    case neg
    have "sint (- right) = 4 * - r" unfolding nr using neg by (intro sint_of_int_64) linarith+
    moreover have "- right = of_nat (4 * nat \<bar>r\<bar>)" unfolding nr using neg by simp
    moreover have "meets Q (MulMagnitudes (\<not> isNeg) left (of_nat (4 * nat \<bar>r\<bar>)))
        (returns_int ((if isNeg then - l else l) * r))"
      using neg by (intro mags) (auto simp: mult_pos_neg)
    ultimately show ?thesis using neg sr by (simp add: MulRight_def)
  next
    case minv
    have mr: "- right = right" unfolding right minv by simp
    have u: "unat left = 4 * nat l" unfolding ln using l by (intro unat_of_nat_64) simp
    have le1: "left \<le> AIntToValue 1 \<longleftrightarrow> l \<le> 1"
      using u l by (simp add: word_le_nat_alt AIntToValue_def nat_le_iff)
    have "meets Q (FullLongMul isNeg left right) (returns_int ((if isNeg then - l else l) * r))"
      using left right fl r l by (intro meets_FullLongMul) auto
    moreover have "returns_int (l * r) (AShort (left * AValueToInt right))" if "l \<le> 1"
    proof (rule returns_short)
      have "l = 0 \<or> l = 1" using that l by linarith
      then show "fits_short (l * r)" using r by (auto simp: fits_short_def)
      have "short_val right = r" unfolding short_val_def sr by simp
      then show "left * AValueToInt right = of_int (4 * (l * r))"
        unfolding AValueToInt_of_int left by simp
    qed
    moreover have "sint right < 0" using sr minv by simp
    ultimately show ?thesis unfolding MulRight_def mr le1 by (simp add: meets_ret)
  qed
qed

lemma AHi_zero_nonneg:
  assumes "AHi w = 0" "w AND 3 = 0" shows "0 \<le> short_val w \<and> short_val w < 2147483648"
proof -
  have "unat (AHi w) = 0" using assms by simp
  then have u: "unat w < 8589934592" unfolding unat_AHi by simp
  then have "sint w = int (unat w)" by (simp only: sint_unat) simp
  with u tagged_sint [OF assms(2)] show ?thesis by linarith
qed

lemma meets_AMultiplyShortInt:
  assumes a: "left AND 3 = 0" and b: "right AND 3 = 0"
    and ok: "\<not> mul_wrong (short_val left) (short_val right)" and mem: "\<not> Q AllocFail"
  shows "meets Q (AMultiplyShortInt left right) (returns_int (short_val left * short_val right))"
proof -
  let ?l = "short_val left" and ?r = "short_val right"
  note bd = short_val_bounds [of left] short_val_bounds [of right]
  note tl = tagged_of_int [OF a] and tr = tagged_of_int [OF b]
  note fl = fits_short_val [of left] and fr = fits_short_val [of right]
  have sl: "sint left = 4 * ?l" and sr: "sint right = 4 * ?r" using a b tagged_sint by auto
  show ?thesis
  proof (cases "AHi left = 0 \<and> AHi right = 0")
    case True
    then have l: "0 \<le> ?l" "?l < 2147483648" and r: "0 \<le> ?r" "?r < 2147483648"
      using AHi_zero_nonneg a b by auto
    have p: "AValueToInt left * right = of_int (4 * (?l * ?r))"
    proof -
      have "AValueToInt left * of_int (4 * ?r) = of_int (4 * (?l * ?r))" by (simp add: AValueToInt_of_int)
      then show ?thesis using tr by metis
    qed
    have m: "0 \<le> ?l * ?r" "?l * ?r \<le> 2147483647 * 2147483647"
      using l r by (intro mult_nonneg_nonneg mult_mono; simp)+
    have s: "sint (AValueToInt left * right) = (if 4 * (?l * ?r) < 9223372036854775808 then 4 * (?l * ?r)
        else 4 * (?l * ?r) - 18446744073709551616)"
      unfolding p using m by (subst sint_wrap_cases) auto
    show ?thesis
    proof (cases "?l * ?r < 2305843009213693952")
      case small: True
      then have "fits_short (?l * ?r)" using m by (simp add: fits_short_def)
      then have "returns_int (?l * ?r) (AShort (AValueToInt left * right))"
        using p by (intro returns_short) auto
      moreover have "\<not> sint (AValueToInt left * right) < 0" using s small m by simp
      ultimately show ?thesis using True by (simp add: AMultiplyShortInt_def meets_ret)
    next
      case False
      then have "sint (AValueToInt left * right) < 0" using s m by simp
      moreover have "meets Q (ShortLongMul False left right)
          (returns_int (if False then - (?l * ?r) else ?l * ?r))"
        using False l r fl tl tr mem by (intro meets_ShortLongMul) auto
      ultimately show ?thesis using True by (simp add: AMultiplyShortInt_def)
    qed
  next
    case hi: False
    consider (pos) "0 \<le> ?l" | (minv) "?l = - 2305843009213693952" | (neg) "- 2305843009213693952 < ?l" "?l < 0"
      using bd by linarith
    then show ?thesis
    proof cases
      case pos
      have "meets Q (MulRight False left right) (returns_int ((if False then - ?l else ?l) * ?r))"
        using pos bd fr tl tr ok mem by (intro meets_MulRight) auto
      then show ?thesis using pos hi sl by (simp add: AMultiplyShortInt_def)
    next
      case neg
      have nl: "- left = of_int (4 * - ?l)" by (subst tl) simp
      have "sint (- left) = 4 * - ?l" unfolding nl using neg by (intro sint_of_int_64) linarith+
      moreover have "meets Q (MulRight True (- left) right) (returns_int ((if True then - (- ?l) else - ?l) * ?r))"
        using neg bd fr nl tr ok mem by (intro meets_MulRight) auto
      ultimately show ?thesis using neg hi sl by (simp add: AMultiplyShortInt_def)
    next
      case minv
      have ml: "- left = left" by (subst (1 2) tl) (simp add: minv)
      have "meets Q (FullLongMul False left right) (returns_int ((if False then - ?l else ?l) * ?r))"
        using fl fr tl tr by (intro meets_FullLongMul) auto
      moreover have "returns_int (?l * ?r) (AShort (left * AValueToInt right))" if le: "right \<le> AIntToValue 1"
      proof (rule returns_short)
        have "unat right \<le> 4" using le by (simp add: word_le_nat_alt AIntToValue_def)
        moreover from this have "unat right < 9223372036854775808" by linarith
        then have "sint right = int (unat right)" by (simp only: sint_unat) simp
        ultimately have "4 * ?r \<le> 4" "0 \<le> 4 * ?r" using sr by linarith+
        then have "?r = 0 \<or> ?r = 1" by linarith
        then show "fits_short (?l * ?r)" using fl by (auto simp: fits_short_def)
        show "left * AValueToInt right = of_int (4 * (?l * ?r))"
          by (subst tl) (simp add: AValueToInt_of_int)
      qed
      moreover have "sint left < 0" using sl minv by simp
      ultimately show ?thesis using hi unfolding AMultiplyShortInt_def ml by (simp add: meets_ret)
    qed
  qed
qed


section \<open>Division\<close>

lemma AValueToInt_tagged: "AValueToInt (of_int (4 * i)) = of_int i" if "fits_short i"
  using short_of_int [OF that] by (simp only: AIntToValue_of_int int_value_short AValueToInt_of_int)

lemma cdiv_nonneg:
  assumes "0 \<le> a" "a < 9223372036854775808" "0 < b" "b < 9223372036854775808"
  shows "cdiv (of_int a) (of_int b) = of_int (a div b)"
proof -
  have "sint (of_int a :: 64 word) = a" "sint (of_int b :: 64 word) = b"
    using assms by (simp_all add: sint_of_int_64 del: of_int_numeral)
  moreover have "a sdiv b = a div b" using assms by (simp add: signed_divide_int_def sgn_if zdiv_int)
  ultimately show ?thesis by (simp add: cdiv_def)
qed

text \<open>Clearing the two tag bits of a word rounds it down to a multiple of four.\<close>

lemma clear_tag: "(of_int i :: 64 word) AND NOT 3 = of_int (4 * (i div 4))"
proof -
  have "i AND NOT (mask 2) = push_bit 2 (drop_bit 2 i)"
    by (rule bit_eqI) (auto simp: bit_simps simp flip: Suc_diff_le numeral_2_eq_2)
  also have "\<dots> = 4 * (i div 4)" by (simp add: push_bit_eq_mult drop_bit_eq_div)
  finally have "i AND NOT 3 = 4 * (i div 4)" by (simp add: mask_eq_exp_minus_1)
  moreover have "(of_int i :: 64 word) AND NOT 3 = of_int (i AND NOT 3)"
    by (rule bit_word_eqI) (simp add: bit_and_iff bit_word_of_int_iff)
  ultimately show ?thesis by simp
qed

lemma div_fits_short:
  assumes "fits_short l" "fits_short r" "r \<noteq> 0" "\<not> (l = - 2305843009213693952 \<and> r = - 1)"
  shows "fits_short (l div r)"
proof -
  have b: "- 2305843009213693952 \<le> l" "l < 2305843009213693952" using assms by (auto simp: fits_short_def)
  have eq: "l = r * (l div r) + l mod r" by simp
  consider "1 < r" | "r = 1" | "r = - 1" | "r < - 1" using assms(3) by linarith
  then have "- 2305843009213693952 \<le> l div r \<and> l div r < 2305843009213693952"
  proof cases
    case 1
    then have "0 \<le> l mod r" "l mod r < r" by auto
    have "l div r \<le> \<bar>l\<bar> div r" using 1 by (intro zdiv_mono1) auto
    moreover have "\<bar>l\<bar> div r \<le> \<bar>l\<bar> div 2" using 1 by (intro zdiv_mono2) auto
    moreover have "- 2305843009213693952 div r \<le> l div r" using 1 b by (intro zdiv_mono1) auto
    moreover have "- 2305843009213693952 div 1 \<le> - 2305843009213693952 div r"
      using 1 by (intro zdiv_mono2_neg) auto
    ultimately show ?thesis using b by (simp only: div_by_1) linarith
  next
    case 4
    have "l div r = (- l) div (- r)" by simp
    moreover have "(- l) div (- r) \<le> \<bar>l\<bar> div (- r)" using 4 by (intro zdiv_mono1) auto
    moreover have "\<bar>l\<bar> div (- r) \<le> \<bar>l\<bar> div 2" using 4 by (intro zdiv_mono2) auto
    moreover have "- 2305843009213693952 div (- r) \<le> (- l) div (- r)" using 4 b by (intro zdiv_mono1) auto
    moreover have "- 2305843009213693952 div 1 \<le> - 2305843009213693952 div (- r)"
      using 4 by (intro zdiv_mono2_neg) auto
    ultimately show ?thesis using b by (simp only: div_by_1) linarith
  qed (use b assms in auto)
  then show ?thesis by (simp add: fits_short_def)
qed

definition div_tail :: "avalue \<Rightarrow> avalue \<Rightarrow> avalue \<Rightarrow> (aint \<times> avalue) rt" where
  "div_tail left right quot =
     (let md = left - quot * AValueToInt right
      in if (sint md < 0 \<and> sint right > 0) \<or> (sint md > 0 \<and> sint right < 0)
         then ret (AShort (quot - AIntToValue 1), md + right)
         else ret (AShort quot, md))"

definition returns_div :: "int \<Rightarrow> int \<Rightarrow> aint \<times> avalue \<Rightarrow> bool" where
  "returns_div l r p \<longleftrightarrow> returns_int (l div r) (fst p) \<and> returns_int (l mod r) (AShort (snd p))"

lemma meets_div_tail:
  assumes l: "fits_short l" and r: "fits_short r" "r \<noteq> 0" and q: "fits_short (l div r)"
    and q0: "q0 = l div r \<or> q0 = l div r + 1 \<and> l mod r \<noteq> 0"
  shows "meets Q (div_tail (of_int (4 * l)) (of_int (4 * r)) (of_int (4 * q0))) (returns_div l r)"
proof -
  define m where "m = l - q0 * r"
  have m: "m = l mod r \<or> m = l mod r - r \<and> l mod r \<noteq> 0"
    using q0 minus_div_mult_eq_mod [of l r] by (auto simp: m_def algebra_simps)
  have rb: "- 2305843009213693952 \<le> r" "r < 2305843009213693952" using r by (auto simp: fits_short_def)
  have mb: "0 < r \<Longrightarrow> 0 \<le> l mod r \<and> l mod r < r" "r < 0 \<Longrightarrow> r < l mod r \<and> l mod r \<le> 0" by auto
  have abs: "\<bar>l mod r\<bar> < \<bar>r\<bar>" using r(2) by (rule abs_mod_less)
  have fm: "fits_short (l mod r)" using abs rb unfolding fits_short_def by simp linarith
  have md: "of_int (4 * l) - of_int (4 * q0) * AValueToInt (of_int (4 * r)) = (of_int (4 * m) :: 64 word)"
    unfolding AValueToInt_tagged [OF r(1)] by (simp add: m_def algebra_simps)
  have "\<bar>m\<bar> < \<bar>r\<bar>" using m mb r(2) by linarith
  then have sm: "sint (of_int (4 * m) :: 64 word) = 4 * m"
    using rb by (intro sint_of_int_64) linarith+
  have sr: "sint (of_int (4 * r) :: 64 word) = 4 * r" using rb by (intro sint_of_int_64) linarith+
  note tail = div_tail_def Let_def md sm sr
  show ?thesis
  proof (cases "m < 0 \<and> r > 0 \<or> m > 0 \<and> r < 0")
    case True
    then have mr: "m \<noteq> l mod r" using mb by linarith
    then have q: "q0 = l div r + 1" using q0 by (auto simp: m_def minus_div_mult_eq_mod)
    have "of_int (4 * q0) - AIntToValue 1 = (of_int (4 * (l div r)) :: 64 word)"
      using AIntToValue_of_int [of 1] by (simp add: q algebra_simps)
    moreover have "of_int (4 * m) + of_int (4 * r) = (of_int (4 * (l mod r)) :: 64 word)"
      using m mr by (simp flip: of_int_add distrib_left)
    ultimately show ?thesis
      unfolding tail using True assms(4) fm by (auto intro!: meets_ret returns_short simp: returns_div_def)
  next
    case False
    then have mr: "m = l mod r" using m mb r(2) by (cases "0 < r") auto
    then have "q0 = l div r" using q0 r(2) minus_div_mult_eq_mod [of l r] by (auto simp: m_def algebra_simps)
    then show ?thesis
      unfolding tail using False assms(4) fm mr by (auto intro!: meets_ret returns_short simp: returns_div_def)
  qed
qed

text \<open>The rounded quotient the code starts from, before the sign correction.\<close>

definition quot0 :: "int \<Rightarrow> int \<Rightarrow> int" where
  "quot0 l r = (if l < 0 then (if r < 0 then (- l) div (- r) else - ((- l) div r))
     else if r < 0 then - ((4 * l) div (- r)) div 4 else (4 * l) div r div 4)"

lemma neg_div: "0 < r \<Longrightarrow> - ((- l) div r) = (if l mod r = 0 then l div r else l div r + 1)" for l r :: int
  by (simp add: zdiv_zminus1_eq_if)

lemma quot0_cases: "r \<noteq> 0 \<Longrightarrow> quot0 l r = l div r \<or> quot0 l r = l div r + 1 \<and> l mod r \<noteq> 0"
proof -
  assume r: "r \<noteq> 0"
  have pos: "(4 * l) div r div 4 = l div r" for r
    by (metis zdiv_zmult2_eq zero_le_numeral mult.commute div_mult_mult1 zero_neq_numeral)
  show ?thesis
  proof (cases "0 \<le> l \<and> r < 0")
    case True
    define s where "s = - r"
    have s: "0 < s" using True by (simp add: s_def)
    define e where "e = (4 * l) div s"
    have fl: "l div r = (if l mod s = 0 then - (l div s) else - (l div s) - 1)"
      using s by (simp add: s_def zdiv_zminus2_eq_if mod_eq_0_iff_dvd)
    have z: "l mod r = 0 \<longleftrightarrow> l mod s = 0" by (simp add: s_def mod_eq_0_iff_dvd)
    have e4: "e div 4 = l div s" unfolding e_def by (rule pos)
    have "l mod s = 0 \<Longrightarrow> e mod 4 = 0" unfolding e_def by auto
    moreover have "- e div 4 = (if e mod 4 = 0 then - (l div s) else - (l div s) - 1)"
      unfolding e4 [symmetric] by presburger
    moreover have "quot0 l r = - e div 4" using True by (simp add: quot0_def e_def s_def)
    ultimately show ?thesis using fl z by auto
  next
    case False
    then show ?thesis using r neg_div [of r l] pos by (auto simp: quot0_def split: if_splits)
  qed
qed

lemma quot0_word:
  assumes a: "left AND 3 = 0" and b: "right AND 3 = 0" and r0: "short_val right \<noteq> 0"
  shows "(if sint left < 0 then
                      (if sint right < 0
                       then AIntToValue (cdiv (- AValueToInt left) (- AValueToInt right))
                       else - AIntToValue (cdiv (- AValueToInt left) (AValueToInt right)))
                    else
                      (if sint right < 0 then - cdiv left (- AValueToInt right)
                       else cdiv left (AValueToInt right))) AND NOT 3
     = of_int (4 * quot0 (short_val left) (short_val right))"
proof -
  let ?l = "short_val left" and ?r = "short_val right"
  note bd = short_val_bounds [of left] short_val_bounds [of right]
  have sl: "sint left = 4 * ?l" and sr: "sint right = 4 * ?r" using a b tagged_sint by auto
  have vl: "- AValueToInt left = of_int (- ?l)" and vr: "- AValueToInt right = of_int (- ?r)"
    by (simp_all add: AValueToInt_of_int)
  note tl = tagged_of_int [OF a]
  have tag: "(AIntToValue (of_int q) :: 64 word) AND NOT 3 = of_int (4 * q)"
    "- (AIntToValue (of_int q) :: 64 word) AND NOT 3 = of_int (4 * - q)" for q
    using clear_tag [of "4 * q"] clear_tag [of "4 * - q"] by (simp_all only: AIntToValue_of_int) simp_all
  have cl: "cdiv left (of_int d) AND NOT 3 = of_int (4 * ((4 * ?l) div d div 4))"
    "- cdiv left (of_int d) AND NOT 3 = of_int (4 * (- ((4 * ?l) div d) div 4))"
    if "0 \<le> ?l" "0 < d" "d < 9223372036854775808" for d
  proof -
    have "cdiv (of_int (4 * ?l)) (of_int d) = of_int ((4 * ?l) div d)"
      using that bd by (intro cdiv_nonneg) linarith+
    then have *: "cdiv left (of_int d) = of_int ((4 * ?l) div d)" by (simp only: tl [symmetric])
    show "cdiv left (of_int d) AND NOT 3 = of_int (4 * ((4 * ?l) div d div 4))"
      unfolding * by (rule clear_tag)
    show "- cdiv left (of_int d) AND NOT 3 = of_int (4 * (- ((4 * ?l) div d) div 4))"
      unfolding * of_int_minus [symmetric] by (rule clear_tag)
  qed
  have cn: "cdiv (of_int (- ?l)) (of_int d) = of_int ((- ?l) div d)"
    if "?l < 0" "0 < d" "d < 9223372036854775808" for d
    using that bd by (intro cdiv_nonneg) linarith+
  consider "?l < 0" "?r < 0" | "?l < 0" "0 < ?r" | "0 \<le> ?l" "?r < 0" | "0 \<le> ?l" "0 < ?r"
    using r0 by linarith
  then show ?thesis
  proof cases
    case 1
    then show ?thesis
      using bd sl sr cn [of "- ?r"] tag(1) [of "(- ?l) div (- ?r)"] by (simp only: vl vr quot0_def) simp
  next
    case 2
    then show ?thesis
      using bd sl sr cn [of "?r"] tag(2) [of "(- ?l) div ?r"]
      by (simp only: vl AValueToInt_of_int [of right] quot0_def) simp
  next
    case 3
    then show ?thesis using bd sl sr cl(2) [of "- ?r"] by (simp only: vr quot0_def) simp
  next
    case 4
    then show ?thesis
      using bd sl sr cl(1) [of "?r"] by (simp only: AValueToInt_of_int [of right] quot0_def) simp
  qed
qed

lemma tagged_eq:
  assumes "w AND 3 = 0" "fits_short i" shows "w = AIntToValue (of_int i) \<longleftrightarrow> short_val w = i"
proof
  assume "w = AIntToValue (of_int i)"
  then show "short_val w = i" using short_of_int [OF assms(2)] by (simp only: int_value_short)
next
  assume "short_val w = i"
  then show "w = AIntToValue (of_int i)"
    using tagged_of_int [OF assms(1)] by (simp only: AIntToValue_of_int)
qed

lemma meets_AIntDivMod:
  assumes a: "left AND 3 = 0" and b: "right AND 3 = 0" and nz: "right \<noteq> 0"
  shows "meets Q (AIntDivMod left right) (returns_div (short_val left) (short_val right))"
proof -
  let ?l = "short_val left" and ?r = "short_val right"
  note bd = short_val_bounds [of left] short_val_bounds [of right]
  note tl = tagged_of_int [OF a] and tr = tagged_of_int [OF b]
  note fl = fits_short_val [of left] and fr = fits_short_val [of right]
  have sl: "sint left = 4 * ?l" and sr: "sint right = 4 * ?r" using a b tagged_sint by auto
  have r0: "?r \<noteq> 0" using tr nz by auto
  have minl: "left = AIntToValue A_SHORT_INT_MIN \<longleftrightarrow> ?l = - 2305843009213693952"
    using tagged_eq [OF a, of "- 2305843009213693952"] by (simp add: A_SHORT_INT_MIN_eq fits_short_def)
  have minr: "right = AIntToValue (- 1) \<longleftrightarrow> ?r = - 1"
    using tagged_eq [OF b, of "- 1"] by (simp add: fits_short_def)
  show ?thesis
  proof (cases "?l = - 2305843009213693952 \<and> ?r = - 1")
    case True
    have "meets Q (ACreateLongIntFromIntND (- A_SHORT_INT_MIN)) (returns_int 2305843009213693952)"
      by (intro meets_create_of_int) (auto simp: fits_short_def A_SHORT_INT_MIN_eq)
    then have "meets Q (bindM (ACreateLongIntFromIntND (- A_SHORT_INT_MIN)) (\<lambda>q. ret (q, 0)))
        (returns_div ?l ?r)"
      by (rule meets_bind)
        (use True in \<open>auto intro!: meets_ret returns_short simp: returns_div_def fits_short_def\<close>)
    moreover have "AIntDivMod left right = bindM (ACreateLongIntFromIntND (- A_SHORT_INT_MIN)) (\<lambda>q. ret (q, 0))"
      unfolding AIntDivMod_def minl minr using True nz sl sr by simp
    ultimately show ?thesis by simp
  next
    case False
    have q: "(if sint left < 0 then
                      (if sint right < 0
                       then AIntToValue (cdiv (- AValueToInt left) (- AValueToInt right))
                       else - AIntToValue (cdiv (- AValueToInt left) (AValueToInt right)))
                    else
                      (if sint right < 0 then - cdiv left (- AValueToInt right)
                       else cdiv left (AValueToInt right))) AND NOT 3 = of_int (4 * quot0 ?l ?r)"
      by (rule quot0_word [OF a b r0])
    have "meets Q (div_tail left right (of_int (4 * quot0 ?l ?r))) (returns_div ?l ?r)"
      using meets_div_tail [OF fl fr r0 div_fits_short [OF fl fr r0 False] quot0_cases [OF r0]]
      by (simp only: tl [symmetric] tr [symmetric])
    moreover have "AIntDivMod left right = div_tail left right (of_int (4 * quot0 ?l ?r))"
      using False nz unfolding AIntDivMod_def Let_def q minl minr div_tail_def by auto
    ultimately show ?thesis by simp
  qed
qed


section \<open>Conversions\<close>

lemma join_digits_append: "join_digits i (ds @ [d]) = push_bit 32 (join_digits i ds) + ucast d"
  by (induction ds arbitrary: i) simp_all

lemma join_digits_val: "join_digits 0 (rev ds) = of_nat (digs_val ds)"
  by (induction ds) (simp_all add: join_digits_append push_bit_eq_mult algebra_simps of_nat_unat)

text \<open>The value of an Int in the range of a signed or an unsigned 64-bit integer.\<close>

definition in_int64 :: "int \<Rightarrow> bool" where
  "in_int64 i \<longleftrightarrow> - 9223372036854775808 \<le> i \<and> i < 9223372036854775808"

definition in_uint64 :: "int \<Rightarrow> bool" where
  "in_uint64 i \<longleftrightarrow> 0 \<le> i \<and> i < 18446744073709551616"

lemma long_wide:
  assumes "norm_int (ALong li)" "2 < li_len li"
  shows "18446744073709551616 \<le> digs_val (digits li)"
proof -
  have n: "wf_li li" "last (digits li) \<noteq> 0" using assms norm_long [of li] by auto
  have "(2::nat) ^ (32 * 2) \<le> 2 ^ (32 * (li_len li - 1))" using assms(2) by (intro power_increasing) auto
  also have "\<dots> \<le> digs_val (digits li)"
    using n assms digs_val_top [of "digits li"] length_digits [of li]
    by (metis One_nat_def list.size(3) not_less_zero)
  finally show ?thesis by simp
qed


lemma AGetInt64_norm:
  assumes "norm_int v"
  shows "AGetInt64 v = (if in_int64 (int_value v) then ret (of_int (int_value v))
     else raise (ValueError ''Out of range''))"
proof (cases v)
  case (AShort w)
  then show ?thesis
    using short_val_bounds [of w]
    by (simp add: AGetInt64_def in_int64_def AValueToInt_of_int short_val_def)
next
  case (ALong li)
  note n = assms [unfolded ALong]
  have j: "(let i = join_digits 0 (rev (digits li)) in ret (if li_neg li then - i else i)) = ret (of_int (li_value li))"
    by (simp add: join_digits_val li_value_def Let_def)
  show ?thesis
  proof (cases "li_len li = 2")
    case True
    then have d: "digits li = [li_cells li ! 0, li_cells li ! 1]" using n digits_two by simp
    let ?a = "digits li ! 0" and ?b = "digits li ! 1"
    have v: "digs_val (digits li) = unat ?a + 4294967296 * unat ?b" by (subst d) (simp add: d)
    have gt: "?b > 0x80000000 \<longleftrightarrow> unat ?b > 2147483648" "?b = 0x80000000 \<longleftrightarrow> unat ?b = 2147483648"
      "?a > 0 \<longleftrightarrow> unat ?a > 0"
      by (simp_all add: word_less_nat_alt word_unat_eq_iff)
    have cond: "in_int64 (li_value li) \<longleftrightarrow> \<not> unat ?b > 2147483648 \<and>
        \<not> (unat ?b = 2147483648 \<and> (unat ?a > 0 \<or> \<not> li_neg li))"
      using unat_digit_lt [of ?a] v
      unfolding in_int64_def li_value_def by (cases "li_neg li"; simp only: if_True if_False simp_thms; linarith)
    show ?thesis
      unfolding ALong AGetInt64_def aint.case int_value.simps j gt True cond by auto
  next
    case False
    then have "2 < li_len li" using n by simp
    then have "18446744073709551616 \<le> digs_val (digits li)" using n by (intro long_wide)
    then have "\<not> in_int64 (li_value li)" by (simp add: in_int64_def li_value_def)
    with \<open>2 < li_len li\<close> show ?thesis by (simp add: ALong AGetInt64_def)
  qed
qed

lemma AGetIntU64_norm:
  assumes "norm_int v"
  shows "AGetIntU64 v = (if in_uint64 (int_value v) then ret (of_int (int_value v))
     else raise (ValueError (if is_long v then ''Out of range'' else ''Negative value not expected'')))"
proof (cases v)
  case (AShort w)
  then show ?thesis
    using short_val_bounds [of w] tagged_sint [of w] assms
    by (auto simp: AGetIntU64_def in_uint64_def AValueToInt_of_int short_val_def)
next
  case (ALong li)
  note n = assms [unfolded ALong]
  have "in_uint64 (li_value li) \<longleftrightarrow> \<not> (li_neg li \<or> li_len li > 2)"
  proof (cases "li_len li = 2")
    case True
    then show ?thesis
      using n digs_val_less [of "digits li"] norm_long_nonzero [of li] by (auto simp: in_uint64_def li_value_def)
  next
    case False
    then have "2 < li_len li" using n by simp
    moreover from this have "18446744073709551616 \<le> digs_val (digits li)" using n by (intro long_wide)
    ultimately show ?thesis by (auto simp: in_uint64_def li_value_def)
  qed
  then show ?thesis by (simp add: ALong AGetIntU64_def join_digits_val li_value_def)
qed

lemma digs_val_split: "digs_val [ucast (w AND MASK), ucast (drop_bit 32 w)] = unat (w :: 64 word)"
proof -
  have "unat w div 4294967296 < 4294967296" using unat_ddigit_lt [of w] by (simp add: div_less_iff_less_mult)
  then show ?thesis
    unfolding digs_val.simps unat_mask_digit by (simp add: unat_low_digit unat_drop_32)
qed

lemma signed_high: "(ucast (signed_drop_bit 32 w) :: digit) = ucast (drop_bit 32 (w :: 64 word))"
  by (rule bit_word_eqI) (auto simp: bit_simps)

lemma meets_make_two:
  assumes "digs_val ds = n" "length ds = 2"
  shows "meets Q (bindM (AMakeLongInt 2 False) (\<lambda>v. ANormalize (put_digits ds v) s)) (returns_int (with_sign s n))"
proof (rule meets_bind [OF meets_AMakeLongInt])
  fix d assume "fresh 2 (d\<lparr>li_neg := False\<rparr>) \<and> li_neg d = False"
  then have "fresh 2 d" by (simp add: fresh_def)
  then show "meets Q (ANormalize (put_digits ds d) s) (returns_int (with_sign s n))"
    using meets_normalize_new assms by blast
qed

lemma unat_abs: "int (unat (if sint i < 0 then - i else i)) = \<bar>sint (i :: 64 word)\<bar>"
proof (cases "sint i < 0")
  case True
  have "- i = of_int (- sint i)" by simp
  then have "uint (- i) = uint (of_int (- sint i) :: 64 word)" by (rule arg_cong)
  also have "\<dots> = (- sint i) mod 2 ^ 64" by (rule uint_of_int_64)
  also have "\<dots> = - sint i" using True sint_bounds [of i] by simp
  finally show ?thesis using True by simp
qed (use unat_of_sint [of i] in auto)

lemma AIntToValue_returns: "fits_short (sint i) \<Longrightarrow> returns_int (sint i) (AShort (AIntToValue i))"
proof (rule returns_short)
  have "(of_int (sint i) :: 64 word) = i" by simp
  then show "AIntToValue i = of_int (4 * sint i)" using AIntToValue_of_int [of "sint i"] by (simp only:)
qed

lemma meets_AMakeInt64: "meets Q (AMakeInt64 i) (returns_int (sint i))"
proof (cases "fits_short (sint i)")
  case True
  then have "sint i \<le> sint A_SHORT_INT_MAX \<and> sint i \<ge> sint A_SHORT_INT_MIN"
    by (simp add: fits_short_def A_SHORT_INT_MAX_eq A_SHORT_INT_MIN_eq)
  with True show ?thesis by (simp add: AMakeInt64_def AIntToValue_returns meets_ret)
next
  case False
  then have c: "\<not> (sint i \<le> sint A_SHORT_INT_MAX \<and> sint i \<ge> sint A_SHORT_INT_MIN)"
    by (auto simp: fits_short_def A_SHORT_INT_MAX_eq A_SHORT_INT_MIN_eq)
  let ?ui = "if sint i < 0 then - i else i"
  have v: "with_sign (sint i < 0) (unat ?ui) = sint i"
    unfolding with_sign_def unat_abs by simp
  show ?thesis
    unfolding AMakeInt64_def Let_def signed_high if_not_P [OF c]
    by (subst v [symmetric], rule meets_make_two [OF digs_val_split]) simp
qed

lemma meets_AMakeIntU64: "meets Q (AMakeIntU64 i) (returns_int (int (unat i)))"
proof (cases "i \<le> A_SHORT_INT_MAX")
  case True
  then have "unat i \<le> 2305843009213693951" by (simp add: word_le_nat_alt A_SHORT_INT_MAX_eq)
  then have "int (unat i) < 2305843009213693952" by linarith
  moreover have "unat i < 9223372036854775808"
    using \<open>unat i \<le> 2305843009213693951\<close> by linarith
  ultimately have "sint i = int (unat i)" "fits_short (int (unat i))"
    unfolding sint_unat fits_short_def using order_trans [OF _ uint_ge_0 [of i]]
    by simp_all
  then show ?thesis using True AIntToValue_returns [of i] by (simp add: AMakeIntU64_def meets_ret)
next
  case False
  have v: "with_sign False (unat i) = int (unat i)" by (simp add: with_sign_def)
  show ?thesis
    unfolding AMakeIntU64_def if_not_P [OF False] v [symmetric]
    by (rule meets_make_two [OF digs_val_split]) simp
qed

end
