(* ===== verification/Int_Text.thy ===== *)
theory Int_Text
  imports Int_Arith_Lemmas
begin

text \<open>
  Conversion between Int values and strings: the scanner's \<^verbatim>\<open>AStrToInt\<close>
  (\<^verbatim>\<open>src/src/strtonum.c\<close>), the constructor \<^verbatim>\<open>std::Int\<close> with and without a radix
  (\<^verbatim>\<open>src/src/std_int.c\<close>), \<^verbatim>\<open>std::Str\<close> of an Int (\<^verbatim>\<open>src/src/std_str.c\<close>), \<^verbatim>\<open>string::IntToStr\<close>
  (\<^verbatim>\<open>src/src/string_module.c\<close>) and \<^verbatim>\<open>ALongIntToStr\<close> (\<^verbatim>\<open>src/src/std_int_long.c\<close>).  A string is the
  list of its character codes.  Buffers are filled from the end; a buffer is the list of the
  characters written so far and its capacity, and writing one character more is undefined.  The
  constructor keeps its indices in C \<^verbatim>\<open>int\<close>s, whose overflow is undefined; what it does with strings of
  the different representations is in \<^verbatim>\<open>Str_Int\<close>.  The texts of exceptions are shortened: the code adds the
  representation of the argument, and the memory that this takes is not modelled.
\<close>

section \<open>Reading digits\<close>

definition AIsDigit :: "nat \<Rightarrow> bool" where
  "AIsDigit ch = (48 \<le> ch \<and> ch \<le> 57)"

definition is_blank :: "nat \<Rightarrow> bool" where
  "is_blank ch = (ch = 32 \<or> ch = 9)"

text \<open>The digits that fit a short integer: the number, the rest and whether the loop left early.\<close>

definition too_big :: "64 word \<Rightarrow> nat \<Rightarrow> bool" where
  "too_big n digit =
     (n \<ge> (A_SHORT_INT_MAX + 1) div 10 \<and>
      (n > (A_SHORT_INT_MAX + 1) div 10 \<or>
       of_nat digit > (A_SHORT_INT_MAX + 1) - ((A_SHORT_INT_MAX + 1) div 10) * 10))"

fun short_loop :: "64 word \<Rightarrow> nat list \<Rightarrow> 64 word \<times> nat list \<times> bool" where
  "short_loop n [] = (n, [], False)"
| "short_loop n (ch # s) =
     (if \<not> AIsDigit ch then (n, ch # s, False)
      else if too_big n (ch - 48) then (n, ch # s, True)
      else short_loop (n * 10 + of_nat (ch - 48)) s)"

fun long_loop :: "longint \<Rightarrow> nat list \<Rightarrow> longint rt" where
  "long_loop li [] = ret li"
| "long_loop li (ch # s) =
     (if AIsDigit ch then bindM (AMulAddSingle li 10 (of_nat (ch - 48))) (\<lambda>li. long_loop li s) else ret li)"

definition ConvertLongInt :: "64 word \<Rightarrow> nat list \<Rightarrow> longint rt" where
  "ConvertLongInt n s = bindM (ACreateLongIntFromIntND n) (\<lambda>v. the_long v (\<lambda>li. long_loop li s))"

definition short_result :: "bool \<Rightarrow> 64 word \<Rightarrow> aint rt" where
  "short_result isNeg n =
     (if isNeg then ret (AShort (AIntToValue (- n)))
      else if n = A_SHORT_INT_MAX + 1 then ACreateLongIntFromIntND n
      else ret (AShort (AIntToValue n)))"

section \<open>The scanner\<close>

text \<open>
  A sign counts only when another character follows it.  The value, or the exception, and the
  characters that are left.
\<close>

definition scan_sign :: "nat list \<Rightarrow> bool \<times> nat list" where
  "scan_sign s =
     (case s of
        ch # ch' # s' \<Rightarrow> if ch = 45 then (True, ch' # s') else if ch = 43 then (False, ch' # s') else (False, s)
      | _ \<Rightarrow> (False, s))"

definition AStrToInt :: "nat list \<Rightarrow> athread \<Rightarrow> (aerror + aint) \<times> nat list \<times> athread" where
  "AStrToInt s t =
     (let (isNeg, s) = scan_sign (dropWhile is_blank s);
          (n, rest, big) = short_loop 0 s
      in if big then
           (case bindM (ConvertLongInt n rest) (\<lambda>li. ret (ALong li)) t of
              (r, t) \<Rightarrow> (r, dropWhile AIsDigit rest, t))
         else if rest = s then (Inl (ValueError ''''), rest, t)
         else (case short_result isNeg n t of (r, t) \<Rightarrow> (r, rest, t)))"

section \<open>Construction from a string\<close>

definition read_sign :: "nat list \<Rightarrow> bool \<times> nat list" where
  "read_sign s =
     (case s of
        ch # s' \<Rightarrow> if ch = 45 then (True, s') else if ch = 43 then (False, s') else (False, s)
      | [] \<Rightarrow> (False, []))"

text \<open>The value of a C \<^verbatim>\<open>int\<close> that is given an integer.\<close>

definition c_int :: "int \<Rightarrow> int" where
  "c_int i = sint (of_int i :: 32 word)"

text \<open>
  The characters of a narrow block from \<open>ind\<close> to \<open>end\<close>, both C \<^verbatim>\<open>int\<close>s; a character outside of the block
  is undefined.  Characters behind the digits of a long number are not looked at.
\<close>

definition TryConvert :: "nat list \<Rightarrow> int \<Rightarrow> int \<Rightarrow> aint rt" where
  "TryConvert buf ind end_ind =
     (if ind < end_ind \<and> (ind < 0 \<or> int (length buf) < end_ind) then raise UndefinedBehaviour
      else
        let (isNeg, s) = read_sign (dropWhile is_blank (take (nat (end_ind - ind)) (drop (nat ind) buf)))
        in case s of
             [] \<Rightarrow> raise (ValueError ''Invalid string argument'')
           | ch # _ \<Rightarrow>
               if \<not> AIsDigit ch then raise (ValueError ''Invalid string argument'')
               else
                 let (n, rest, big) = short_loop 0 s
                 in if big then
                      bindM (ConvertLongInt n rest) (\<lambda>li. ret (ALong (if isNeg then ASetLongIntSign li else li)))
                    else if list_ex (\<lambda>ch. \<not> is_blank ch) rest then raise (ValueError ''Invalid string argument'')
                    else short_result isNeg n)"

text \<open>A block of narrow or wide characters.\<close>

datatype astr = ANarrow "nat list" | AWide "nat list"

section \<open>Arithmetic through the C interface\<close>

definition AAdd_Int :: "aint \<Rightarrow> aint \<Rightarrow> aint rt" where
  "AAdd_Int a b =
     (case (a, b) of
        (AShort x, AShort y) \<Rightarrow>
          let sm = x + y
          in if \<not> AIsAddOverflow sm x y then ret (AShort sm)
             else ACreateLongIntFromIntND (AValueToInt x + AValueToInt y)
      | _ \<Rightarrow> bindM (ACoerce a b) (\<lambda>(a, b). the_long a (\<lambda>a. the_long b (\<lambda>b. AAddLongInt a b))))"

definition AMul_Int :: "aint \<Rightarrow> aint \<Rightarrow> aint rt" where
  "AMul_Int a b =
     (case (a, b) of
        (AShort x, AShort y) \<Rightarrow>
          let prod = AValueToInt x * y
          in if AHi x = 0 \<and> AHi y = 0 \<and> sint prod \<ge> 0 then ret (AShort prod) else AMultiplyShortInt x y
      | _ \<Rightarrow> bindM (ACoerce a b) (\<lambda>(a, b). the_long a (\<lambda>a. the_long b (\<lambda>b. AMultiplyLongInt a b))))"

definition ANeg_Int :: "aint \<Rightarrow> aint rt" where
  "ANeg_Int a =
     (case a of
        AShort x \<Rightarrow> if x = AIntToValue A_SHORT_INT_MIN then ACreateLongIntFromIntND (- A_SHORT_INT_MIN)
                    else ret (AShort (- x))
      | ALong x \<Rightarrow> ANegateLongInt x)"

section \<open>Construction with a radix\<close>

definition radix_digit :: "nat \<Rightarrow> nat option" where
  "radix_digit ch =
     (if AIsDigit ch then Some (ch - 48)
      else if 97 \<le> ch \<and> ch \<le> 122 then Some (ch - 97 + 10)
      else if 65 \<le> ch \<and> ch \<le> 90 then Some (ch - 65 + 10)
      else None)"

text \<open>The index is a C \<^verbatim>\<open>int\<close>: it cannot be incremented beyond its range.\<close>

definition next_ind :: "nat \<Rightarrow> (nat \<Rightarrow> 'a rt) \<Rightarrow> 'a rt" where
  "next_ind i f = (if i + 1 < 2 ^ 31 then f (i + 1) else raise UndefinedBehaviour)"

fun blank_loop :: "nat \<Rightarrow> nat list \<Rightarrow> (nat \<times> nat list) rt" where
  "blank_loop i [] = ret (i, [])"
| "blank_loop i (ch # s) = (if is_blank ch then next_ind i (\<lambda>i. blank_loop i s) else ret (i, ch # s))"

fun radix_loop :: "nat \<Rightarrow> nat \<Rightarrow> aint \<Rightarrow> nat list \<Rightarrow> (nat \<times> aint \<times> nat list) rt" where
  "radix_loop radix i v [] = ret (i, v, [])"
| "radix_loop radix i v (ch # s) =
     (case radix_digit ch of
        None \<Rightarrow> ret (i, v, ch # s)
      | Some digit \<Rightarrow>
          if digit \<ge> radix then raise (ValueError ''Invalid character'')
          else bindM (AMul_Int v (AShort (AIntToValue (of_nat radix))))
                 (\<lambda>v. bindM (AAdd_Int v (AShort (AIntToValue (of_nat digit))))
                        (\<lambda>v. next_ind i (\<lambda>i. radix_loop radix i v s))))"

definition RadixInt :: "nat list \<Rightarrow> aint \<Rightarrow> aint rt" where
  "RadixInt s r =
     bindM (AGetInt r)
       (\<lambda>radix.
          if sint radix < 2 \<or> sint radix > 36 then raise (ValueError ''Invalid radix'')
          else
            bindM (blank_loop 0 s)
              (\<lambda>(i, s).
                 bindM (case s of
                          ch # s' \<Rightarrow> if ch = 45 then next_ind i (\<lambda>i. ret (True, i, s')) else ret (False, i, s)
                        | [] \<Rightarrow> ret (False, i, s))
                   (\<lambda>(isNeg, j, s).
                      bindM (radix_loop (unat radix) j (AShort 0) s)
                        (\<lambda>(i, v, s).
                           if i = j then raise (ValueError ''Argument not number'')
                           else
                             bindM (blank_loop i s)
                               (\<lambda>(_, s).
                                  if s \<noteq> [] then raise (ValueError ''Invalid character'')
                                  else if \<not> isNeg then ret v
                                  else ANeg_Int v)))))"

section \<open>Writing\<close>

definition push_char :: "nat \<Rightarrow> nat \<Rightarrow> nat list \<Rightarrow> aerror + nat list" where
  "push_char room ch out = (if length out < room then Inr (ch # out) else Inl UndefinedBehaviour)"

definition INT_BUF_SIZE :: nat where
  "INT_BUF_SIZE = 1 + ((62 - 1) * 4 + 12) div 13"

fun str_loop :: "nat \<Rightarrow> nat \<Rightarrow> nat list \<Rightarrow> aerror + nat list" where
  "str_loop room n out =
     (if n \<ge> 10 then
        (case push_char room (n mod 10 + 48) out of Inl e \<Rightarrow> Inl e | Inr out \<Rightarrow> str_loop room (n div 10) out)
      else push_char room (n + 48) out)"

declare str_loop.simps [simp del]

definition ShortToStr :: "avalue \<Rightarrow> nat list rt" where
  "ShortToStr v =
     (let n = sint (AValueToInt v); isNeg = n < 0
      in case str_loop INT_BUF_SIZE (nat \<bar>n\<bar>) [] of
           Inl e \<Rightarrow> raise e
         | Inr out \<Rightarrow>
             (case (if isNeg then push_char INT_BUF_SIZE 45 out else Inr out) of
                Inl e \<Rightarrow> raise e
              | Inr out \<Rightarrow> bindM next_alloc (\<lambda>_. ret out)))"

definition ADigits :: "nat list" where
  "ADigits = map of_char ''0123456789abcdefghijklmnopqrstuvwxyz''"

definition LONGINT_STACK_BUF_SIZE :: int where
  "LONGINT_STACK_BUF_SIZE = 128"

text \<open>\<open>out\<close> is the part of the buffer that is filled, from its end.\<close>

definition digit_char :: "nat \<Rightarrow> nat" where
  "digit_char d = (if d < 10 then d + 48 else d - 10 + 97)"

fun long_str_loop :: "nat \<Rightarrow> longint \<Rightarrow> digit \<Rightarrow> nat list \<Rightarrow> nat list rt" where
  "long_str_loop 0 li radix out = bindM (ADivModSingle li radix) (\<lambda>_. raise UndefinedBehaviour)"
| "long_str_loop (Suc room) li radix out =
     bindM (ADivModSingle li radix)
       (\<lambda>(li, rm).
          let out = digit_char (unat rm) # out
          in if li_len li > 0 \<or> li_cells li ! 0 \<noteq> 0 then long_str_loop room li radix out else ret out)"

text \<open>The number of zeros that pad the digits.\<close>

definition pad_zeros :: "int \<Rightarrow> nat list \<Rightarrow> nat list" where
  "pad_zeros minWidth out = replicate (nat (minWidth - int (length out))) 48 @ out"

definition str_max_len :: "nat \<Rightarrow> nat \<Rightarrow> int \<Rightarrow> int" where
  "str_max_len radix n minWidth =
     (let maxLen = (if radix < 8 then int (n * 32) + 1
                    else if radix < 16 then int (n * 32 div 3) + 2
                    else int (n * 32 div 4) + 2)
      in if maxLen < minWidth + 1 then minWidth + 1 else maxLen)"

definition ALongIntToStr :: "longint \<Rightarrow> nat \<Rightarrow> int \<Rightarrow> nat list rt" where
  "ALongIntToStr li radix minWidth =
     with_temps 1
       (if minWidth \<ge> 2 ^ 31 - 1 then raise UndefinedBehaviour
        else
          let maxLen = str_max_len radix (li_len li) minWidth
          in bindM (if maxLen > LONGINT_STACK_BUF_SIZE then next_alloc else ret (False, []))
               (\<lambda>(gc, _).
                  bindM (long_str_loop (nat maxLen) (promote gc li) (of_nat radix) [])
                    (\<lambda>out.
                       let out = pad_zeros minWidth out;
                           out = (if li_neg li then 45 # out else out)
                       in if int (length out) > maxLen then raise UndefinedBehaviour
                          else bindM next_alloc (\<lambda>_. ret out))))"

text \<open>\<^verbatim>\<open>std::Str\<close> of an Int.\<close>

fun AStdStr_Int :: "aint \<Rightarrow> nat list rt" where
  "AStdStr_Int (AShort w) = ShortToStr w"
| "AStdStr_Int (ALong li) = ALongIntToStr li 10 0"

text \<open>
  \<^verbatim>\<open>string::IntToStr\<close>: a short integer goes through a C \<^verbatim>\<open>int\<close> and a buffer with room for 101
  characters.
\<close>

fun IntToStr_loop :: "nat \<Rightarrow> nat \<Rightarrow> nat \<Rightarrow> nat list \<Rightarrow> aerror + nat list" where
  "IntToStr_loop 0 radix n out = Inl UndefinedBehaviour"
| "IntToStr_loop (Suc room) radix n out =
     (let out = ADigits ! (n mod radix) # out; n = n div radix
      in if n \<noteq> 0 then IntToStr_loop room radix n out else Inr out)"

definition IntToStr :: "aint \<Rightarrow> aint \<Rightarrow> aint option \<Rightarrow> nat list rt" where
  "IntToStr v r w =
     bindM (AGetInt r)
       (\<lambda>radix.
          if sint radix < 2 \<or> sint radix > 36 then raise (ValueError ''Invalid radix'')
          else
            bindM (case w of None \<Rightarrow> ret 0 | Some w \<Rightarrow> AGetInt w)
              (\<lambda>minWidth.
                 case v of
                   AShort _ \<Rightarrow>
                     bindM (AGetInt v)
                       (\<lambda>n. if n = - (2 ^ 31) then raise UndefinedBehaviour
                            else
                              case IntToStr_loop 101 (unat radix) (nat \<bar>sint n\<bar>) [] of
                                Inl e \<Rightarrow> raise e
                              | Inr out \<Rightarrow>
                                  let out = pad_zeros (sint minWidth) out;
                                      out = (if sint n < 0 then 45 # out else out)
                                  in if length out > 101 then raise UndefinedBehaviour
                                     else bindM next_alloc (\<lambda>_. ret out))
                 | ALong li \<Rightarrow> ALongIntToStr li (unat radix) (sint minWidth)))"

end
