(* ===== verification/Encodings.thy ===== *)
theory Encodings
  imports Int_Text
begin

text \<open>
  The codecs of the encodings module (\<^verbatim>\<open>src/src/encodings_module.c\<close>) that need no tables: UTF-8,
  UTF-16 and ISO 8859-1.  A decoder object is fed a text in pieces; bytes of a character that is
  not complete stay in the buffer of the object (\<^verbatim>\<open>ENC_BUF\<close>: a count and up to seven bytes).
  Strings are lists of character codes, and lengths are below the limit of a C int.  An exception
  leaves the object as it was.
\<close>

section \<open>Codec objects\<close>

definition MODE_STRICT :: nat where "MODE_STRICT = 0"

definition MODE_UNSTRICT :: nat where "MODE_UNSTRICT = 1"

definition ENC_DATA_SIZE :: nat where "ENC_DATA_SIZE = 8"

record codec =
  slot_mode :: nat
  slot_encoding :: nat
  enc_buf :: "nat list"

text \<open>The strictness argument: left out, one of the two constants, or something else.\<close>

datatype strictness = SDefault | SStrict | SUnstrict | SOther

definition InitializeCodec :: "codec \<Rightarrow> strictness \<Rightarrow> nat option \<Rightarrow> codec rt" where
  "InitializeCodec c strictness num =
     (if strictness = SOther then raise (ValueError ''Invalid mode'')
      else
        let c = c\<lparr>slot_mode := if strictness = SUnstrict then MODE_UNSTRICT else MODE_STRICT\<rparr>;
            c = (case num of None \<Rightarrow> c | Some n \<Rightarrow> c\<lparr>slot_encoding := n\<rparr>)
        in ret (c\<lparr>enc_buf := (enc_buf c)[0 := 0]\<rparr>))"

definition EncodingUnprocessed :: "codec \<Rightarrow> nat list rt" where
  "EncodingUnprocessed c =
     (let n = enc_buf c ! 0
      in bindM next_alloc
           (\<lambda>_. if n < length (enc_buf c) then ret (take n (drop 1 (enc_buf c))) else raise UndefinedBehaviour))"

section \<open>UTF-8\<close>

definition A_UTF8_SKIP :: "nat \<Rightarrow> nat" where
  "A_UTF8_SKIP ch = (if ch < 0xc2 then 1 else if ch < 0xe0 then 2 else 3)"

definition A_UTF8_SKIP_W :: "nat \<Rightarrow> nat" where
  "A_UTF8_SKIP_W ch = (if ch < 0xc2 then 1 else if ch < 0xe0 then 2 else if ch \<le> 0xff then 3 else 1)"

definition A_UTF8_LEN :: "nat \<Rightarrow> nat" where
  "A_UTF8_LEN ch = (if ch \<le> 0x7f then 1 else if ch \<le> 0x7ff then 2 else 3)"

text \<open>Characters of a string and bytes of the buffer; an index out of range is undefined.\<close>

definition item :: "nat list \<Rightarrow> int \<Rightarrow> aerror + nat" where
  "item s j = (if 0 \<le> j \<and> j < int (length s) then Inr (s ! nat j) else Inl UndefinedBehaviour)"

definition ChAt :: "codec \<Rightarrow> nat list \<Rightarrow> int \<Rightarrow> nat \<Rightarrow> aerror + nat" where
  "ChAt c s j unp = (if j < 0 then item (enc_buf c) (j + int unp + 1) else item s j)"

text \<open>The first pass counts the characters that end inside the string; \<open>s\<close> is what is left of it.\<close>

function count_loop :: "nat list \<Rightarrow> nat" where
  "count_loop [] = 0"
| "count_loop (ch # s) =
     (let k = A_UTF8_SKIP_W ch
      in if k < Suc (length s) then Suc (count_loop (drop k (ch # s)))
         else if k = Suc (length s) then 1 else 0)"
  by pat_completeness auto
termination
  by (relation "measure length") (auto simp: A_UTF8_SKIP_W_def)

text \<open>One character of the second pass: its code, or none for an error, and the next index.\<close>

definition utf8_char :: "codec \<Rightarrow> nat list \<Rightarrow> nat \<Rightarrow> int \<Rightarrow> aerror + (nat option \<times> int)" where
  "utf8_char c s unp j =
     bindE (ChAt c s j unp) (\<lambda>ch1.
       if ch1 \<le> 0x7f then Inr (Some ch1, j + 1)
       else if ch1 < 0xc2 then Inr (None, j + 1)
       else if ch1 < 0xe0 then
         bindE (item s (j + 1)) (\<lambda>ch2.
           Inr (if ch2 < 0x80 \<or> ch2 > 0xbf then None
                else Some (push_bit 6 (ch1 AND 0x1f) OR (ch2 AND 0x3f)), j + 2))
       else if ch1 < 0x100 then
         bindE (ChAt c s (j + 1) unp) (\<lambda>ch2. bindE (item s (j + 2)) (\<lambda>ch3.
           Inr (if ch2 < 0x80 \<or> ch2 > 0xbf \<or> ch3 < 0x80 \<or> ch3 > 0xbf \<or> (ch1 = 0xe0 \<and> ch2 < 0xa0) then None
                else Some (push_bit 12 (ch1 AND 0xf) OR push_bit 6 (ch2 AND 0x3f) OR (ch3 AND 0x3f)), j + 3)))
       else Inr (None, j + 1))"

fun utf8_loop :: "codec \<Rightarrow> nat list \<Rightarrow> nat \<Rightarrow> nat \<Rightarrow> int \<Rightarrow> aerror + (nat list \<times> int)" where
  "utf8_loop c s unp 0 j = Inr ([], j)"
| "utf8_loop c s unp (Suc n) j =
     bindE (utf8_char c s unp j) (\<lambda>(r, j).
       if r = None \<and> slot_mode c = MODE_STRICT then Inl DecodeError
       else bindE (utf8_loop c s unp n j) (\<lambda>(rs, j). Inr ((case r of None \<Rightarrow> 0xfffd | Some ch \<Rightarrow> ch) # rs, j)))"

text \<open>The bytes that are left go to the buffer, from index \<open>k\<close> on.\<close>

fun save_loop :: "nat list \<Rightarrow> nat \<Rightarrow> nat list \<Rightarrow> aerror + nat list" where
  "save_loop [] k buf = Inr buf"
| "save_loop (ch # s) k buf =
     (if k < length buf then save_loop s (Suc k) (buf[k := ch mod 256]) else Inl UndefinedBehaviour)"

definition Utf8Decode :: "codec \<Rightarrow> nat list \<Rightarrow> (nat list \<times> codec) rt" where
  "Utf8Decode c s =
     (let len = int (length s);
          unprocessed = enc_buf c ! 0;
          (i, resultLen, newUnprocessed) =
            (if unprocessed \<noteq> 0 then
               let i = int (A_UTF8_SKIP (enc_buf c ! 1)) - int unprocessed
               in if i \<le> len then (i, 1, 0) else (i, 0, unprocessed)
             else (0, 0, 0))
      in if i < 0 then raise UndefinedBehaviour
         else
           let resultLen = (if i < len then resultLen + count_loop (drop (nat i) s) else resultLen)
           in bindM next_alloc
                (\<lambda>_. case utf8_loop c s unprocessed resultLen (- int unprocessed) of
                       Inl e \<Rightarrow> raise e
                     | Inr (r, j) \<Rightarrow>
                         let j = max j 0;
                             buf = (enc_buf c)[0 := nat ((int newUnprocessed + len - j) mod 256)]
                         in case save_loop (drop (nat j) s) (1 + newUnprocessed) buf of
                              Inl e \<Rightarrow> raise e
                            | Inr buf \<Rightarrow> ret (r, c\<lparr>enc_buf := buf\<rparr>)))"

definition utf8_enc_char :: "nat \<Rightarrow> nat list" where
  "utf8_enc_char ch =
     (if ch \<le> 0x7f then [ch]
      else if ch \<le> 0x7ff then [0xc0 OR drop_bit 6 ch, 0x80 OR (ch AND 0x3f)]
      else [0xe0 OR drop_bit 12 ch, 0x80 OR (drop_bit 6 ch AND 0x3f), 0x80 OR (ch AND 0x3f)])"

text \<open>The result has the length computed first; the second loop stores behind the last character.\<close>

fun enc_loop :: "nat list \<Rightarrow> nat \<Rightarrow> nat list \<Rightarrow> aerror + nat list" where
  "enc_loop [] j res = Inr res"
| "enc_loop (ch # s) j res =
     (let bs = utf8_enc_char ch
      in if j + length bs \<le> length res
         then enc_loop s (j + length bs) (take j res @ map (\<lambda>b. b mod 256) bs @ drop (j + length bs) res)
         else Inl UndefinedBehaviour)"

text \<open>A new narrow string holds left-over bytes.\<close>

definition junk_bytes :: "nat \<Rightarrow> digit list \<Rightarrow> nat list" where
  "junk_bytes n junk = take n (map (\<lambda>d. unat d mod 256) junk @ replicate n 0)"

definition Utf8Encode :: "nat list \<Rightarrow> nat list rt" where
  "Utf8Encode s =
     (let resultLen = sum_list (map A_UTF8_LEN s)
      in bindM next_alloc
           (\<lambda>(_, junk). case enc_loop s 0 (junk_bytes resultLen junk) of Inl e \<Rightarrow> raise e | Inr r \<Rightarrow> ret r))"

section \<open>ISO 8859-1\<close>

text \<open>A character that does not fit a byte is an error or is replaced by \<open>r\<close>.\<close>

fun latin1_loop :: "bool \<Rightarrow> aerror \<Rightarrow> nat \<Rightarrow> nat list \<Rightarrow> aerror + nat list" where
  "latin1_loop strict e r [] = Inr []"
| "latin1_loop strict e r (ch # s) =
     (if ch \<le> 0xff then bindE (latin1_loop strict e r s) (\<lambda>s. Inr (ch # s))
      else if strict then Inl e
      else bindE (latin1_loop strict e r s) (\<lambda>s. Inr (r # s)))"

definition Iso8859_1Decode :: "codec \<Rightarrow> astr \<Rightarrow> astr rt" where
  "Iso8859_1Decode c str =
     (case str of
        ANarrow s \<Rightarrow> ret str
      | AWide s \<Rightarrow>
          bindM next_alloc
            (\<lambda>_. case latin1_loop (slot_mode c = MODE_STRICT) DecodeError 0xfffd s of
                   Inl e \<Rightarrow> raise e | Inr r \<Rightarrow> ret (AWide r)))"

definition Iso8859_1Encode :: "codec \<Rightarrow> astr \<Rightarrow> astr rt" where
  "Iso8859_1Encode c str =
     (case str of
        ANarrow s \<Rightarrow> ret str
      | AWide s \<Rightarrow>
          bindM next_alloc
            (\<lambda>_. case latin1_loop (slot_mode c = MODE_STRICT) EncodeError 0x3f s of
                   Inl e \<Rightarrow> raise e | Inr r \<Rightarrow> ret (ANarrow r)))"

section \<open>UTF-16\<close>

definition utf16_unit :: "bool \<Rightarrow> nat \<Rightarrow> nat \<Rightarrow> nat" where
  "utf16_unit isBigEndian b0 b1 = (if isBigEndian then push_bit 8 b0 OR b1 else b0 OR push_bit 8 b1) mod 65536"

text \<open>The loop over the pairs; it returns the units and the index \<open>j\<close> behind them.\<close>

fun utf16_loop :: "bool \<Rightarrow> nat list \<Rightarrow> nat \<Rightarrow> nat \<Rightarrow> aerror + (nat list \<times> nat)" where
  "utf16_loop be s 0 j = Inr ([], j)"
| "utf16_loop be s (Suc n) j =
     bindE (item s (int j)) (\<lambda>b0. bindE (item s (int j + 1)) (\<lambda>b1.
       bindE (utf16_loop be s n (j + 2)) (\<lambda>(us, j). Inr (utf16_unit be b0 b1 # us, j))))"

definition Utf16Decode :: "codec \<Rightarrow> nat list \<Rightarrow> bool \<Rightarrow> (nat list \<times> codec) rt" where
  "Utf16Decode c s isBigEndian =
     (let unprocessed = enc_buf c ! 0; len = length s; resultLen = (len + unprocessed) div 2
      in bindM next_alloc
           (\<lambda>_. let (pre, j) = (if unprocessed \<noteq> 0 \<and> len > 0
                                then ([utf16_unit isBigEndian (enc_buf c ! 1) (s ! 0)], 1) else ([], 0))
                in case utf16_loop isBigEndian s (resultLen - length pre) j of
                     Inl e \<Rightarrow> raise e
                   | Inr (us, j) \<Rightarrow>
                       let left = (int j = int len - 1);
                           buf = (enc_buf c)[0 := if left then 1 else 0];
                           buf = (if left then buf[1 := s ! j mod 256] else buf)
                       in ret (pre @ us, c\<lparr>enc_buf := buf\<rparr>)))"

definition Utf16LeEncode :: "nat list \<Rightarrow> nat list rt" where
  "Utf16LeEncode s = bindM next_alloc (\<lambda>_. ret (concat (map (\<lambda>ch. [ch AND 0xff, drop_bit 8 ch]) s)))"

definition Utf16BeEncode :: "nat list \<Rightarrow> nat list rt" where
  "Utf16BeEncode s = bindM next_alloc (\<lambda>_. ret (concat (map (\<lambda>ch. [drop_bit 8 ch, ch AND 0xff]) s)))"

end
