(* ===== verification/Str_Data.thy ===== *)
theory Str_Data
  imports Encodings
begin

text \<open>
  Strings (\<^verbatim>\<open>src/src/std_str.c\<close>): the three representations of a Str value, creation and
  conversion, substrings, concatenation, repetition, comparison and hash values.  A string is a
  block of narrow (8-bit) or wide (16-bit) characters, or a substring object that shares a block.
  Characters are natural numbers.
\<close>

section \<open>Representations\<close>

datatype strval = Whole astr | SubStr astr nat nat

fun elems :: "astr \<Rightarrow> nat list" where
  "elems (ANarrow s) = s"
| "elems (AWide s) = s"

fun AIsWideStr :: "astr \<Rightarrow> bool" where
  "AIsWideStr (ANarrow s) = False"
| "AIsWideStr (AWide s) = True"

fun str_block :: "strval \<Rightarrow> astr" where
  "str_block (Whole b) = b"
| "str_block (SubStr b ind len) = b"

text \<open>A wide string or a substring of one.\<close>

definition is_wide :: "strval \<Rightarrow> bool" where
  "is_wide v = AIsWideStr (str_block v)"

fun AStrLen :: "strval \<Rightarrow> nat" where
  "AStrLen (Whole b) = length (elems b)"
| "AStrLen (SubStr b ind len) = len"

fun AStrItem :: "strval \<Rightarrow> nat \<Rightarrow> aerror + nat" where
  "AStrItem (Whole b) i = item (elems b) (int i)"
| "AStrItem (SubStr b ind len) i = item (elems b) (int (ind + i))"

text \<open>Steps that only raise exceptions, inside of operations in a thread.\<close>

definition liftE :: "aerror + 'a \<Rightarrow> 'a rt" where
  "liftE r = (case r of Inl e \<Rightarrow> raise e | Inr x \<Rightarrow> ret x)"

section \<open>Creation\<close>

definition junk_wide :: "nat \<Rightarrow> digit list \<Rightarrow> nat list" where
  "junk_wide n junk = take n (map (\<lambda>d. unat d mod 65536) junk @ replicate n 0)"

definition AMakeEmptyStr :: "nat \<Rightarrow> strval rt" where
  "AMakeEmptyStr n = bindM next_alloc (\<lambda>(_, junk). ret (Whole (ANarrow (junk_bytes n junk))))"

definition AMakeEmptyStrW :: "nat \<Rightarrow> strval rt" where
  "AMakeEmptyStrW n = bindM next_alloc (\<lambda>(_, junk). ret (Whole (AWide (junk_wide n junk))))"

definition ACreateString :: "nat list \<Rightarrow> strval rt" where
  "ACreateString buf = bindM next_alloc (\<lambda>_. ret (Whole (ANarrow buf)))"

definition ACreateWideString :: "nat list \<Rightarrow> strval rt" where
  "ACreateWideString buf =
     bindM next_alloc
       (\<lambda>_. ret (Whole (if list_ex (\<lambda>ch. ch > 0xff) buf then AWide buf else ANarrow buf)))"

text \<open>A store to a new string: the character is cut to the width of the block.\<close>

definition ASetStrItem :: "strval \<Rightarrow> nat \<Rightarrow> nat \<Rightarrow> aerror + strval" where
  "ASetStrItem v i ch =
     (let put = (\<lambda>b k. if k < length (elems b)
                  then Inr (case b of ANarrow s \<Rightarrow> ANarrow (s[k := ch mod 256])
                            | AWide s \<Rightarrow> AWide (s[k := ch mod 65536]))
                  else Inl UndefinedBehaviour)
      in case v of
           Whole b \<Rightarrow> bindE (put b i) (\<lambda>b. Inr (Whole b))
         | SubStr b ind len \<Rightarrow> bindE (put b (ind + i)) (\<lambda>b. Inr (SubStr b ind len)))"

definition AMakeCh :: "nat \<Rightarrow> strval rt" where
  "AMakeCh ch =
     bindM (if ch < 256 then AMakeEmptyStr 1 else AMakeEmptyStrW 1)
       (\<lambda>s. liftE (ASetStrItem s 0 ch))"

definition AGetCh :: "strval \<Rightarrow> aerror + nat" where
  "AGetCh v = (if AStrLen v = 1 then AStrItem v 0 else Inl (ValueError ''Character expected''))"

text \<open>
  Copying into a new string.  A narrow destination is filled from narrow characters only: the
  bytes of a wide source would be taken for characters.
\<close>

definition str_ind :: "strval \<Rightarrow> nat" where
  "str_ind v = (case v of Whole b \<Rightarrow> 0 | SubStr b ind len \<Rightarrow> ind)"

definition ACopySubStr :: "strval \<Rightarrow> nat \<Rightarrow> strval \<Rightarrow> nat \<Rightarrow> nat \<Rightarrow> aerror + strval" where
  "ACopySubStr dst dstIndex src srcIndex srcLen =
     (let from = elems (str_block src); k = str_ind src + srcIndex;
          part = take srcLen (drop k from);
          put = (\<lambda>d. take dstIndex d @ part @ drop (dstIndex + srcLen) d)
      in if k + srcLen \<le> length from \<and> dstIndex + srcLen \<le> length (elems (str_block dst)) then
           (case dst of
              Whole (ANarrow d) \<Rightarrow>
                if is_wide src then Inl UndefinedBehaviour else Inr (Whole (ANarrow (put d)))
            | Whole (AWide d) \<Rightarrow> Inr (Whole (AWide (put d)))
            | SubStr _ _ _ \<Rightarrow> Inl UndefinedBehaviour)
         else Inl UndefinedBehaviour)"

section \<open>Conversion\<close>

definition str_elems :: "strval \<Rightarrow> nat list" where
  "str_elems v = take (AStrLen v) (drop (str_ind v) (elems (str_block v)))"

definition WideToNarrow :: "strval \<Rightarrow> strval rt" where
  "WideToNarrow v =
     (if list_ex (\<lambda>ch. ch > 0xff) (str_elems v) then raise (ValueError [])
      else bindM next_alloc (\<lambda>_. ret (Whole (ANarrow (str_elems v)))))"

definition ANarrowStringToWide :: "strval \<Rightarrow> strval rt" where
  "ANarrowStringToWide v =
     (case v of
        SubStr (AWide s) ind len \<Rightarrow> ret v
      | _ \<Rightarrow> bindM next_alloc (\<lambda>_. ret (Whole (AWide (str_elems v)))))"

definition AIsNarrowStringContents :: "strval \<Rightarrow> bool" where
  "AIsNarrowStringContents v \<longleftrightarrow> \<not> is_wide v \<or> \<not> list_ex (\<lambda>ch. ch > 0xff) (str_elems v)"

definition ANormalizeNarrowString :: "strval \<Rightarrow> strval rt" where
  "ANormalizeNarrowString v =
     (case v of
        Whole (ANarrow s) \<Rightarrow> ret v
      | Whole (AWide s) \<Rightarrow> WideToNarrow v
      | SubStr b ind len \<Rightarrow>
          if AIsWideStr b then WideToNarrow v
          else bindM next_alloc (\<lambda>_. ret (Whole (ANarrow (take len (drop ind (elems b)))))))"

section \<open>Concatenation\<close>

text \<open>
  Both operands are made wide.  A failed allocation in a conversion is not noticed there: the
  error value is taken for the operand, which is a type error for the left one and is followed
  as a pointer for the right one.
\<close>

definition attempt :: "'a rt \<Rightarrow> (aerror + 'a) rt" where
  "attempt m t = (case m t of (r, t') \<Rightarrow> (Inr r, t'))"

definition AConcatWideStrings :: "strval \<Rightarrow> strval \<Rightarrow> strval rt" where
  "AConcatWideStrings left right =
     bindM (if is_wide left then ret (Inr left) else attempt (ANarrowStringToWide left))
       (\<lambda>l. bindM (if is_wide right then ret (Inr right) else attempt (ANarrowStringToWide right))
          (\<lambda>r. case l of
                 Inl _ \<Rightarrow> raise TypeError
               | Inr left \<Rightarrow>
                   (case r of
                      Inl _ \<Rightarrow> raise UndefinedBehaviour
                    | Inr right \<Rightarrow>
                        bindM next_alloc
                          (\<lambda>_. ret (Whole (AWide (str_elems left @ str_elems right)))))))"

definition AConcatStrings :: "strval \<Rightarrow> strval \<Rightarrow> strval rt" where
  "AConcatStrings left right =
     (if is_wide left \<or> is_wide right then AConcatWideStrings left right
      else bindM next_alloc
             (\<lambda>_. ret (Whole (ANarrow (str_elems left @ str_elems right)))))"

section \<open>Substrings\<close>

definition A_MIN_SUBSTR_LEN :: nat where
  "A_MIN_SUBSTR_LEN = AGetBlockSize (8 + 1) - 8 + 1"

text \<open>The test of the length is done on a C int.\<close>

definition new_substr :: "astr \<Rightarrow> int \<Rightarrow> int \<Rightarrow> strval rt" where
  "new_substr b begInd len =
     (if sint (of_int len :: 32 word) < - 1 then raise IndexError
      else bindM next_alloc (\<lambda>_. ret (SubStr b (nat begInd) (nat len))))"

text \<open>
  Short results are copied; what the copy takes beyond the length is not part of the result.  The
  copy of a wide string goes through a pointer that was read before the allocation, so that it is
  undefined when a collection has moved the string.
\<close>

definition sub_of_block :: "astr \<Rightarrow> int \<Rightarrow> int \<Rightarrow> strval rt" where
  "sub_of_block b begInd len =
     (case b of
        ANarrow s \<Rightarrow>
          if len < int A_MIN_SUBSTR_LEN
          then bindM next_alloc (\<lambda>_. ret (Whole (ANarrow (take (nat len) (drop (nat begInd) s)))))
          else new_substr b begInd len
      | AWide s \<Rightarrow>
          if len < (int A_MIN_SUBSTR_LEN + 1) div 2
          then bindM next_alloc
                 (\<lambda>(moved, _). if moved then raise UndefinedBehaviour
                    else ret (Whole (AWide (take (nat len) (drop (nat begInd) s)))))
          else new_substr b begInd len)"

definition ACreateSubStr :: "strval \<Rightarrow> int \<Rightarrow> int \<Rightarrow> strval rt" where
  "ACreateSubStr v begInd endInd =
     (let n = int (AStrLen v);
          begInd = (if begInd < 0 then max (n + begInd) 0 else begInd);
          endInd = (if endInd < 0 then n + endInd else if endInd > n then n else endInd);
          (begInd, endInd) = (if endInd < begInd then (0, 0) else (begInd, endInd));
          len = endInd - begInd
      in case v of
           Whole b \<Rightarrow> sub_of_block b begInd len
         | SubStr b ind l \<Rightarrow> sub_of_block b (begInd + int ind) len)"

section \<open>Comparison\<close>

text \<open>The result is a C int; the difference of the lengths is cut to it.\<close>

fun cmp_chars :: "nat list \<Rightarrow> nat list \<Rightarrow> int" where
  "cmp_chars (x # xs) (y # ys) = (if x \<noteq> y then int x - int y else cmp_chars xs ys)"
| "cmp_chars xs ys = sint (of_int (int (length xs) - int (length ys)) :: 32 word)"

definition ACompareStrings :: "strval \<Rightarrow> strval \<Rightarrow> int" where
  "ACompareStrings s1 s2 = cmp_chars (str_elems s1) (str_elems s2)"

definition A_CMP_FAIL :: int where
  "A_CMP_FAIL = 0x10000"

datatype operator = OPER_EQ | OPER_NEQ | OPER_LT | OPER_LTE | OPER_GT | OPER_GTE

definition ALtSatisfiesOp :: "operator \<Rightarrow> bool" where
  "ALtSatisfiesOp op \<longleftrightarrow> op = OPER_LT \<or> op = OPER_LTE \<or> op = OPER_NEQ"

definition AEqSatisfiesOp :: "operator \<Rightarrow> bool" where
  "AEqSatisfiesOp op \<longleftrightarrow> op = OPER_LTE \<or> op = OPER_GTE \<or> op = OPER_EQ"

definition AGtSatisfiesOp :: "operator \<Rightarrow> bool" where
  "AGtSatisfiesOp op \<longleftrightarrow> op = OPER_GT \<or> op = OPER_GTE \<or> op = OPER_NEQ"

text \<open>\<^verbatim>\<open>ACompareOrder\<close> on two strings.\<close>

definition CompareOrder_Str :: "operator \<Rightarrow> strval \<Rightarrow> strval \<Rightarrow> aerror + bool" where
  "CompareOrder_Str op left right =
     (let result = ACompareStrings left right
      in if result < 0 then Inr (ALtSatisfiesOp op)
         else if result = 0 then Inr (AEqSatisfiesOp op)
         else if result \<noteq> A_CMP_FAIL then Inr (AGtSatisfiesOp op)
         else Inl TypeError)"

section \<open>Repetition\<close>

text \<open>
  The size in bytes is a signed 64-bit integer for narrow strings and an unsigned C int for wide
  ones.  A block of a negative size, or characters that do not fit the block, are undefined.  When
  the count is not positive nothing is copied.
\<close>

definition ARepeatString :: "strval \<Rightarrow> int \<Rightarrow> strval rt" where
  "ARepeatString v num =
     (let s = str_elems v; len = int (length s)
      in if is_wide v then
           let size = unat (of_int (num * len * 2) :: 32 word) div 2
           in bindM next_alloc
                (\<lambda>(_, junk).
                   if num \<le> 0 \<or> len = 0 then ret (Whole (AWide (junk_wide size junk)))
                   else if nat (num * len) \<le> size
                   then ret (Whole (AWide (concat (replicate (nat num) s) @ drop (nat (num * len)) (junk_wide size junk))))
                   else raise UndefinedBehaviour)
         else
           let size = sint (of_int (num * len) :: 64 word)
           in if size < 0 then raise UndefinedBehaviour
              else bindM next_alloc
                (\<lambda>(_, junk).
                   if num \<le> 0 \<or> len = 0 then ret (Whole (ANarrow (junk_bytes (nat size) junk)))
                   else if num * len = size
                   then ret (Whole (ANarrow (concat (replicate (nat num) s))))
                   else raise UndefinedBehaviour))"

section \<open>Hash values\<close>

definition AStringHashValue :: "strval \<Rightarrow> avalue" where
  "AStringHashValue v =
     AIntToValue (ucast (foldl (\<lambda>h c. h + (h * 32 + of_nat c)) (0 :: 32 word) (str_elems v)))"

end
