(* ===== verification/Std_Array.thy ===== *)
theory Std_Array
  imports Str_Data
begin

text \<open>
  Arrays (\<^verbatim>\<open>src/src/std_array.c\<close>).  An Array object holds a fixed array, the number of its cells
  (the capacity) and the number of those that are in use.  Items are of any type; equality of items
  is a parameter that may raise an exception.  An operation on an array keeps the array also when it
  raises, since the stores that it has done by then remain.
\<close>

section \<open>Operations on an array\<close>

record 'v aarray =
  A_ARRAY_A :: "'v list"
  A_ARRAY_LEN :: nat
  A_ARRAY_CAPACITY :: nat

type_synonym ('v, 'b) array_op = "'v aarray \<Rightarrow> athread \<Rightarrow> (aerror + 'b) \<times> 'v aarray \<times> athread"

definition retA :: "'b \<Rightarrow> ('v, 'b) array_op" where
  "retA x a t = (Inr x, a, t)"

definition thenA :: "('v, 'b) array_op \<Rightarrow> ('b \<Rightarrow> ('v, 'c) array_op) \<Rightarrow> ('v, 'c) array_op" where
  "thenA f g a t = (case f a t of (Inl e, a, t) \<Rightarrow> (Inl e, a, t) | (Inr x, a, t) \<Rightarrow> g x a t)"

text \<open>A step that does not change the array, and one that changes only the array.\<close>

definition liftA :: "'b rt \<Rightarrow> ('v, 'b) array_op" where
  "liftA m a t = (case m t of (r, t) \<Rightarrow> (r, a, t))"

definition readA :: "('v aarray \<Rightarrow> aerror + 'b) \<Rightarrow> ('v, 'b) array_op" where
  "readA f a t = (f a, a, t)"

definition setA :: "('v aarray \<Rightarrow> 'v aarray) \<Rightarrow> ('v, unit) array_op" where
  "setA f a t = (Inr (), f a, t)"

section \<open>Cells\<close>

definition AFixArrayItem :: "'v list \<Rightarrow> nat \<Rightarrow> aerror + 'v" where
  "AFixArrayItem xs i = (if i < length xs then Inr (xs ! i) else Inl UndefinedBehaviour)"

text \<open>A store may have to record a reference to a new object, which needs memory.\<close>

definition fix_store :: "'v list \<Rightarrow> nat \<Rightarrow> 'v \<Rightarrow> 'v list rt" where
  "fix_store xs i v =
     (if i < length xs then bindM next_alloc (\<lambda>_. ret (xs[i := v])) else raise UndefinedBehaviour)"

definition AMakeFixArray :: "nat \<Rightarrow> 'v \<Rightarrow> 'v list rt" where
  "AMakeFixArray n init = bindM next_alloc (\<lambda>_. ret (replicate n init))"

text \<open>A store to the fixed array of the array; when it fails the cell keeps its value.\<close>

definition ASetFixArrayItem :: "nat \<Rightarrow> 'v \<Rightarrow> ('v, unit) array_op" where
  "ASetFixArrayItem i v a t =
     (case fix_store (A_ARRAY_A a) i v t of
        (Inl e, t) \<Rightarrow> (Inl e, a, t)
      | (Inr xs, t) \<Rightarrow> (Inr (), a\<lparr>A_ARRAY_A := xs\<rparr>, t))"

definition item_at :: "nat \<Rightarrow> ('v, 'v) array_op" where
  "item_at i = readA (\<lambda>a. AFixArrayItem (A_ARRAY_A a) i)"

section \<open>Creation and growth\<close>

definition AArrayInitialize :: "'v \<Rightarrow> 'v aarray rt" where
  "AArrayInitialize nil =
     bindM (AMakeFixArray 1 nil) (\<lambda>xs. bindM next_alloc (\<lambda>_.
       ret \<lparr>A_ARRAY_A = xs, A_ARRAY_LEN = 0, A_ARRAY_CAPACITY = 1\<rparr>))"

definition AMakeArrayND :: "'v \<Rightarrow> nat \<Rightarrow> 'v aarray rt" where
  "AMakeArrayND nil n =
     bindM next_alloc (\<lambda>_. ret \<lparr>A_ARRAY_A = replicate n nil, A_ARRAY_LEN = n, A_ARRAY_CAPACITY = n\<rparr>)"

text \<open>The first \<open>n\<close> cells are copied in ascending order.\<close>

primrec copy_cells :: "nat \<Rightarrow> 'v list \<Rightarrow> 'v list \<Rightarrow> 'v list rt" where
  "copy_cells 0 src dst = ret dst"
| "copy_cells (Suc n) src dst =
     bindM (copy_cells n src dst) (\<lambda>dst. bindM (liftE (AFixArrayItem src n)) (\<lambda>v. fix_store dst n v))"

definition grown_capacity :: "nat \<Rightarrow> nat \<Rightarrow> nat" where
  "grown_capacity cap amount =
     (let newCapacity = max (cap * 2) (cap + amount) in if newCapacity < 4 then 4 else newCapacity)"

text \<open>The capacity is stored before the new fixed array, whose store may fail.\<close>

definition AResizeArray :: "'v \<Rightarrow> nat \<Rightarrow> ('v, unit) array_op" where
  "AResizeArray nil amount =
     thenA (liftA next_alloc) (\<lambda>_.
     thenA (readA (\<lambda>a. Inr (A_ARRAY_CAPACITY a))) (\<lambda>cap.
     let newCapacity = grown_capacity cap amount
     in thenA (liftA (AMakeFixArray newCapacity nil)) (\<lambda>new.
        thenA (readA (\<lambda>a. Inr (A_ARRAY_A a))) (\<lambda>old.
        thenA (liftA (copy_cells cap old new)) (\<lambda>new.
        thenA (setA (\<lambda>a. a\<lparr>A_ARRAY_CAPACITY := newCapacity\<rparr>)) (\<lambda>_.
        thenA (liftA next_alloc) (\<lambda>_. setA (\<lambda>a. a\<lparr>A_ARRAY_A := new\<rparr>))))))))"

section \<open>Adding items\<close>

definition AArrayAppend :: "'v \<Rightarrow> 'v \<Rightarrow> ('v, unit) array_op" where
  "AArrayAppend nil v =
     thenA (readA (\<lambda>a. Inr (A_ARRAY_LEN a, A_ARRAY_CAPACITY a))) (\<lambda>(len, cap).
     thenA (if len = cap then AResizeArray nil 0 else retA ()) (\<lambda>_.
     thenA (ASetFixArrayItem len v) (\<lambda>_. setA (\<lambda>a. a\<lparr>A_ARRAY_LEN := len + 1\<rparr>))))"

text \<open>The C function that appends stores the length first.\<close>

definition AAppendArray :: "'v \<Rightarrow> 'v \<Rightarrow> ('v, unit) array_op" where
  "AAppendArray nil v =
     thenA (readA (\<lambda>a. Inr (A_ARRAY_LEN a, A_ARRAY_CAPACITY a))) (\<lambda>(len, cap).
     thenA (if len = cap then thenA (liftA next_alloc) (\<lambda>_. AResizeArray nil 0) else retA ()) (\<lambda>_.
     thenA (setA (\<lambda>a. a\<lparr>A_ARRAY_LEN := len + 1\<rparr>)) (\<lambda>_. ASetFixArrayItem len v)))"

text \<open>The items of an iterable, where one that can not be had raises an exception.\<close>

fun append_items :: "'v \<Rightarrow> (aerror + 'v) list \<Rightarrow> ('v, unit) array_op" where
  "append_items nil [] = retA ()"
| "append_items nil (x # xs) =
     thenA (readA (\<lambda>_. x)) (\<lambda>v. thenA (AAppendArray nil v) (\<lambda>_. append_items nil xs))"

definition AArrayCreate :: "'v \<Rightarrow> (aerror + 'v) list option \<Rightarrow> 'v aarray rt" where
  "AArrayCreate nil iterable =
     bindM (AArrayInitialize nil) (\<lambda>a.
       case iterable of
         None \<Rightarrow> ret a
       | Some xs \<Rightarrow> (\<lambda>t. case append_items nil xs a t of (Inl e, _, t) \<Rightarrow> (Inl e, t) | (Inr _, a, t) \<Rightarrow> (Inr a, t)))"

text \<open>The argument of \<^verbatim>\<open>extend\<close>: the array itself, another array, or another sequence.\<close>

datatype 'v extend_arg = Itself | OtherArray "'v aarray" | Sequence "(aerror + 'v) list"

definition arg_len :: "'v extend_arg \<Rightarrow> ('v, nat) array_op" where
  "arg_len arg =
     (case arg of
        Itself \<Rightarrow> readA (\<lambda>a. Inr (A_ARRAY_LEN a))
      | OtherArray b \<Rightarrow> retA (A_ARRAY_LEN b)
      | Sequence xs \<Rightarrow> retA (length xs))"

definition arg_item :: "'v extend_arg \<Rightarrow> nat \<Rightarrow> ('v, 'v) array_op" where
  "arg_item arg i =
     (case arg of
        Itself \<Rightarrow> item_at i
      | OtherArray b \<Rightarrow> readA (\<lambda>_. AFixArrayItem (A_ARRAY_A b) i)
      | Sequence xs \<Rightarrow> readA (\<lambda>_. xs ! i))"

primrec extend_loop :: "'v extend_arg \<Rightarrow> nat \<Rightarrow> nat \<Rightarrow> ('v, unit) array_op" where
  "extend_loop arg len 0 = retA ()"
| "extend_loop arg len (Suc n) =
     thenA (extend_loop arg len n) (\<lambda>_. thenA (arg_item arg n) (\<lambda>v. ASetFixArrayItem (len + n) v))"

definition AArrayExtend :: "'v \<Rightarrow> 'v extend_arg \<Rightarrow> ('v, unit) array_op" where
  "AArrayExtend nil arg =
     thenA (readA (\<lambda>a. Inr (A_ARRAY_LEN a, A_ARRAY_CAPACITY a))) (\<lambda>(len, cap).
     thenA (arg_len arg) (\<lambda>argLen.
     thenA (if int argLen > int cap - int len then AResizeArray nil argLen else retA ()) (\<lambda>_.
     thenA (extend_loop arg len argLen) (\<lambda>_. setA (\<lambda>a. a\<lparr>A_ARRAY_LEN := len + argLen\<rparr>)))))"

section \<open>Indices\<close>

definition ANormIndex :: "int \<Rightarrow> int \<Rightarrow> int" where
  "ANormIndex i l = (if i < 0 then l + i else i)"

definition ANormIndexV :: "avalue \<Rightarrow> avalue \<Rightarrow> avalue" where
  "ANormIndexV i l = (if sint i < 0 then l + i else i)"

text \<open>
  The index of an item as \<^verbatim>\<open>_get\<close> and \<^verbatim>\<open>_set\<close> check it, on tagged values.
\<close>

definition checked_index :: "aint \<Rightarrow> ('v, nat) array_op" where
  "checked_index index =
     readA (\<lambda>a. case index of
        AShort i \<Rightarrow>
          let len = AIntToValue (of_nat (A_ARRAY_LEN a));
              i = (if i \<ge> len then ANormIndexV i len else i)
          in if i \<ge> len then Inl IndexError else Inr (unat (AValueToInt i))
      | ALong _ \<Rightarrow> Inl IndexError)"

definition AArray_get :: "aint \<Rightarrow> ('v, 'v) array_op" where
  "AArray_get index = thenA (checked_index index) (\<lambda>i. item_at i)"

definition ATuple_get :: "aint \<Rightarrow> ('v, 'v) array_op" where
  "ATuple_get index = thenA (checked_index index) (\<lambda>i. item_at i)"

definition AArray_set :: "aint \<Rightarrow> 'v \<Rightarrow> ('v, unit) array_op" where
  "AArray_set index v = thenA (checked_index index) (\<lambda>i. ASetFixArrayItem i v)"

section \<open>Inserting and removing\<close>

text \<open>The \<open>k\<close> cells from \<open>i\<close> on are moved up by one, the last one first.\<close>

primrec shift_up :: "nat \<Rightarrow> nat \<Rightarrow> ('v, unit) array_op" where
  "shift_up i 0 = retA ()"
| "shift_up i (Suc k) =
     thenA (item_at (i + k)) (\<lambda>v. thenA (ASetFixArrayItem (i + k + 1) v) (\<lambda>_. shift_up i k))"

definition AArrayInsertAt :: "'v \<Rightarrow> aint \<Rightarrow> 'v \<Rightarrow> ('v, unit) array_op" where
  "AArrayInsertAt nil index v =
     thenA (liftA (AGetInt64 index)) (\<lambda>i.
     thenA (readA (\<lambda>a. Inr (A_ARRAY_LEN a, A_ARRAY_CAPACITY a))) (\<lambda>(n, cap).
     let i = (if sint i < 0 \<or> sint i > int n then ANormIndex (sint i) (int n) else sint i)
     in if i < 0 \<or> i > int n then readA (\<lambda>_. Inl IndexError)
        else thenA (if n = cap then AResizeArray nil 0 else retA ()) (\<lambda>_.
             thenA (shift_up (nat i) (n - nat i)) (\<lambda>_.
             thenA (ASetFixArrayItem (nat i) v) (\<lambda>_.
               setA (\<lambda>a. a\<lparr>A_ARRAY_LEN := A_ARRAY_LEN a + 1\<rparr>))))))"

text \<open>The cells from \<open>i\<close> on, \<open>k\<close> of them; those that stay are moved down by \<open>numDel\<close>.\<close>

primrec remove_loop :: "('v \<Rightarrow> 'v \<Rightarrow> aerror + bool) \<Rightarrow> 'v \<Rightarrow> nat \<Rightarrow> nat \<Rightarrow> nat \<Rightarrow> ('v, nat) array_op" where
  "remove_loop eq v 0 i numDel = retA numDel"
| "remove_loop eq v (Suc k) i numDel =
     thenA (item_at i) (\<lambda>x.
     thenA (readA (\<lambda>_. eq x v)) (\<lambda>r.
       if r then remove_loop eq v k (i + 1) (numDel + 1)
       else thenA (if numDel \<noteq> 0 then ASetFixArrayItem (i - numDel) x else retA ()) (\<lambda>_.
              remove_loop eq v k (i + 1) numDel)))"

definition AArrayRemove :: "('v \<Rightarrow> 'v \<Rightarrow> aerror + bool) \<Rightarrow> 'v \<Rightarrow> ('v, unit) array_op" where
  "AArrayRemove eq v =
     thenA (readA (\<lambda>a. Inr (A_ARRAY_LEN a))) (\<lambda>len.
     thenA (remove_loop eq v len 0 0) (\<lambda>numDel.
       setA (\<lambda>a. a\<lparr>A_ARRAY_LEN := A_ARRAY_LEN a - numDel\<rparr>)))"

primrec shift_down :: "nat \<Rightarrow> nat \<Rightarrow> ('v, unit) array_op" where
  "shift_down j 0 = retA ()"
| "shift_down j (Suc k) =
     thenA (item_at (j + 1)) (\<lambda>v. thenA (ASetFixArrayItem j v) (\<lambda>_. shift_down (j + 1) k))"

definition AArrayRemoveAt :: "'v \<Rightarrow> aint \<Rightarrow> ('v, 'v) array_op" where
  "AArrayRemoveAt zero index =
     thenA (liftA (AGetInt64 index)) (\<lambda>i.
     thenA (readA (\<lambda>a. Inr (A_ARRAY_LEN a))) (\<lambda>n.
     let i = (if sint i \<ge> int n \<or> sint i < 0 then ANormIndex (sint i) (int n) else sint i)
     in if i \<ge> int n \<or> i < 0 then readA (\<lambda>_. Inl IndexError)
        else thenA (item_at (nat i)) (\<lambda>v.
             thenA (shift_down (nat i) (n - 1 - nat i)) (\<lambda>_.
             thenA (ASetFixArrayItem (n - 1) zero) (\<lambda>_.
             thenA (setA (\<lambda>a. a\<lparr>A_ARRAY_LEN := A_ARRAY_LEN a - 1\<rparr>)) (\<lambda>_. retA v))))))"

section \<open>Searching\<close>

text \<open>The items of an array that is only read.\<close>

fun in_loop :: "('v \<Rightarrow> 'v \<Rightarrow> aerror + bool) \<Rightarrow> 'v \<Rightarrow> 'v list \<Rightarrow> nat \<Rightarrow> aerror + bool" where
  "in_loop eq v xs 0 = Inr False"
| "in_loop eq v [] (Suc n) = Inl UndefinedBehaviour"
| "in_loop eq v (x # xs) (Suc n) = bindE (eq v x) (\<lambda>r. if r then Inr True else in_loop eq v xs n)"

definition AArray_in :: "('v \<Rightarrow> 'v \<Rightarrow> aerror + bool) \<Rightarrow> 'v \<Rightarrow> 'v aarray \<Rightarrow> aerror + bool" where
  "AArray_in eq v a = in_loop eq v (A_ARRAY_A a) (A_ARRAY_LEN a)"

fun array_find_loop :: "('v \<Rightarrow> 'v \<Rightarrow> aerror + bool) \<Rightarrow> 'v \<Rightarrow> 'v list \<Rightarrow> nat \<Rightarrow> nat \<Rightarrow> aerror + nat option" where
  "array_find_loop eq v xs i 0 = Inr None"
| "array_find_loop eq v [] i (Suc n) = Inl UndefinedBehaviour"
| "array_find_loop eq v (x # xs) i (Suc n) =
     bindE (eq x v) (\<lambda>r. if r then Inr (Some i) else array_find_loop eq v xs (i + 1) n)"

text \<open>\<^verbatim>\<open>AMakeInt\<close> takes a C int.\<close>

definition AArrayFind :: "('v \<Rightarrow> 'v \<Rightarrow> aerror + bool) \<Rightarrow> 'v \<Rightarrow> 'v aarray \<Rightarrow> aerror + aint" where
  "AArrayFind eq v a =
     bindE (array_find_loop eq v (A_ARRAY_A a) 0 (A_ARRAY_LEN a)) (\<lambda>r.
       Inr (case r of Some i \<Rightarrow> AMakeInt (of_nat i) | None \<Rightarrow> AShort (AIntToValue (- 1))))"

definition AArrayIndex :: "('v \<Rightarrow> 'v \<Rightarrow> aerror + bool) \<Rightarrow> 'v \<Rightarrow> 'v aarray \<Rightarrow> aerror + aint" where
  "AArrayIndex eq v a =
     bindE (AArrayFind eq v a) (\<lambda>r.
       if r = AShort (AIntToValue (- 1)) then Inl (ValueError ''Item not found'') else Inr r)"

fun array_count_loop :: "('v \<Rightarrow> 'v \<Rightarrow> aerror + bool) \<Rightarrow> 'v \<Rightarrow> 'v list \<Rightarrow> nat \<Rightarrow> nat \<Rightarrow> aerror + nat" where
  "array_count_loop eq v xs c 0 = Inr c"
| "array_count_loop eq v [] c (Suc n) = Inl UndefinedBehaviour"
| "array_count_loop eq v (x # xs) c (Suc n) =
     bindE (eq x v) (\<lambda>r. array_count_loop eq v xs (if r then c + 1 else c) n)"

definition AArrayCount :: "('v \<Rightarrow> 'v \<Rightarrow> aerror + bool) \<Rightarrow> 'v \<Rightarrow> 'v aarray \<Rightarrow> aerror + aint" where
  "AArrayCount eq v a =
     bindE (array_count_loop eq v (A_ARRAY_A a) 0 (A_ARRAY_LEN a)) (\<lambda>n. Inr (AMakeInt (of_nat n)))"

end
