(* ===== verification/Hash_Probe.thy ===== *)
theory Hash_Probe
  imports Int_Arith_Lemmas
begin

text \<open>
  Open addressing as used by \<^verbatim>\<open>src/src/std_map.c\<close> and \<^verbatim>\<open>src/src/set_module.c\<close>: the probe
  sequence \<open>i \<mapsto> 5 i + 1\<close> modulo a power of two visits every slot, so that a probe of a
  table with an empty slot ends.
\<close>

section \<open>Hash values\<close>

text \<open>What \<^verbatim>\<open>AStdHash\<close> may return: an Int, or (from user code) some other value.\<close>

datatype hashval = HInt aint | HOther

text \<open>\<^verbatim>\<open>hash = 33 * hash + li->digit[i]\<close> over the digits, starting from the sign bit.\<close>

fun LongIntHash_loop :: "digit \<Rightarrow> digit list \<Rightarrow> digit" where
  "LongIntHash_loop hash [] = hash"
| "LongIntHash_loop hash (d # ds) = LongIntHash_loop (33 * hash + d) ds"

definition LongIntHash :: "longint \<Rightarrow> digit" where
  "LongIntHash li = LongIntHash_loop (if li_neg li then 4 else 0) (digits li)"

fun HashToInt :: "hashval \<Rightarrow> aerror + 64 word" where
  "HashToInt (HInt (AShort w)) = Inr (AValueToInt w)"
| "HashToInt (HInt (ALong li)) = Inr (scast (LongIntHash li))"
| "HashToInt HOther = Inl TypeError"

section \<open>Keys\<close>

text \<open>
  The operations a table calls on its keys, the hash function and the equality of the
  language; for instances they run user code, which may raise an exception.
\<close>

record 'k keyops =
  khash :: "'k \<Rightarrow> aerror + hashval"
  keq :: "'k \<Rightarrow> 'k \<Rightarrow> aerror + bool"

section \<open>Probing\<close>

text \<open>A cell that holds a key: empty, removed, or taken.\<close>

datatype 'k slot = EmptyMarker | RemovedMarker | Key 'k

definition NextIndex :: "64 word \<Rightarrow> 64 word \<Rightarrow> 64 word" where
  "NextIndex i sz = (i * 5 + 1) AND sz"

text \<open>
  The search finds the key, ends at an empty slot, or fails: with a direct exception, which
  unwinds the callers, or by returning the error value of a hash method to its caller.
\<close>

datatype probe_result = Found nat | Free nat | Failed aerror | Returned aerror

text \<open>
  The search loop.  A read outside the table is undefined behaviour.  The first argument
  bounds the number of steps; the loop of the code does not end when it is used up after
  as many steps as there are slots.
\<close>

fun probe :: "nat \<Rightarrow> ('k \<Rightarrow> aerror + bool) \<Rightarrow> 64 word \<Rightarrow> ('k slot \<times> 'v) list \<Rightarrow> 64 word \<Rightarrow> probe_result" where
  "probe 0 eqk sz a i = Failed NonTermination"
| "probe (Suc n) eqk sz a i =
     (if unat i \<ge> length a then Failed UndefinedBehaviour
      else case fst (a ! unat i) of
        EmptyMarker \<Rightarrow> Free (unat i)
      | RemovedMarker \<Rightarrow> probe n eqk sz a (NextIndex i sz)
      | Key k \<Rightarrow>
          (case eqk k of
             Inl e \<Rightarrow> Failed e
           | Inr True \<Rightarrow> Found (unat i)
           | Inr False \<Rightarrow> probe n eqk sz a (NextIndex i sz)))"

section \<open>The probe sequence has full period\<close>

definition nexti :: "nat \<Rightarrow> nat \<Rightarrow> nat" where
  "nexti b i = (5 * i + 1) mod 2 ^ b"

definition orbit :: "nat \<Rightarrow> nat \<Rightarrow> nat \<Rightarrow> nat" where
  "orbit b s n = (nexti b ^^ n) s"

text \<open>\<open>geo n\<close> is \<open>1 + 5 + \<dots> + 5^(n-1)\<close>.\<close>

fun geo :: "nat \<Rightarrow> nat" where
  "geo 0 = 0"
| "geo (Suc n) = 5 * geo n + 1"

lemma geo_closed: "4 * geo n + 1 = 5 ^ n"
  by (induction n) auto

lemma geo_add: "geo (m + n) = 5 ^ m * geo n + geo m"
  by (induction m) (auto simp: algebra_simps)

lemma geo_parity: "even (geo n) \<longleftrightarrow> even n"
  by (induction n) auto

lemma geo_dvd: "2 ^ k dvd geo d \<Longrightarrow> 2 ^ k dvd d"
proof (induction k arbitrary: d)
  case (Suc k)
  then have "even (geo d)" by (auto dest: dvd_mult_left)
  then obtain e where d: "d = e + e" using geo_parity by (auto simp: mult_2 elim!: evenE)
  have "geo d = geo e * (5 ^ e + 1)" unfolding d geo_add by (simp add: algebra_simps)
  also have "\<dots> = 2 * (geo e * (2 * geo e + 1))" using geo_closed [of e, symmetric] by simp
  finally have "2 * 2 ^ k dvd 2 * (geo e * (2 * geo e + 1))" using Suc.prems by (simp only: power_Suc)
  then have "2 ^ k dvd geo e * (2 * geo e + 1)" by (simp only: nat_mult_dvd_cancel1 zero_less_numeral)
  moreover have "coprime (2 ^ k) (2 * geo e + 1)" by simp
  ultimately have "2 ^ k dvd geo e" using coprime_dvd_mult_left_iff by blast
  then show ?case using Suc.IH d by (auto simp flip: mult_2)
qed simp

lemma orbit_closed: "orbit b s n mod 2 ^ b = (5 ^ n * s + geo n) mod 2 ^ b"
proof (induction n)
  case (Suc n)
  have "orbit b s (Suc n) mod 2 ^ b = (5 * (orbit b s n mod 2 ^ b) + 1) mod 2 ^ b"
    unfolding orbit_def funpow.simps comp_def nexti_def by (metis mod_add_left_eq mod_mod_trivial mod_mult_right_eq)
  also have "\<dots> = (5 * (5 ^ n * s + geo n) + 1) mod 2 ^ b"
    unfolding Suc.IH by (metis mod_add_left_eq mod_mult_right_eq)
  finally show ?case by (simp add: algebra_simps)
qed (simp add: orbit_def)

lemma orbit_less: "s < 2 ^ b \<Longrightarrow> orbit b s n < 2 ^ b"
  by (cases n) (auto simp: orbit_def nexti_def)

lemma orbit_inj:
  assumes "orbit b s m mod 2 ^ b = orbit b s n mod 2 ^ b" "m \<le> n" "n < m + 2 ^ b"
  shows "m = n"
proof -
  obtain d where n: "n = m + d" using assms(2) le_Suc_ex by blast
  have le: "5 ^ m * s + geo m \<le> 5 ^ n * s + geo n"
    unfolding n by (simp add: power_add geo_add add_mono)
  have "2 ^ b dvd (5 ^ n * s + geo n) - (5 ^ m * s + geo m)"
    using assms(1) mod_eq_dvd_iff_nat [OF le, of "2 ^ b"] by (simp only: orbit_closed simp_thms)
  also have "(5 ^ n * s + geo n) - (5 ^ m * s + geo m) = 5 ^ m * (geo d * (4 * s + 1))"
  proof -
    have "5 ^ n * s + geo n = 5 ^ m * ((4 * geo d + 1) * s) + 5 ^ m * geo d + geo m"
      unfolding n geo_add geo_closed by (simp add: power_add algebra_simps)
    then show ?thesis by (simp add: algebra_simps)
  qed
  finally have "2 ^ b dvd geo d * (4 * s + 1)"
    by (subst (asm) coprime_dvd_mult_right_iff) auto
  moreover have "coprime (2 ^ b) (4 * s + 1)"
    using coprime_1_right [of 2] by (simp add: coprime_power_left_iff)
  ultimately have "2 ^ b dvd d"
    using geo_dvd coprime_dvd_mult_left_iff by blast
  then have "d = 0" using assms(3) n by (auto dest: dvd_imp_le)
  then show ?thesis using n by simp
qed

lemma orbit_surj:
  assumes "s < 2 ^ b" "j < 2 ^ b" shows "\<exists>n < 2 ^ b. orbit b s n = j"
proof -
  let ?N = "{..<2 ^ b} :: nat set"
  have "inj_on (orbit b s) ?N"
  proof (rule inj_onI)
    fix m n assume a: "m \<in> ?N" "n \<in> ?N" "orbit b s m = orbit b s n"
    then show "m = n" using orbit_inj [of b s m n] orbit_inj [of b s n m] by (cases "m \<le> n") auto
  qed
  moreover have "orbit b s ` ?N \<subseteq> ?N" using orbit_less [OF assms(1)] by auto
  ultimately have "orbit b s ` ?N = ?N" by (intro card_subset_eq) (auto simp: card_image)
  then show ?thesis using assms(2) by (metis imageE lessThan_iff)
qed

section \<open>The index words follow the orbit\<close>

lemma unat_and_mask:
  shows "unat (w AND of_int (2 ^ b - 1) :: 64 word) = unat w mod 2 ^ b"
proof -
  have "(of_int (2 ^ b - 1) :: 64 word) = mask b" by (simp add: mask_eq_exp_minus_1)
  then have "w AND of_int (2 ^ b - 1) = take_bit b w" by (simp add: take_bit_eq_mask)
  then have "unat (w AND of_int (2 ^ b - 1)) = take_bit b (unat w)" by (simp only: unsigned_take_bit_eq)
  then show ?thesis by (simp only: take_bit_eq_mod)
qed

lemma unat_NextIndex:
  assumes "b \<le> 60" "unat i < 2 ^ b" shows "unat (NextIndex i (of_int (2 ^ b - 1))) = nexti b (unat i)"
proof -
  have "(2::nat) ^ b \<le> 2 ^ 60" using assms(1) by (intro power_increasing) auto
  then have i: "unat i < 1152921504606846976" using assms(2) by simp
  have "unat (i * 5) = unat i * 5" using i by (subst unat_prod_64) auto
  then have "unat (i * 5 + 1) = unat i * 5 + 1" using i by (subst unat_sum_64) auto
  then show ?thesis
    unfolding NextIndex_def unat_and_mask nexti_def by (simp add: mult.commute)
qed

section \<open>What a probe returns\<close>

text \<open>A slot stops the search when it is empty or holds a matching key.\<close>

fun stops :: "('k \<Rightarrow> bool) \<Rightarrow> 'k slot \<Rightarrow> bool" where
  "stops p EmptyMarker = True"
| "stops p RemovedMarker = False"
| "stops p (Key k) = p k"

lemma probe_at:
  assumes "b \<le> 60" "length a = 2 ^ b" "unat i < 2 ^ b" "n < fuel"
    and eqk: "\<And>j k. j < 2 ^ b \<Longrightarrow> fst (a ! j) = Key k \<Longrightarrow> eqk k = Inr (p k)"
    and before: "\<And>m. m < n \<Longrightarrow> \<not> stops p (fst (a ! orbit b (unat i) m))"
    and at: "stops p (fst (a ! orbit b (unat i) n))"
  shows "probe fuel eqk (of_int (2 ^ b - 1)) a i =
     (if fst (a ! orbit b (unat i) n) = EmptyMarker then Free (orbit b (unat i) n)
      else Found (orbit b (unat i) n))"
  using assms(3,4) before at
proof (induction n arbitrary: i fuel)
  case 0
  then show ?case
    using assms(2) eqk [of "unat i"]
    by (cases fuel; cases "fst (a ! unat i)") (auto simp: orbit_def)
next
  case (Suc n)
  then obtain fuel' where f: "fuel = Suc fuel'" "n < fuel'" by (cases fuel) auto
  let ?i = "NextIndex i (of_int (2 ^ b - 1))"
  have ui: "unat ?i = nexti b (unat i)" using assms(1) Suc.prems(1) by (rule unat_NextIndex)
  have sh: "orbit b (unat ?i) m = orbit b (unat i) (Suc m)" for m
    unfolding orbit_def ui funpow_Suc_right by simp
  have step: "\<not> stops p (fst (a ! unat i))" using Suc.prems(3) [of 0] by (simp add: orbit_def)
  have "probe fuel eqk (of_int (2 ^ b - 1)) a i = probe fuel' eqk (of_int (2 ^ b - 1)) a ?i"
    using step assms(2) Suc.prems(1) eqk [of "unat i"] f
    by (cases "fst (a ! unat i)") auto
  also have "\<dots> = (if fst (a ! orbit b (unat ?i) n) = EmptyMarker then Free (orbit b (unat ?i) n)
      else Found (orbit b (unat ?i) n))"
  proof (rule Suc.IH)
    show "unat ?i < 2 ^ b" unfolding ui by (simp add: nexti_def)
    show "\<not> stops p (fst (a ! orbit b (unat ?i) m))" if "m < n" for m
      unfolding sh using that Suc.prems(3) by simp
    show "stops p (fst (a ! orbit b (unat ?i) n))" unfolding sh by (rule Suc.prems(4))
  qed (rule f)
  finally show ?case unfolding sh .
qed

text \<open>With an empty slot somewhere, as many steps as there are slots are enough.\<close>

lemma probe_ends:
  assumes b: "b \<le> 60" and len: "length a = 2 ^ b" and i: "unat i < 2 ^ b"
    and eqk: "\<And>j k. j < 2 ^ b \<Longrightarrow> fst (a ! j) = Key k \<Longrightarrow> eqk k = Inr (p k)"
    and free: "e < 2 ^ b" "fst (a ! e) = EmptyMarker"
  shows "\<exists>n < 2 ^ b. stops p (fst (a ! orbit b (unat i) n)) \<and>
     (\<forall>m < n. \<not> stops p (fst (a ! orbit b (unat i) m))) \<and>
     probe (length a) eqk (of_int (2 ^ b - 1)) a i =
       (if fst (a ! orbit b (unat i) n) = EmptyMarker then Free (orbit b (unat i) n)
        else Found (orbit b (unat i) n))"
proof -
  let ?P = "\<lambda>n. stops p (fst (a ! orbit b (unat i) n))"
  obtain n0 where n0: "n0 < 2 ^ b" "orbit b (unat i) n0 = e" using orbit_surj [OF i free(1)] by blast
  then have P0: "?P n0" using free(2) by simp
  define n where "n = (LEAST n. ?P n)"
  have Pn: "?P n" unfolding n_def using P0 by (rule LeastI)
  have least: "\<not> ?P m" if "m < n" for m using that unfolding n_def by (rule not_less_Least)
  have "n \<le> n0" unfolding n_def using P0 by (rule Least_le)
  then have "n < 2 ^ b" using n0 by simp
  moreover from this have "probe (length a) eqk (of_int (2 ^ b - 1)) a i =
       (if fst (a ! orbit b (unat i) n) = EmptyMarker then Free (orbit b (unat i) n)
        else Found (orbit b (unat i) n))"
    using b len i eqk least Pn by (intro probe_at) auto
  ultimately show ?thesis using Pn least by blast
qed

end
