(* ===== verification/Array_Seq.thy ===== *)
theory Array_Seq
  imports Std_Array Hash_Probe
begin

text \<open>
  Operations that make new arrays (\<^verbatim>\<open>src/src/std_array.c\<close>): slices, concatenation, repetition and
  copies; iteration, hash values and the comparison of arrays.
\<close>

section \<open>Slices and concatenation\<close>

text \<open>Cells \<open>i\<close> to \<open>i + n - 1\<close> of a fixed array, as a block copy reads them.\<close>

definition read_cells :: "'v list \<Rightarrow> nat \<Rightarrow> nat \<Rightarrow> aerror + 'v list" where
  "read_cells xs i n =
     (if n = 0 then Inr [] else if i + n \<le> length xs then Inr (take n (drop i xs)) else Inl UndefinedBehaviour)"

definition new_array :: "'v list \<Rightarrow> 'v aarray" where
  "new_array xs = \<lparr>A_ARRAY_A = xs, A_ARRAY_LEN = length xs, A_ARRAY_CAPACITY = length xs\<rparr>"

definition ASubArrayND :: "'v \<Rightarrow> 'v aarray \<Rightarrow> int \<Rightarrow> int \<Rightarrow> 'v aarray rt" where
  "ASubArrayND nil a begInd endInd =
     (let arrLen = int (A_ARRAY_LEN a);
          begInd = (if begInd < 0 then max (arrLen + begInd) 0 else begInd);
          endInd = (if endInd < 0 then arrLen + endInd else if endInd > arrLen then arrLen else endInd);
          endInd = (if endInd < begInd then begInd else endInd);
          n = nat (endInd - begInd)
      in bindM (AMakeArrayND nil n) (\<lambda>_.
           bindM (liftE (read_cells (A_ARRAY_A a) (nat begInd) n)) (\<lambda>xs. ret (new_array xs))))"

text \<open>The bounds of a slice are Int values or left out.\<close>

definition AArray_get_slice :: "'v \<Rightarrow> aint option \<Rightarrow> aint option \<Rightarrow> 'v aarray \<Rightarrow> 'v aarray rt" where
  "AArray_get_slice nil lo hi a =
     bindM (case lo of None \<Rightarrow> ret 0 | Some v \<Rightarrow> AGetInt64 v) (\<lambda>i.
     bindM (case hi of None \<Rightarrow> ret A_SHORT_INT_MAX | Some v \<Rightarrow> AGetInt64 v) (\<lambda>j.
       ASubArrayND nil a (sint i) (sint j)))"

definition AConcatArrays :: "'v \<Rightarrow> 'v aarray \<Rightarrow> 'v aarray \<Rightarrow> 'v aarray rt" where
  "AConcatArrays nil a b =
     bindM (AMakeArrayND nil (A_ARRAY_LEN a + A_ARRAY_LEN b)) (\<lambda>_.
     bindM (liftE (read_cells (A_ARRAY_A a) 0 (A_ARRAY_LEN a))) (\<lambda>xs.
     bindM (liftE (read_cells (A_ARRAY_A b) 0 (A_ARRAY_LEN b))) (\<lambda>ys.
       ret (new_array (xs @ ys)))))"

text \<open>Items of another sequence stored from \<open>i\<close> on; one that can not be had raises.\<close>

fun store_items :: "(aerror + 'v) list \<Rightarrow> nat \<Rightarrow> 'v list \<Rightarrow> 'v list rt" where
  "store_items [] i dst = ret dst"
| "store_items (x # xs) i dst = bindM (liftE x) (\<lambda>v. bindM (fix_store dst i v) (\<lambda>dst. store_items xs (i + 1) dst))"

text \<open>\<^verbatim>\<open>_add\<close> of an array, or of a sequence whose class is derived from Array.\<close>

definition AArray_add :: "'v \<Rightarrow> 'v aarray \<Rightarrow> 'v extend_arg \<Rightarrow> 'v aarray rt" where
  "AArray_add nil a arg =
     (case arg of
        Itself \<Rightarrow> AConcatArrays nil a a
      | OtherArray b \<Rightarrow> AConcatArrays nil a b
      | Sequence ys \<Rightarrow>
          bindM (AMakeArrayND nil (A_ARRAY_LEN a + length ys)) (\<lambda>r.
          bindM (copy_cells (A_ARRAY_LEN a) (A_ARRAY_A a) (A_ARRAY_A r)) (\<lambda>dst.
          bindM (store_items ys (A_ARRAY_LEN a) dst) (\<lambda>dst. ret (r\<lparr>A_ARRAY_A := dst\<rparr>)))))"

section \<open>Repetition and copies\<close>

primrec mul_cells :: "nat \<Rightarrow> nat \<Rightarrow> nat \<Rightarrow> nat \<Rightarrow> 'v list \<Rightarrow> 'v list \<Rightarrow> 'v list rt" where
  "mul_cells 0 i j len src dst = ret dst"
| "mul_cells (Suc k) i j len src dst =
     bindM (liftE (AFixArrayItem src j)) (\<lambda>v. bindM (fix_store dst i v) (\<lambda>dst.
       mul_cells k (i + 1) (if j + 1 = len then 0 else j + 1) len src dst))"

text \<open>A length that does not fit a signed 64-bit integer is undefined.\<close>

definition AArray_mul :: "'v \<Rightarrow> aint \<Rightarrow> 'v aarray \<Rightarrow> 'v aarray rt" where
  "AArray_mul nil arg a =
     bindM (AGetInt64 arg) (\<lambda>n.
       let len = A_ARRAY_LEN a
       in if sint n < 0 then raise (ValueError ''Negative repetition count'')
          else if len = 1 then
            bindM (AMakeArrayND nil (unat n)) (\<lambda>_.
            bindM (liftE (AFixArrayItem (A_ARRAY_A a) 0)) (\<lambda>init. ret (new_array (replicate (unat n) init))))
          else if len * unat n \<ge> 2 ^ 63 then raise UndefinedBehaviour
          else
            bindM (AMakeArrayND nil (len * unat n)) (\<lambda>r.
            bindM (mul_cells (len * unat n) 0 0 len (A_ARRAY_A a) (A_ARRAY_A r)) (\<lambda>dst.
              ret (r\<lparr>A_ARRAY_A := dst\<rparr>))))"

definition AArrayCopy :: "'v \<Rightarrow> 'v aarray \<Rightarrow> 'v aarray rt" where
  "AArrayCopy nil a =
     bindM (AMakeArrayND nil (A_ARRAY_LEN a)) (\<lambda>_.
     bindM (liftE (read_cells (A_ARRAY_A a) 0 (A_ARRAY_LEN a))) (\<lambda>xs. ret (new_array xs)))"

section \<open>Iteration\<close>

record 'v array_iter =
  ARRAY_ITER_I :: nat
  ARRAY_ITER_LEN :: nat
  ARRAY_ITER_A :: "'v list"

definition AArrayIter :: "'v aarray \<Rightarrow> 'v array_iter" where
  "AArrayIter a = \<lparr>ARRAY_ITER_I = 0, ARRAY_ITER_LEN = A_ARRAY_LEN a, ARRAY_ITER_A = A_ARRAY_A a\<rparr>"

definition AArrayTupleIterHasNext :: "'v array_iter \<Rightarrow> bool" where
  "AArrayTupleIterHasNext it \<longleftrightarrow> ARRAY_ITER_I it < ARRAY_ITER_LEN it"

definition AArrayTupleIterNext :: "'v array_iter \<Rightarrow> aerror + ('v \<times> 'v array_iter)" where
  "AArrayTupleIterNext it =
     (if ARRAY_ITER_I it < ARRAY_ITER_LEN it then
        bindE (AFixArrayItem (ARRAY_ITER_A it) (ARRAY_ITER_I it)) (\<lambda>v.
          Inr (v, it\<lparr>ARRAY_ITER_I := ARRAY_ITER_I it + 1\<rparr>))
      else Inl (ValueError ''No items left''))"

section \<open>Hash values\<close>

fun array_hash_loop :: "('v \<Rightarrow> aerror + hashval) \<Rightarrow> 'v list \<Rightarrow> nat \<Rightarrow> avalue \<Rightarrow> aerror + avalue" where
  "array_hash_loop hash xs 0 h = Inr h"
| "array_hash_loop hash [] (Suc n) h = Inl UndefinedBehaviour"
| "array_hash_loop hash (x # xs) (Suc n) h =
     bindE (hash x) (\<lambda>r. case r of
         HInt (AShort w) \<Rightarrow> array_hash_loop hash xs n (h + (h * 32 + w))
       | HInt (ALong li) \<Rightarrow> array_hash_loop hash xs n (h + (h * 32 + ALongIntHashValue li))
       | _ \<Rightarrow> Inl TypeError)"

definition AArrayTupleHashValue :: "('v \<Rightarrow> aerror + hashval) \<Rightarrow> 'v aarray \<Rightarrow> aerror + avalue" where
  "AArrayTupleHashValue hash a = array_hash_loop hash (A_ARRAY_A a) (A_ARRAY_LEN a) 0"

section \<open>Comparison\<close>

text \<open>
  Items of arrays may be arrays or tuples.  Other items are compared by \<open>cmp\<close>, which stands for
  \<^verbatim>\<open>ACompareOrder\<close>.  The recursion stops below the fifth level; the number is that of the levels
  that remain.
\<close>

datatype 'v nested = Single 'v | Nest "'v nested list"

definition MAX_ARRAY_COMPARE_DEPTH :: nat where
  "MAX_ARRAY_COMPARE_DEPTH = 5"

text \<open>The first pair of items that are not equal.\<close>

fun first_diff :: "('v \<Rightarrow> 'v \<Rightarrow> aerror + bool) \<Rightarrow> 'v list \<Rightarrow> 'v list \<Rightarrow> aerror + ('v \<times> 'v) option" where
  "first_diff eq (x # xs) (y # ys) = bindE (eq x y) (\<lambda>r. if r then first_diff eq xs ys else Inr (Some (x, y)))"
| "first_diff eq xs ys = Inr None"

definition compare_lengths :: "operator \<Rightarrow> nat \<Rightarrow> nat \<Rightarrow> bool" where
  "compare_lengths op m n =
     (if m < n then ALtSatisfiesOp op else if m = n then AEqSatisfiesOp op else AGtSatisfiesOp op)"

text \<open>The number of pairs to look at, the shorter length, is a C int.\<close>

definition common_len :: "nat \<Rightarrow> nat \<Rightarrow> nat" where
  "common_len m n = nat (sint (word_of_nat (min m n) :: 32 word))"

primrec CompareArraysRecursive ::
    "(operator \<Rightarrow> 'v nested \<Rightarrow> 'v nested \<Rightarrow> aerror + bool) \<Rightarrow> nat \<Rightarrow> operator \<Rightarrow> 'v nested \<Rightarrow> 'v nested \<Rightarrow> aerror + bool" where
  "CompareArraysRecursive cmp 0 op x y =
     (case (x, y) of (Nest xs, Nest ys) \<Rightarrow> Inl (ValueError []) | _ \<Rightarrow> cmp op x y)"
| "CompareArraysRecursive cmp (Suc n) op x y =
     (case (x, y) of
        (Nest xs, Nest ys) \<Rightarrow>
          let len = common_len (length xs) (length ys)
          in bindE (first_diff (CompareArraysRecursive cmp n OPER_EQ) (take len xs) (take len ys)) (\<lambda>r.
            case r of
              None \<Rightarrow> Inr (compare_lengths op (length xs) (length ys))
            | Some (a, b) \<Rightarrow> CompareArraysRecursive cmp n op a b)
      | _ \<Rightarrow> cmp op x y)"

definition ACompareArrays ::
    "(operator \<Rightarrow> 'v nested \<Rightarrow> 'v nested \<Rightarrow> aerror + bool) \<Rightarrow> 'v nested list \<Rightarrow> 'v nested list \<Rightarrow> operator \<Rightarrow> bool rt" where
  "ACompareArrays cmp xs ys op =
     with_temps (2 * MAX_ARRAY_COMPARE_DEPTH)
       (liftE (CompareArraysRecursive cmp (MAX_ARRAY_COMPARE_DEPTH - 1) op (Nest xs) (Nest ys)))"

text \<open>
  The order of an array and of a sequence whose class is derived from Array, by the equality, the
  order \<open><\<close> and the order \<open>>\<close> of items; an item of the sequence that can not be had raises.
\<close>

fun order_loop :: "('v \<Rightarrow> 'v \<Rightarrow> aerror + bool) \<Rightarrow> (operator \<Rightarrow> 'v \<Rightarrow> 'v \<Rightarrow> aerror + bool) \<Rightarrow> operator \<Rightarrow>
    nat \<Rightarrow> nat \<Rightarrow> 'v list \<Rightarrow> (aerror + 'v) list \<Rightarrow> aerror + bool" where
  "order_loop eq cmp op len1 len2 (x # xs) (y # ys) =
     bindE y (\<lambda>y.
       if op = OPER_EQ then bindE (eq x y) (\<lambda>r. if r then order_loop eq cmp op len1 len2 xs ys else Inr False)
       else bindE (cmp op x y) (\<lambda>r. if r then Inr True
            else bindE (eq x y) (\<lambda>r. if r then order_loop eq cmp op len1 len2 xs ys else Inr False)))"
| "order_loop eq cmp op len1 len2 xs ys =
     Inr (if op = OPER_LT then len1 < len2 else if op = OPER_GT then len1 > len2 else True)"

definition CompareArrayOrder :: "('v \<Rightarrow> 'v \<Rightarrow> aerror + bool) \<Rightarrow> (operator \<Rightarrow> 'v \<Rightarrow> 'v \<Rightarrow> aerror + bool) \<Rightarrow>
    'v aarray \<Rightarrow> (aerror + 'v) list \<Rightarrow> operator \<Rightarrow> aerror + bool" where
  "CompareArrayOrder eq cmp a ys op =
     (let len1 = A_ARRAY_LEN a; len2 = length ys
      in if op = OPER_EQ \<and> len1 \<noteq> len2 then Inr False
         else bindE (read_cells (A_ARRAY_A a) 0 (min len1 len2)) (\<lambda>xs. order_loop eq cmp op len1 len2 xs ys))"

text \<open>What an array or a tuple may be compared with.\<close>

datatype 'v compare_arg = ArrayOrTuple "'v nested aarray" | ArraySubType "(aerror + 'v nested) list" | OtherValue

definition cells :: "'v aarray \<Rightarrow> 'v list rt" where
  "cells a = liftE (read_cells (A_ARRAY_A a) 0 (A_ARRAY_LEN a))"

definition compare_with :: "(operator \<Rightarrow> 'v nested \<Rightarrow> 'v nested \<Rightarrow> aerror + bool) \<Rightarrow> operator \<Rightarrow> bool rt \<Rightarrow>
    'v nested aarray \<Rightarrow> 'v compare_arg \<Rightarrow> bool rt" where
  "compare_with cmp op other a arg =
     (case arg of
        ArrayOrTuple b \<Rightarrow> bindM (cells a) (\<lambda>xs. bindM (cells b) (\<lambda>ys. ACompareArrays cmp xs ys op))
      | ArraySubType ys \<Rightarrow> liftE (CompareArrayOrder (cmp OPER_EQ) cmp a ys op)
      | OtherValue \<Rightarrow> other)"

definition AArrayTuple_eq where
  "AArrayTuple_eq cmp = compare_with cmp OPER_EQ (ret False)"

definition AArrayTuple_lt where
  "AArrayTuple_lt cmp = compare_with cmp OPER_LT (raise TypeError)"

definition AArrayTuple_gt where
  "AArrayTuple_gt cmp = compare_with cmp OPER_GT (raise TypeError)"

end
