(* ===== verification/Str_Search.thy ===== *)
theory Str_Search
  imports Str_Data
begin

text \<open>
  The methods of the Str class (\<^verbatim>\<open>src/src/std_str.c\<close>): searching, counting, replacing, splitting
  and joining, stripping, prefixes and suffixes, iteration, and the representation that \<^verbatim>\<open>Repr\<close>
  returns.  Indices are natural numbers; a test such as \<^verbatim>\<open>i <= len1 - len2\<close> on signed lengths is
  written with a sum.
\<close>

section \<open>Searching\<close>

text \<open>The characters \<open>j\<close> to \<open>n - 1\<close> of \<open>dst\<close> against \<open>src\<close> from \<open>i\<close> on.\<close>

function match_loop :: "strval \<Rightarrow> nat \<Rightarrow> strval \<Rightarrow> nat \<Rightarrow> nat \<Rightarrow> aerror + bool" where
  "match_loop src i dst n j =
     (if j < n then
        bindE (AStrItem src (i + j)) (\<lambda>a. bindE (AStrItem dst j) (\<lambda>b.
          if a \<noteq> b then Inr False else match_loop src i dst n (Suc j)))
      else Inr True)"
  by auto

termination
  by (relation "measure (\<lambda>(_, _, _, n, j). n - j)") auto

definition IsMatchAt :: "strval \<Rightarrow> nat \<Rightarrow> strval \<Rightarrow> nat \<Rightarrow> aerror + bool" where
  "IsMatchAt src i dst dstLen = match_loop src i dst dstLen 1"

text \<open>The first character is compared first; the loops over \<open>i\<close> share this test.\<close>

definition match_here :: "strval \<Rightarrow> nat \<Rightarrow> nat \<Rightarrow> strval \<Rightarrow> nat \<Rightarrow> aerror + bool" where
  "match_here str i ch substr len2 =
     bindE (AStrItem str i) (\<lambda>c. if c = ch then IsMatchAt str i substr len2 else Inr False)"

function search_loop :: "strval \<Rightarrow> nat \<Rightarrow> nat \<Rightarrow> strval \<Rightarrow> nat \<Rightarrow> aerror + int" where
  "search_loop str i ch substr len2 =
     (if i + len2 \<le> AStrLen str then
        bindE (match_here str i ch substr len2) (\<lambda>m.
          if m then Inr (int i) else search_loop str (Suc i) ch substr len2)
      else Inr (- 1))"
  by auto

termination
  by (relation "measure (\<lambda>(str, i, _). Suc (AStrLen str) - i)") auto

definition Find :: "strval \<Rightarrow> nat \<Rightarrow> strval \<Rightarrow> aerror + int" where
  "Find str i substr =
     (if AStrLen substr = 0 then Inr (if i \<le> AStrLen str then int i else - 1)
      else bindE (AStrItem substr 0) (\<lambda>ch. search_loop str i ch substr (AStrLen substr)))"

text \<open>
  Counting.  With an empty substring a match would leave the index where it is, so that the loop
  would run until the count has reached the limit.
\<close>

function count_matches :: "strval \<Rightarrow> nat \<Rightarrow> nat \<Rightarrow> strval \<Rightarrow> nat \<Rightarrow> nat \<Rightarrow> nat \<Rightarrow> aerror + nat" where
  "count_matches str i ch substr len2 cnt mx =
     (if i + len2 \<le> AStrLen str then
        bindE (match_here str i ch substr len2) (\<lambda>m.
          if m then
            (if Suc cnt = mx then Inr (Suc cnt)
             else if len2 = 0 then Inl NonTermination
             else count_matches str (i + len2) ch substr len2 (Suc cnt) mx)
          else count_matches str (Suc i) ch substr len2 cnt mx)
      else Inr cnt)"
  by auto

termination
  by (relation "measure (\<lambda>(str, i, _). Suc (AStrLen str) - i)") auto

definition Count :: "strval \<Rightarrow> strval \<Rightarrow> nat \<Rightarrow> aerror + nat" where
  "Count str substr mx =
     bindE (AStrItem substr 0) (\<lambda>ch. count_matches str 0 ch substr (AStrLen substr) 0 mx)"

definition A_SSIZE_T_MAX :: nat where
  "A_SSIZE_T_MAX = 2 ^ 63 - 1"

definition AStrCount :: "strval \<Rightarrow> strval \<Rightarrow> aint rt" where
  "AStrCount str substr =
     bindM (liftE (Count str substr A_SSIZE_T_MAX)) (\<lambda>n. AMakeInt64 (of_nat n))"

text \<open>The start index is an optional Int argument.\<close>

definition AStrFind :: "strval \<Rightarrow> strval \<Rightarrow> aint option \<Rightarrow> aint rt" where
  "AStrFind str substr start =
     bindM (case start of
              None \<Rightarrow> ret 0
            | Some v \<Rightarrow> bindM (AGetInt v)
                (\<lambda>i. if sint i < 0 then raise (ValueError ''Negative start index'') else ret (unat i)))
       (\<lambda>i. bindM (liftE (Find str i substr))
          (\<lambda>index. if index \<ge> 0 then AMakeInt64 (of_int index) else ret (AMakeInt (- 1))))"

definition AStrIndex :: "strval \<Rightarrow> strval \<Rightarrow> aint rt" where
  "AStrIndex str substr =
     bindM (liftE (Find str 0 substr))
       (\<lambda>index. if index \<ge> 0 then AMakeInt64 (of_int index)
                else raise (ValueError ''Substring not found''))"

definition AIsInString :: "strval \<Rightarrow> strval \<Rightarrow> aerror + bool" where
  "AIsInString str substr = bindE (Find str 0 substr) (\<lambda>i. Inr (i \<ge> 0))"

section \<open>Prefixes and suffixes\<close>

definition AStrStartsWith :: "strval \<Rightarrow> strval \<Rightarrow> aerror + bool" where
  "AStrStartsWith str prefix =
     (if AStrLen str < AStrLen prefix then Inr False else match_loop str 0 prefix (AStrLen prefix) 0)"

text \<open>From the last character down; \<open>i\<close> counts the characters that have been compared.\<close>

function suffix_loop :: "strval \<Rightarrow> strval \<Rightarrow> nat \<Rightarrow> aerror + bool" where
  "suffix_loop str suffix i =
     (if i \<le> AStrLen suffix then
        bindE (AStrItem suffix (AStrLen suffix - i)) (\<lambda>a. bindE (AStrItem str (AStrLen str - i)) (\<lambda>b.
          if a \<noteq> b then Inr False else suffix_loop str suffix (Suc i)))
      else Inr True)"
  by auto

termination
  by (relation "measure (\<lambda>(_, suffix, i). Suc (AStrLen suffix) - i)") auto

definition AStrEndsWith :: "strval \<Rightarrow> strval \<Rightarrow> aerror + bool" where
  "AStrEndsWith str suffix =
     (if AStrLen str < AStrLen suffix then Inr False else suffix_loop str suffix 1)"

section \<open>Stripping\<close>

definition is_space :: "nat \<Rightarrow> bool" where
  "is_space ch \<longleftrightarrow> ch = 32 \<or> ch = 9 \<or> ch = 10 \<or> ch = 13"

function strip_left :: "strval \<Rightarrow> nat \<Rightarrow> aerror + nat" where
  "strip_left str i =
     (if i < AStrLen str then
        bindE (AStrItem str i) (\<lambda>ch. if is_space ch then strip_left str (Suc i) else Inr i)
      else Inr i)"
  by auto

termination
  by (relation "measure (\<lambda>(str, i). AStrLen str - i)") auto

function strip_right :: "strval \<Rightarrow> int \<Rightarrow> int \<Rightarrow> aerror + int" where
  "strip_right str i1 i2 =
     (if i2 > i1 then
        bindE (AStrItem str (nat i2)) (\<lambda>ch. if is_space ch then strip_right str i1 (i2 - 1) else Inr i2)
      else Inr i2)"
  by auto

termination
  by (relation "measure (\<lambda>(_, i1, i2). nat (i2 - i1))") auto

definition AStrStrip :: "strval \<Rightarrow> strval rt" where
  "AStrStrip str =
     bindM (liftE (strip_left str 0))
       (\<lambda>i1. bindM (liftE (strip_right str (int i1) (int (AStrLen str) - 1)))
          (\<lambda>i2. ACreateSubStr str (int i1) (i2 + 1)))"

declare match_loop.simps [simp del] search_loop.simps [simp del] count_matches.simps [simp del]
  suffix_loop.simps [simp del] strip_left.simps [simp del] strip_right.simps [simp del]

end
