(* ===== verification/Str_Methods.thy ===== *)
theory Str_Methods
  imports Str_Search
begin

text \<open>
  Methods of the Str class that build strings (\<^verbatim>\<open>src/src/std_str.c\<close>): replace, split, join and
  iteration.  Loops whose progress depends on an inner loop run on fuel; running out of it counts
  as not ending.
\<close>

section \<open>Replacing\<close>

text \<open>The inner loop over characters that can not start a match.\<close>

function skip_loop :: "strval \<Rightarrow> nat \<Rightarrow> nat \<Rightarrow> nat \<Rightarrow> aerror + nat" where
  "skip_loop str ch srcLen i =
     (if i + srcLen \<le> AStrLen str then
        bindE (AStrItem str i) (\<lambda>c. if c \<noteq> ch then skip_loop str ch srcLen (Suc i) else Inr i)
      else Inr i)"
  by auto

termination
  by (relation "measure (\<lambda>(str, _, _, i). Suc (AStrLen str) - i)") auto

declare skip_loop.simps [simp del]

text \<open>The characters \<open>k\<close> to \<open>n - 1\<close> of the replacement are stored from \<open>j\<close> on.\<close>

function put_loop :: "strval \<Rightarrow> nat \<Rightarrow> strval \<Rightarrow> nat \<Rightarrow> aerror + strval" where
  "put_loop dst j src k =
     (if k < AStrLen src then
        bindE (AStrItem src k) (\<lambda>c. bindE (ASetStrItem dst j c) (\<lambda>dst.
          put_loop dst (Suc j) src (Suc k)))
      else Inr dst)"
  by auto

termination
  by (relation "measure (\<lambda>(_, _, src, k). AStrLen src - k)") auto

declare put_loop.simps [simp del]

primrec replace_loop ::
    "nat \<Rightarrow> strval \<Rightarrow> strval \<Rightarrow> strval \<Rightarrow> nat \<Rightarrow> int \<Rightarrow> strval \<Rightarrow> nat \<Rightarrow> nat \<Rightarrow> nat \<Rightarrow> aerror + (strval \<times> nat \<times> nat)" where
  "replace_loop 0 str src new ch mx dst i j n = Inl NonTermination"
| "replace_loop (Suc fuel) str src new ch mx dst i j n =
     (if i + AStrLen src \<le> AStrLen str \<and> int n < mx then
        bindE (skip_loop str ch (AStrLen src) i) (\<lambda>i1.
        bindE (ACopySubStr dst j str i (i1 - i)) (\<lambda>dst.
          let j = j + (i1 - i)
          in if i1 + AStrLen src > AStrLen str then Inr (dst, i1, j)
             else bindE (IsMatchAt str i1 src (AStrLen src)) (\<lambda>m.
               if m then
                 bindE (put_loop dst j new 0) (\<lambda>dst.
                   replace_loop fuel str src new ch mx dst (i1 + AStrLen src) (j + AStrLen new) (Suc n))
               else
                 bindE (ASetStrItem dst j ch) (\<lambda>dst.
                   replace_loop fuel str src new ch mx dst (Suc i1) (Suc j) n))))
      else Inr (dst, i, j))"

text \<open>
  The length of the result, computed in signed 64-bit arithmetic: nothing to do, or the new
  length.
\<close>

definition replace_len :: "strval \<Rightarrow> strval \<Rightarrow> strval \<Rightarrow> int \<Rightarrow> aerror + nat option" where
  "replace_len str src new mx =
     (let origLen = int (AStrLen str); d = int (AStrLen new) - int (AStrLen src)
      in if d = 0 then Inr (Some (AStrLen str))
         else bindE (Count str src (nat mx)) (\<lambda>c.
           if c = 0 then Inr None
           else
             let x = sint (of_int (d * int c) :: 64 word)
             in if x sdiv int c \<noteq> d then Inl (RuntimeError ''Replace result too long'')
                else
                  let newLen = sint (of_int (origLen + x) :: 64 word)
                  in if newLen < 0 then Inl (RuntimeError ''Replace result too long'')
                     else Inr (Some (nat newLen))))"

definition AStrReplace :: "strval \<Rightarrow> strval \<Rightarrow> strval \<Rightarrow> aint option \<Rightarrow> strval rt" where
  "AStrReplace str src new max_arg =
     bindM (case max_arg of None \<Rightarrow> ret (int A_SSIZE_T_MAX) | Some v \<Rightarrow> bindM (AGetInt v) (\<lambda>i. ret (sint i)))
       (\<lambda>mx.
          if AStrLen src = 0 \<or> mx \<le> 0 then ret str
          else bindM (liftE (replace_len str src new mx))
            (\<lambda>len. case len of
                None \<Rightarrow> ret str
              | Some newLen \<Rightarrow>
                  bindM (if \<not> is_wide str \<and> \<not> is_wide src \<and> \<not> is_wide new
                         then AMakeEmptyStr newLen else AMakeEmptyStrW newLen)
                    (\<lambda>dst. liftE
                       (bindE (AStrItem src 0) (\<lambda>ch.
                        bindE (replace_loop (Suc (AStrLen str)) str src new ch mx dst 0 0 0) (\<lambda>(dst, i, j).
                          ACopySubStr dst j str i (AStrLen str - i)))))))"

section \<open>Splitting\<close>

text \<open>The part from \<open>i0\<close> to \<open>i\<close> is appended to the array.\<close>

definition append_part :: "strval \<Rightarrow> nat \<Rightarrow> nat \<Rightarrow> strval list \<Rightarrow> strval list rt" where
  "append_part str i0 i acc =
     bindM (ACreateSubStr str (int i0) (int i)) (\<lambda>ss. bindM next_alloc (\<lambda>_. ret (acc @ [ss])))"

primrec split_loop ::
    "nat \<Rightarrow> strval \<Rightarrow> strval \<Rightarrow> nat \<Rightarrow> int \<Rightarrow> nat \<Rightarrow> nat \<Rightarrow> nat \<Rightarrow> strval list \<Rightarrow> (nat \<times> strval list) rt" where
  "split_loop 0 str sep ch mx i i0 n acc = raise NonTermination"
| "split_loop (Suc fuel) str sep ch mx i i0 n acc =
     (if i + AStrLen sep \<le> AStrLen str then
        bindM (liftE (match_here str i ch sep (AStrLen sep)))
          (\<lambda>m. if m \<and> int n < mx then
                  bindM (append_part str i0 i acc)
                    (\<lambda>acc. split_loop fuel str sep ch mx (i + AStrLen sep) (i + AStrLen sep) (Suc n) acc)
                else split_loop fuel str sep ch mx (Suc i) i0 n acc)
      else ret (i0, acc))"

text \<open>Runs of white space as separators; no part is left when the string ends in white space.\<close>

primrec space_loop ::
    "nat \<Rightarrow> strval \<Rightarrow> int \<Rightarrow> nat \<Rightarrow> nat \<Rightarrow> nat \<Rightarrow> strval list \<Rightarrow> (nat option \<times> strval list) rt" where
  "space_loop 0 str mx i i0 n acc = raise NonTermination"
| "space_loop (Suc fuel) str mx i i0 n acc =
     (if i < AStrLen str then
        bindM (liftE (AStrItem str i))
          (\<lambda>ch. if is_space ch \<and> int n < mx then
                  bindM (append_part str i0 i acc)
                    (\<lambda>acc. bindM (liftE (strip_left str (Suc i)))
                       (\<lambda>i. if i \<ge> AStrLen str then ret (None, acc)
                             else space_loop fuel str mx i i (Suc n) acc))
                else space_loop fuel str mx (Suc i) i0 n acc)
      else ret (Some i0, acc))"

text \<open>The separator is left out or a string; the limit is an optional Int.\<close>

definition AStrSplit :: "strval \<Rightarrow> strval option \<Rightarrow> aint option \<Rightarrow> strval list rt" where
  "AStrSplit str sep max_arg =
     bindM next_alloc
       (\<lambda>_. bindM (case max_arg of None \<Rightarrow> ret (int A_SSIZE_T_MAX) | Some v \<Rightarrow> bindM (AGetInt v) (\<lambda>i. ret (sint i)))
          (\<lambda>mx. case sep of
               Some sep \<Rightarrow>
                 if AStrLen sep = 0 then raise (ValueError ''Empty separator'')
                 else bindM (liftE (AStrItem sep 0))
                   (\<lambda>ch. bindM (split_loop (AStrLen str + 2) str sep ch mx 0 0 0 [])
                      (\<lambda>(i0, acc). append_part str i0 (AStrLen str) acc))
             | None \<Rightarrow>
                 bindM (liftE (strip_left str 0))
                   (\<lambda>i0. if i0 \<ge> AStrLen str then ret []
                         else bindM (space_loop (Suc (AStrLen str)) str mx i0 i0 0 [])
                           (\<lambda>(i0, acc). case i0 of
                                None \<Rightarrow> ret acc
                              | Some i0 \<Rightarrow> append_part str i0 (AStrLen str) acc))))"

section \<open>Joining\<close>

text \<open>
  The sequence is given by its items, where \<open>None\<close> stands for an item that is not a string.  The
  first loop adds up the lengths and looks for wide strings.
\<close>

fun join_scan :: "strval option list \<Rightarrow> aerror + (nat \<times> bool)" where
  "join_scan [] = Inr (0, False)"
| "join_scan (None # xs) = Inl TypeError"
| "join_scan (Some s # xs) = bindE (join_scan xs) (\<lambda>(n, w). Inr (AStrLen s + n, is_wide s \<or> w))"

fun join_copy :: "strval \<Rightarrow> strval option list \<Rightarrow> strval \<Rightarrow> nat \<Rightarrow> aerror + strval" where
  "join_copy sep [] dst ti = Inr dst"
| "join_copy sep (None # xs) dst ti = Inl TypeError"
| "join_copy sep (Some s # xs) dst ti =
     bindE (ACopySubStr dst ti s 0 (AStrLen s)) (\<lambda>dst.
       if AStrLen sep > 0 \<and> xs \<noteq> [] then
         bindE (ACopySubStr dst (ti + AStrLen s) sep 0 (AStrLen sep)) (\<lambda>dst.
           join_copy sep xs dst (ti + AStrLen s + AStrLen sep))
       else join_copy sep xs dst (ti + AStrLen s))"

definition AStrJoin :: "strval \<Rightarrow> strval option list \<Rightarrow> strval rt" where
  "AStrJoin sep xs =
     bindM (liftE (join_scan xs))
       (\<lambda>(n, w).
          case xs of
            [Some s] \<Rightarrow> ret s
          | _ \<Rightarrow>
              let strLen = (length xs - 1) * AStrLen sep + n
              in bindM (if is_wide sep \<or> w then AMakeEmptyStrW strLen else AMakeEmptyStr strLen)
                   (\<lambda>dst. liftE (join_copy sep xs dst 0)))"

section \<open>Iteration\<close>

record str_iter =
  STR_ITER_S :: strval
  STR_ITER_I :: nat
  STR_ITER_LEN :: nat

definition AStrIterCreate :: "strval \<Rightarrow> str_iter" where
  "AStrIterCreate s = \<lparr>STR_ITER_S = s, STR_ITER_I = 0, STR_ITER_LEN = AStrLen s\<rparr>"

definition AStrIterHasNext :: "str_iter \<Rightarrow> bool" where
  "AStrIterHasNext it \<longleftrightarrow> STR_ITER_I it < STR_ITER_LEN it"

definition AStrIterNext :: "str_iter \<Rightarrow> (strval \<times> str_iter) rt" where
  "AStrIterNext it =
     (if STR_ITER_I it < STR_ITER_LEN it then
        bindM (liftE (AStrItem (STR_ITER_S it) (STR_ITER_I it)))
          (\<lambda>ch. bindM (AMakeCh ch) (\<lambda>s. ret (s, it\<lparr>STR_ITER_I := STR_ITER_I it + 1\<rparr>)))
      else raise (ValueError ''No items left''))"

end
