(* ===== verification/Str_Lemmas.thy ===== *)
theory Str_Lemmas
  imports Str_Methods Int_Arith_Lemmas
begin

text \<open>
  Strings: the well-formed values, the characters a value stands for, and what each operation on
  the representations does to them.
\<close>

section \<open>Well-formed strings\<close>

definition wf_block :: "astr \<Rightarrow> bool" where
  "wf_block b \<longleftrightarrow> list_all (\<lambda>c. c < (if AIsWideStr b then 65536 else 256)) (elems b)"

fun wf_str :: "strval \<Rightarrow> bool" where
  "wf_str (Whole b) = wf_block b"
| "wf_str (SubStr b ind len) = (wf_block b \<and> ind + len \<le> length (elems b))"

text \<open>A well-formed string with the given characters.\<close>

definition is_str :: "nat list \<Rightarrow> strval \<Rightarrow> bool" where
  "is_str xs v \<longleftrightarrow> wf_str v \<and> str_elems v = xs"

lemma length_str_elems [simp]: "wf_str v \<Longrightarrow> length (str_elems v) = AStrLen v"
  by (cases v) (auto simp: str_elems_def str_ind_def)

lemma str_elems_ne: "wf_str v \<Longrightarrow> 0 < AStrLen v \<Longrightarrow> str_elems v \<noteq> []"
  by (metis length_str_elems length_0_conv less_irrefl)

lemma AStrItem_nth: "wf_str v \<Longrightarrow> i < AStrLen v \<Longrightarrow> AStrItem v i = Inr (str_elems v ! i)"
  by (cases v) (auto simp: str_elems_def str_ind_def item_def nat_add_distrib)

lemma str_elems_Whole [simp]: "str_elems (Whole b) = elems b"
  by (simp add: str_elems_def str_ind_def)

lemma is_wide_simps [simp]:
  "is_wide (Whole b) = AIsWideStr b" "is_wide (SubStr b ind len) = AIsWideStr b"
  by (simp_all add: is_wide_def)

lemma str_elems_range:
  "wf_str v \<Longrightarrow> c \<in> set (str_elems v) \<Longrightarrow> c < (if is_wide v then 65536 else 256)"
  by (cases v) (auto simp: str_elems_def wf_block_def list_all_iff dest!: in_set_takeD in_set_dropD)

lemma is_strD: "is_str xs v \<Longrightarrow> wf_str v" "is_str xs v \<Longrightarrow> str_elems v = xs"
  by (simp_all add: is_str_def)

lemma length_junk [simp]: "length (junk_bytes n junk) = n" "length (junk_wide n junk) = n"
  by (simp_all add: junk_bytes_def junk_wide_def)

lemma junk_0 [simp]: "junk_bytes 0 junk = []" "junk_wide 0 junk = []"
  by (simp_all add: junk_bytes_def junk_wide_def)

lemma junk_range: "list_all (\<lambda>c. c < 256) (junk_bytes n junk)" "list_all (\<lambda>c. c < 65536) (junk_wide n junk)"
  by (auto simp: junk_bytes_def junk_wide_def list_all_iff dest!: in_set_takeD)

lemma bindE_simps [simp]: "bindE (Inr x) f = f x" "bindE (Inl e) f = Inl e"
  by (simp_all add: bindE_def)

lemma liftE_simps [simp]: "liftE (Inr x) = ret x" "liftE (Inl e) = raise e"
  by (simp_all add: liftE_def)

section \<open>Creation\<close>

lemma wf_wide: "list_all (\<lambda>c. c < 65536) s \<Longrightarrow> is_str s (Whole (AWide s))"
  by (simp add: is_str_def wf_block_def)

lemma wf_narrow: "list_all (\<lambda>c. c < 256) s \<Longrightarrow> is_str s (Whole (ANarrow s))"
  by (simp add: is_str_def wf_block_def)

lemma meets_alloc_no_gc:
  "(\<And>x. Q x \<Longrightarrow> no_gc x) \<Longrightarrow> (\<And>junk. meets Q (f (False, junk)) P) \<Longrightarrow> meets Q (bindM next_alloc f) P"
  by (rule meets_bind [OF meets_next_alloc]) (fastforce simp: no_gc_def)

lemma meets_any_alloc_then: "(\<And>r. meets Q (f r) P) \<Longrightarrow> meets Q (bindM next_alloc f) P"
  by (rule meets_bind [OF meets_next_alloc])

text \<open>A new, uninitialised string of the given length.\<close>

definition fresh_str :: "bool \<Rightarrow> nat \<Rightarrow> strval \<Rightarrow> bool" where
  "fresh_str wide n v \<longleftrightarrow> (\<exists>s. v = Whole (if wide then AWide s else ANarrow s) \<and> length s = n \<and> wf_str v)"

lemma meets_AMakeEmptyStr: "meets Q (AMakeEmptyStr n) (fresh_str False n)"
  unfolding AMakeEmptyStr_def
  by (rule meets_any_alloc_then) (auto simp: fresh_str_def wf_block_def junk_range)

lemma meets_AMakeEmptyStrW: "meets Q (AMakeEmptyStrW n) (fresh_str True n)"
  unfolding AMakeEmptyStrW_def
  by (rule meets_any_alloc_then) (auto simp: fresh_str_def wf_block_def junk_range)

lemma meets_make_str: "meets Q (if w then AMakeEmptyStrW n else AMakeEmptyStr n) (fresh_str w n)"
  by (cases w) (simp_all add: meets_AMakeEmptyStr meets_AMakeEmptyStrW)

lemma meets_ACreateString: "list_all (\<lambda>c. c < 256) buf \<Longrightarrow> meets Q (ACreateString buf) (is_str buf)"
  unfolding ACreateString_def
  by (rule meets_any_alloc_then) (auto simp: is_str_def wf_block_def)

lemma meets_ACreateWideString:
  "list_all (\<lambda>c. c < 65536) buf \<Longrightarrow> meets Q (ACreateWideString buf) (is_str buf)"
  unfolding ACreateWideString_def
  by (auto intro!: meets_any_alloc_then meets_ret wf_wide wf_narrow
      simp: list_ex_iff list_all_iff not_less less_Suc_eq_le [of _ 255, simplified])

lemma meets_AMakeCh: "ch < 65536 \<Longrightarrow> meets Q (AMakeCh ch) (is_str [ch])"
  unfolding AMakeCh_def
  by (rule meets_bind [where P = "fresh_str (\<not> ch < 256) 1"])
    (auto intro!: meets_ret simp: meets_AMakeEmptyStr meets_AMakeEmptyStrW fresh_str_def ASetStrItem_def Let_def
      is_str_def wf_block_def length_Suc_conv)

section \<open>Conversion\<close>

lemma list_ex_not_narrow: "wf_str v \<Longrightarrow> \<not> is_wide v \<Longrightarrow> \<not> list_ex (\<lambda>c. c > 255) (str_elems v)"
  using str_elems_range [of v] by (fastforce simp: list_ex_iff)

lemma meets_WideToNarrow:
  "wf_str v \<Longrightarrow> \<not> list_ex (\<lambda>c. c > 255) (str_elems v) \<Longrightarrow>
   meets Q (WideToNarrow v) (\<lambda>r. is_str (str_elems v) r \<and> \<not> is_wide r)"
  unfolding WideToNarrow_def
  by (auto intro!: meets_any_alloc_then meets_ret simp: is_str_def wf_block_def list_ex_iff list_all_iff not_less
      less_Suc_eq_le [of _ 255, simplified])

lemma meets_ANarrowStringToWide:
  assumes "wf_str v" "\<not> is_wide v"
  shows "meets Q (ANarrowStringToWide v) (\<lambda>r. is_str (str_elems v) r \<and> is_wide r)"
proof -
  have e: "ANarrowStringToWide v = bindM next_alloc (\<lambda>_. ret (Whole (AWide (str_elems v))))"
    using assms by (auto simp: ANarrowStringToWide_def split: strval.splits astr.splits)
  show ?thesis unfolding e using str_elems_range [OF assms(1)] assms(2)
    by (intro meets_any_alloc_then meets_ret) (fastforce simp: is_str_def wf_block_def list_all_iff)
qed

section \<open>Concatenation\<close>

lemma meets_attempt:
  assumes m: "meets Q m P" and Q: "\<And>x. Q x \<Longrightarrow> x \<noteq> AllocFail"
  shows "meets Q (attempt m) (\<lambda>r. \<exists>x. r = Inr x \<and> P x)"
proof (rule meetsI)
  fix t :: athread assume t: "list_all Q (allocs t)"
  then have nf: "AllocFail \<notin> set (allocs t)" using Q by (auto simp: list_all_iff)
  obtain x t' where x: "m t = (Inr x, t')" "P x" using meets_returns [OF m t nf] by blast
  then show "outcome_ok (\<lambda>r. \<exists>x. r = Inr x \<and> P x) t (attempt m t)"
    using meetsD [OF m t] by (simp add: outcome_ok_def attempt_def)
qed

lemma meets_as_wide:
  assumes "wf_str v" "\<not> is_wide v \<Longrightarrow> \<forall>x. Q x \<longrightarrow> x \<noteq> AllocFail"
  shows "meets Q (if is_wide v then ret (Inr v) else attempt (ANarrowStringToWide v))
           (\<lambda>r. \<exists>x. r = Inr x \<and> is_str (str_elems v) x \<and> is_wide x)"
  using meets_attempt [OF meets_ANarrowStringToWide [OF assms(1)]] assms
  by (auto simp: is_str_def)

definition concat_allocs :: "strval \<Rightarrow> strval \<Rightarrow> alloc \<Rightarrow> bool" where
  "concat_allocs left right x \<longleftrightarrow> is_wide left = is_wide right \<or> x \<noteq> AllocFail"

lemma elems_wide: "wf_str v \<Longrightarrow> list_all (\<lambda>c. c < 65536) (str_elems v)"
  using str_elems_range [of v] by (fastforce simp: list_all_iff split: if_splits)

lemma elems_narrow: "wf_str v \<Longrightarrow> \<not> is_wide v \<Longrightarrow> list_all (\<lambda>c. c < 256) (str_elems v)"
  using str_elems_range [of v] by (fastforce simp: list_all_iff)

lemma meets_AConcatStrings:
  assumes l: "wf_str left" and r: "wf_str right"
  shows "meets (concat_allocs left right) (AConcatStrings left right) (is_str (str_elems left @ str_elems right))"
proof (cases "is_wide left \<or> is_wide right")
  case True
  have q: "\<not> is_wide v \<Longrightarrow> v \<in> {left, right} \<Longrightarrow> \<forall>x. concat_allocs left right x \<longrightarrow> x \<noteq> AllocFail" for v
    using True by (auto simp: concat_allocs_def)
  have "meets (concat_allocs left right) (AConcatWideStrings left right) (is_str (str_elems left @ str_elems right))"
    unfolding AConcatWideStrings_def
  proof (rule meets_bind [OF meets_as_wide [OF l q]], simp, simp, rule meets_bind [OF meets_as_wide [OF r q]], simp, simp)
    fix x y
    assume "\<exists>z. x = Inr z \<and> is_str (str_elems left) z \<and> is_wide z" "\<exists>z. y = Inr z \<and> is_str (str_elems right) z \<and> is_wide z"
    then show "meets (concat_allocs left right)
        (case x of Inl _ \<Rightarrow> raise TypeError
         | Inr left \<Rightarrow> (case y of Inl _ \<Rightarrow> raise UndefinedBehaviour
             | Inr right \<Rightarrow> bindM next_alloc (\<lambda>_. ret (Whole (AWide (str_elems left @ str_elems right))))))
        (is_str (str_elems left @ str_elems right))"
      using elems_wide [OF l] elems_wide [OF r]
      by (auto intro!: meets_any_alloc_then meets_ret wf_wide simp: is_str_def[of _ _])
  qed
  then show ?thesis using True by (simp add: AConcatStrings_def)
next
  case False
  then show ?thesis using elems_narrow [OF l] elems_narrow [OF r]
    by (auto simp: AConcatStrings_def intro!: meets_any_alloc_then meets_ret wf_narrow)
qed

section \<open>Substrings\<close>

text \<open>
  The slice of a list: a negative index counts from the end, a start before the list is its start
  and an end after the list is its end.
\<close>

definition slice :: "int \<Rightarrow> int \<Rightarrow> 'a list \<Rightarrow> 'a list" where
  "slice i j xs =
     (let n = int (length xs);
          a = (if i < 0 then max (n + i) 0 else i);
          b = (if j < 0 then n + j else min j n)
      in take (nat (b - a)) (drop (nat a) xs))"

lemma slice_nat: "slice (int a) (int b) xs = take (b - a) (drop a xs)"
  by (auto simp: slice_def Let_def min_def nat_diff_distrib')

text \<open>A collection in the allocation of a short substring of a wide string is excluded.\<close>

definition sub_allocs :: "strval \<Rightarrow> alloc \<Rightarrow> bool" where
  "sub_allocs v x \<longleftrightarrow> (is_wide v \<longrightarrow> no_gc x)"

definition sub_of :: "astr \<Rightarrow> nat \<Rightarrow> nat \<Rightarrow> strval \<Rightarrow> bool" where
  "sub_of b i n r \<longleftrightarrow> is_str (take n (drop i (elems b))) r \<and> is_wide r = AIsWideStr b"

lemma sint_small: "0 \<le> n \<Longrightarrow> n < 2147483648 \<Longrightarrow> sint (of_int n :: 32 word) = n"
  by (simp add: signed_of_int signed_take_bit_int_eq_self)

lemma wf_block_part: "wf_block b \<Longrightarrow> list_all (\<lambda>c. c < (if AIsWideStr b then 65536 else 256)) (take n (drop i (elems b)))"
  by (auto simp: wf_block_def list_all_iff dest!: in_set_takeD in_set_dropD)

lemma meets_sub_of_block:
  assumes wf: "wf_block b" and len: "i + n \<le> length (elems b)" "n < 2147483648"
    and Q: "\<And>x. Q x \<Longrightarrow> AIsWideStr b \<longrightarrow> no_gc x"
  shows "meets Q (sub_of_block b (int i) (int n)) (sub_of b i n)"
proof -
  have short: "sint (of_int (int n) :: 32 word) = int n" by (rule sint_small) (use len(2) in simp_all)
  have sub: "meets Q (new_substr b (int i) (int n)) (sub_of b i n)"
    unfolding new_substr_def short using wf len(1)
    by (auto intro!: meets_any_alloc_then meets_ret simp: sub_of_def is_str_def str_elems_def str_ind_def)
  show ?thesis
  proof (cases b)
    case (ANarrow s)
    then show ?thesis using sub wf_block_part [OF wf, of n i]
      by (auto simp: sub_of_block_def sub_of_def intro!: meets_any_alloc_then meets_ret wf_narrow)
  next
    case (AWide s)
    have "meets Q (bindM next_alloc (\<lambda>(moved, _). if moved then raise UndefinedBehaviour
                    else ret (Whole (AWide (take n (drop i s)))))) (sub_of b i n)"
      using AWide Q wf_block_part [OF wf, of n i]
      by (intro meets_alloc_no_gc) (auto simp: sub_of_def intro!: meets_ret wf_wide)
    then show ?thesis using sub AWide by (simp only: sub_of_block_def astr.case nat_int split: if_split) simp
  qed
qed

lemma meets_ACreateSubStr:
  assumes wf: "wf_str v" and len: "AStrLen v < 2147483648" and Q: "\<forall>x. Q x \<longrightarrow> sub_allocs v x"
  shows "meets Q (ACreateSubStr v i j) (\<lambda>r. is_str (slice i j (str_elems v)) r \<and> is_wide r = is_wide v)"
proof -
  define n where "n = int (AStrLen v)"
  define a where "a = (if i < 0 then max (n + i) 0 else i)"
  define b where "b = (if j < 0 then n + j else min j n)"
  define a' where "a' = (if b < a then 0 else nat a)"
  define m where "m = nat (b - a)"
  have a: "0 \<le> a" by (simp add: a_def)
  have b: "b \<le> n" by (simp add: b_def)
  have m: "a' + m \<le> AStrLen v" using a b by (auto simp: a'_def m_def n_def nat_add_distrib [symmetric])
  have sl: "slice i j (str_elems v) = take m (drop a' (str_elems v))"
    using wf by (simp add: slice_def Let_def n_def [symmetric] a_def [symmetric] b_def [symmetric] m_def a'_def)
  have call: "ACreateSubStr v i j = (case v of Whole c \<Rightarrow> sub_of_block c (int a') (int m)
      | SubStr c ind l \<Rightarrow> sub_of_block c (int (a' + ind)) (int m))"
    using a by (auto simp: ACreateSubStr_def Let_def n_def [symmetric] a_def b_def a'_def m_def split: strval.splits)
  show ?thesis
  proof (cases v)
    case (Whole c)
    have "meets Q (sub_of_block c (int a') (int m)) (sub_of c a' m)"
      using wf len m Q Whole by (intro meets_sub_of_block) (auto simp: sub_allocs_def)
    then show ?thesis using Whole unfolding call sl by (auto simp: sub_of_def elim!: meets_mono)
  next
    case (SubStr c ind l)
    have "meets Q (sub_of_block c (int (a' + ind)) (int m)) (sub_of c (a' + ind) m)"
      using wf len m Q SubStr by (intro meets_sub_of_block) (auto simp: sub_allocs_def)
    moreover have "take m (drop (a' + ind) (elems c)) = take m (drop a' (str_elems v))"
      using m SubStr by (simp add: str_elems_def str_ind_def drop_take min_absorb1)
    ultimately show ?thesis using SubStr unfolding call sl by (auto simp: sub_of_def elim!: meets_mono)
  qed
qed

section \<open>Comparison\<close>

text \<open>The order of strings: lexicographic by character codes, a proper prefix first.\<close>

fun lex_less :: "nat list \<Rightarrow> nat list \<Rightarrow> bool" where
  "lex_less xs [] = False"
| "lex_less [] (y # ys) = True"
| "lex_less (x # xs) (y # ys) = (x < y \<or> x = y \<and> lex_less xs ys)"

lemma sint_small_neg: "n < 2147483648 \<Longrightarrow> sint (of_int (- int n) :: 32 word) = - int n"
  unfolding signed_of_int of_int_eq_id id_apply by (rule signed_take_bit_int_eq_self) simp_all

lemma cmp_chars_Nil:
  "length ys < 2147483648 \<Longrightarrow> cmp_chars [] ys = - int (length ys)"
  "length xs < 2147483648 \<Longrightarrow> cmp_chars xs [] = int (length xs)"
  using sint_small_neg [of "length ys"] sint_small [of "int (length xs)"] by (simp_all only: cmp_chars.simps) simp_all

declare cmp_chars.simps(2,3) [simp del]

lemma cmp_chars_lt:
  "length xs < 2147483648 \<Longrightarrow> length ys < 2147483648 \<Longrightarrow> cmp_chars xs ys < 0 \<longleftrightarrow> lex_less xs ys"
  by (induction xs ys rule: lex_less.induct) (auto simp: cmp_chars_Nil)

lemma cmp_chars_eq:
  "length xs < 2147483648 \<Longrightarrow> length ys < 2147483648 \<Longrightarrow> cmp_chars xs ys = 0 \<longleftrightarrow> xs = ys"
  by (induction xs ys rule: lex_less.induct) (auto simp: cmp_chars_Nil)

lemma cmp_chars_fail:
  "list_all (\<lambda>c. c < 65536) xs \<Longrightarrow> list_all (\<lambda>c. c < 65536) ys \<Longrightarrow>
   length xs < 2147483648 \<Longrightarrow> length ys < 2147483648 \<Longrightarrow>
   cmp_chars xs ys = A_CMP_FAIL \<longleftrightarrow> take (length ys) xs = ys \<and> length xs = length ys + 65536"
  by (induction xs ys rule: lex_less.induct) (auto simp: cmp_chars_Nil A_CMP_FAIL_def)

lemma lex_less_irrefl [simp]: "\<not> lex_less xs xs"
  by (induction xs) auto

lemma lex_less_trans: "lex_less xs ys \<Longrightarrow> lex_less ys zs \<Longrightarrow> lex_less xs zs"
proof (induction xs zs arbitrary: ys rule: lex_less.induct)
  case (3 x xs z zs)
  then show ?case by (cases ys) auto
qed (auto elim: lex_less.elims)

lemma lex_less_Nil [simp]: "lex_less [] ys \<longleftrightarrow> ys \<noteq> []"
  by (cases ys) auto

lemma lex_less_total: "lex_less xs ys \<or> xs = ys \<or> lex_less ys xs"
  by (induction xs ys rule: lex_less.induct) auto

text \<open>What each operator means.\<close>

fun satisfies :: "operator \<Rightarrow> nat list \<Rightarrow> nat list \<Rightarrow> bool" where
  "satisfies OPER_EQ xs ys = (xs = ys)"
| "satisfies OPER_NEQ xs ys = (xs \<noteq> ys)"
| "satisfies OPER_LT xs ys = lex_less xs ys"
| "satisfies OPER_LTE xs ys = (xs = ys \<or> lex_less xs ys)"
| "satisfies OPER_GT xs ys = lex_less ys xs"
| "satisfies OPER_GTE xs ys = (xs = ys \<or> lex_less ys xs)"

lemma CompareOrder_value:
  assumes wf: "wf_str left" "wf_str right" and len: "AStrLen left < 2147483648" "AStrLen right < 2147483648"
  shows "CompareOrder_Str op left right =
     (if AStrLen left = AStrLen right + 65536 \<and> take (AStrLen right) (str_elems left) = str_elems right
      then Inl TypeError else Inr (satisfies op (str_elems left) (str_elems right)))"
proof -
  let ?l = "str_elems left" and ?r = "str_elems right"
  have n: "length ?l < 2147483648" "length ?r < 2147483648" using wf len by simp_all
  have fail: "cmp_chars ?l ?r = A_CMP_FAIL \<longleftrightarrow> take (AStrLen right) ?l = ?r \<and> AStrLen left = AStrLen right + 65536"
    using cmp_chars_fail [OF elems_wide [OF wf(1)] elems_wide [OF wf(2)] n] wf by simp
  consider "lex_less ?l ?r" | "?l = ?r" | "lex_less ?r ?l" using lex_less_total by blast
  then show ?thesis
    using cmp_chars_lt [OF n] cmp_chars_eq [OF n] fail lex_less_trans [of ?l ?r ?l] wf
    by cases (cases op; auto simp: CompareOrder_Str_def Let_def ACompareStrings_def A_CMP_FAIL_def
        ALtSatisfiesOp_def AEqSatisfiesOp_def AGtSatisfiesOp_def)+
qed

section \<open>Repetition\<close>

lemma meets_ARepeatString:
  assumes wf: "wf_str v" and num: "0 \<le> num" and fits: "num * int (AStrLen v) < 2147483648"
  shows "meets Q (ARepeatString v num) (is_str (concat (replicate (nat num) (str_elems v))))"
proof -
  let ?s = "concat (replicate (nat num) (str_elems v))"
  have len: "length ?s = nat num * AStrLen v" using wf by (simp add: length_concat sum_list_replicate)
  have all: "list_all (\<lambda>c. c < (if is_wide v then 65536 else 256)) ?s"
    using str_elems_range [OF wf] by (fastforce simp: list_all_iff)
  have pos: "0 \<le> num * int (AStrLen v)" using num by simp
  have n: "nat (num * int (AStrLen v)) = nat num * AStrLen v" using num by (simp add: nat_mult_distrib)
  have e: "?s = []" if "num \<le> 0 \<or> AStrLen v = 0" using that num length_str_elems [OF wf] by (cases "num = 0") auto
  show ?thesis
  proof (cases "is_wide v")
    case True
    have "uint (of_int k :: 32 word) = k" if "0 \<le> k" "k < 4294967296" for k
      using that by (simp add: take_bit_int_eq_self unsigned_of_int)
    from this [of "num * int (AStrLen v) * 2"]
    have "uint (of_int (num * int (AStrLen v) * 2) :: 32 word) = num * int (AStrLen v) * 2"
      using pos fits by linarith
    then have size: "unat (of_int (num * int (AStrLen v) * 2) :: 32 word) div 2 = nat num * AStrLen v"
      unfolding unat_eq_nat_uint using n pos by simp
    show ?thesis using True wf size e n all len
      unfolding ARepeatString_def Let_def
      by (auto intro!: meets_any_alloc_then meets_ret wf_wide wf_narrow split: prod.splits)
  next
    case False
    have "sint (of_int (num * int (AStrLen v)) :: 64 word) = num * int (AStrLen v)"
      unfolding signed_of_int of_int_eq_id id_apply by (rule signed_take_bit_int_eq_self) (use pos fits in simp_all)
    then show ?thesis using False wf e n all len pos
      unfolding ARepeatString_def Let_def
      by (auto intro!: meets_any_alloc_then meets_ret wf_narrow split: prod.splits)
  qed
qed

end
