(* ===== verification/Hash_Map.thy ===== *)
theory Hash_Map
  imports Hash_Probe
begin

text \<open>
  The Map class of \<^verbatim>\<open>src/src/std_map.c\<close>: an open addressing table with removal markers.
  Slot \<open>i\<close> of the model stands for the cells \<open>2 i\<close> (key) and \<open>2 i + 1\<close> (value) of the fixed
  array.  Every method is a function of the map object and the thread; the object is also
  returned on an exception, with the changes made before it.  The cells of a new array all
  hold the empty marker; \<open>mark\<close> is that marker as a value in a value cell.
\<close>

section \<open>State\<close>

record ('k, 'v) amap =
  MAP_A :: "('k slot \<times> 'v) list"
  MAP_LEN :: int
  MAP_SIZE :: int
  MAP_NUM_REMOVED :: int

type_synonym ('k, 'v, 'r) map_op = "('k, 'v) amap \<Rightarrow> athread \<Rightarrow> (aerror + 'r) \<times> ('k, 'v) amap \<times> athread"

abbreviation INITIAL_MAP_CAPACITY :: nat where
  "INITIAL_MAP_CAPACITY \<equiv> 4"

section \<open>Lookup\<close>

text \<open>The index of the key, of the free slot that ends its probe sequence, or an exception.\<close>

definition find_slot :: "'k keyops \<Rightarrow> 'k \<Rightarrow> ('k, 'v) amap \<Rightarrow> probe_result" where
  "find_slot K key m =
     (case khash K key of
        Inl e \<Rightarrow> Returned e
      | Inr hash \<Rightarrow>
          (case HashToInt hash of
             Inl e \<Rightarrow> Failed e
           | Inr i \<Rightarrow>
               let sz = of_int (MAP_SIZE m - 1)
               in probe (length (MAP_A m)) (\<lambda>k. keq K k key) sz (MAP_A m) (i AND sz)))"

definition MapLookup :: "'k keyops \<Rightarrow> 'k \<Rightarrow> 'v option \<Rightarrow> ('k, 'v) amap \<Rightarrow> aerror + 'v" where
  "MapLookup K key def m =
     (case find_slot K key m of
        Failed e \<Rightarrow> Inl e
      | Returned e \<Rightarrow> Inl e
      | Found i \<Rightarrow> Inr (snd (MAP_A m ! i))
      | Free _ \<Rightarrow> (case def of None \<Rightarrow> Inl KeyError | Some d \<Rightarrow> Inr d))"

definition AMap_get :: "'k keyops \<Rightarrow> 'k \<Rightarrow> ('k, 'v) amap \<Rightarrow> aerror + 'v" where
  "AMap_get K key m = MapLookup K key None m"

definition AMapGet :: "'k keyops \<Rightarrow> 'k \<Rightarrow> 'v \<Rightarrow> ('k, 'v) amap \<Rightarrow> aerror + 'v" where
  "AMapGet K key def m = MapLookup K key (Some def) m"

definition AMapHasKey :: "'k keyops \<Rightarrow> 'k \<Rightarrow> ('k, 'v) amap \<Rightarrow> aerror + bool" where
  "AMapHasKey K key m =
     (case find_slot K key m of
        Failed e \<Rightarrow> Inl e
      | Returned e \<Rightarrow> Inl e
      | Found _ \<Rightarrow> Inr True
      | Free _ \<Rightarrow> Inr False)"

definition MapLen :: "('k, 'v) amap \<Rightarrow> int" where
  "MapLen m = MAP_LEN m - MAP_NUM_REMOVED m"

definition AMapLength :: "('k, 'v) amap \<Rightarrow> int" where
  "AMapLength m = MapLen m"

section \<open>Update\<close>

text \<open>
  A store into the fixed array may have to record an inter-generation reference, which
  needs memory; when that fails the cell keeps its value.
\<close>

definition set_cell :: "nat \<Rightarrow> 'k slot \<times> 'v \<Rightarrow> ('k, 'v, unit) map_op" where
  "set_cell i c m t =
     (case next_alloc t of
        (Inl e, t) \<Rightarrow> (Inl e, m, t)
      | (Inr _, t) \<Rightarrow> (Inr (), m\<lparr>MAP_A := (MAP_A m)[i := c]\<rparr>, t))"

text \<open>Sequencing of map operations.\<close>

definition then_op :: "('k, 'v, 'a) map_op \<Rightarrow> ('a \<Rightarrow> ('k, 'v, 'b) map_op) \<Rightarrow> ('k, 'v, 'b) map_op" where
  "then_op f g m t =
     (case f m t of (Inl e, m, t) \<Rightarrow> (Inl e, m, t) | (Inr x, m, t) \<Rightarrow> g x m t)"

text \<open>
  \<^verbatim>\<open>_set\<close>, with the resize operation as an argument.  Its result is the error value it
  returns, if any; a direct exception is the left summand.
\<close>

definition Map_set_body ::
  "'k keyops \<Rightarrow> ('k, 'v, unit) map_op \<Rightarrow> 'k \<Rightarrow> 'v \<Rightarrow> ('k, 'v, aerror option) map_op" where
  "Map_set_body K resize key val m t =
     (case find_slot K key m of
        Failed e \<Rightarrow> (Inl e, m, t)
      | Returned e \<Rightarrow> (Inr (Some e), m, t)
      | Found i \<Rightarrow> then_op (set_cell i (fst (MAP_A m ! i), val)) (\<lambda>_ m t. (Inr None, m, t)) m t
      | Free i \<Rightarrow>
          then_op (set_cell i (Key key, snd (MAP_A m ! i))) (\<lambda>_.
          then_op (set_cell i (Key key, val)) (\<lambda>_ m t.
            let m = m\<lparr>MAP_LEN := MAP_LEN m + 1\<rparr>
            in if MAP_LEN m * 3 \<ge> (MAP_SIZE m - 1) * 2 + 2
               then then_op resize (\<lambda>_ m t. (Inr None, m, t)) m t else (Inr None, m, t))) m t)"

text \<open>\<^verbatim>\<open>AMakeInt\<close> takes a C int: the stored size is the new size modulo 2^32.\<close>

definition int32 :: "int \<Rightarrow> int" where
  "int32 i = sint (of_int i :: 32 word)"

definition new_capacity :: "int \<Rightarrow> int \<Rightarrow> int" where
  "new_capacity numItems oldSize =
     (if numItems * 3 > oldSize then 2 * oldSize
      else if numItems * 6 \<le> oldSize then max (int INITIAL_MAP_CAPACITY) (oldSize div 2)
      else oldSize)"

text \<open>The copying loop of the resize operation; it does not look at the result of \<^verbatim>\<open>_set\<close>.\<close>

fun rehash :: "('k \<Rightarrow> 'v \<Rightarrow> ('k, 'v, aerror option) map_op) \<Rightarrow> ('k slot \<times> 'v) list \<Rightarrow> ('k, 'v, unit) map_op" where
  "rehash setf [] m t = (Inr (), m, t)"
| "rehash setf ((Key k, v) # cs) m t = then_op (setf k v) (\<lambda>_. rehash setf cs) m t"
| "rehash setf (_ # cs) m t = rehash setf cs m t"

definition ResizeMap :: "string \<Rightarrow> 'v \<Rightarrow> ('k \<Rightarrow> 'v \<Rightarrow> ('k, 'v, aerror option) map_op) \<Rightarrow> ('k, 'v, unit) map_op" where
  "ResizeMap msg mark setf m t =
     (case next_alloc t of
        (Inl e, t) \<Rightarrow> (Inl e, m, t)
      | (Inr _, t) \<Rightarrow>
          let oldA = MAP_A m; oldSize = MAP_SIZE m
          in if oldSize > 0x7fffffff then (Inl (ValueError ''Out of range''), m, t)
             else
               let newSize = new_capacity (MapLen m) oldSize
               in if newSize > sint A_SHORT_INT_MAX then (Inl (ValueError msg), m, t)
                  else
                    let m = m\<lparr>MAP_SIZE := int32 newSize\<rparr>
                    in case next_alloc t of
                         (Inl e, t) \<Rightarrow> (Inl e, m, t)
                       | (Inr _, t) \<Rightarrow>
                           let m = m\<lparr>MAP_A := replicate (nat newSize) (EmptyMarker, mark),
                                     MAP_LEN := 0, MAP_NUM_REMOVED := 0\<rparr>
                           in if nat oldSize > length oldA then (Inl UndefinedBehaviour, m, t)
                              else rehash setf (take (nat oldSize) oldA) m t)"

text \<open>
  \<^verbatim>\<open>_set\<close> and the resize operation call each other.  The first argument bounds the nesting:
  at depth 0 a further resize counts as endless recursion.
\<close>

fun Map_set_depth :: "nat \<Rightarrow> string \<Rightarrow> 'v \<Rightarrow> 'k keyops \<Rightarrow> 'k \<Rightarrow> 'v \<Rightarrow> ('k, 'v, aerror option) map_op" where
  "Map_set_depth 0 msg mark K = Map_set_body K (\<lambda>m t. (Inl NonTermination, m, t))"
| "Map_set_depth (Suc d) msg mark K = Map_set_body K (ResizeMap msg mark (Map_set_depth d msg mark K))"

definition AMap_set :: "'v \<Rightarrow> 'k keyops \<Rightarrow> 'k \<Rightarrow> 'v \<Rightarrow> ('k, 'v, aerror option) map_op" where
  "AMap_set mark K = Map_set_depth 1 ''Map size overflow'' mark K"

definition AMapRemove :: "'k keyops \<Rightarrow> 'k \<Rightarrow> ('k, 'v, unit) map_op" where
  "AMapRemove K key m t =
     (case find_slot K key m of
        Failed e \<Rightarrow> (Inl e, m, t)
      | Returned e \<Rightarrow> (Inl e, m, t)
      | Found i \<Rightarrow>
          then_op (set_cell i (RemovedMarker, snd (MAP_A m ! i)))
            (\<lambda>_ m t. (Inr (), m\<lparr>MAP_NUM_REMOVED := MAP_NUM_REMOVED m + 1\<rparr>, t)) m t
      | Free _ \<Rightarrow> (Inl KeyError, m, t))"

section \<open>Construction\<close>

definition AMapInitialize :: "'v \<Rightarrow> ('k, 'v) amap rt" where
  "AMapInitialize mark =
     bindM next_alloc (\<lambda>_. ret
       \<lparr>MAP_A = replicate INITIAL_MAP_CAPACITY (EmptyMarker, mark), MAP_LEN = 0,
        MAP_SIZE = int INITIAL_MAP_CAPACITY, MAP_NUM_REMOVED = 0\<rparr>)"

text \<open>
  The constructor: an item is a pair, or (None) a value that is not one.  The result of
  \<^verbatim>\<open>_set\<close> is not looked at.
\<close>

fun create_loop :: "'v \<Rightarrow> 'k keyops \<Rightarrow> ('k \<times> 'v) option list \<Rightarrow> ('k, 'v, unit) map_op" where
  "create_loop mark K [] m t = (Inr (), m, t)"
| "create_loop mark K (None # xs) m t = (Inl TypeError, m, t)"
| "create_loop mark K (Some (k, v) # xs) m t =
     then_op (AMap_set mark K k v) (\<lambda>_. create_loop mark K xs) m t"

definition AMapCreate :: "'v \<Rightarrow> 'k keyops \<Rightarrow> ('k \<times> 'v) option list \<Rightarrow> ('k, 'v) amap rt" where
  "AMapCreate mark K items =
     bindM (AMapInitialize mark)
       (\<lambda>m t. case create_loop mark K items m t of
                (Inl e, _, t) \<Rightarrow> (Inl e, t) | (Inr _, m, t) \<Rightarrow> (Inr m, t))"

section \<open>Contents\<close>

fun entries :: "('k slot \<times> 'v) list \<Rightarrow> ('k \<times> 'v) list" where
  "entries [] = []"
| "entries ((Key k, v) # cs) = (k, v) # entries cs"
| "entries (_ # cs) = entries cs"

text \<open>
  The array methods: an array of \<^verbatim>\<open>MapLen_M\<close> items is filled in the order of the slots.  A
  read past the table or a store past the end of the array is undefined behaviour; an item
  that is never stored is None.
\<close>

definition filled :: "('k, 'v) amap \<Rightarrow> ('k \<times> 'v \<Rightarrow> 'a) \<Rightarrow> aerror + 'a option list" where
  "filled m f =
     (let n = MapLen m; xs = map f (entries (take (nat (MAP_SIZE m)) (MAP_A m)))
      in if nat (MAP_SIZE m) > length (MAP_A m) \<or> int (length xs) > n then Inl UndefinedBehaviour
         else Inr (map Some xs @ replicate (nat n - length xs) None))"

definition AMapItems :: "('k, 'v) amap \<Rightarrow> aerror + ('k \<times> 'v) option list" where
  "AMapItems m = filled m (\<lambda>e. e)"

definition AMapKeys :: "('k, 'v) amap \<Rightarrow> aerror + 'k option list" where
  "AMapKeys m = filled m fst"

definition AMapValues :: "('k, 'v) amap \<Rightarrow> aerror + 'v option list" where
  "AMapValues m = filled m snd"

section \<open>Iterators\<close>

text \<open>An iterator keeps the cell index, the cell count and the array it started with.\<close>

record ('k, 'v) map_iter =
  ITER_I :: nat
  ITER_LEN :: nat
  ITER_A :: "('k slot \<times> 'v) list"

definition AMapIter :: "('k, 'v) amap \<Rightarrow> ('k, 'v) map_iter" where
  "AMapIter m = \<lparr>ITER_I = 0, ITER_LEN = 2 * length (MAP_A m), ITER_A = MAP_A m\<rparr>"

text \<open>The first cell index from \<open>i\<close> on, in steps of two, whose slot holds a key.\<close>

function iter_skip :: "('k slot \<times> 'v) list \<Rightarrow> nat \<Rightarrow> nat \<Rightarrow> nat" where
  "iter_skip a n i =
     (if i + 1 < n \<and> (case fst (a ! (i div 2)) of Key _ \<Rightarrow> False | _ \<Rightarrow> True)
      then iter_skip a n (i + 2) else i)"
  by pat_completeness auto
termination by (relation "measure (\<lambda>(a, n, i). n - i)") auto

declare iter_skip.simps [simp del]

definition AMapIterHasNext :: "('k, 'v) map_iter \<Rightarrow> bool \<times> ('k, 'v) map_iter" where
  "AMapIterHasNext it =
     (let i = iter_skip (ITER_A it) (ITER_LEN it) (ITER_I it)
      in if i + 1 < ITER_LEN it then (True, it\<lparr>ITER_I := i\<rparr>) else (False, it))"

definition AMapIterNext :: "('k, 'v) map_iter \<Rightarrow> (aerror + 'k \<times> 'v) \<times> ('k, 'v) map_iter" where
  "AMapIterNext it =
     (let i = iter_skip (ITER_A it) (ITER_LEN it) (ITER_I it)
      in if i + 1 < ITER_LEN it then
           (case ITER_A it ! (i div 2) of
              (Key k, v) \<Rightarrow> (Inr (k, v), it\<lparr>ITER_I := i + 2\<rparr>)
            | _ \<Rightarrow> (Inl UndefinedBehaviour, it))
         else (Inl (ValueError ''No items left''), it))"

end
