(* ===== verification/Hash_Map_Lemmas.thy ===== *)
theory Hash_Map_Lemmas
  imports Hash_Map
begin

text \<open>
  The invariant of map objects and the refinement to finite maps: every operation keeps the
  invariant and acts on the abstract map as its name says.
\<close>

section \<open>Contents of a table\<close>

lemma entries_append: "entries (xs @ ys) = entries xs @ entries ys"
  by (induction xs rule: entries.induct) auto

lemma entries_replicate [simp]: "entries (replicate n (EmptyMarker, v)) = []"
  by (induction n) auto

lemma entries_iff: "(k, v) \<in> set (entries a) \<longleftrightarrow> (Key k, v) \<in> set a"
  by (induction a rule: entries.induct) auto

text \<open>The abstract map: a key is known by its identity.\<close>

definition tab_map :: "('k \<Rightarrow> 'i) \<Rightarrow> ('k slot \<times> 'v) list \<Rightarrow> ('i \<rightharpoonup> 'v)" where
  "tab_map kid a = map_of (map (\<lambda>(k, v). (kid k, v)) (entries a))"

definition used :: "('k slot \<times> 'v) list \<Rightarrow> nat" where
  "used a = length (filter (\<lambda>c. fst c \<noteq> EmptyMarker) a)"

definition removed :: "('k slot \<times> 'v) list \<Rightarrow> nat" where
  "removed a = length (filter (\<lambda>c. fst c = RemovedMarker) a)"

lemma length_entries: "length (entries a) + removed a = used a"
  by (induction a rule: entries.induct) (auto simp: used_def removed_def)

lemma used_replicate [simp]: "used (replicate n (EmptyMarker, v)) = 0"
  by (induction n) (auto simp: used_def)

lemma removed_replicate [simp]: "removed (replicate n (EmptyMarker, v)) = 0"
  by (induction n) (auto simp: removed_def)

lemma used_append: "used (xs @ ys) = used xs + used ys"
  by (simp add: used_def)

lemma removed_append: "removed (xs @ ys) = removed xs + removed ys"
  by (simp add: removed_def)

lemma used_le: "used a \<le> length a"
  by (simp add: used_def)

lemma free_slot:
  assumes "used a < length a" shows "\<exists>e < length a. fst (a ! e) = EmptyMarker"
proof (rule ccontr)
  assume "\<not> ?thesis"
  then have "\<forall>c \<in> set a. fst c \<noteq> EmptyMarker" by (metis in_set_conv_nth)
  then have "used a = length a" by (simp add: used_def)
  with assms show False by simp
qed

section \<open>Replacing a slot\<close>

lemma split_at: assumes "j < length a"
  shows "a = take j a @ (a ! j) # drop (Suc j) a" "a[j := c] = take j a @ c # drop (Suc j) a"
  using assms by (simp_all add: id_take_nth_drop upd_conv_take_nth_drop)

lemma used_update:
  assumes "j < length a"
  shows "used (a[j := c]) + (if fst (a ! j) = EmptyMarker then 0 else 1)
     = used a + (if fst c = EmptyMarker then 0 else 1)"
proof -
  have "used a = used (take j a) + used [a ! j] + used (drop (Suc j) a)"
    by (subst split_at(1) [OF assms]) (simp add: used_def)
  moreover have "used (a[j := c]) = used (take j a) + used [c] + used (drop (Suc j) a)"
    by (subst split_at(2) [OF assms]) (simp add: used_def)
  ultimately show ?thesis by (auto simp: used_def)
qed

lemma removed_update:
  assumes "j < length a"
  shows "removed (a[j := c]) + (if fst (a ! j) = RemovedMarker then 1 else 0)
     = removed a + (if fst c = RemovedMarker then 1 else 0)"
proof -
  have "removed a = removed (take j a) + removed [a ! j] + removed (drop (Suc j) a)"
    by (subst split_at(1) [OF assms]) (simp add: removed_def)
  moreover have "removed (a[j := c]) = removed (take j a) + removed [c] + removed (drop (Suc j) a)"
    by (subst split_at(2) [OF assms]) (simp add: removed_def)
  ultimately show ?thesis by (auto simp: removed_def)
qed

lemma entries_at:
  assumes "j < length a"
  shows "entries a = entries (take j a) @ entries [a ! j] @ entries (drop (Suc j) a)"
    "entries (a[j := c]) = entries (take j a) @ entries [c] @ entries (drop (Suc j) a)"
proof -
  show "entries a = entries (take j a) @ entries [a ! j] @ entries (drop (Suc j) a)"
    by (subst split_at(1) [OF assms]) (metis append_Cons append_Nil entries_append)
  show "entries (a[j := c]) = entries (take j a) @ entries [c] @ entries (drop (Suc j) a)"
    by (subst split_at(2) [OF assms]) (metis append_Cons append_Nil entries_append)
qed

definition ids :: "('k \<Rightarrow> 'i) \<Rightarrow> ('k slot \<times> 'v) list \<Rightarrow> 'i list" where
  "ids kid a = map (\<lambda>(k, v). kid k) (entries a)"

lemma dom_tab_map: "dom (tab_map kid a) = set (ids kid a)"
  by (force simp: tab_map_def ids_def dom_map_of_conv_image_fst)

lemma map_of_mid: "x \<notin> fst ` set l \<Longrightarrow> map_of (l @ (x, v) # r) = (map_of (l @ r))(x \<mapsto> v)"
  by (induction l) (auto simp: fun_eq_iff)

text \<open>A slot that holds key \<open>k\<close> splits the abstract map at \<open>kid k\<close>.\<close>

lemma tab_map_mid:
  assumes "j < length a" "kid k \<notin> set (ids kid (take j a))"
  shows "tab_map kid (a[j := (Key k, v)]) =
     (map_of (map (\<lambda>(k, v). (kid k, v)) (entries (take j a) @ entries (drop (Suc j) a))))(kid k \<mapsto> v)"
proof -
  have "kid k \<notin> fst ` set (map (\<lambda>(k, v). (kid k, v)) (entries (take j a)))"
    using assms(2) by (auto simp: ids_def)
  from map_of_mid [OF this] show ?thesis unfolding tab_map_def entries_at(2) [OF assms(1)] by simp
qed

lemma tab_map_insert:
  assumes "j < length a" "entries [a ! j] = []" "kid k \<notin> set (ids kid a)"
  shows "tab_map kid (a[j := (Key k, v)]) = (tab_map kid a)(kid k \<mapsto> v)"
    "distinct (ids kid a) \<Longrightarrow> distinct (ids kid (a[j := (Key k, v)]))"
proof -
  note e = entries_at [OF assms(1)]
  have "kid k \<notin> set (ids kid (take j a))" using assms(3) unfolding ids_def e(1) by auto
  from tab_map_mid [of j a kid k, OF assms(1) this]
  show "tab_map kid (a[j := (Key k, v)]) = (tab_map kid a)(kid k \<mapsto> v)"
    using assms(2) e(1) by (simp add: tab_map_def)
  show "distinct (ids kid (a[j := (Key k, v)]))" if "distinct (ids kid a)"
    using that assms(2,3) unfolding ids_def e(1) e(2) by auto
qed

lemma ids_mid:
  assumes "j < length a" "a ! j = (Key k, w)" "distinct (ids kid a)"
  shows "kid k \<notin> set (ids kid (take j a))" "kid k \<notin> set (ids kid (drop (Suc j) a))"
  using assms(2,3) unfolding ids_def entries_at(1) [OF assms(1)] by auto

lemma tab_map_replace:
  assumes "j < length a" "a ! j = (Key k, w)" "distinct (ids kid a)"
  shows "tab_map kid (a[j := (Key k, v)]) = (tab_map kid a)(kid k \<mapsto> v)"
    "ids kid (a[j := (Key k, v)]) = ids kid a"
proof -
  note e = entries_at [OF assms(1)] and m = ids_mid [OF assms]
  show "ids kid (a[j := (Key k, v)]) = ids kid a" using assms(2) unfolding ids_def e(1) e(2) by simp
  have "a = a[j := (Key k, w)]" using assms(2) by (metis list_update_id)
  then have "tab_map kid a = tab_map kid (a[j := (Key k, w)])" by simp
  then show "tab_map kid (a[j := (Key k, v)]) = (tab_map kid a)(kid k \<mapsto> v)"
    by (simp add: tab_map_mid [where kid = kid, OF assms(1) m(1)])
qed

lemma tab_map_remove:
  assumes "j < length a" "a ! j = (Key k, w)" "distinct (ids kid a)"
  shows "tab_map kid (a[j := (RemovedMarker, v)]) = (tab_map kid a)(kid k := None)"
    "distinct (ids kid (a[j := (RemovedMarker, v)]))"
proof -
  note e = entries_at [OF assms(1)] and m = ids_mid [OF assms]
  show "distinct (ids kid (a[j := (RemovedMarker, v)]))"
    using assms(2,3) unfolding ids_def e(1) e(2) by simp
  let ?m = "map_of (map (\<lambda>(k, v). (kid k, v)) (entries (take j a) @ entries (drop (Suc j) a)))"
  have "a = a[j := (Key k, w)]" using assms(2) by (metis list_update_id)
  then have "tab_map kid a = tab_map kid (a[j := (Key k, w)])" by simp
  also have "\<dots> = ?m(kid k \<mapsto> w)" by (rule tab_map_mid [OF assms(1) m(1)])
  finally have "(tab_map kid a)(kid k := None) = ?m(kid k := None)" by simp
  moreover have "kid k \<notin> dom ?m" using m by (auto simp: ids_def dom_map_of_conv_image_fst)
  then have "?m(kid k := None) = ?m" by (auto simp: dom_def)
  ultimately show "tab_map kid (a[j := (RemovedMarker, v)]) = (tab_map kid a)(kid k := None)"
    unfolding tab_map_def e(2) by simp
qed

lemma tab_map_at:
  assumes "distinct (ids kid a)" "j < length a" "a ! j = (Key k, v)"
  shows "tab_map kid a (kid k) = Some v"
proof -
  have "(k, v) \<in> set (entries a)" using assms(2,3) by (metis entries_iff nth_mem)
  then have "(kid k, v) \<in> set (map (\<lambda>(k, v). (kid k, v)) (entries a))" by force
  moreover have "distinct (map fst (map (\<lambda>(k, v). (kid k, v)) (entries a)))"
    using assms(1) by (simp add: ids_def case_prod_unfold comp_def)
  ultimately show ?thesis unfolding tab_map_def by (intro map_of_is_SomeI)
qed

lemma in_ids: "x \<in> set (ids kid a) \<longleftrightarrow> (\<exists>j k. j < length a \<and> fst (a ! j) = Key k \<and> kid k = x)"
proof -
  have "x \<in> set (ids kid a) \<longleftrightarrow> (\<exists>k v. (Key k, v) \<in> set a \<and> kid k = x)"
    by (force simp: ids_def simp flip: entries_iff)
  also have "\<dots> \<longleftrightarrow> (\<exists>j k. j < length a \<and> fst (a ! j) = Key k \<and> kid k = x)"
    by (metis fst_conv in_set_conv_nth prod.collapse)
  finally show ?thesis .
qed

section \<open>The invariant\<close>

definition hash_index :: "'k keyops \<Rightarrow> 'k \<Rightarrow> nat \<Rightarrow> nat" where
  "hash_index K k b =
     (case khash K k of
        Inl _ \<Rightarrow> 0
      | Inr h \<Rightarrow> (case HashToInt h of Inl _ \<Rightarrow> 0 | Inr i \<Rightarrow> unat i mod 2 ^ b))"

text \<open>Slot \<open>j\<close> is on the probe sequence from \<open>s\<close>, with no empty slot before it.\<close>

definition reaches :: "nat \<Rightarrow> ('k slot \<times> 'v) list \<Rightarrow> nat \<Rightarrow> nat \<Rightarrow> bool" where
  "reaches b a s j \<longleftrightarrow> (\<exists>n. orbit b s n = j \<and> (\<forall>m < n. fst (a ! orbit b s m) \<noteq> EmptyMarker))"

definition tab_ok :: "'k keyops \<Rightarrow> ('k \<Rightarrow> bool) \<Rightarrow> ('k \<Rightarrow> 'i) \<Rightarrow> nat \<Rightarrow> ('k slot \<times> 'v) list \<Rightarrow> bool" where
  "tab_ok K valid kid b a \<longleftrightarrow> length a = 2 ^ b \<and> distinct (ids kid a) \<and>
     (\<forall>j k. j < 2 ^ b \<longrightarrow> fst (a ! j) = Key k \<longrightarrow> valid k \<and> reaches b a (hash_index K k b) j)"

text \<open>The counters agree with the table.\<close>

definition map_wf :: "'k keyops \<Rightarrow> ('k \<Rightarrow> bool) \<Rightarrow> ('k \<Rightarrow> 'i) \<Rightarrow> nat \<Rightarrow> ('k, 'v) amap \<Rightarrow> bool" where
  "map_wf K valid kid b m \<longleftrightarrow>
     2 \<le> b \<and> b \<le> 30 \<and> tab_ok K valid kid b (MAP_A m) \<and> MAP_SIZE m = 2 ^ b \<and>
     MAP_LEN m = int (used (MAP_A m)) \<and> MAP_NUM_REMOVED m = int (removed (MAP_A m))"

text \<open>The invariant between operations: less than two thirds of the slots are in use.\<close>

definition map_inv :: "'k keyops \<Rightarrow> ('k \<Rightarrow> bool) \<Rightarrow> ('k \<Rightarrow> 'i) \<Rightarrow> nat \<Rightarrow> ('k, 'v) amap \<Rightarrow> bool" where
  "map_inv K valid kid b m \<longleftrightarrow> map_wf K valid kid b m \<and> 3 * used (MAP_A m) < 2 * 2 ^ b"

section \<open>The contract of keys\<close>

text \<open>
  What the tables rely on: on valid keys the hash function returns an Int and equality
  returns a Boolean, equality compares an identity, and equal keys have equal hash values.
\<close>

locale key_contract =
  fixes K :: "'k keyops" and valid :: "'k \<Rightarrow> bool" and kid :: "'k \<Rightarrow> 'i"
  assumes hash_int: "valid k \<Longrightarrow> \<exists>h. khash K k = Inr (HInt h)"
    and hash_respects: "valid k \<Longrightarrow> valid k' \<Longrightarrow> kid k = kid k' \<Longrightarrow> khash K k = khash K k'"
    and eq_kid: "valid k \<Longrightarrow> valid k' \<Longrightarrow> keq K k k' = Inr (kid k = kid k')"
begin

lemma hash_index_respects:
  "valid k \<Longrightarrow> valid k' \<Longrightarrow> kid k = kid k' \<Longrightarrow> hash_index K k b = hash_index K k' b"
  using hash_respects [of k k'] by (simp add: hash_index_def)

lemma HashToInt_HInt: "\<exists>i. HashToInt (HInt h) = Inr i"
  by (cases h) auto

lemma find_slot_probe:
  assumes "valid key" "MAP_SIZE m = 2 ^ b" "length (MAP_A m) = 2 ^ b"
  shows "\<exists>i. find_slot K key m = probe (length (MAP_A m)) (\<lambda>k. keq K k key) (of_int (2 ^ b - 1)) (MAP_A m) i
     \<and> unat i = hash_index K key b"
proof -
  obtain h where h: "khash K key = Inr (HInt h)" using hash_int assms(1) by blast
  obtain i where i: "HashToInt (HInt h) = Inr i" using HashToInt_HInt by blast
  have "unat (i AND of_int (2 ^ b - 1)) = hash_index K key b"
    unfolding unat_and_mask by (simp add: hash_index_def h i)
  moreover have "find_slot K key m = probe (length (MAP_A m)) (\<lambda>k. keq K k key) (of_int (2 ^ b - 1)) (MAP_A m)
      (i AND of_int (2 ^ b - 1))"
    using assms(2) by (simp add: find_slot_def h i Let_def)
  ultimately show ?thesis by blast
qed

lemma hash_index_less: "hash_index K k b < 2 ^ b"
  by (auto simp: hash_index_def split: sum.splits)

lemma find_slot_cases:
  assumes v: "valid key" and wf: "map_wf K valid kid b m" and room: "used (MAP_A m) < 2 ^ b"
  obtains (found) j k where "find_slot K key m = Found j" "j < 2 ^ b" "fst (MAP_A m ! j) = Key k"
      "kid k = kid key"
  | (free) j where "find_slot K key m = Free j" "j < 2 ^ b" "fst (MAP_A m ! j) = EmptyMarker"
      "kid key \<notin> set (ids kid (MAP_A m))" "reaches b (MAP_A m) (hash_index K key b) j"
proof -
  let ?A = "MAP_A m" and ?p = "\<lambda>k. kid k = kid key" and ?s = "hash_index K key b"
  have b: "b \<le> 60" and len: "length ?A = 2 ^ b" and tab: "tab_ok K valid kid b ?A"
    using wf by (auto simp: map_wf_def tab_ok_def)
  obtain i where i: "find_slot K key m = probe (length ?A) (\<lambda>k. keq K k key) (of_int (2 ^ b - 1)) ?A i"
      "unat i = ?s"
    using find_slot_probe [OF v, of m b] wf len by (auto simp: map_wf_def)
  obtain e where e: "e < 2 ^ b" "fst (?A ! e) = EmptyMarker" using free_slot [of ?A] room len by auto
  have eqk: "keq K k key = Inr (?p k)" if "j < 2 ^ b" "fst (?A ! j) = Key k" for j k
    using that tab v eq_kid by (auto simp: tab_ok_def)
  obtain n where n: "stops ?p (fst (?A ! orbit b ?s n))" "\<And>m. m < n \<Longrightarrow> \<not> stops ?p (fst (?A ! orbit b ?s m))"
    and fs: "find_slot K key m = (if fst (?A ! orbit b ?s n) = EmptyMarker then Free (orbit b ?s n)
        else Found (orbit b ?s n))"
    using probe_ends [OF b len, of i "\<lambda>k. keq K k key" ?p e] hash_index_less eqk e i by auto
  have o: "orbit b ?s n < 2 ^ b" by (rule orbit_less [OF hash_index_less])
  show thesis
  proof (cases "fst (?A ! orbit b ?s n)")
    case EmptyMarker
    have nonempty: "fst (?A ! orbit b ?s m) \<noteq> EmptyMarker" if "m < n" for m
      using n(2) [OF that] by (cases "fst (?A ! orbit b ?s m)") auto
    have "kid key \<notin> set (ids kid ?A)"
    proof
      assume "kid key \<in> set (ids kid ?A)"
      then obtain j k where j: "j < 2 ^ b" "fst (?A ! j) = Key k" "kid k = kid key"
        unfolding in_ids len by blast
      then have "valid k" "reaches b ?A (hash_index K k b) j" using tab by (auto simp: tab_ok_def)
      moreover from this have "hash_index K k b = ?s" using j v by (intro hash_index_respects) auto
      ultimately obtain n' where n': "orbit b ?s n' = j" "\<forall>m < n'. fst (?A ! orbit b ?s m) \<noteq> EmptyMarker"
        by (auto simp: reaches_def)
      have "n' < n \<or> n' = n \<or> n < n'" by linarith
      then show False using n n' j EmptyMarker by fastforce
    qed
    with EmptyMarker nonempty fs o show thesis by (intro free) (auto simp: reaches_def)
  next
    case (Key k)
    with n(1) fs o show thesis using found [of "orbit b ?s n" k] by auto
  next
    case RemovedMarker
    with n(1) show thesis by simp
  qed
qed

text \<open>Lookups agree with the abstract map.\<close>

lemma MapLookup_map:
  assumes "valid key" "map_inv K valid kid b m"
  shows "MapLookup K key def m =
     (case tab_map kid (MAP_A m) (kid key) of
        Some v \<Rightarrow> Inr v
      | None \<Rightarrow> (case def of None \<Rightarrow> Inl KeyError | Some d \<Rightarrow> Inr d))"
proof -
  have wf: "map_wf K valid kid b m" and room: "used (MAP_A m) < 2 ^ b"
    using assms(2) by (auto simp: map_inv_def)
  have d: "distinct (ids kid (MAP_A m))" "length (MAP_A m) = 2 ^ b"
    using wf by (auto simp: map_wf_def tab_ok_def)
  from assms(1) wf room show ?thesis
  proof (cases rule: find_slot_cases)
    case (found j k)
    then have "MAP_A m ! j = (Key k, snd (MAP_A m ! j))" by (metis prod.collapse)
    with found d have "tab_map kid (MAP_A m) (kid key) = Some (snd (MAP_A m ! j))"
      using tab_map_at by metis
    with found show ?thesis by (simp add: MapLookup_def)
  next
    case (free j)
    then have "tab_map kid (MAP_A m) (kid key) = None"
      using dom_tab_map [of kid "MAP_A m"] by (auto simp: dom_def)
    with free show ?thesis by (simp add: MapLookup_def)
  qed
qed

lemma AMapHasKey_map:
  assumes "valid key" "map_inv K valid kid b m"
  shows "AMapHasKey K key m = Inr (kid key \<in> dom (tab_map kid (MAP_A m)))"
proof -
  have wf: "map_wf K valid kid b m" and room: "used (MAP_A m) < 2 ^ b"
    using assms(2) by (auto simp: map_inv_def)
  then have len: "length (MAP_A m) = 2 ^ b" by (auto simp: map_wf_def tab_ok_def)
  from assms(1) wf room show ?thesis
  proof (cases rule: find_slot_cases)
    case (found j k)
    then show ?thesis using len by (auto simp: AMapHasKey_def dom_tab_map in_ids)
  next
    case (free j)
    then show ?thesis by (simp add: AMapHasKey_def dom_tab_map)
  qed
qed

text \<open>Marking a slot keeps every other key reachable.\<close>

lemma reaches_update:
  assumes "reaches b a s i" "fst c \<noteq> EmptyMarker"
  shows "reaches b (a[j := c]) s i"
  using assms unfolding reaches_def by (metis nth_list_update_eq nth_list_update_neq list_update_beyond not_le)

lemma tab_ok_update:
  assumes tab: "tab_ok K valid kid b a" and j: "j < 2 ^ b" and c: "fst c \<noteq> EmptyMarker"
    and d: "distinct (ids kid (a[j := c]))"
    and key: "\<And>k. fst c = Key k \<Longrightarrow> valid k \<and> reaches b a (hash_index K k b) j"
  shows "tab_ok K valid kid b (a[j := c])"
proof -
  have len: "length a = 2 ^ b" using tab by (simp add: tab_ok_def)
  have "valid k \<and> reaches b (a[j := c]) (hash_index K k b) i"
    if "i < 2 ^ b" "fst (a[j := c] ! i) = Key k" for i k
  proof (cases "i = j")
    case True
    then show ?thesis using that key len c by (auto intro: reaches_update)
  next
    case False
    then show ?thesis using that tab c by (auto simp: tab_ok_def intro: reaches_update)
  qed
  then show ?thesis using len d by (simp add: tab_ok_def)
qed

end

lemma tab_map_Cons_Key: "tab_map kid ((Key k, v) # cs) = (tab_map kid cs)(kid k \<mapsto> v)"
  by (simp add: tab_map_def)

lemma ids_Cons_Key: "ids kid ((Key k, v) # cs) = kid k # ids kid cs"
  by (simp add: ids_def)

lemma tab_map_skip:
  "(\<And>k. c \<noteq> Key k) \<Longrightarrow> tab_map kid ((c, v) # cs) = tab_map kid cs \<and> ids kid ((c, v) # cs) = ids kid cs"
  by (cases c) (auto simp: tab_map_def ids_def)

section \<open>Runs without a failed allocation\<close>

definition mem_ok :: "athread \<Rightarrow> bool" where
  "mem_ok t \<longleftrightarrow> AllocFail \<notin> set (allocs t)"

lemma next_alloc_ok: "mem_ok t \<Longrightarrow> \<exists>r t'. next_alloc t = (Inr r, t') \<and> mem_ok t'"
  by (auto simp: mem_ok_def next_alloc_def split: list.splits alloc.splits)

lemma set_cell_ok:
  "mem_ok t \<Longrightarrow> \<exists>t'. set_cell i c m t = (Inr (), m\<lparr>MAP_A := (MAP_A m)[i := c]\<rparr>, t') \<and> mem_ok t'"
  using next_alloc_ok [of t] by (auto simp: set_cell_def)

context key_contract
begin

text \<open>The effect of \<^verbatim>\<open>_set\<close> before a possible resize.\<close>

lemma set_body:
  assumes v: "valid key" and wf: "map_wf K valid kid b m" and room: "used (MAP_A m) < 2 ^ b" and t: "mem_ok t"
  obtains m' t' where "mem_ok t'" "map_wf K valid kid b m'"
    "tab_map kid (MAP_A m') = (tab_map kid (MAP_A m))(kid key \<mapsto> val)"
    "used (MAP_A m') = used (MAP_A m) + (if kid key \<in> set (ids kid (MAP_A m)) then 0 else 1)"
    "Map_set_body K resize key val m t =
       (if kid key \<notin> set (ids kid (MAP_A m)) \<and> 3 * used (MAP_A m') \<ge> 2 * 2 ^ b
        then then_op resize (\<lambda>_ m t. (Inr None, m, t)) m' t' else (Inr None, m', t'))"
proof -
  let ?A = "MAP_A m"
  have tab: "tab_ok K valid kid b ?A" and len: "length ?A = 2 ^ b" and d: "distinct (ids kid ?A)"
    using wf by (auto simp: map_wf_def tab_ok_def)
  from v wf room show thesis
  proof (cases rule: find_slot_cases)
    case (found j k)
    obtain w where A: "?A ! j = (Key k, w)" using found by (metis prod.collapse)
    let ?m = "m\<lparr>MAP_A := ?A[j := (Key k, val)]\<rparr>"
    obtain t' where t': "set_cell j (Key k, val) m t = (Inr (), ?m, t')" "mem_ok t'"
      using set_cell_ok [OF t] by blast
    note r = tab_map_replace [where kid = kid, OF _ A d, of val]
    have "tab_ok K valid kid b (?A[j := (Key k, val)])"
      using tab found A len d r by (intro tab_ok_update) (auto simp: tab_ok_def)
    moreover have "used (?A[j := (Key k, val)]) = used ?A" "removed (?A[j := (Key k, val)]) = removed ?A"
      using used_update [of j ?A "(Key k, val)"] removed_update [of j ?A "(Key k, val)"] A found len by simp_all
    moreover have "kid key \<in> set (ids kid ?A)" using found len by (auto simp: in_ids)
    ultimately show thesis
      using that [of t' ?m] t' wf found r len A by (simp add: map_wf_def Map_set_body_def then_op_def)
  next
    case (free j)
    let ?A' = "?A[j := (Key key, val)]" and ?m = "m\<lparr>MAP_A := ?A[j := (Key key, val)], MAP_LEN := MAP_LEN m + 1\<rparr>"
    obtain t1 where t1: "set_cell j (Key key, snd (?A ! j)) m t =
        (Inr (), m\<lparr>MAP_A := ?A[j := (Key key, snd (?A ! j))]\<rparr>, t1)" "mem_ok t1"
      using set_cell_ok [OF t] by blast
    obtain t2 where t2: "set_cell j (Key key, val) (m\<lparr>MAP_A := ?A[j := (Key key, snd (?A ! j))]\<rparr>) t1 =
        (Inr (), m\<lparr>MAP_A := ?A'\<rparr>, t2)" "mem_ok t2"
      using set_cell_ok [OF t1(2), of j "(Key key, val)" "m\<lparr>MAP_A := ?A[j := (Key key, snd (?A ! j))]\<rparr>"] by auto
    obtain w where A: "?A ! j = (EmptyMarker, w)" using free by (metis prod.collapse)
    have e: "entries [?A ! j] = []" by (simp add: A)
    note r = tab_map_insert [where kid = kid, OF _ e free(4), of val]
    have tab': "tab_ok K valid kid b ?A'"
      using tab free len d r v by (intro tab_ok_update) auto
    have u: "used ?A' = used ?A + 1" "removed ?A' = removed ?A"
      using used_update [of j ?A "(Key key, val)"] removed_update [of j ?A "(Key key, val)"] A free len by simp_all
    have wf': "map_wf K valid kid b ?m" using wf tab' u by (simp add: map_wf_def)
    have ge: "MAP_LEN ?m * 3 \<ge> (MAP_SIZE ?m - 1) * 2 + 2 \<longleftrightarrow> 3 * used ?A' \<ge> 2 * 2 ^ b"
    proof -
      have "(MAP_SIZE ?m - 1) * 2 + 2 = int (2 * 2 ^ b)" "MAP_LEN ?m * 3 = int (3 * used ?A')"
        using wf u by (simp_all add: map_wf_def)
      then show ?thesis by (simp only: of_nat_le_iff)
    qed
    have "Map_set_body K resize key val m t = (if 3 * used ?A' \<ge> 2 * 2 ^ b
        then then_op resize (\<lambda>_ m t. (Inr None, m, t)) ?m t2 else (Inr None, ?m, t2))"
      using ge by (simp add: Map_set_body_def free then_op_def t1 t2 Let_def)
    then show thesis
      using that [of t2 ?m] t2 wf' u free r len by simp
  qed
qed

text \<open>Copying entries into a table with room for them never triggers a resize.\<close>

lemma rehash_ok:
  assumes "map_wf K valid kid b m" "mem_ok t"
    and "3 * (used (MAP_A m) + length (entries cs)) < 2 * 2 ^ b"
    and "distinct (ids kid cs)" "set (ids kid cs) \<inter> set (ids kid (MAP_A m)) = {}"
    and "\<And>k v. (Key k, v) \<in> set cs \<Longrightarrow> valid k"
  shows "\<exists>m' t'. rehash (Map_set_depth d msg mark K) cs m t = (Inr (), m', t') \<and> mem_ok t' \<and>
     map_wf K valid kid b m' \<and> tab_map kid (MAP_A m') = tab_map kid (MAP_A m) ++ tab_map kid cs \<and>
     used (MAP_A m') = used (MAP_A m) + length (entries cs)"
  using assms
proof (induction cs arbitrary: m t)
  case Nil
  then show ?case by (simp add: tab_map_def)
next
  case (Cons c cs)
  show ?case
  proof (cases "\<exists>k v. c = (Key k, v)")
    case False
    obtain x v where c: "c = (x, v)" by fastforce
    with False have nk: "\<And>k. x \<noteq> Key k" by auto
    note sk = tab_map_skip [OF nk, of kid v cs]
    have "rehash (Map_set_depth d msg mark K) (c # cs) m t = rehash (Map_set_depth d msg mark K) cs m t"
      and e: "entries (c # cs) = entries cs"
      using nk c by (cases x; simp)+
    moreover have "\<exists>m' t'. rehash (Map_set_depth d msg mark K) cs m t = (Inr (), m', t') \<and> mem_ok t' \<and>
       map_wf K valid kid b m' \<and> tab_map kid (MAP_A m') = tab_map kid (MAP_A m) ++ tab_map kid cs \<and>
       used (MAP_A m') = used (MAP_A m) + length (entries cs)"
      using Cons.prems sk c e by (intro Cons.IH) auto
    ultimately show ?thesis using sk c by auto
  next
    case True
    then obtain k v where c: "c = (Key k, v)" by blast
    have k: "valid k" "kid k \<notin> set (ids kid (MAP_A m))" "kid k \<notin> set (ids kid cs)"
      using Cons.prems c by (auto simp: ids_Cons_Key)
    have room: "used (MAP_A m) < 2 ^ b" "3 * (used (MAP_A m) + 1) < 2 * 2 ^ b" using Cons.prems c by simp_all
    obtain resize where body: "Map_set_depth d msg mark K = Map_set_body K resize" by (cases d) auto
    obtain m1 t1 where m1: "mem_ok t1" "map_wf K valid kid b m1"
        "tab_map kid (MAP_A m1) = (tab_map kid (MAP_A m))(kid k \<mapsto> v)" "used (MAP_A m1) = used (MAP_A m) + 1"
        "Map_set_body K resize k v m t = (Inr None, m1, t1)"
      by (rule set_body [OF k(1) Cons.prems(1) room(1) Cons.prems(2), of v resize])
        (use that k(2) room(2) in auto)
    have ids1: "set (ids kid (MAP_A m1)) = insert (kid k) (set (ids kid (MAP_A m)))"
      using m1(3) by (simp flip: dom_tab_map)
    have "\<exists>m' t'. rehash (Map_set_depth d msg mark K) cs m1 t1 = (Inr (), m', t') \<and> mem_ok t' \<and>
       map_wf K valid kid b m' \<and> tab_map kid (MAP_A m') = tab_map kid (MAP_A m1) ++ tab_map kid cs \<and>
       used (MAP_A m') = used (MAP_A m1) + length (entries cs)"
      using Cons.prems m1 k ids1 c by (intro Cons.IH) (auto simp: ids_Cons_Key)
    moreover have "tab_map kid (MAP_A m1) ++ tab_map kid cs = tab_map kid (MAP_A m) ++ tab_map kid (c # cs)"
      using k(3) m1(3) c by (simp add: tab_map_Cons_Key map_add_upd_left dom_tab_map)
    ultimately show ?thesis using m1 c body by (auto simp: then_op_def)
  qed
qed

end

text \<open>The new capacity is a power of two with room for the items.\<close>

lemma new_capacity_nat:
  "new_capacity (int n) (2 ^ b) =
     (if 3 * n > 2 ^ b then 2 ^ Suc b else if 6 * n \<le> 2 ^ b then max 4 (2 ^ b div 2) else 2 ^ b)"
proof -
  have p: "int (2 ^ b) = 2 ^ b" by simp
  have "int n * 3 = int (3 * n)" "int n * 6 = int (6 * n)" by simp_all
  then have "int n * 3 > 2 ^ b \<longleftrightarrow> 3 * n > 2 ^ b" "int n * 6 \<le> 2 ^ b \<longleftrightarrow> 6 * n \<le> 2 ^ b"
    by (simp_all only: p [symmetric] of_nat_less_iff of_nat_le_iff)
  then show ?thesis by (simp only: new_capacity_def power_Suc) simp
qed

lemma new_capacity_pow:
  assumes "2 \<le> b" "b < 30" "n \<le> u" "3 * u \<le> 2 * 2 ^ b + 2"
  shows "\<exists>b'. 2 \<le> b' \<and> b' \<le> 30 \<and> new_capacity (int n) (2 ^ b) = 2 ^ b' \<and> 3 * n < 2 * 2 ^ b'
     \<and> (b' \<le> b \<or> 2 ^ b' < 6 * n)"
proof -
  have ge: "(4::nat) \<le> 2 ^ b" using power_increasing [OF assms(1), of "2::nat"] by simp
  consider (grow) "2 ^ b < 3 * n" | (shrink) "6 * n \<le> 2 ^ b" | (keep) "3 * n \<le> 2 ^ b" "2 ^ b < 6 * n"
    by linarith
  then show ?thesis
  proof cases
    case grow
    have "3 * n < 2 * 2 ^ Suc b" using assms(3,4) ge by simp
    with grow assms show ?thesis by (intro exI [of _ "Suc b"]) (auto simp: new_capacity_nat)
  next
    case shrink
    then have c: "new_capacity (int n) (2 ^ b) = max 4 (2 ^ b div 2)" by (simp add: new_capacity_nat)
    show ?thesis
    proof (cases "b = 2")
      case True
      with shrink c show ?thesis by (intro exI [of _ 2]) auto
    next
      case False
      then obtain b' where b': "b = Suc b'" "2 \<le> b'" using assms(1) by (cases b) auto
      then have "(4::int) \<le> 2 ^ b'" using power_increasing [OF b'(2), of "2::int"] by simp
      moreover have "3 * n < 2 * 2 ^ b'"
        using shrink b'(1) zero_less_power [of "2::nat" b'] by (simp only: power_Suc) linarith
      ultimately show ?thesis
        using c b' shrink assms(2) by (intro exI [of _ b']) (auto simp: max_def)
    qed
  next
    case keep
    with assms show ?thesis by (intro exI [of _ b]) (auto simp: new_capacity_nat)
  qed
qed

lemma int32_pow: "b \<le> 30 \<Longrightarrow> int32 (2 ^ b) = 2 ^ b"
proof -
  assume "b \<le> 30"
  then have "(2::int) ^ b \<le> 2 ^ 30" by (intro power_increasing) auto
  moreover have *: "sint (of_int i :: 32 word) = i" if "0 \<le> i" "i < 2147483648" for i
    using that by (simp add: signed_of_int signed_take_bit_int_eq_self)
  ultimately have "sint (of_int (2 ^ b) :: 32 word) = 2 ^ b" by (intro *) auto
  then show ?thesis by (simp only: int32_def)
qed

context key_contract
begin

lemma tab_ok_empty: "tab_ok K valid kid b (replicate (2 ^ b) (EmptyMarker, v))"
  by (auto simp: tab_ok_def ids_def)

lemma map_wf_counts:
  assumes "map_wf K valid kid b m" shows "MapLen m = int (length (entries (MAP_A m)))"
proof -
  have "used (MAP_A m) = length (entries (MAP_A m)) + removed (MAP_A m)" by (simp add: length_entries)
  then show ?thesis using assms by (simp add: map_wf_def MapLen_def)
qed

lemma ResizeMap_ok:
  assumes wf: "map_wf K valid kid b m" and b: "b < 30" and t: "mem_ok t"
    and load: "3 * used (MAP_A m) \<le> 2 * 2 ^ b + 2"
  shows "\<exists>b' m' t'. ResizeMap msg mark (Map_set_depth d msg mark K) m t = (Inr (), m', t') \<and> mem_ok t' \<and>
     map_inv K valid kid b' m' \<and> tab_map kid (MAP_A m') = tab_map kid (MAP_A m) \<and>
     (b' \<le> b \<or> 2 ^ b' < 6 * card (dom (tab_map kid (MAP_A m))))"
proof -
  let ?n = "length (entries (MAP_A m))"
  have len: "length (MAP_A m) = 2 ^ b" and tab: "tab_ok K valid kid b (MAP_A m)" and b2: "2 \<le> b"
    and sz: "MAP_SIZE m = 2 ^ b" and d: "distinct (ids kid (MAP_A m))"
    using wf by (auto simp: map_wf_def tab_ok_def)
  have n: "?n \<le> used (MAP_A m)" using length_entries [of "MAP_A m"] by simp
  obtain b' where b': "2 \<le> b'" "b' \<le> 30" "new_capacity (int ?n) (2 ^ b) = 2 ^ b'" "3 * ?n < 2 * 2 ^ b'"
      "b' \<le> b \<or> 2 ^ b' < 6 * ?n"
    using new_capacity_pow [OF b2 b n load] by blast
  have small: "(2::int) ^ c \<le> 1073741824" if "c \<le> 30" for c
    using power_increasing [OF that, of "2::int"] by simp
  obtain r1 t1 where t1: "next_alloc t = (Inr r1, t1)" "mem_ok t1" using next_alloc_ok [OF t] by blast
  obtain r2 t2 where t2: "next_alloc t1 = (Inr r2, t2)" "mem_ok t2" using next_alloc_ok [OF t1(2)] by blast
  let ?m = "m\<lparr>MAP_SIZE := 2 ^ b', MAP_A := replicate (2 ^ b') (EmptyMarker, mark),
              MAP_LEN := 0, MAP_NUM_REMOVED := 0\<rparr>"
  have wf0: "map_wf K valid kid b' ?m" using b' tab_ok_empty by (simp add: map_wf_def)
  have "\<exists>m' t'. rehash (Map_set_depth d msg mark K) (MAP_A m) ?m t2 = (Inr (), m', t') \<and> mem_ok t' \<and>
     map_wf K valid kid b' m' \<and> tab_map kid (MAP_A m') = tab_map kid (MAP_A ?m) ++ tab_map kid (MAP_A m) \<and>
     used (MAP_A m') = used (MAP_A ?m) + ?n"
  proof (rule rehash_ok [OF wf0 t2(2)])
    show "valid k" if "(Key k, v) \<in> set (MAP_A m)" for k v
      using that tab len by (metis fst_conv in_set_conv_nth tab_ok_def)
  qed (use b' d in \<open>auto simp: ids_def\<close>)
  moreover have "ResizeMap msg mark (Map_set_depth d msg mark K) m t
      = rehash (Map_set_depth d msg mark K) (MAP_A m) ?m t2"
    using t1 t2 sz len b' small [of b] small [of b'] b int32_pow [of b']
    by (simp add: ResizeMap_def Let_def map_wf_counts [OF wf] A_SHORT_INT_MAX_eq nat_power_eq)
  moreover have "?n = card (dom (tab_map kid (MAP_A m)))"
    using d by (metis dom_tab_map distinct_card ids_def length_map)
  ultimately show ?thesis using b' by (auto simp: map_inv_def tab_map_def)
qed

lemma Map_set_ok:
  assumes v: "valid key" and inv: "map_inv K valid kid b m" and b: "b < 30" and t: "mem_ok t"
  shows "\<exists>b' m' t'. Map_set_depth (Suc d) msg mark K key val m t = (Inr None, m', t') \<and> mem_ok t' \<and>
     map_inv K valid kid b' m' \<and>
     tab_map kid (MAP_A m') = (tab_map kid (MAP_A m))(kid key \<mapsto> val) \<and>
     (b' \<le> b \<or> 2 ^ b' < 6 * card (dom (tab_map kid (MAP_A m'))))"
proof -
  have wf: "map_wf K valid kid b m" and load: "3 * used (MAP_A m) < 2 * 2 ^ b"
    using inv by (auto simp: map_inv_def)
  then have room: "used (MAP_A m) < 2 ^ b" by simp
  let ?resize = "ResizeMap msg mark (Map_set_depth d msg mark K)"
  obtain m' t' where m': "mem_ok t'" "map_wf K valid kid b m'"
    "tab_map kid (MAP_A m') = (tab_map kid (MAP_A m))(kid key \<mapsto> val)"
    "used (MAP_A m') = used (MAP_A m) + (if kid key \<in> set (ids kid (MAP_A m)) then 0 else 1)"
    "Map_set_body K ?resize key val m t =
       (if kid key \<notin> set (ids kid (MAP_A m)) \<and> 3 * used (MAP_A m') \<ge> 2 * 2 ^ b
        then then_op ?resize (\<lambda>_ m t. (Inr None, m, t)) m' t' else (Inr None, m', t'))"
    by (rule set_body [OF v wf room t])
  show ?thesis
  proof (cases "kid key \<notin> set (ids kid (MAP_A m)) \<and> 3 * used (MAP_A m') \<ge> 2 * 2 ^ b")
    case True
    have "3 * used (MAP_A m') \<le> 2 * 2 ^ b + 2" using m'(4) load by simp
    then obtain b2 m2 t2 where "?resize m' t' = (Inr (), m2, t2)" "mem_ok t2" "map_inv K valid kid b2 m2"
        "tab_map kid (MAP_A m2) = tab_map kid (MAP_A m')"
        "b2 \<le> b \<or> 2 ^ b2 < 6 * card (dom (tab_map kid (MAP_A m')))"
      using ResizeMap_ok [OF m'(2) b m'(1)] by blast
    moreover from this have "Map_set_depth (Suc d) msg mark K key val m t = (Inr None, m2, t2)"
      using m'(5) True by (simp add: then_op_def)
    ultimately show ?thesis using m'(3) by metis
  next
    case False
    then have "map_inv K valid kid b m'" using m'(2,4) load by (auto simp: map_inv_def)
    with False m' show ?thesis by auto
  qed
qed

lemma AMapRemove_ok:
  assumes v: "valid key" and inv: "map_inv K valid kid b m" and t: "mem_ok t"
  shows "\<exists>r m' t'. AMapRemove K key m t = (r, m', t') \<and> mem_ok t' \<and> map_inv K valid kid b m' \<and>
     r = (if kid key \<in> dom (tab_map kid (MAP_A m)) then Inr () else Inl KeyError) \<and>
     tab_map kid (MAP_A m') = (tab_map kid (MAP_A m))(kid key := None)"
proof -
  let ?A = "MAP_A m"
  have wf: "map_wf K valid kid b m" and load: "3 * used ?A < 2 * 2 ^ b"
    using inv by (auto simp: map_inv_def)
  then have room: "used ?A < 2 ^ b" by simp
  have tab: "tab_ok K valid kid b ?A" and len: "length ?A = 2 ^ b" and d: "distinct (ids kid ?A)"
    using wf by (auto simp: map_wf_def tab_ok_def)
  from v wf room show ?thesis
  proof (cases rule: find_slot_cases)
    case (found j k)
    obtain w where A: "?A ! j = (Key k, w)" using found by (metis prod.collapse)
    let ?A' = "?A[j := (RemovedMarker, w)]"
    obtain t' where t': "set_cell j (RemovedMarker, w) m t = (Inr (), m\<lparr>MAP_A := ?A'\<rparr>, t')" "mem_ok t'"
      using set_cell_ok [OF t] by blast
    have j: "j < length ?A" using found len by simp
    note r = tab_map_remove [where kid = kid and v = w, OF j A d]
    have "tab_ok K valid kid b ?A'" using tab found r by (intro tab_ok_update) auto
    moreover have "used ?A' = used ?A" "removed ?A' = Suc (removed ?A)"
      using used_update [OF j, of "(RemovedMarker, w)"] removed_update [OF j, of "(RemovedMarker, w)"] A by simp_all
    moreover have "kid key \<in> dom (tab_map kid ?A)" using found len by (auto simp: dom_tab_map in_ids)
    ultimately show ?thesis
      using found A t' r wf load by (auto simp: AMapRemove_def then_op_def map_inv_def map_wf_def)
  next
    case (free j)
    then have "kid key \<notin> dom (tab_map kid ?A)" by (simp add: dom_tab_map)
    then have "(tab_map kid ?A)(kid key := None) = tab_map kid ?A" by (auto simp: dom_def)
    with \<open>kid key \<notin> dom _\<close> free inv t show ?thesis by (simp add: AMapRemove_def)
  qed
qed

end

end
