(* ===== verification/Array_Lemmas.thy ===== *)
theory Array_Lemmas
  imports Array_Seq Str_Lemmas Hash_Map_Lemmas
begin

text \<open>Arrays: the invariant, and what the operations do to the list of items.\<close>

section \<open>The invariant and runs in which memory suffices\<close>

definition wf_array :: "'v aarray \<Rightarrow> bool" where
  "wf_array a \<longleftrightarrow> length (A_ARRAY_A a) = A_ARRAY_CAPACITY a \<and> A_ARRAY_LEN a \<le> A_ARRAY_CAPACITY a"

definition items :: "'v aarray \<Rightarrow> 'v list" where
  "items a = take (A_ARRAY_LEN a) (A_ARRAY_A a)"

text \<open>An array with the given items.\<close>

definition is_array :: "'v list \<Rightarrow> 'v aarray \<Rightarrow> bool" where
  "is_array xs a \<longleftrightarrow> wf_array a \<and> items a = xs"

lemma length_items [simp]: "wf_array a \<Longrightarrow> length (items a) = A_ARRAY_LEN a"
  by (simp add: items_def wf_array_def)

lemma is_arrayD:
  "is_array xs a \<Longrightarrow> wf_array a" "is_array xs a \<Longrightarrow> items a = xs" "is_array xs a \<Longrightarrow> A_ARRAY_LEN a = length xs"
  "is_array xs a \<Longrightarrow> length (A_ARRAY_A a) = A_ARRAY_CAPACITY a" "is_array xs a \<Longrightarrow> length xs \<le> A_ARRAY_CAPACITY a"
  "is_array xs a \<Longrightarrow> take (length xs) (A_ARRAY_A a) = xs"
  by (auto simp: is_array_def wf_array_def items_def)

lemma is_arrayI:
  "length (A_ARRAY_A a) = A_ARRAY_CAPACITY a \<Longrightarrow> A_ARRAY_LEN a = length xs \<Longrightarrow> length xs \<le> A_ARRAY_CAPACITY a \<Longrightarrow>
   take (length xs) (A_ARRAY_A a) = xs \<Longrightarrow> is_array xs a"
  by (simp add: is_array_def wf_array_def items_def)

lemma is_array_nth: "is_array xs a \<Longrightarrow> i < length xs \<Longrightarrow> A_ARRAY_A a ! i = xs ! i"
  by (metis is_arrayD(6) nth_take)

text \<open>Runs in which no allocation fails: the reply and the array satisfy a property.\<close>

definition runsA :: "('v, 'b) array_op \<Rightarrow> 'v aarray \<Rightarrow> (aerror + 'b \<Rightarrow> 'v aarray \<Rightarrow> bool) \<Rightarrow> bool" where
  "runsA f a P \<longleftrightarrow> (\<forall>t. mem_ok t \<longrightarrow> (\<exists>r a' t'. f a t = (r, a', t') \<and> P r a' \<and> mem_ok t'))"

definition returnsA :: "('v, 'b) array_op \<Rightarrow> 'v aarray \<Rightarrow> ('b \<Rightarrow> 'v aarray \<Rightarrow> bool) \<Rightarrow> bool" where
  "returnsA f a P \<longleftrightarrow> runsA f a (\<lambda>r a'. \<exists>x. r = Inr x \<and> P x a')"

lemma runsA_retA: "P (Inr x) a \<Longrightarrow> runsA (retA x) a P"
  by (simp add: runsA_def retA_def)

lemma runsA_readA: "P (f a) a \<Longrightarrow> runsA (readA f) a P"
  by (simp add: runsA_def readA_def)

lemma runsA_setA: "P (Inr ()) (f a) \<Longrightarrow> runsA (setA f) a P"
  by (simp add: runsA_def setA_def)

lemma runsA_thenA:
  assumes f: "returnsA f a P" and g: "\<And>x a'. P x a' \<Longrightarrow> runsA (g x) a' R"
  shows "runsA (thenA f g) a R"
  unfolding runsA_def
proof (intro allI impI)
  fix t assume "mem_ok t"
  then obtain x a' t' where x: "f a t = (Inr x, a', t')" "P x a'" "mem_ok t'"
    using f unfolding returnsA_def runsA_def by metis
  then have "\<exists>r b t''. g x a' t' = (r, b, t'') \<and> R r b \<and> mem_ok t''" using g unfolding runsA_def by blast
  then show "\<exists>r b t''. thenA f g a t = (r, b, t'') \<and> R r b \<and> mem_ok t''" using x by (simp add: thenA_def)
qed

lemma runsA_first:
  assumes "runsA f a (\<lambda>r a'. \<exists>e. r = Inl e \<and> R (Inl e) a')"
  shows "runsA (thenA f g) a R"
  unfolding runsA_def
proof (intro allI impI)
  fix t assume "mem_ok t"
  then obtain e a' t' where "f a t = (Inl e, a', t')" "R (Inl e) a'" "mem_ok t'"
    using assms unfolding runsA_def by metis
  then show "\<exists>r b t''. thenA f g a t = (r, b, t'') \<and> R r b \<and> mem_ok t''" by (simp add: thenA_def)
qed

lemma returnsA_thenA:
  "returnsA f a P \<Longrightarrow> (\<And>x a'. P x a' \<Longrightarrow> returnsA (g x) a' R) \<Longrightarrow> returnsA (thenA f g) a R"
  using runsA_thenA [of f a P g "\<lambda>r a'. \<exists>x. r = Inr x \<and> R x a'"] by (simp add: returnsA_def)

text \<open>The same, from the end of an operation to its start.\<close>

lemma wpA_thenA: "returnsA f a (\<lambda>x a'. returnsA (g x) a' R) \<Longrightarrow> returnsA (thenA f g) a R"
  by (rule returnsA_thenA)

lemma wpA_runs: "returnsA f a (\<lambda>x a'. runsA (g x) a' R) \<Longrightarrow> runsA (thenA f g) a R"
  by (rule runsA_thenA)

lemma returnsA_retA: "P x a \<Longrightarrow> returnsA (retA x) a P"
  by (simp add: returnsA_def runsA_retA)

lemma returnsA_readA: "f a = Inr x \<Longrightarrow> P x a \<Longrightarrow> returnsA (readA f) a P"
  by (simp add: returnsA_def runsA_readA)

lemma returnsA_setA: "P () (f a) \<Longrightarrow> returnsA (setA f) a P"
  by (simp add: returnsA_def runsA_setA)

lemma mem_ok_any: "list_all any_alloc (allocs t)"
  by (simp add: any_alloc_def list_all_iff)

lemma meets_mem_ok:
  assumes "meets any_alloc m P" "mem_ok t"
  shows "\<exists>x t'. m t = (Inr x, t') \<and> P x \<and> mem_ok t'"
proof -
  obtain x t' where x: "m t = (Inr x, t')" "P x"
    using meets_returns [OF assms(1) mem_ok_any, of t] assms(2) unfolding mem_ok_def by blast
  have "set (allocs t') \<subseteq> set (allocs t)"
    using meetsD [OF assms(1) mem_ok_any, of t] x by (simp add: outcome_ok_def)
  then show ?thesis using x assms(2) by (auto simp: mem_ok_def)
qed

lemma returnsA_liftA: "meets any_alloc m (\<lambda>x. P x a) \<Longrightarrow> returnsA (liftA m) a P"
  unfolding returnsA_def runsA_def liftA_def by (fastforce dest: meets_mem_ok)

lemma returnsA_mono: "returnsA f a P \<Longrightarrow> (\<And>x a'. P x a' \<Longrightarrow> R x a') \<Longrightarrow> returnsA f a R"
  unfolding returnsA_def runsA_def by metis

lemma returnsA_alloc: "(\<And>x. P x a) \<Longrightarrow> returnsA (liftA next_alloc) a P"
  by (rule returnsA_liftA) (rule meets_mono [OF meets_next_alloc], simp)

section \<open>Cells\<close>

lemma meets_fix_store: "i < length xs \<Longrightarrow> meets Q (fix_store xs i v) (\<lambda>ys. ys = xs[i := v])"
  unfolding fix_store_def by (auto intro!: meets_any_alloc_then meets_ret)

lemma meets_AMakeFixArray: "meets Q (AMakeFixArray n v) (\<lambda>ys. ys = replicate n v)"
  unfolding AMakeFixArray_def by (auto intro!: meets_any_alloc_then meets_ret)

lemma returnsA_store:
  assumes "i < length (A_ARRAY_A a)" "P () (a\<lparr>A_ARRAY_A := (A_ARRAY_A a)[i := v]\<rparr>)"
  shows "returnsA (ASetFixArrayItem i v) a P"
  unfolding returnsA_def runsA_def
proof (intro allI impI)
  fix t assume "mem_ok t"
  then obtain t' where "fix_store (A_ARRAY_A a) i v t = (Inr ((A_ARRAY_A a)[i := v]), t')" "mem_ok t'"
    using meets_mem_ok [OF meets_fix_store [OF assms(1)]] by blast
  then show "\<exists>r a' t'. ASetFixArrayItem i v a t = (r, a', t') \<and> (\<exists>x. r = Inr x \<and> P x a') \<and> mem_ok t'"
    using assms(2) by (simp add: ASetFixArrayItem_def)
qed

lemma returnsA_item: "i < length (A_ARRAY_A a) \<Longrightarrow> P (A_ARRAY_A a ! i) a \<Longrightarrow> returnsA (item_at i) a P"
  unfolding item_at_def by (rule returnsA_readA) (auto simp: AFixArrayItem_def)

lemma meets_copy_cells:
  "n \<le> length src \<Longrightarrow> n \<le> length dst \<Longrightarrow> meets Q (copy_cells n src dst) (\<lambda>r. r = take n src @ drop n dst)"
proof (induction n)
  case (Suc n)
  then have IH: "meets Q (copy_cells n src dst) (\<lambda>r. r = take n src @ drop n dst)" by simp
  have store: "meets Q (fix_store (take n src @ drop n dst) n (src ! n)) (\<lambda>r. r = take (Suc n) src @ drop (Suc n) dst)"
  proof (rule meets_mono [OF meets_fix_store])
    show "n < length (take n src @ drop n dst)" using Suc.prems by simp
    have "drop n dst = dst ! n # drop (Suc n) dst" using Suc.prems by (simp add: Cons_nth_drop_Suc)
    then show "\<And>r. r = (take n src @ drop n dst)[n := src ! n] \<Longrightarrow> r = take (Suc n) src @ drop (Suc n) dst"
      using Suc.prems by (simp add: list_update_append take_Suc_conv_app_nth)
  qed
  show ?case using Suc.prems store
    by (auto simp: AFixArrayItem_def bind_ret intro!: meets_bind [OF IH])
qed (auto intro: meets_ret)

lemma returnsA_make: "P (replicate n v) a \<Longrightarrow> returnsA (liftA (AMakeFixArray n v)) a P"
  by (rule returnsA_liftA, rule meets_mono [OF meets_AMakeFixArray]) simp

section \<open>Growth\<close>

lemma grown_capacity_ge: "cap + amount \<le> grown_capacity cap amount" "cap < grown_capacity cap amount"
  by (auto simp: grown_capacity_def Let_def max_def)

lemma returnsA_AResizeArray:
  assumes a: "is_array xs a"
  shows "returnsA (AResizeArray nil amount) a
    (\<lambda>_ a'. is_array xs a' \<and> A_ARRAY_CAPACITY a' = grown_capacity (A_ARRAY_CAPACITY a) amount)"
proof -
  let ?c = "A_ARRAY_CAPACITY a" and ?A = "A_ARRAY_A a"
  let ?n = "grown_capacity ?c amount"
  let ?new = "?A @ replicate (?n - ?c) nil"
  note ge = grown_capacity_ge [of ?c amount]
  note len = is_arrayD(4) [OF a]
  have copy: "meets any_alloc (copy_cells ?c ?A (replicate ?n nil)) (\<lambda>r. r = ?new)"
    using meets_copy_cells [of ?c ?A "replicate ?n nil"] ge len by simp
  have final: "is_array xs (a\<lparr>A_ARRAY_CAPACITY := ?n, A_ARRAY_A := ?new\<rparr>)"
    using is_arrayD [OF a] ge by (intro is_arrayI) simp_all
  show ?thesis
    unfolding AResizeArray_def Let_def using final
    by (auto intro!: wpA_thenA returnsA_alloc returnsA_readA returnsA_make returnsA_setA
        returnsA_liftA [OF meets_mono [OF copy]])
qed

lemmas wpA = wpA_thenA returnsA_alloc returnsA_readA returnsA_make returnsA_setA returnsA_retA

lemma returnsA_room:
  assumes "is_array xs a"
  shows "returnsA (if length xs = A_ARRAY_CAPACITY a then AResizeArray nil 0 else retA ()) a
    (\<lambda>_ a'. is_array xs a' \<and> length xs < A_ARRAY_CAPACITY a')"
proof (cases "length xs = A_ARRAY_CAPACITY a")
  case True
  then show ?thesis
    using returnsA_mono [OF returnsA_AResizeArray [OF assms, of nil 0]] grown_capacity_ge(2) [of "A_ARRAY_CAPACITY a" 0]
    by auto
next
  case False
  then show ?thesis using assms is_arrayD(5) [OF assms] by (auto intro!: returnsA_retA)
qed

section \<open>Adding items\<close>

lemma is_array_append:
  assumes "is_array xs a" "length xs < A_ARRAY_CAPACITY a"
  shows "is_array (xs @ [v]) (a\<lparr>A_ARRAY_A := (A_ARRAY_A a)[length xs := v], A_ARRAY_LEN := Suc (length xs)\<rparr>)"
  using is_arrayD [OF assms(1)] assms(2) by (intro is_arrayI) (simp_all add: take_Suc_conv_app_nth)

lemma returnsA_AArrayAppend:
  assumes "is_array xs a"
  shows "returnsA (AArrayAppend nil v) a (\<lambda>_ a'. is_array (xs @ [v]) a')"
proof -
  have fill: "returnsA (thenA (ASetFixArrayItem (length xs) v) (\<lambda>_. setA (\<lambda>a. a\<lparr>A_ARRAY_LEN := length xs + 1\<rparr>))) b
      (\<lambda>_ a'. is_array (xs @ [v]) a')" if "is_array xs b \<and> length xs < A_ARRAY_CAPACITY b" for b
    using is_array_append [of xs b v] is_arrayD(4) [of xs b] that
    by (intro wpA_thenA returnsA_store returnsA_setA) auto
  show ?thesis
    unfolding AArrayAppend_def
    by (rule wpA_thenA, rule returnsA_readA [OF refl], simp only: prod.case is_arrayD(3) [OF assms],
        rule returnsA_thenA [OF returnsA_room [OF assms]]) (rule fill)
qed

lemma returnsA_AAppendArray:
  assumes "is_array xs a"
  shows "returnsA (AAppendArray nil v) a (\<lambda>_ a'. is_array (xs @ [v]) a')"
proof -
  have fill: "returnsA (thenA (setA (\<lambda>a. a\<lparr>A_ARRAY_LEN := length xs + 1\<rparr>)) (\<lambda>_. ASetFixArrayItem (length xs) v)) b
      (\<lambda>_ a'. is_array (xs @ [v]) a')" if "is_array xs b \<and> length xs < A_ARRAY_CAPACITY b" for b
    using is_arrayD [of xs b] that
    by (intro wpA_thenA returnsA_store returnsA_setA is_arrayI) (simp_all add: take_Suc_conv_app_nth)
  have room: "returnsA (if length xs = A_ARRAY_CAPACITY a then thenA (liftA next_alloc) (\<lambda>_. AResizeArray nil 0) else retA ()) a
      (\<lambda>_ a'. is_array xs a' \<and> length xs < A_ARRAY_CAPACITY a')"
    using returnsA_room [OF assms, of nil] by (auto split: if_splits intro!: wpA_thenA returnsA_alloc)
  show ?thesis
    unfolding AAppendArray_def
    by (rule wpA_thenA, rule returnsA_readA [OF refl], simp only: prod.case is_arrayD(3) [OF assms],
        rule returnsA_thenA [OF room]) (rule fill)
qed

lemma returnsA_append_items:
  "is_array xs a \<Longrightarrow> returnsA (append_items nil (map Inr ys)) a (\<lambda>_ a'. is_array (xs @ ys) a')"
proof (induction ys arbitrary: xs a)
  case (Cons y ys)
  have "returnsA (append_items nil (map Inr ys)) b (\<lambda>_ a'. is_array ((xs @ [y]) @ ys) a')" if "is_array (xs @ [y]) b" for b
    using that by (rule Cons.IH)
  then show ?case
    by (auto intro!: wpA_thenA returnsA_readA returnsA_mono [OF returnsA_AAppendArray [OF Cons.prems]])
qed (auto intro: returnsA_retA)

lemma meets_AArrayInitialize: "meets Q (AArrayInitialize nil) (is_array [])"
  unfolding AArrayInitialize_def
  by (rule meets_bind [OF meets_AMakeFixArray]) (auto intro!: meets_any_alloc_then meets_ret is_arrayI)

text \<open>The items of the argument of \<^verbatim>\<open>extend\<close>.\<close>

fun arg_items :: "'v list \<Rightarrow> 'v extend_arg \<Rightarrow> 'v list \<Rightarrow> bool" where
  "arg_items xs Itself ys = (ys = xs)"
| "arg_items xs (OtherArray b) ys = is_array ys b"
| "arg_items xs (Sequence zs) ys = (zs = map Inr ys)"

lemma returnsA_extend_loop:
  assumes "is_array xs a" "arg_items xs arg ys" "length xs + length ys \<le> A_ARRAY_CAPACITY a" "n \<le> length ys"
  shows "returnsA (extend_loop arg (length xs) n) a
    (\<lambda>_ a'. \<exists>B. a' = a\<lparr>A_ARRAY_A := B\<rparr> \<and> length B = A_ARRAY_CAPACITY a \<and> take (length xs + n) B = xs @ take n ys)"
  using assms(4)
proof (induction n)
  case 0
  then show ?case using is_arrayD [OF assms(1)]
    by (auto intro!: returnsA_retA exI [of _ "A_ARRAY_A a"])
next
  case (Suc n)
  have step: "returnsA (thenA (arg_item arg n) (\<lambda>v. ASetFixArrayItem (length xs + n) v)) b
      (\<lambda>_ a'. \<exists>B. a' = a\<lparr>A_ARRAY_A := B\<rparr> \<and> length B = A_ARRAY_CAPACITY a \<and> take (length xs + Suc n) B = xs @ take (Suc n) ys)"
    if b: "b = a\<lparr>A_ARRAY_A := B\<rparr>" "length B = A_ARRAY_CAPACITY a" "take (length xs + n) B = xs @ take n ys" for b B
  proof -
    have item: "returnsA (arg_item arg n) b (\<lambda>v b'. v = ys ! n \<and> b' = b)"
    proof (cases arg)
      case Itself
      then have "B ! n = ys ! n"
        using assms(2) Suc.prems b(3) by (metis arg_items.simps(1) nth_append nth_take Suc_le_lessD trans_less_add1)
      then show ?thesis using Itself b assms Suc.prems by (auto simp: arg_item_def intro!: returnsA_item)
    next
      case (OtherArray c)
      then show ?thesis using assms(2) Suc.prems is_array_nth [of ys c n] is_arrayD(4,5) [of ys c]
        by (auto simp: arg_item_def AFixArrayItem_def intro!: returnsA_readA)
    next
      case (Sequence zs)
      then show ?thesis using assms(2) Suc.prems by (auto simp: arg_item_def intro!: returnsA_readA)
    qed
    have "take (length xs + Suc n) (B[length xs + n := ys ! n]) = xs @ take (Suc n) ys"
      using b(2,3) Suc.prems assms(3) by (simp add: take_Suc_conv_app_nth)
    then show ?thesis
      using b assms(3) Suc.prems
      by (intro returnsA_thenA [OF item]) (auto intro!: returnsA_store exI [of _ "B[length xs + n := ys ! n]"])
  qed
  show ?case using Suc step by (auto intro!: returnsA_thenA [OF Suc.IH])
qed

lemma returnsA_AArrayExtend:
  assumes a: "is_array xs a" and arg: "arg_items xs arg ys"
  shows "returnsA (AArrayExtend nil arg) a (\<lambda>_ a'. is_array (xs @ ys) a')"
proof -
  have len: "returnsA (arg_len arg) a (\<lambda>n b. n = length ys \<and> b = a)"
    using arg a by (cases arg) (auto simp: arg_len_def is_arrayD(3) intro!: returnsA_readA returnsA_retA)
  have room: "returnsA (if int (length ys) > int (A_ARRAY_CAPACITY a) - int (length xs) then AResizeArray nil (length ys) else retA ()) a
      (\<lambda>_ b. is_array xs b \<and> length xs + length ys \<le> A_ARRAY_CAPACITY b)"
  proof (cases "int (length ys) > int (A_ARRAY_CAPACITY a) - int (length xs)")
    case True
    then show ?thesis
      using is_arrayD(5) [OF a] grown_capacity_ge(1) [of "A_ARRAY_CAPACITY a" "length ys"]
      by (auto intro!: returnsA_mono [OF returnsA_AResizeArray [OF a]])
  next
    case False
    then show ?thesis using a by (auto intro!: returnsA_retA)
  qed
  have fill: "returnsA (thenA (extend_loop arg (length xs) (length ys)) (\<lambda>_. setA (\<lambda>a. a\<lparr>A_ARRAY_LEN := length xs + length ys\<rparr>))) b
      (\<lambda>_ a'. is_array (xs @ ys) a')" if "is_array xs b \<and> length xs + length ys \<le> A_ARRAY_CAPACITY b" for b
    using that
    by (auto intro!: returnsA_thenA [OF returnsA_extend_loop [of xs b arg ys "length ys"]] returnsA_setA is_arrayI arg)
  show ?thesis
    unfolding AArrayExtend_def
    by (rule wpA_thenA, rule returnsA_readA [OF refl], simp only: prod.case is_arrayD(3) [OF a],
        rule returnsA_thenA [OF len], clarify, rule returnsA_thenA [OF room]) (rule fill)
qed

end
