(* ===== verification/Array_Index_Lemmas.thy ===== *)
theory Array_Index_Lemmas
  imports Array_Lemmas
begin

text \<open>Arrays: items by index, insertion, removal and searching.\<close>

section \<open>Indices\<close>

text \<open>The position that an index stands for, if it is in the array.\<close>

definition position :: "int \<Rightarrow> nat \<Rightarrow> nat option" where
  "position i n = (let j = (if i < 0 then i + int n else i) in if 0 \<le> j \<and> j < int n then Some (nat j) else None)"

lemma uint_tagged: "w AND 3 = 0 \<Longrightarrow> uint w = (4 * short_val w) mod 18446744073709551616"
proof -
  assume "w AND 3 = 0"
  then have "sint w = 4 * short_val w" by (rule tagged_sint)
  moreover have "uint w = sint w mod 18446744073709551616"
    using uint_sint [of w] by (simp add: take_bit_eq_mod)
  ultimately show ?thesis by simp
qed

lemma uint_len: "n < 2305843009213693952 \<Longrightarrow> uint (AIntToValue (of_nat n)) = 4 * int n"
proof -
  assume "n < 2305843009213693952"
  then have "uint (AIntToValue (of_int (int n)) :: 64 word) = 4 * int n"
    unfolding AIntToValue_of_int uint_of_int_64 by simp
  then show ?thesis by simp
qed

lemma sint_small_64: "0 \<le> k \<Longrightarrow> k < 9223372036854775808 \<Longrightarrow> sint (of_int k :: 64 word) = k"
  unfolding signed_of_int of_int_eq_id id_apply by (rule signed_take_bit_int_eq_self) simp_all

lemma checked_index_short:
  assumes w: "w AND 3 = 0" and n: "n < 2305843009213693952"
  defines "len \<equiv> AIntToValue (of_nat n)"
  shows "(let i = (if w \<ge> len then ANormIndexV w len else w)
          in if i \<ge> len then Inl IndexError else Inr (unat (AValueToInt i))) =
    (case position (short_val w) n of None \<Rightarrow> Inl IndexError | Some j \<Rightarrow> Inr j)"
proof -
  let ?k = "short_val w"
  note b = short_val_bounds [of w]
  have ni: "int n < 2305843009213693952" using n by simp
  have ul: "uint len = 4 * int n" unfolding len_def by (rule uint_len [OF n])
  have uw: "uint w = (if ?k < 0 then 4 * ?k + 18446744073709551616 else 4 * ?k)"
  proof (cases "?k < 0")
    case True
    then have "4 * ?k mod 18446744073709551616 = (4 * ?k + 18446744073709551616) mod 18446744073709551616" by simp
    also have "\<dots> = 4 * ?k + 18446744073709551616" using True b by (intro mod_pos_pos_trivial) linarith+
    finally show ?thesis using uint_tagged [OF w] True by simp
  next
    case False
    then show ?thesis using uint_tagged [OF w] b by (simp add: mod_pos_pos_trivial)
  qed
  have wrap: "(4 * m + 18446744073709551616) mod 18446744073709551616 = 4 * m + 18446744073709551616"
    if "m < 0" "- 2305843009213693952 \<le> m" for m :: int
    using that by (intro mod_pos_pos_trivial) simp_all
  have val: "unat (AValueToInt v) = nat k" if "v = of_int (4 * k)" "0 \<le> k" "k < 2305843009213693952" for v :: avalue and k
  proof -
    have "sint v = 4 * k" using that sint_small_64 [of "4 * k"] by simp
    then have "AValueToInt v = of_int k" by (simp add: AValueToInt_of_int short_val_def)
    then show ?thesis using that(2,3) uint_of_int_64 [of k] by (simp add: unat_eq_nat_uint)
  qed
  have wk: "w = of_int (4 * ?k)" using w by (rule tagged_of_int)
  show ?thesis
  proof (cases "?k < 0")
    case neg: True
    have sum: "len + w = of_int (4 * (int n + ?k))"
      unfolding len_def using wk AIntToValue_of_int [of "int n"] by simp
    have ge: "w \<ge> len" using uw ul neg b n by (simp add: word_le_def)
    have i: "ANormIndexV w len = len + w" using tagged_sint [OF w] neg by (simp add: ANormIndexV_def)
    show ?thesis
    proof (cases "0 \<le> int n + ?k")
      case True
      have "uint (len + w) = 4 * (int n + ?k)" unfolding sum uint_of_int_64 using True neg n by (simp add: mod_pos_pos_trivial)
      then have "\<not> len + w \<ge> len" using ul neg by (simp add: word_le_def)
      then show ?thesis using ge i True neg val [OF sum] n by (simp add: position_def Let_def add.commute)
    next
      case False
      have "uint (len + w) = (4 * (int n + ?k) + 18446744073709551616) mod 18446744073709551616"
        unfolding sum uint_of_int_64 by simp
      also have "\<dots> = 4 * (int n + ?k) + 18446744073709551616"
        using wrap [of "int n + ?k"] False b(1) by simp
      finally have "len + w \<ge> len" using ul b n by (simp add: word_le_def)
      then show ?thesis using ge i False neg by (simp add: position_def Let_def add.commute)
    qed
  next
    case False
    have cmp: "w \<ge> len \<longleftrightarrow> int n \<le> ?k" using uw ul False by (simp add: word_le_def)
    have "ANormIndexV w len = w" using tagged_sint [OF w] False by (simp add: ANormIndexV_def)
    then show ?thesis using cmp False val [OF wk] b by (auto simp: position_def Let_def)
  qed
qed

text \<open>\<^verbatim>\<open>_get\<close> and \<^verbatim>\<open>_set\<close> with any normalised Int.\<close>

lemma long_outside: "norm_int (ALong li) \<Longrightarrow> n < 2305843009213693952 \<Longrightarrow> position (li_value li) n = None"
  by (auto simp: position_def Let_def fits_short_def)

lemma checked_index_value:
  assumes "is_array xs a" "norm_int index" "length xs < 2305843009213693952"
  shows "checked_index index a t =
    (case position (int_value index) (length xs) of None \<Rightarrow> Inl IndexError | Some j \<Rightarrow> Inr j, a, t)"
proof (cases index)
  case (AShort w)
  then show ?thesis
    using assms checked_index_short [of w "length xs"] is_arrayD(3) [OF assms(1)]
    by (simp add: checked_index_def readA_def short_val_def)
next
  case (ALong li)
  then show ?thesis using assms long_outside [of li "length xs"] by (simp add: checked_index_def readA_def)
qed

lemma position_less: "position i n = Some j \<Longrightarrow> j < n"
  by (auto simp: position_def Let_def split: if_splits)

lemma runsA_AArray_get:
  assumes "is_array xs a" "norm_int index" "length xs < 2305843009213693952"
  shows "runsA (AArray_get index) a
    (\<lambda>r a'. a' = a \<and> r = (case position (int_value index) (length xs) of None \<Rightarrow> Inl IndexError | Some j \<Rightarrow> Inr (xs ! j)))"
proof (cases "position (int_value index) (length xs)")
  case None
  then show ?thesis using checked_index_value [OF assms] by (simp add: runsA_def AArray_get_def thenA_def)
next
  case (Some j)
  then have "j < length xs" by (rule position_less)
  then show ?thesis
    using Some checked_index_value [OF assms] is_array_nth [OF assms(1)] is_arrayD(4,5) [OF assms(1)]
    by (simp add: runsA_def AArray_get_def thenA_def item_at_def readA_def AFixArrayItem_def)
qed

lemma runsA_AArray_set:
  assumes "is_array xs a" "norm_int index" "length xs < 2305843009213693952"
  shows "runsA (AArray_set index v) a
    (\<lambda>r a'. case position (int_value index) (length xs) of
       None \<Rightarrow> r = Inl IndexError \<and> is_array xs a' | Some j \<Rightarrow> r = Inr () \<and> is_array (xs[j := v]) a')"
proof (cases "position (int_value index) (length xs)")
  case None
  then show ?thesis using checked_index_value [OF assms] assms(1) by (simp add: runsA_def AArray_set_def thenA_def)
next
  case (Some j)
  then have j: "j < length xs" by (rule position_less)
  have "take (length xs) ((A_ARRAY_A a)[j := v]) = xs[j := v]" using is_arrayD(6) [OF assms(1)] by (metis take_update_swap)
  then have "returnsA (ASetFixArrayItem j v) a (\<lambda>_ a'. is_array (xs[j := v]) a')"
    using j is_arrayD [OF assms(1)] by (intro returnsA_store is_arrayI) simp_all
  then show ?thesis
    using Some checked_index_value [OF assms] by (auto simp: returnsA_def runsA_def AArray_set_def thenA_def)
qed

end
