(* ===== verification/Array_Update_Lemmas.thy ===== *)
theory Array_Update_Lemmas
  imports Array_Index_Lemmas
begin

text \<open>Arrays: insertion, removal and searching.\<close>

section \<open>Shifting cells\<close>

lemma returnsA_shift_up:
  assumes "i + k < length B"
  shows "returnsA (shift_up i k) (a\<lparr>A_ARRAY_A := B\<rparr>)
    (\<lambda>_ a'. a' = a\<lparr>A_ARRAY_A := take (Suc i) B @ take k (drop i B) @ drop (Suc (i + k)) B\<rparr>)"
  using assms
proof (induction k arbitrary: B)
  case 0
  then show ?case by (auto intro!: returnsA_retA)
next
  case (Suc k)
  let ?C = "B[i + k + 1 := B ! (i + k)]"
  have "take (Suc i) ?C @ take k (drop i ?C) @ drop (Suc (i + k)) ?C =
      take (Suc i) B @ take (Suc k) (drop i B) @ drop (Suc (i + Suc k)) B"
  proof -
    have c: "?C = take (Suc (i + k)) B @ B ! (i + k) # drop (Suc (i + Suc k)) B"
      using Suc.prems by (simp add: upd_conv_take_nth_drop)
    have d: "drop (Suc (i + k)) ?C = B ! (i + k) # drop (Suc (i + Suc k)) B" unfolding c using Suc.prems by simp
    have "take (Suc i) ?C = take (Suc i) B" "take k (drop i ?C) = take k (drop i B)" by (simp_all add: drop_update_swap)
    moreover have "take (Suc k) (drop i B) = take k (drop i B) @ [B ! (i + k)]"
      using Suc.prems by (simp add: take_Suc_conv_app_nth)
    ultimately show ?thesis unfolding d by simp
  qed
  then have rest: "returnsA (shift_up i k) (a\<lparr>A_ARRAY_A := ?C\<rparr>)
      (\<lambda>_ a'. a' = a\<lparr>A_ARRAY_A := take (Suc i) B @ take (Suc k) (drop i B) @ drop (Suc (i + Suc k)) B\<rparr>)"
    using Suc.IH [of ?C] Suc.prems by simp
  show ?case using Suc.prems rest by (auto intro!: wpA_thenA returnsA_item returnsA_store)
qed

lemma returnsA_shift_down:
  assumes "j + k < length B"
  shows "returnsA (shift_down j k) (a\<lparr>A_ARRAY_A := B\<rparr>)
    (\<lambda>_ a'. a' = a\<lparr>A_ARRAY_A := take j B @ take k (drop (Suc j) B) @ drop (j + k) B\<rparr>)"
  using assms
proof (induction k arbitrary: j B)
  case 0
  then show ?case by (auto intro!: returnsA_retA)
next
  case (Suc k)
  let ?C = "B[j := B ! (j + 1)]"
  have eq: "take (j + 1) ?C @ take k (drop (Suc (j + 1)) ?C) @ drop (j + 1 + k) ?C =
      take j B @ take (Suc k) (drop (Suc j) B) @ drop (j + Suc k) B"
  proof -
    have "drop (Suc j) B = B ! Suc j # drop (Suc (Suc j)) B" using Suc.prems by (simp add: Cons_nth_drop_Suc)
    moreover have "take (Suc j) ?C = take j B @ [B ! Suc j]" using Suc.prems by (simp add: take_Suc_conv_app_nth)
    ultimately show ?thesis by simp
  qed
  have len: "j + 1 + k < length ?C" using Suc.prems by simp
  have rest: "returnsA (shift_down (j + 1) k) (a\<lparr>A_ARRAY_A := ?C\<rparr>)
      (\<lambda>_ a'. a' = a\<lparr>A_ARRAY_A := take j B @ take (Suc k) (drop (Suc j) B) @ drop (j + Suc k) B\<rparr>)"
    using Suc.IH [OF len] unfolding eq .
  show ?case using Suc.prems rest by (auto intro!: wpA_thenA returnsA_item returnsA_store)
qed

section \<open>Insertion and removal by index\<close>

lemma get_index:
  assumes "norm_int index" "in_int64 (int_value index)"
  shows "\<exists>w. AGetInt64 index = ret w \<and> sint w = int_value index"
  using AGetInt64_norm [OF assms(1)] assms(2)
  by (auto simp: in_int64_def signed_of_int signed_take_bit_int_eq_self)

definition insert_position :: "int \<Rightarrow> nat \<Rightarrow> nat option" where
  "insert_position i n = (let j = (if i < 0 then i + int n else i) in if 0 \<le> j \<and> j \<le> int n then Some (nat j) else None)"

lemma returnsA_insert:
  assumes a: "is_array xs a" "length xs < A_ARRAY_CAPACITY a" and i: "i \<le> length xs"
  shows "returnsA (thenA (shift_up i (length xs - i)) (\<lambda>_. thenA (ASetFixArrayItem i v) (\<lambda>_.
      setA (\<lambda>a. a\<lparr>A_ARRAY_LEN := A_ARRAY_LEN a + 1\<rparr>)))) a (\<lambda>_ a'. is_array (take i xs @ v # drop i xs) a')"
proof -
  let ?B = "A_ARRAY_A a" and ?n = "length xs"
  let ?C = "take (Suc i) ?B @ take (?n - i) (drop i ?B) @ drop (Suc ?n) ?B"
  note d = is_arrayD [OF a(1)]
  have shift: "returnsA (shift_up i (?n - i)) a (\<lambda>_ a'. a' = a\<lparr>A_ARRAY_A := ?C\<rparr>)"
    using returnsA_shift_up [of i "?n - i" ?B a] i a(2) d by simp
  have xs: "take i ?B = take i xs" "take (?n - i) (drop i ?B) = drop i xs"
    using d(6) i by (metis min_absorb1 take_take, metis drop_take)
  have lenC: "length ?C = A_ARRAY_CAPACITY a" using d i a(2) by simp
  have "take (Suc ?n) (?C[i := v]) = take i xs @ v # drop i xs"
  proof -
    have "take (Suc i) ?B = take i xs @ [?B ! i]" using i a(2) d xs(1) by (simp add: take_Suc_conv_app_nth)
    then have C: "?C = take i xs @ ?B ! i # drop i xs @ drop (Suc ?n) ?B" using xs(2) by simp
    have "?C[i := v] = take i xs @ v # drop i xs @ drop (Suc ?n) ?B"
      unfolding C using i by (simp add: list_update_append min_absorb2)
    then show ?thesis using i by (simp add: min_absorb2 Suc_diff_le)
  qed
  then have "is_array (take i xs @ v # drop i xs) (a\<lparr>A_ARRAY_A := ?C[i := v], A_ARRAY_LEN := Suc ?n\<rparr>)"
    using d i a(2) lenC by (intro is_arrayI) simp_all
  then show ?thesis
    using lenC i a(2) d(3) by (intro returnsA_thenA [OF shift] wpA_thenA) (auto intro!: returnsA_store returnsA_setA)
qed

lemma runsA_AArrayInsertAt:
  assumes a: "is_array xs a" and v: "norm_int index" "in_int64 (int_value index)"
  shows "runsA (AArrayInsertAt nil index v) a
    (\<lambda>r a'. case insert_position (int_value index) (length xs) of
       None \<Rightarrow> r = Inl IndexError \<and> is_array xs a'
     | Some i \<Rightarrow> r = Inr () \<and> is_array (take i xs @ v # drop i xs) a')"
proof -
  let ?n = "length xs" and ?k = "int_value index"
  obtain w where w: "AGetInt64 index = ret w" "sint w = ?k" using get_index [OF v] by blast
  let ?i = "if ?k < 0 \<or> ?k > int ?n then ANormIndex ?k (int ?n) else ?k"
  have pos: "insert_position ?k ?n = (if ?i < 0 \<or> ?i > int ?n then None else Some (nat ?i))"
    by (auto simp: insert_position_def Let_def ANormIndex_def)
  have run: "runsA (if ?i < 0 \<or> ?i > int ?n then readA (\<lambda>_. Inl IndexError)
      else thenA (if ?n = A_ARRAY_CAPACITY a then AResizeArray nil 0 else retA ()) (\<lambda>_.
           thenA (shift_up (nat ?i) (?n - nat ?i)) (\<lambda>_.
           thenA (ASetFixArrayItem (nat ?i) v) (\<lambda>_. setA (\<lambda>a. a\<lparr>A_ARRAY_LEN := A_ARRAY_LEN a + 1\<rparr>))))) a
      (\<lambda>r a'. case insert_position ?k ?n of None \<Rightarrow> r = Inl IndexError \<and> is_array xs a'
        | Some i \<Rightarrow> r = Inr () \<and> is_array (take i xs @ v # drop i xs) a')"
  proof (cases "?i < 0 \<or> ?i > int ?n")
    case True
    then show ?thesis using a by (simp only: pos if_P) (simp add: runsA_readA)
  next
    case False
    define j where "j = nat ?i"
    have j: "j \<le> ?n" unfolding j_def using False by linarith
    show ?thesis
      unfolding if_not_P [OF False] pos option.case j_def [symmetric]
      by (rule runsA_thenA [OF returnsA_room [OF a]], elim conjE)
        (insert returnsA_insert [OF _ _ j, of _ v], auto simp: returnsA_def runsA_def)
  qed
  show ?thesis
    unfolding AArrayInsertAt_def Let_def
    by (rule wpA_runs, rule returnsA_liftA, simp only: w, rule meets_ret,
        rule wpA_runs, rule returnsA_readA [OF refl], simp only: prod.case is_arrayD(3) [OF a] w(2))
      (rule run)
qed

lemma returnsA_remove:
  assumes a: "is_array xs a" and i: "i < length xs"
  shows "returnsA (thenA (item_at i) (\<lambda>v. thenA (shift_down i (length xs - 1 - i)) (\<lambda>_.
      thenA (ASetFixArrayItem (length xs - 1) zero) (\<lambda>_.
      thenA (setA (\<lambda>a. a\<lparr>A_ARRAY_LEN := A_ARRAY_LEN a - 1\<rparr>)) (\<lambda>_. retA v))))) a
    (\<lambda>v a'. v = xs ! i \<and> is_array (take i xs @ drop (Suc i) xs) a')"
proof -
  let ?B = "A_ARRAY_A a" and ?n = "length xs"
  let ?C = "take i ?B @ take (?n - 1 - i) (drop (Suc i) ?B) @ drop (?n - 1) ?B"
  note d = is_arrayD [OF a]
  have shift: "returnsA (shift_down i (?n - 1 - i)) a (\<lambda>_ a'. a' = a\<lparr>A_ARRAY_A := ?C\<rparr>)"
    using returnsA_shift_down [of i "?n - 1 - i" ?B a] i d by simp
  have B: "take ?n ?B = xs" by (rule d(6))
  have "take i (take ?n ?B) = take i ?B" using i by (simp add: min_absorb1)
  moreover have "drop (Suc i) (take ?n ?B) = take (?n - 1 - i) (drop (Suc i) ?B)" by (simp add: drop_take)
  ultimately have xs: "take i ?B = take i xs" "take (?n - 1 - i) (drop (Suc i) ?B) = drop (Suc i) xs"
    unfolding B by simp_all
  have lenC: "length ?C = A_ARRAY_CAPACITY a" using d i by simp
  have "take (?n - 1) (?C[?n - 1 := zero]) = take i xs @ drop (Suc i) xs" unfolding xs using i by (simp add: min_absorb2)
  then have "is_array (take i xs @ drop (Suc i) xs) (a\<lparr>A_ARRAY_A := ?C[?n - 1 := zero], A_ARRAY_LEN := ?n - 1\<rparr>)"
    using d i lenC by (intro is_arrayI) (simp_all add: min_absorb2)
  then have last: "returnsA (thenA (ASetFixArrayItem (?n - 1) zero) (\<lambda>_.
      thenA (setA (\<lambda>a. a\<lparr>A_ARRAY_LEN := A_ARRAY_LEN a - 1\<rparr>)) (\<lambda>_. retA v))) (a\<lparr>A_ARRAY_A := ?C\<rparr>)
      (\<lambda>w a'. w = v \<and> is_array (take i xs @ drop (Suc i) xs) a')" for v
    using lenC i d(3,5) by (intro wpA_thenA returnsA_store returnsA_setA returnsA_retA) (simp_all del: length_append)
  have item: "returnsA (item_at i) a (\<lambda>v b. v = xs ! i \<and> b = a)"
    using d(4,5) i is_array_nth [OF a i] by (intro returnsA_item) simp_all
  show ?thesis
    by (rule returnsA_thenA [OF item], clarify, rule returnsA_thenA [OF shift], clarify, rule last)
qed

lemma runsA_AArrayRemoveAt:
  assumes a: "is_array xs a" and v: "norm_int index" "in_int64 (int_value index)"
  shows "runsA (AArrayRemoveAt zero index) a
    (\<lambda>r a'. case position (int_value index) (length xs) of
       None \<Rightarrow> r = Inl IndexError \<and> is_array xs a'
     | Some i \<Rightarrow> r = Inr (xs ! i) \<and> is_array (take i xs @ drop (Suc i) xs) a')"
proof -
  let ?n = "length xs" and ?k = "int_value index"
  obtain w where w: "AGetInt64 index = ret w" "sint w = ?k" using get_index [OF v] by blast
  let ?i = "if ?k \<ge> int ?n \<or> ?k < 0 then ANormIndex ?k (int ?n) else ?k"
  have pos: "position ?k ?n = (if ?i \<ge> int ?n \<or> ?i < 0 then None else Some (nat ?i))"
    by (auto simp: position_def Let_def ANormIndex_def)
  have run: "runsA (if ?i \<ge> int ?n \<or> ?i < 0 then readA (\<lambda>_. Inl IndexError)
      else thenA (item_at (nat ?i)) (\<lambda>v. thenA (shift_down (nat ?i) (?n - 1 - nat ?i)) (\<lambda>_.
        thenA (ASetFixArrayItem (?n - 1) zero) (\<lambda>_.
        thenA (setA (\<lambda>a. a\<lparr>A_ARRAY_LEN := A_ARRAY_LEN a - 1\<rparr>)) (\<lambda>_. retA v))))) a
      (\<lambda>r a'. case position ?k ?n of None \<Rightarrow> r = Inl IndexError \<and> is_array xs a'
        | Some i \<Rightarrow> r = Inr (xs ! i) \<and> is_array (take i xs @ drop (Suc i) xs) a')"
  proof (cases "?i \<ge> int ?n \<or> ?i < 0")
    case True
    then show ?thesis using a by (simp only: pos if_P) (simp add: runsA_readA)
  next
    case False
    define j where "j = nat ?i"
    have j: "j < ?n" unfolding j_def using False by linarith
    show ?thesis
      unfolding if_not_P [OF False] pos option.case j_def [symmetric]
      using returnsA_remove [OF a j, of zero] by (simp add: returnsA_def)
  qed
  show ?thesis
    unfolding AArrayRemoveAt_def Let_def
    by (rule wpA_runs, rule returnsA_liftA, simp only: w, rule meets_ret,
        rule wpA_runs, rule returnsA_readA [OF refl], simp only: is_arrayD(3) [OF a] w(2))
      (rule run)
qed

end
