(* ===== verification/Map_Refine.thy ===== *)
theory Map_Refine
  imports Hash_Map_Lemmas
begin

text \<open>
  Map objects refine finite maps: any sequence of method calls on a new map gives the
  replies of the same sequence on a finite map.  Int keys satisfy the contract of keys.
\<close>

section \<open>Int keys\<close>

text \<open>\<^verbatim>\<open>AStdHash\<close> on Int values.\<close>

fun AStdHash_Int :: "aint \<Rightarrow> aint" where
  "AStdHash_Int (AShort w) = AShort (w XOR AIntToValue (drop_bit 10 w))"
| "AStdHash_Int (ALong li) = AShort (ALongIntHashValue li)"

text \<open>\<^verbatim>\<open>AIsEq\<close> on Int values.\<close>

fun AIsEq_Int :: "aint \<Rightarrow> aint \<Rightarrow> bool" where
  "AIsEq_Int (AShort a) (AShort b) \<longleftrightarrow> a = b"
| "AIsEq_Int (ALong a) (ALong b) \<longleftrightarrow> ACompareLongInt a b = 0"
| "AIsEq_Int _ _ \<longleftrightarrow> False"

definition int_keys :: "aint keyops" where
  "int_keys = \<lparr>khash = (\<lambda>k. Inr (HInt (AStdHash_Int k))), keq = (\<lambda>a b. Inr (AIsEq_Int a b))\<rparr>"

lemma digs_val_inj: "length xs = length ys \<Longrightarrow> digs_val xs = digs_val ys \<Longrightarrow> xs = ys"
proof (induction xs ys rule: list_induct2)
  case (Cons x xs y ys)
  have e: "unat x + 4294967296 * digs_val xs = unat y + 4294967296 * digs_val ys" using Cons.prems by simp
  have lt: "unat x < 4294967296" "unat y < 4294967296" by (rule unat_digit_lt)+
  have "unat x = (unat x + 4294967296 * digs_val xs) mod 4294967296" using lt by simp
  also have "\<dots> = unat y" unfolding e using lt by simp
  finally have "unat x = unat y \<and> digs_val xs = digs_val ys" using e by simp
  then show ?case using Cons.IH by (simp add: word_unat_eq_iff)
qed simp

lemma norm_long_eq:
  assumes "norm_int (ALong a)" "norm_int (ALong b)" "li_value a = li_value b"
  shows "digits a = digits b"
proof -
  have n: "operand a" "operand b" using assms operand_norm by auto
  have "li_neg a = li_neg b" using assms norm_long_neg by metis
  then have v: "digs_val (digits a) = digs_val (digits b)" using assms(3) by (auto simp: li_value_def split: if_splits)
  moreover have "length (digits a) = length (digits b)"
  proof (rule ccontr)
    assume "length (digits a) \<noteq> length (digits b)"
    then show False
      using digs_val_longer [of "digits a" "digits b"] digs_val_longer [of "digits b" "digits a"] v assms(1,2)
      by (auto simp: neq_iff)
  qed
  ultimately show ?thesis by (intro digs_val_inj)
qed

lemma AIsEq_Int_value:
  assumes "norm_int a" "norm_int b" shows "AIsEq_Int a b \<longleftrightarrow> int_value a = int_value b"
proof (cases a; cases b)
  fix x y assume "a = AShort x" "b = AShort y"
  then show ?thesis using assms tagged_sint [of x] tagged_sint [of y]
    by (auto simp: short_val_def intro: signed_word_eqI)
next
  fix x y assume ab: "a = ALong x" "b = ALong y"
  then have "sgn (ACompareLongInt x y) = sgn (li_value x - li_value y)"
    using assms operand_norm norm_long_nonzero [of x] norm_long_nonzero [of y] by (intro compare_sgn) auto
  then show ?thesis using ab by (auto simp: sgn_if split: if_splits)
next
  fix x y assume "a = AShort x" "b = ALong y"
  then show ?thesis using assms fits_short_val [of x] by (auto simp: short_val_def)
next
  fix x y assume "a = ALong x" "b = AShort y"
  then show ?thesis using assms fits_short_val [of y] by (auto simp: short_val_def)
qed

lemma AStdHash_Int_respects:
  assumes "norm_int a" "norm_int b" "int_value a = int_value b" shows "AStdHash_Int a = AStdHash_Int b"
proof -
  have eq: "AIsEq_Int a b" using assms by (simp add: AIsEq_Int_value)
  show ?thesis
  proof (cases a)
    case (AShort x)
    with eq show ?thesis by (cases b) simp_all
  next
    case (ALong x)
    then obtain y where b: "b = ALong y" using eq by (cases b) simp_all
    have "digits x = digits y" using assms ALong b by (intro norm_long_eq) simp_all
    with ALong b show ?thesis by (simp add: ALongIntHashValue_def)
  qed
qed

interpretation int_keys: key_contract int_keys norm_int int_value
proof
  fix k k' :: aint
  show "\<exists>h. khash int_keys k = Inr (HInt h)" by (simp add: int_keys_def)
  assume n: "norm_int k" "norm_int k'"
  then show "keq int_keys k k' = Inr (int_value k = int_value k')" by (simp add: int_keys_def AIsEq_Int_value)
  assume "int_value k = int_value k'"
  then show "khash int_keys k = khash int_keys k'"
    using AStdHash_Int_respects [OF n] by (simp add: int_keys_def)
qed

section \<open>Sequences of method calls\<close>

datatype ('k, 'v) map_cmd = CallSet 'k 'v | CallRemove 'k | CallGet 'k | CallGetDefault 'k 'v | CallHasKey 'k | CallLength

datatype 'v reply = Done "aerror + unit" | Value "aerror + 'v" | Truth "aerror + bool" | Count int

fun call_key :: "('k, 'v) map_cmd \<Rightarrow> 'k option" where
  "call_key (CallSet k v) = Some k"
| "call_key (CallRemove k) = Some k"
| "call_key (CallGet k) = Some k"
| "call_key (CallGetDefault k v) = Some k"
| "call_key (CallHasKey k) = Some k"
| "call_key CallLength = None"

text \<open>A method that returns an error value raises the exception in its caller.\<close>

definition method_result :: "aerror + aerror option \<Rightarrow> aerror + unit" where
  "method_result r = (case r of Inl e \<Rightarrow> Inl e | Inr (Some e) \<Rightarrow> Inl e | Inr None \<Rightarrow> Inr ())"

fun map_call :: "'v \<Rightarrow> 'k keyops \<Rightarrow> ('k, 'v) map_cmd \<Rightarrow> ('k, 'v) amap \<Rightarrow> athread \<Rightarrow>
    'v reply \<times> ('k, 'v) amap \<times> athread" where
  "map_call mark K (CallSet k v) m t =
     (case AMap_set mark K k v m t of (r, m, t) \<Rightarrow> (Done (method_result r), m, t))"
| "map_call mark K (CallRemove k) m t = (case AMapRemove K k m t of (r, m, t) \<Rightarrow> (Done r, m, t))"
| "map_call mark K (CallGet k) m t = (Value (AMap_get K k m), m, t)"
| "map_call mark K (CallGetDefault k v) m t = (Value (AMapGet K k v m), m, t)"
| "map_call mark K (CallHasKey k) m t = (Truth (AMapHasKey K k m), m, t)"
| "map_call mark K CallLength m t = (Count (AMapLength m), m, t)"

fun map_calls :: "'v \<Rightarrow> 'k keyops \<Rightarrow> ('k, 'v) map_cmd list \<Rightarrow> ('k, 'v) amap \<Rightarrow> athread \<Rightarrow> 'v reply list" where
  "map_calls mark K [] m t = []"
| "map_calls mark K (c # cs) m t =
     (case map_call mark K c m t of (r, m, t) \<Rightarrow> r # map_calls mark K cs m t)"

text \<open>The same calls on a finite map.\<close>

fun spec_call :: "('k \<Rightarrow> 'i) \<Rightarrow> ('k, 'v) map_cmd \<Rightarrow> ('i \<rightharpoonup> 'v) \<Rightarrow> 'v reply \<times> ('i \<rightharpoonup> 'v)" where
  "spec_call kid (CallSet k v) M = (Done (Inr ()), M(kid k \<mapsto> v))"
| "spec_call kid (CallRemove k) M =
     (Done (if M (kid k) = None then Inl KeyError else Inr ()), M(kid k := None))"
| "spec_call kid (CallGet k) M = (Value (case M (kid k) of None \<Rightarrow> Inl KeyError | Some v \<Rightarrow> Inr v), M)"
| "spec_call kid (CallGetDefault k d) M = (Value (case M (kid k) of None \<Rightarrow> Inr d | Some v \<Rightarrow> Inr v), M)"
| "spec_call kid (CallHasKey k) M = (Truth (Inr (M (kid k) \<noteq> None)), M)"
| "spec_call kid CallLength M = (Count (int (card (dom M))), M)"

fun spec_calls :: "('k \<Rightarrow> 'i) \<Rightarrow> ('k, 'v) map_cmd list \<Rightarrow> ('i \<rightharpoonup> 'v) \<Rightarrow> 'v reply list" where
  "spec_calls kid [] M = []"
| "spec_calls kid (c # cs) M = (case spec_call kid c M of (r, M) \<Rightarrow> r # spec_calls kid cs M)"

text \<open>The simulation relation: the invariant, the abstract map, and a bound on its size.\<close>

definition simulates :: "'k keyops \<Rightarrow> ('k \<Rightarrow> bool) \<Rightarrow> ('k \<Rightarrow> 'i) \<Rightarrow> nat \<Rightarrow> ('k, 'v) amap \<Rightarrow> ('i \<rightharpoonup> 'v) \<Rightarrow> bool" where
  "simulates K valid kid n m M \<longleftrightarrow>
     (\<exists>b. b < 30 \<and> map_inv K valid kid b m) \<and> tab_map kid (MAP_A m) = M \<and> card (dom M) \<le> n"

lemma log_bound: "(2::nat) ^ b < 6 * n \<Longrightarrow> n \<le> 134217728 \<Longrightarrow> b < 30"
proof (rule ccontr)
  assume "2 ^ b < 6 * n" "n \<le> 134217728" "\<not> b < 30"
  moreover from this have "(2::nat) ^ 30 \<le> 2 ^ b" by (intro power_increasing) auto
  ultimately show False by simp
qed

context key_contract
begin

lemma length_card:
  assumes "map_inv K valid kid b m"
  shows "AMapLength m = int (card (dom (tab_map kid (MAP_A m))))"
proof -
  have "distinct (ids kid (MAP_A m))" "map_wf K valid kid b m"
    using assms by (auto simp: map_inv_def map_wf_def tab_ok_def)
  then show ?thesis
    using map_wf_counts by (metis AMapLength_def dom_tab_map distinct_card ids_def length_map)
qed

lemma set_simulates:
  assumes sim: "simulates K valid kid n m M" and n: "n < 134217728" and t: "mem_ok t" and k: "valid k"
  shows "\<exists>m' t'. Map_set_depth 1 msg mark K k v m t = (Inr None, m', t') \<and>
     simulates K valid kid (Suc n) m' (M(kid k \<mapsto> v)) \<and> mem_ok t'"
proof -
  obtain b where b: "b < 30" and inv: "map_inv K valid kid b m" and M: "tab_map kid (MAP_A m) = M"
    and card: "card (dom M) \<le> n"
    using sim by (auto simp: simulates_def)
  obtain b' m' t' where s: "Map_set_depth 1 msg mark K k v m t = (Inr None, m', t')" "mem_ok t'"
      "map_inv K valid kid b' m'" "tab_map kid (MAP_A m') = M(kid k \<mapsto> v)"
      "b' \<le> b \<or> 2 ^ b' < 6 * card (dom (tab_map kid (MAP_A m')))"
    using Map_set_ok [OF k inv b t, of 0 msg mark v] M by auto
  have "finite (dom M)" unfolding M [symmetric] dom_tab_map by simp
  then have c': "card (dom (M(kid k \<mapsto> v))) \<le> Suc n" using card by (auto simp: card_insert_if)
  then have "b' < 30" using s(4,5) b n log_bound [of b' "card (dom (M(kid k \<mapsto> v)))"] by auto
  with s c' show ?thesis by (auto simp: simulates_def)
qed

lemma remove_simulates:
  assumes sim: "simulates K valid kid n m M" and t: "mem_ok t" and k: "valid k"
  shows "\<exists>m' t'. AMapRemove K k m t = (if M (kid k) = None then Inl KeyError else Inr (), m', t') \<and>
     simulates K valid kid n m' (M(kid k := None)) \<and> mem_ok t'"
proof -
  obtain b where b: "b < 30" and inv: "map_inv K valid kid b m" and M: "tab_map kid (MAP_A m) = M"
    and card: "card (dom M) \<le> n"
    using sim by (auto simp: simulates_def)
  obtain r m' t' where s: "AMapRemove K k m t = (r, m', t')" "map_inv K valid kid b m'" "mem_ok t'"
      "r = (if kid k \<in> dom M then Inr () else Inl KeyError)" "tab_map kid (MAP_A m') = M(kid k := None)"
    using AMapRemove_ok [OF k inv t] M by auto
  have "card (dom (M(kid k := None))) \<le> card (dom M)"
    unfolding M [symmetric] by (intro card_mono) (auto simp: dom_tab_map)
  then have "simulates K valid kid n m' (M(kid k := None))" using s b card by (auto simp: simulates_def)
  with s show ?thesis by (auto simp: dom_def)
qed

lemma simulates_Suc: "simulates K valid kid n m M \<Longrightarrow> simulates K valid kid (Suc n) m M"
  by (auto simp: simulates_def)

lemma call_simulates:
  assumes sim: "simulates K valid kid n m M" and n: "n < 134217728" and t: "mem_ok t"
    and key: "\<And>k. call_key c = Some k \<Longrightarrow> valid k"
  obtains r m' t' M' where "map_call mark K c m t = (r, m', t')" "spec_call kid c M = (r, M')"
    "simulates K valid kid (Suc n) m' M'" "mem_ok t'"
proof -
  obtain b where inv: "map_inv K valid kid b m" and M: "tab_map kid (MAP_A m) = M"
    using sim by (auto simp: simulates_def)
  note sim' = simulates_Suc [OF sim]
  note map = MapLookup_map [OF _ inv] AMapHasKey_map [OF _ inv]
  show thesis
  proof (cases c)
    case (CallSet k v)
    then obtain m' t' where "AMap_set mark K k v m t = (Inr None, m', t')" "mem_ok t'"
        "simulates K valid kid (Suc n) m' (M(kid k \<mapsto> v))"
      using set_simulates [OF sim n t key, of k "''Map size overflow''" mark v] by (auto simp: AMap_set_def)
    with CallSet show thesis
      using that [of "Done (Inr ())" m' t' "M(kid k \<mapsto> v)"] by (simp add: method_result_def)
  next
    case (CallRemove k)
    then obtain m' t' where "AMapRemove K k m t = (if M (kid k) = None then Inl KeyError else Inr (), m', t')"
        "mem_ok t'" "simulates K valid kid n m' (M(kid k := None))"
      using remove_simulates [OF sim t key, of k] by auto
    with CallRemove show thesis
      using that [of _ m' t' "M(kid k := None)"] simulates_Suc [of n m'] by simp
  next
    case (CallGet k)
    with that [of _ m t M] sim' t key M map show thesis by (simp add: AMap_get_def split: option.splits)
  next
    case (CallGetDefault k d)
    with that [of _ m t M] sim' t key M map show thesis by (simp add: AMapGet_def split: option.splits)
  next
    case (CallHasKey k)
    with that [of _ m t M] sim' t key M map show thesis by (simp add: dom_def)
  next
    case CallLength
    with that [of _ m t M] sim' t M length_card [OF inv] show thesis by simp
  qed
qed

lemma calls_simulate:
  assumes "simulates K valid kid n m M" "n + length cs \<le> 134217728" "mem_ok t"
    and "\<And>c k. c \<in> set cs \<Longrightarrow> call_key c = Some k \<Longrightarrow> valid k"
  shows "map_calls mark K cs m t = spec_calls kid cs M"
  using assms
proof (induction cs arbitrary: n m M t)
  case (Cons c cs)
  obtain r m' t' M' where s: "map_call mark K c m t = (r, m', t')" "spec_call kid c M = (r, M')"
    "simulates K valid kid (Suc n) m' M'" "mem_ok t'"
    by (rule call_simulates [OF Cons.prems(1), of t c mark])
      (use that Cons.prems(2,3) Cons.prems(4) [of c] in auto)
  then have "map_calls mark K cs m' t' = spec_calls kid cs M'" using Cons.prems by (intro Cons.IH) auto
  with s show ?case by simp
qed simp

lemma initial_simulates:
  assumes "AMapInitialize mark t = (Inr m, t')"
  shows "simulates K valid kid 0 m Map.empty"
proof -
  have "m = \<lparr>MAP_A = replicate 4 (EmptyMarker, mark), MAP_LEN = 0, MAP_SIZE = 4, MAP_NUM_REMOVED = 0\<rparr>"
    using assms by (auto simp: AMapInitialize_def bindM_def ret_def split: prod.splits sum.splits)
  moreover have "tab_ok K valid kid 2 (replicate (2 ^ 2) (EmptyMarker, mark))" by (rule tab_ok_empty)
  ultimately have "map_inv K valid kid 2 m" by (simp add: map_inv_def map_wf_def)
  with \<open>m = _\<close> show ?thesis by (auto simp: simulates_def tab_map_def intro!: exI [of _ 2])
qed

end

section \<open>Iteration\<close>

lemma iter_skip_entries:
  assumes "j \<le> length a"
  shows "\<exists>j'. iter_skip a (2 * length a) (2 * j) = 2 * j' \<and> j \<le> j' \<and>
     (if j' < length a then \<exists>k v. a ! j' = (Key k, v) \<and> entries (drop j a) = (k, v) # entries (drop (Suc j') a)
      else j' = length a \<and> entries (drop j a) = [])"
  using assms
proof (induction "length a - j" arbitrary: j)
  case 0
  then show ?case by (auto simp: iter_skip.simps intro: exI [of _ j])
next
  case (Suc n)
  then have j: "j < length a" by simp
  then have d: "drop j a = a ! j # drop (Suc j) a" by (simp add: Cons_nth_drop_Suc)
  obtain c v where c: "a ! j = (c, v)" by fastforce
  show ?case
  proof (cases "\<exists>k. c = Key k")
    case True
    then show ?thesis
      using j c d by (auto simp: iter_skip.simps [of _ _ "2 * j"] intro!: exI [of _ j])
  next
    case False
    then have "entries (drop j a) = entries (drop (Suc j) a)" using c d by (cases c) auto
    moreover have "iter_skip a (2 * length a) (2 * j) = iter_skip a (2 * length a) (2 * Suc j)"
      using False c j by (subst iter_skip.simps) (auto split: slot.splits)
    moreover have "n = length a - Suc j" "Suc j \<le> length a" using Suc.hyps(2) j by simp_all
    ultimately show ?thesis using Suc.hyps(1) [of "Suc j"] by (metis Suc_leD)
  qed
qed

text \<open>
  A loop over the iterator that asks \<^verbatim>\<open>hasNext\<close> before each \<^verbatim>\<open>next\<close> and ends when there is none, in
  at most \<open>n\<close> tests: the items, or the error of a \<^verbatim>\<open>next\<close>, or \<open>None\<close> when the loop still goes on.
  The second loop calls \<^verbatim>\<open>next\<close> until it fails.
\<close>

fun iter_items :: "nat \<Rightarrow> ('k, 'v) map_iter \<Rightarrow> (aerror + ('k \<times> 'v) list) option" where
  "iter_items 0 it = None"
| "iter_items (Suc n) it =
     (case AMapIterHasNext it of
        (False, it) \<Rightarrow> Some (Inr [])
      | (True, it) \<Rightarrow>
          (case AMapIterNext it of
             (Inl e, _) \<Rightarrow> Some (Inl e)
           | (Inr x, it) \<Rightarrow> map_option (map_sum id ((#) x)) (iter_items n it)))"

fun iter_nexts :: "nat \<Rightarrow> ('k, 'v) map_iter \<Rightarrow> (('k \<times> 'v) list \<times> aerror) option" where
  "iter_nexts 0 it = None"
| "iter_nexts (Suc n) it =
     (case AMapIterNext it of
        (Inl e, _) \<Rightarrow> Some ([], e)
      | (Inr x, it) \<Rightarrow> map_option (map_prod ((#) x) id) (iter_nexts n it))"

lemma iter_next:
  assumes "j \<le> length a" "it = \<lparr>ITER_I = 2 * j, ITER_LEN = 2 * length a, ITER_A = a\<rparr>"
  obtains (more) j' k v where "entries (drop j a) = (k, v) # entries (drop (Suc j') a)" "Suc j' \<le> length a"
      "AMapIterHasNext it = (True, it\<lparr>ITER_I := 2 * j'\<rparr>)"
      "AMapIterNext it = (Inr (k, v), it\<lparr>ITER_I := 2 * Suc j'\<rparr>)"
      "AMapIterNext (it\<lparr>ITER_I := 2 * j'\<rparr>) = (Inr (k, v), it\<lparr>ITER_I := 2 * Suc j'\<rparr>)"
  | (last) "entries (drop j a) = []" "AMapIterHasNext it = (False, it)"
      "AMapIterNext it = (Inl (ValueError ''No items left''), it)"
proof -
  obtain j' where s: "iter_skip a (2 * length a) (2 * j) = 2 * j'" and
    c: "if j' < length a then \<exists>k v. a ! j' = (Key k, v) \<and> entries (drop j a) = (k, v) # entries (drop (Suc j') a)
      else j' = length a \<and> entries (drop j a) = []"
    using iter_skip_entries [OF assms(1)] by blast
  show thesis
  proof (cases "j' < length a")
    case True
    then obtain k v where kv: "a ! j' = (Key k, v)" "entries (drop j a) = (k, v) # entries (drop (Suc j') a)"
      using c by auto
    have "iter_skip a (2 * length a) (2 * j') = 2 * j'" using kv by (subst iter_skip.simps) simp
    with True kv s assms(2) show thesis
      by (intro more) (auto simp: AMapIterHasNext_def AMapIterNext_def)
  next
    case False
    with c s assms(2) show thesis by (intro last) (auto simp: AMapIterHasNext_def AMapIterNext_def)
  qed
qed

lemma iter_loops_entries:
  assumes "j \<le> length a" "length (entries (drop j a)) < n"
  defines "it \<equiv> (\<lambda>j. \<lparr>ITER_I = 2 * j, ITER_LEN = 2 * length a, ITER_A = a\<rparr>)"
  shows "iter_items n (it j) = Some (Inr (entries (drop j a)))
    \<and> iter_nexts n (it j) = Some (entries (drop j a), ValueError ''No items left'')"
  using assms(1,2)
proof (induction n arbitrary: j)
  case (Suc n)
  have it: "it j = \<lparr>ITER_I = 2 * j, ITER_LEN = 2 * length a, ITER_A = a\<rparr>" by (simp add: it_def)
  show ?case
  proof (rule iter_next [OF Suc.prems(1) it])
    fix j' k v
    assume e: "entries (drop j a) = (k, v) # entries (drop (Suc j') a)" "Suc j' \<le> length a"
      "AMapIterHasNext (it j) = (True, it j\<lparr>ITER_I := 2 * j'\<rparr>)"
      "AMapIterNext (it j) = (Inr (k, v), it j\<lparr>ITER_I := 2 * Suc j'\<rparr>)"
      "AMapIterNext (it j\<lparr>ITER_I := 2 * j'\<rparr>) = (Inr (k, v), it j\<lparr>ITER_I := 2 * Suc j'\<rparr>)"
    have "it j\<lparr>ITER_I := 2 * Suc j'\<rparr> = it (Suc j')" by (simp add: it_def)
    moreover have "iter_items n (it (Suc j')) = Some (Inr (entries (drop (Suc j') a)))
      \<and> iter_nexts n (it (Suc j')) = Some (entries (drop (Suc j') a), ValueError ''No items left'')"
      using Suc.prems e(1,2) by (intro Suc.IH) auto
    ultimately show ?thesis using e by simp
  qed simp
qed simp

section \<open>Properties\<close>

text \<open>
  C1: Every sequence of up to 2^27 calls of the methods set, remove, get, get with a default,
  hasKey and length on a new map replies exactly as the same calls on a finite map would, for
  keys whose hash and equality keep their contract and in a run where no allocation fails;
  in particular no call is endless, reads outside the table or resizes twice.
\<close>

theorem map_calls_refine:
  assumes "key_contract K valid kid"
    and "AMapInitialize mark t = (Inr m, t')" "mem_ok t" "length cs \<le> 134217728"
    and "\<forall>c \<in> set cs. \<forall>k. call_key c = Some k \<longrightarrow> valid k"
  shows "map_calls mark K cs m t' = spec_calls kid cs Map.empty"
proof -
  have "mem_ok t'"
    using assms(2) next_alloc_ok [OF assms(3)]
    by (auto simp: AMapInitialize_def bindM_def ret_def split: prod.splits sum.splits)
  moreover have "simulates K valid kid 0 m Map.empty"
    using assms(1,2) by (rule key_contract.initial_simulates)
  ultimately show ?thesis
    using assms(4,5) by (intro key_contract.calls_simulate [OF assms(1)]) auto
qed

abbreviation short :: "int \<Rightarrow> aint" where
  "short i \<equiv> AShort (of_int (4 * i))"

theorem map_calls_refine_witness:
  "\<exists>m t'. AMapInitialize (0::nat) \<lparr>allocs = [], tempStackPtr = 0\<rparr> = (Inr m, t') \<and>
     map_calls 0 int_keys [CallSet (short 7) 1, CallSet (short (- 7)) 2, CallSet (short 7) 3,
       CallRemove (short (- 7)), CallGet (short 7), CallGet (short (- 7)), CallLength] m t'
     = [Done (Inr ()), Done (Inr ()), Done (Inr ()), Done (Inr ()), Value (Inr 3), Value (Inl KeyError), Count 1]"
proof -
  let ?t = "\<lparr>allocs = [], tempStackPtr = 0\<rparr> :: athread"
  obtain m :: "(aint, nat) amap" and t' where i: "AMapInitialize 0 ?t = (Inr m, t')"
    by (simp add: AMapInitialize_def bindM_def next_alloc_def ret_def)
  have mem: "mem_ok ?t" by (simp add: mem_ok_def)
  let ?cs = "[CallSet (short 7) 1, CallSet (short (- 7)) 2, CallSet (short 7) 3,
       CallRemove (short (- 7)), CallGet (short 7), CallGet (short (- 7)), CallLength] :: (aint, nat) map_cmd list"
  have "map_calls 0 int_keys ?cs m t' = spec_calls int_value ?cs Map.empty"
    by (rule map_calls_refine [OF int_keys.key_contract_axioms i mem]) simp_all
  also have "\<dots> = [Done (Inr ()), Done (Inr ()), Done (Inr ()), Done (Inr ()), Value (Inr 3),
      Value (Inl KeyError), Count 1]" by (simp add: card_insert_if)
  finally show ?thesis using i by blast
qed

text \<open>
  The methods items, keys and values return an array that is completely filled, without
  a store past its end, with each entry of the map exactly once.
\<close>

theorem map_arrays:
  assumes "map_inv K valid kid b m"
  shows "\<exists>es. AMapItems m = Inr (map Some es) \<and> AMapKeys m = Inr (map (Some \<circ> fst) es) \<and>
     AMapValues m = Inr (map (Some \<circ> snd) es) \<and> distinct (map (kid \<circ> fst) es) \<and>
     map_of (map (\<lambda>(k, v). (kid k, v)) es) = tab_map kid (MAP_A m)"
proof -
  let ?A = "MAP_A m"
  have wf: "map_wf K valid kid b m" and len: "length ?A = 2 ^ b" and d: "distinct (ids kid ?A)"
    and sz: "MAP_SIZE m = 2 ^ b"
    using assms by (auto simp: map_inv_def map_wf_def tab_ok_def)
  have "MAP_LEN m - MAP_NUM_REMOVED m = int (length (entries ?A))"
    using wf length_entries [of ?A] by (auto simp: map_wf_def)
  then have f: "filled m f = Inr (map (Some \<circ> f) (entries ?A))" for f :: "_ \<Rightarrow> 'x"
    using sz len by (simp add: filled_def Let_def MapLen_def nat_power_eq)
  show ?thesis
    unfolding AMapItems_def AMapKeys_def AMapValues_def f
    using d by (intro exI [of _ "entries ?A"]) (simp add: tab_map_def ids_def comp_def case_prod_unfold)
qed

text \<open>A map with one entry, used in the examples below.\<close>

definition one_entry :: "(aint, nat) amap" where
  "one_entry = \<lparr>MAP_A = [(EmptyMarker, 0), (Key (short 1), 5), (EmptyMarker, 0), (EmptyMarker, 0)],
     MAP_LEN = 1, MAP_SIZE = 4, MAP_NUM_REMOVED = 0\<rparr>"

lemma one_entry_inv: "map_inv int_keys norm_int int_value 2 one_entry"
proof -
  have "hash_index int_keys (short 1) 2 = 1"
    by (simp add: hash_index_def int_keys_def AValueToInt_def AIntToValue_def)
  moreover have "short 1 = AShort 4" by simp
  ultimately show ?thesis
    by (auto simp: map_inv_def map_wf_def tab_ok_def one_entry_def ids_def used_def removed_def reaches_def
        orbit_def less_Suc_eq numeral_eq_Suc nth_Cons split: nat.splits intro!: exI [of _ 0])
qed

theorem map_arrays_witness:
  "\<exists>es. AMapItems one_entry = Inr (map Some es) \<and> es = [(short 1, 5)]"
  using map_arrays [OF one_entry_inv] by (auto simp: one_entry_def AMapItems_def filled_def MapLen_def)

text \<open>
  C22: A loop over the iterator of a map that tests \<^verbatim>\<open>hasNext\<close> before each \<^verbatim>\<open>next\<close> gets the items in
  the order of the slots, each once, and ends without an error by a test that says there is no next
  item, after one test more than there are items; a loop that calls \<^verbatim>\<open>next\<close> only gets the same items
  and then the value error that no items are left.
\<close>

theorem map_iteration:
  assumes "length (entries (MAP_A m)) < n"
  shows "iter_items n (AMapIter m) = Some (Inr (entries (MAP_A m)))
    \<and> iter_nexts n (AMapIter m) = Some (entries (MAP_A m), ValueError ''No items left'')"
  using iter_loops_entries [of 0 "MAP_A m" n] assms by (simp add: AMapIter_def)

theorem map_iteration_witness:
  "iter_items 2 (AMapIter one_entry) = Some (Inr [(short 1, 5)])
   \<and> iter_nexts 2 (AMapIter one_entry) = Some ([(short 1, 5)], ValueError ''No items left'')"
  using map_iteration [of one_entry 2] by (simp add: one_entry_def)

text \<open>
  C32: When the allocation of the larger table fails, the map keeps its old table but already
  has the doubled size, so that a later lookup can read outside the table.
\<close>

theorem resize_out_of_memory:
  assumes "0 \<le> MAP_SIZE m" "MAP_SIZE m \<le> 2 ^ 29" "MAP_SIZE m < MapLen m * 3"
    and "next_alloc t = (Inr r, t1)" "next_alloc t1 = (Inl e, t2)"
  shows "ResizeMap msg mark setf m t = (Inl e, m\<lparr>MAP_SIZE := 2 * MAP_SIZE m\<rparr>, t2)"
proof -
  have "sint (of_int (2 * MAP_SIZE m) :: 32 word) = 2 * MAP_SIZE m"
    using assms(1,2) by (simp add: signed_of_int signed_take_bit_int_eq_self del: of_int_mult)
  then show ?thesis
    using assms by (simp add: ResizeMap_def Let_def new_capacity_def A_SHORT_INT_MAX_eq int32_def)
qed

text \<open>
  In the example the third key fills the table of four slots; the failed resize leaves a table
  of four slots with size eight, and the lookup of key 5 reads slot 5.
\<close>

definition full_map :: "(aint, nat) amap" where
  "full_map = \<lparr>MAP_A = [(EmptyMarker, 0), (Key (short 1), 5), (Key (short 2), 6), (Key (short 3), 7)],
     MAP_LEN = 3, MAP_SIZE = 4, MAP_NUM_REMOVED = 0\<rparr>"

theorem resize_out_of_memory_witness:
  "\<exists>m' t'. ResizeMap ''Map size overflow'' (0::nat) (AMap_set 0 int_keys) full_map
       \<lparr>allocs = [AllocBlock False [], AllocFail], tempStackPtr = 0\<rparr> = (Inl MemoryError, m', t') \<and>
     AMap_get int_keys (short 5) m' = Inl UndefinedBehaviour"
proof -
  let ?t = "\<lparr>allocs = [AllocBlock False [], AllocFail], tempStackPtr = 0\<rparr> :: athread"
  have "ResizeMap ''Map size overflow'' 0 (AMap_set 0 int_keys) full_map ?t =
     (Inl MemoryError, full_map\<lparr>MAP_SIZE := 2 * MAP_SIZE full_map\<rparr>, \<lparr>allocs = [], tempStackPtr = 0\<rparr>)"
    by (rule resize_out_of_memory [where r = "(False, [])" and ?t1.0 = "\<lparr>allocs = [AllocFail], tempStackPtr = 0\<rparr>"])
      (simp_all add: full_map_def MapLen_def next_alloc_def)
  moreover have "AMap_get int_keys (short 5) (full_map\<lparr>MAP_SIZE := 2 * MAP_SIZE full_map\<rparr>) = Inl UndefinedBehaviour"
    by code_simp
  ultimately show ?thesis by blast
qed

text \<open>
  The constructor of Map ignores the error value that setting an item returns: an item
  whose hash method raises an exception is left out and the construction succeeds.
\<close>

theorem create_drops_failed_hash:
  assumes "khash K k = Inl e"
  shows "AMapCreate mark K (Some (k, v) # items) t = AMapCreate mark K items t"
  using assms
  by (simp add: AMapCreate_def bindM_def then_op_def AMap_set_def Map_set_body_def find_slot_def
      split: prod.splits sum.splits)

text \<open>Keys whose hash method raises an exception.\<close>

definition bad_keys :: "aint keyops" where
  "bad_keys = int_keys\<lparr>khash := (\<lambda>_. Inl (ValueError ''unhashable''))\<rparr>"

theorem create_drops_failed_hash_witness:
  "\<exists>m t'. AMapCreate (0::nat) bad_keys [Some (short 1, 7)] \<lparr>allocs = [], tempStackPtr = 0\<rparr> = (Inr m, t') \<and>
     AMapLength m = 0"
proof -
  have h: "khash bad_keys (short 1) = Inl (ValueError ''unhashable'')" by (simp add: bad_keys_def)
  show ?thesis
    unfolding create_drops_failed_hash [OF h, of "0::nat" 7 "[]"]
    by (simp add: AMapCreate_def AMapInitialize_def bindM_def ret_def next_alloc_def AMapLength_def MapLen_def)
qed

end
