(* ===== verification/Array_Refine.thy ===== *)
theory Array_Refine
  imports Array_Update_Lemmas Map_Refine
begin

text \<open>
  Arrays refine lists: the operations that compare items, in the locale of their contract, and
  sequences of method calls.
\<close>

section \<open>The contract of items\<close>

locale item_contract =
  fixes eq :: "'v \<Rightarrow> 'v \<Rightarrow> aerror + bool" and valid :: "'v \<Rightarrow> bool" and kid :: "'v \<Rightarrow> 'i"
  assumes eq_item: "valid x \<Longrightarrow> valid y \<Longrightarrow> eq x y = Inr (kid x = kid y)"
begin

lemma returnsA_remove_loop:
  assumes v: "valid v" and B: "list_all valid (take k (drop i B))" "i + k \<le> length B" "d \<le> i"
  shows "returnsA (remove_loop eq v k i d) (a\<lparr>A_ARRAY_A := B\<rparr>)
    (\<lambda>d' a'. \<exists>C. a' = a\<lparr>A_ARRAY_A := C\<rparr> \<and> length C = length B \<and> d' \<le> i + k \<and>
       take (i + k - d') C = take (i - d) B @ filter (\<lambda>x. kid x \<noteq> kid v) (take k (drop i B)) \<and>
       i + k - d' = i - d + length (filter (\<lambda>x. kid x \<noteq> kid v) (take k (drop i B))))"
  using B
proof (induction k arbitrary: i d B)
  case 0
  then show ?case by (auto intro!: returnsA_retA exI [of _ B])
next
  case (Suc k)
  have i: "i < length B" using Suc.prems by simp
  have tk: "take (Suc k) (drop i B) = B ! i # take k (drop (Suc i) B)" using i by (simp add: Cons_nth_drop_Suc [symmetric])
  then have eq: "eq (B ! i) v = Inr (kid (B ! i) = kid v)" using Suc.prems(1) v by (intro eq_item) auto
  have item: "returnsA (item_at i) (a\<lparr>A_ARRAY_A := B\<rparr>) (\<lambda>x b. x = B ! i \<and> b = a\<lparr>A_ARRAY_A := B\<rparr>)"
    using i by (intro returnsA_item) simp_all
  let ?F = "filter (\<lambda>x. kid x \<noteq> kid v)"
  let ?P = "\<lambda>d' a'. \<exists>C. a' = a\<lparr>A_ARRAY_A := C\<rparr> \<and> length C = length B \<and> d' \<le> i + Suc k \<and>
       take (i + Suc k - d') C = take (i - d) B @ ?F (take (Suc k) (drop i B)) \<and>
       i + Suc k - d' = i - d + length (?F (take (Suc k) (drop i B)))"
  have body: "returnsA (if kid (B ! i) = kid v then remove_loop eq v k (i + 1) (d + 1)
      else thenA (if d \<noteq> 0 then ASetFixArrayItem (i - d) (B ! i) else retA ()) (\<lambda>_. remove_loop eq v k (i + 1) d))
      (a\<lparr>A_ARRAY_A := B\<rparr>) ?P"
  proof (cases "kid (B ! i) = kid v")
    case True
    have "returnsA (remove_loop eq v k (i + 1) (d + 1)) (a\<lparr>A_ARRAY_A := B\<rparr>)
       (\<lambda>d' a'. \<exists>C. a' = a\<lparr>A_ARRAY_A := C\<rparr> \<and> length C = length B \<and> d' \<le> i + 1 + k \<and>
       take (i + 1 + k - d') C = take (i + 1 - (d + 1)) B @ ?F (take k (drop (i + 1) B)) \<and>
       i + 1 + k - d' = i + 1 - (d + 1) + length (?F (take k (drop (i + 1) B))))"
      using Suc.prems tk by (intro Suc.IH) auto
    then show ?thesis using True tk by simp
  next
    case False
    let ?C = "B[i - d := B ! i]"
    have le: "i - d < length B" using i by simp
    have drop: "drop (Suc i) ?C = drop (Suc i) B" using Suc.prems(3) by simp
    have take: "take (i + 1 - d) ?C = take (i - d) B @ [B ! i]"
      using le Suc.prems(3) by (simp add: Suc_diff_le take_Suc_conv_app_nth)
    have rest: "returnsA (remove_loop eq v k (i + 1) d) (a\<lparr>A_ARRAY_A := ?C\<rparr>) ?P"
    proof (rule returnsA_mono)
      show "returnsA (remove_loop eq v k (i + 1) d) (a\<lparr>A_ARRAY_A := ?C\<rparr>)
         (\<lambda>d' a'. \<exists>C. a' = a\<lparr>A_ARRAY_A := C\<rparr> \<and> length C = length ?C \<and> d' \<le> i + 1 + k \<and>
         take (i + 1 + k - d') C = take (i + 1 - d) ?C @ ?F (take k (drop (i + 1) ?C)) \<and>
         i + 1 + k - d' = i + 1 - d + length (?F (take k (drop (i + 1) ?C))))"
        using Suc.prems tk drop by (intro Suc.IH) auto
    next
      fix d' a'
      assume "\<exists>C. a' = a\<lparr>A_ARRAY_A := C\<rparr> \<and> length C = length ?C \<and> d' \<le> i + 1 + k \<and>
         take (i + 1 + k - d') C = take (i + 1 - d) ?C @ ?F (take k (drop (i + 1) ?C)) \<and>
         i + 1 + k - d' = i + 1 - d + length (?F (take k (drop (i + 1) ?C)))"
      then show "?P d' a'" using take drop False tk Suc.prems(3) by (auto simp: Suc_diff_le)
    qed
    have store: "returnsA (if d \<noteq> 0 then ASetFixArrayItem (i - d) (B ! i) else retA ()) (a\<lparr>A_ARRAY_A := B\<rparr>)
        (\<lambda>_ b. b = a\<lparr>A_ARRAY_A := ?C\<rparr>)"
      using le i by (auto intro!: returnsA_store returnsA_retA)
    show ?thesis using False rest by (simp only: if_False) (rule returnsA_thenA [OF store], simp)
  qed
  show ?case
    unfolding remove_loop.simps
    by (rule returnsA_thenA [OF item], clarify, rule wpA_thenA, rule returnsA_readA [OF eq], rule body)
qed

lemma returnsA_AArrayRemove:
  assumes a: "is_array xs a" and v: "valid v" "list_all valid xs"
  shows "returnsA (AArrayRemove eq v) a (\<lambda>_ a'. is_array (filter (\<lambda>x. kid x \<noteq> kid v) xs) a')"
proof -
  note d = is_arrayD [OF a]
  have loop: "returnsA (remove_loop eq v (length xs) 0 0) a
      (\<lambda>d' a'. \<exists>C. a' = a\<lparr>A_ARRAY_A := C\<rparr> \<and> length C = A_ARRAY_CAPACITY a \<and> d' \<le> length xs \<and>
         take (length xs - d') C = filter (\<lambda>x. kid x \<noteq> kid v) xs \<and>
         length xs - d' = length (filter (\<lambda>x. kid x \<noteq> kid v) xs))"
    using returnsA_remove_loop [of v "length xs" 0 "A_ARRAY_A a" 0 a] v d by simp
  show ?thesis
    unfolding AArrayRemove_def
    by (rule wpA_thenA, rule returnsA_readA [OF refl], simp only: d(3), rule returnsA_thenA [OF loop], rule returnsA_setA)
      (use d in \<open>auto intro!: is_arrayI\<close>)
qed

lemma in_loop_value:
  "valid v \<Longrightarrow> list_all valid (take n xs) \<Longrightarrow> n \<le> length xs \<Longrightarrow>
   in_loop eq v xs n = Inr (kid v \<in> kid ` set (take n xs))"
proof (induction n arbitrary: xs)
  case (Suc n)
  then show ?case by (cases xs) (auto simp: eq_item)
qed simp

lemma array_find_loop_value:
  "valid v \<Longrightarrow> list_all valid (take n xs) \<Longrightarrow> n \<le> length xs \<Longrightarrow>
   array_find_loop eq v xs i n =
   Inr (if kid v \<in> kid ` set (take n xs) then Some (i + length (takeWhile (\<lambda>x. kid x \<noteq> kid v) (take n xs))) else None)"
proof (induction n arbitrary: xs i)
  case (Suc n)
  then obtain x ys where xs: "xs = x # ys" by (cases xs) auto
  show ?case using Suc xs by (cases "kid x = kid v") (auto simp: eq_item image_iff)
qed simp

lemma array_count_loop_value:
  "valid v \<Longrightarrow> list_all valid (take n xs) \<Longrightarrow> n \<le> length xs \<Longrightarrow>
   array_count_loop eq v xs c n = Inr (c + length (filter (\<lambda>x. kid x = kid v) (take n xs)))"
proof (induction n arbitrary: xs c)
  case (Suc n)
  then show ?case by (cases xs) (auto simp: eq_item)
qed simp

end

sublocale key_contract \<subseteq> items: item_contract "keq K" valid kid
  by unfold_locales (rule eq_kid)

section \<open>Sequences of method calls\<close>

datatype 'v array_cmd = DoAppend 'v | DoExtend "'v extend_arg" | DoInsertAt aint 'v | DoRemove 'v | DoRemoveAt aint
  | DoGet aint | DoSet aint 'v | DoLength | DoFind 'v | DoCount 'v | DoIn 'v

datatype 'v array_reply = RUnit "aerror + unit" | RItem "aerror + 'v" | RInt "aerror + aint" | RBool "aerror + bool"

definition AArrayLengthMethod :: "'v aarray \<Rightarrow> aint" where
  "AArrayLengthMethod a = AShort (AIntToValue (of_nat (A_ARRAY_LEN a)))"

definition reply_with :: "((aerror + 'b) \<Rightarrow> 'v array_reply) \<Rightarrow> ('v, 'b) array_op \<Rightarrow>
    'v aarray \<Rightarrow> athread \<Rightarrow> 'v array_reply \<times> 'v aarray \<times> athread" where
  "reply_with R f a t = (case f a t of (r, a, t) \<Rightarrow> (R r, a, t))"

fun array_call :: "'v \<Rightarrow> 'v \<Rightarrow> ('v \<Rightarrow> 'v \<Rightarrow> aerror + bool) \<Rightarrow> 'v array_cmd \<Rightarrow>
    'v aarray \<Rightarrow> athread \<Rightarrow> 'v array_reply \<times> 'v aarray \<times> athread" where
  "array_call nil zero eq (DoAppend v) = reply_with RUnit (AArrayAppend nil v)"
| "array_call nil zero eq (DoExtend arg) = reply_with RUnit (AArrayExtend nil arg)"
| "array_call nil zero eq (DoInsertAt i v) = reply_with RUnit (AArrayInsertAt nil i v)"
| "array_call nil zero eq (DoRemove v) = reply_with RUnit (AArrayRemove eq v)"
| "array_call nil zero eq (DoRemoveAt i) = reply_with RItem (AArrayRemoveAt zero i)"
| "array_call nil zero eq (DoGet i) = reply_with RItem (AArray_get i)"
| "array_call nil zero eq (DoSet i v) = reply_with RUnit (AArray_set i v)"
| "array_call nil zero eq DoLength = reply_with RInt (readA (\<lambda>a. Inr (AArrayLengthMethod a)))"
| "array_call nil zero eq (DoFind v) = reply_with RInt (readA (AArrayFind eq v))"
| "array_call nil zero eq (DoCount v) = reply_with RInt (readA (AArrayCount eq v))"
| "array_call nil zero eq (DoIn v) = reply_with RBool (readA (AArray_in eq v))"

fun array_calls :: "'v \<Rightarrow> 'v \<Rightarrow> ('v \<Rightarrow> 'v \<Rightarrow> aerror + bool) \<Rightarrow> 'v array_cmd list \<Rightarrow>
    'v aarray \<Rightarrow> athread \<Rightarrow> 'v array_reply list" where
  "array_calls nil zero eq [] a t = []"
| "array_calls nil zero eq (c # cs) a t =
     (case array_call nil zero eq c a t of (r, a, t) \<Rightarrow> r # array_calls nil zero eq cs a t)"

text \<open>The same calls on a list.\<close>

fun spec_arg :: "'v list \<Rightarrow> 'v extend_arg \<Rightarrow> 'v list" where
  "spec_arg xs Itself = xs"
| "spec_arg xs (OtherArray b) = items b"
| "spec_arg xs (Sequence zs) = map projr zs"

definition out_of_range :: aerror where
  "out_of_range = ValueError ''Out of range''"

fun spec_array_call :: "('v \<Rightarrow> 'i) \<Rightarrow> 'v array_cmd \<Rightarrow> 'v list \<Rightarrow> 'v array_reply \<times> 'v list" where
  "spec_array_call kid (DoAppend v) xs = (RUnit (Inr ()), xs @ [v])"
| "spec_array_call kid (DoExtend arg) xs = (RUnit (Inr ()), xs @ spec_arg xs arg)"
| "spec_array_call kid (DoInsertAt i v) xs =
     (if \<not> in_int64 (int_value i) then (RUnit (Inl out_of_range), xs)
      else case insert_position (int_value i) (length xs) of
        None \<Rightarrow> (RUnit (Inl IndexError), xs)
      | Some j \<Rightarrow> (RUnit (Inr ()), take j xs @ v # drop j xs))"
| "spec_array_call kid (DoRemove v) xs = (RUnit (Inr ()), filter (\<lambda>x. kid x \<noteq> kid v) xs)"
| "spec_array_call kid (DoRemoveAt i) xs =
     (if \<not> in_int64 (int_value i) then (RItem (Inl out_of_range), xs)
      else case position (int_value i) (length xs) of
        None \<Rightarrow> (RItem (Inl IndexError), xs)
      | Some j \<Rightarrow> (RItem (Inr (xs ! j)), take j xs @ drop (Suc j) xs))"
| "spec_array_call kid (DoGet i) xs =
     (RItem (case position (int_value i) (length xs) of None \<Rightarrow> Inl IndexError | Some j \<Rightarrow> Inr (xs ! j)), xs)"
| "spec_array_call kid (DoSet i v) xs =
     (case position (int_value i) (length xs) of
        None \<Rightarrow> (RUnit (Inl IndexError), xs)
      | Some j \<Rightarrow> (RUnit (Inr ()), xs[j := v]))"
| "spec_array_call kid DoLength xs = (RInt (Inr (AShort (AIntToValue (of_nat (length xs))))), xs)"
| "spec_array_call kid (DoFind v) xs =
     (RInt (Inr (if kid v \<in> kid ` set xs then AMakeInt (of_nat (length (takeWhile (\<lambda>x. kid x \<noteq> kid v) xs)))
                 else AShort (AIntToValue (- 1)))), xs)"
| "spec_array_call kid (DoCount v) xs = (RInt (Inr (AMakeInt (of_nat (length (filter (\<lambda>x. kid x = kid v) xs))))), xs)"
| "spec_array_call kid (DoIn v) xs = (RBool (Inr (kid v \<in> kid ` set xs)), xs)"

fun spec_array_calls :: "('v \<Rightarrow> 'i) \<Rightarrow> 'v array_cmd list \<Rightarrow> 'v list \<Rightarrow> 'v array_reply list" where
  "spec_array_calls kid [] xs = []"
| "spec_array_calls kid (c # cs) xs = (case spec_array_call kid c xs of (r, xs) \<Rightarrow> r # spec_array_calls kid cs xs)"

text \<open>Arguments in the contract, and lists that stay short enough for a tagged length.\<close>

fun cmd_ok :: "('v \<Rightarrow> bool) \<Rightarrow> 'v array_cmd \<Rightarrow> bool" where
  "cmd_ok valid (DoAppend v) = valid v"
| "cmd_ok valid (DoExtend Itself) = True"
| "cmd_ok valid (DoExtend (OtherArray b)) = (wf_array b \<and> list_all valid (items b))"
| "cmd_ok valid (DoExtend (Sequence zs)) = list_all (\<lambda>z. \<exists>v. z = Inr v \<and> valid v) zs"
| "cmd_ok valid (DoInsertAt i v) = (norm_int i \<and> valid v)"
| "cmd_ok valid (DoRemove v) = valid v"
| "cmd_ok valid (DoRemoveAt i) = norm_int i"
| "cmd_ok valid (DoGet i) = norm_int i"
| "cmd_ok valid (DoSet i v) = (norm_int i \<and> valid v)"
| "cmd_ok valid DoLength = True"
| "cmd_ok valid (DoFind v) = valid v"
| "cmd_ok valid (DoCount v) = valid v"
| "cmd_ok valid (DoIn v) = valid v"

fun stays_small :: "('v \<Rightarrow> 'i) \<Rightarrow> 'v array_cmd list \<Rightarrow> 'v list \<Rightarrow> bool" where
  "stays_small kid [] xs = True"
| "stays_small kid (c # cs) xs \<longleftrightarrow> length xs < 2305843009213693952 \<and> stays_small kid cs (snd (spec_array_call kid c xs))"

lemma reply_runs:
  assumes "runsA f a (\<lambda>r a'. R r = fst S \<and> is_array (snd S) a')" "mem_ok t"
  shows "\<exists>a' t'. reply_with R f a t = (fst S, a', t') \<and> is_array (snd S) a' \<and> mem_ok t'"
  using assms unfolding runsA_def reply_with_def by fastforce

lemma reply_returns:
  assumes "returnsA f a (\<lambda>x a'. is_array ys a')" "mem_ok t" "\<And>x. S = (R (Inr x), ys)"
  shows "\<exists>a' t'. reply_with R f a t = (fst S, a', t') \<and> is_array (snd S) a' \<and> mem_ok t'"
  using assms unfolding returnsA_def runsA_def reply_with_def by fastforce

lemma reply_reads:
  assumes "g a = r" "is_array xs a" "mem_ok t" "S = (R r, xs)"
  shows "\<exists>a' t'. reply_with R (readA g) a t = (fst S, a', t') \<and> is_array (snd S) a' \<and> mem_ok t'"
  using assms by (simp add: reply_with_def readA_def)

lemma runsA_mono: "runsA f a P \<Longrightarrow> (\<And>r a'. P r a' \<Longrightarrow> Q r a') \<Longrightarrow> runsA f a Q"
  unfolding runsA_def by metis

lemma get_index_out:
  "norm_int index \<Longrightarrow> \<not> in_int64 (int_value index) \<Longrightarrow> AGetInt64 index = raise out_of_range"
  by (simp add: AGetInt64_norm out_of_range_def)

lemma index_out_of_range:
  assumes "norm_int i" "\<not> in_int64 (int_value i)" "is_array xs a"
  shows "runsA (AArrayInsertAt nil i v) a (\<lambda>r a'. r = Inl out_of_range \<and> is_array xs a')"
    and "runsA (AArrayRemoveAt zero i) a (\<lambda>r a'. r = Inl out_of_range \<and> is_array xs a')"
  using get_index_out [OF assms(1,2)] assms(3)
  by (simp_all add: runsA_def AArrayInsertAt_def AArrayRemoveAt_def thenA_def liftA_def raise_def)

text \<open>A list of valid items stays one.\<close>

lemma list_all_take_drop: "list_all P xs \<Longrightarrow> list_all P (take n xs) \<and> list_all P (drop n xs)"
  by (auto simp: list_all_iff dest: in_set_takeD in_set_dropD)

lemma list_all_update: "list_all P xs \<Longrightarrow> P v \<Longrightarrow> list_all P (xs[i := v])"
  by (cases "i < length xs") (auto simp: list_all_length nth_list_update)

lemma spec_arg_valid:
  "cmd_ok valid (DoExtend arg) \<Longrightarrow> list_all valid xs \<Longrightarrow> list_all valid (spec_arg xs arg)"
  by (cases arg) (auto simp: list_all_iff)

lemma spec_arg_items: "cmd_ok valid (DoExtend arg) \<Longrightarrow> arg_items xs arg (spec_arg xs arg)"
  by (cases arg) (auto simp: list_all_iff is_array_def intro!: map_idI [symmetric])

lemma spec_call_valid:
  assumes "list_all valid xs" "cmd_ok valid c"
  shows "list_all valid (snd (spec_array_call kid c xs))"
proof (cases c)
  case (DoExtend arg)
  then show ?thesis using assms spec_arg_valid [of valid arg xs] by simp
next
  case (DoInsertAt i v)
  then show ?thesis using assms by (simp add: list_all_take_drop split: option.split)
next
  case (DoRemove v)
  then show ?thesis using assms by (simp add: list_all_iff)
next
  case (DoRemoveAt i)
  then show ?thesis using assms by (simp add: list_all_take_drop split: option.split)
next
  case (DoSet i v)
  then show ?thesis using assms by (simp add: list_all_update split: option.split)
qed (use assms in simp_all)

context item_contract
begin

lemma insert_at_refines:
  assumes "is_array xs a" "norm_int i"
  shows "runsA (AArrayInsertAt nil i v) a
    (\<lambda>r a'. RUnit r = fst (spec_array_call kid (DoInsertAt i v) xs) \<and> is_array (snd (spec_array_call kid (DoInsertAt i v) xs)) a')"
proof (cases "in_int64 (int_value i)")
  case True
  show ?thesis using True
    by (intro runsA_mono [OF runsA_AArrayInsertAt [OF assms True]]) (simp split: option.splits)
next
  case False
  show ?thesis using False
    by (intro runsA_mono [OF index_out_of_range(1) [OF assms(2) False assms(1)]]) simp
qed

lemma remove_at_refines:
  assumes "is_array xs a" "norm_int i"
  shows "runsA (AArrayRemoveAt zero i) a
    (\<lambda>r a'. RItem r = fst (spec_array_call kid (DoRemoveAt i) xs) \<and> is_array (snd (spec_array_call kid (DoRemoveAt i) xs)) a')"
proof (cases "in_int64 (int_value i)")
  case True
  show ?thesis using True
    by (intro runsA_mono [OF runsA_AArrayRemoveAt [OF assms True]]) (simp split: option.splits)
next
  case False
  show ?thesis using False
    by (intro runsA_mono [OF index_out_of_range(2) [OF assms(2) False assms(1)]]) simp
qed

lemma array_call_refines:
  assumes a: "is_array xs a" "list_all valid xs" "length xs < 2305843009213693952" and c: "cmd_ok valid c" and t: "mem_ok t"
  shows "\<exists>a' t'. array_call nil zero eq c a t = (fst (spec_array_call kid c xs), a', t') \<and>
     is_array (snd (spec_array_call kid c xs)) a' \<and> mem_ok t'"
proof (cases c)
  case (DoAppend v)
  show ?thesis unfolding DoAppend array_call.simps
    by (rule reply_returns [OF returnsA_AArrayAppend [OF a(1)] t]) simp
next
  case (DoExtend arg)
  show ?thesis unfolding DoExtend array_call.simps
    by (rule reply_returns [OF returnsA_AArrayExtend [OF a(1) spec_arg_items [OF c [unfolded DoExtend]]] t]) simp
next
  case (DoInsertAt i v)
  show ?thesis using c unfolding DoInsertAt array_call.simps
    by (intro reply_runs [OF insert_at_refines [OF a(1)] t]) simp
next
  case (DoRemove v)
  show ?thesis using c a(2) unfolding DoRemove array_call.simps
    by (intro reply_returns [OF returnsA_AArrayRemove [OF a(1)] t]) simp_all
next
  case (DoRemoveAt i)
  show ?thesis using c unfolding DoRemoveAt array_call.simps
    by (intro reply_runs [OF remove_at_refines [OF a(1)] t]) simp
next
  case (DoGet i)
  then have "norm_int i" using c by simp
  then show ?thesis unfolding DoGet array_call.simps using a(1)
    by (intro reply_runs [OF runsA_mono [OF runsA_AArray_get [OF a(1) _ a(3)]] t]) simp_all
next
  case (DoSet i v)
  then have "norm_int i" using c by simp
  then show ?thesis unfolding DoSet array_call.simps
    by (intro reply_runs [OF runsA_mono [OF runsA_AArray_set [OF a(1) _ a(3)]] t]) (simp_all split: option.splits)
next
  case DoLength
  show ?thesis unfolding DoLength array_call.simps
    by (rule reply_reads [OF refl a(1) t]) (simp add: AArrayLengthMethod_def is_arrayD(3) [OF a(1)])
next
  case (DoFind v)
  have "AArrayFind eq v a = Inr (if kid v \<in> kid ` set xs then AMakeInt (of_nat (length (takeWhile (\<lambda>x. kid x \<noteq> kid v) xs)))
      else AShort (AIntToValue (- 1)))"
    using array_find_loop_value [of v "length xs" "A_ARRAY_A a" 0] is_arrayD [OF a(1)] a(2) c DoFind by (simp add: AArrayFind_def)
  then show ?thesis unfolding DoFind array_call.simps by (rule reply_reads [OF _ a(1) t]) simp
next
  case (DoCount v)
  have "AArrayCount eq v a = Inr (AMakeInt (of_nat (length (filter (\<lambda>x. kid x = kid v) xs))))"
    using array_count_loop_value [of v "length xs" "A_ARRAY_A a" 0] is_arrayD [OF a(1)] a(2) c DoCount by (simp add: AArrayCount_def)
  then show ?thesis unfolding DoCount array_call.simps by (rule reply_reads [OF _ a(1) t]) simp
next
  case (DoIn v)
  have "AArray_in eq v a = Inr (kid v \<in> kid ` set xs)"
    using in_loop_value [of v "length xs" "A_ARRAY_A a"] is_arrayD [OF a(1)] a(2) c DoIn by (simp add: AArray_in_def)
  then show ?thesis unfolding DoIn array_call.simps by (rule reply_reads [OF _ a(1) t]) simp
qed

lemma array_calls_refine_list:
  "is_array xs a \<Longrightarrow> list_all valid xs \<Longrightarrow> stays_small kid cs xs \<Longrightarrow> list_all (cmd_ok valid) cs \<Longrightarrow> mem_ok t \<Longrightarrow>
   array_calls nil zero eq cs a t = spec_array_calls kid cs xs"
proof (induction cs arbitrary: xs a t)
  case (Cons c cs)
  obtain a' t' where s: "array_call nil zero eq c a t = (fst (spec_array_call kid c xs), a', t')"
      "is_array (snd (spec_array_call kid c xs)) a'" "mem_ok t'"
    using array_call_refines [OF Cons.prems(1,2), of c t nil zero] Cons.prems by auto
  have "array_calls nil zero eq cs a' t' = spec_array_calls kid cs (snd (spec_array_call kid c xs))"
    using Cons.prems by (intro Cons.IH s spec_call_valid) simp_all
  then show ?case using s(1) by (simp add: case_prod_unfold)
qed simp

end

end
