(* ===== verification/Array_Seq_Lemmas.thy ===== *)
theory Array_Seq_Lemmas
  imports Array_Update_Lemmas
begin

text \<open>The operations that make new arrays, iteration and comparison, against lists.\<close>

section \<open>New arrays\<close>

lemma is_array_new [simp]: "is_array xs (new_array xs)"
  by (rule is_arrayI) (simp_all add: new_array_def)

lemma meets_liftE: "m = Inr x \<Longrightarrow> P x \<Longrightarrow> meets Q (liftE m) P"
  by (auto simp: liftE_def intro: meets_ret)

lemma meets_AMakeArrayND: "meets Q (AMakeArrayND nil n) (\<lambda>r. r = new_array (replicate n nil))"
  unfolding AMakeArrayND_def new_array_def by (auto intro!: meets_any_alloc_then meets_ret)

lemma read_cells_items: "is_array xs a \<Longrightarrow> i + n \<le> length xs \<or> n = 0 \<Longrightarrow> read_cells (A_ARRAY_A a) i n = Inr (take n (drop i xs))"
proof -
  assume a: "is_array xs a" and n: "i + n \<le> length xs \<or> n = 0"
  have "take n (drop i (A_ARRAY_A a)) = take n (drop i xs)" if "i + n \<le> length xs"
    using is_arrayD(6) [OF a] that by (metis add.commute min.absorb1 take_drop take_take)
  then show ?thesis using n is_arrayD(4,5) [OF a] by (auto simp: read_cells_def)
qed

lemma read_all: "is_array xs a \<Longrightarrow> read_cells (A_ARRAY_A a) 0 (length xs) = Inr xs"
  using read_cells_items [of xs a 0 "length xs"] by simp

lemma meets_AMake_then: "(\<And>r. r = new_array (replicate n nil) \<Longrightarrow> meets Q (f r) P) \<Longrightarrow> meets Q (bindM (AMakeArrayND nil n) f) P"
  by (rule meets_bind [OF meets_AMakeArrayND])

lemma meets_liftE_then: "m = Inr x \<Longrightarrow> meets Q (f x) P \<Longrightarrow> meets Q (bindM (liftE m) f) P"
  by (rule meets_bind [OF meets_liftE [where P = "\<lambda>y. y = x"]]) auto

lemma meets_ASubArrayND:
  assumes a: "is_array xs a"
  shows "meets Q (ASubArrayND nil a i j) (is_array (slice i j xs))"
proof -
  define n b e where "n = int (length xs)"
    and "b = (if i < 0 then max (n + i) 0 else i)" and "e = (if j < 0 then n + j else if j > n then n else j)"
  define e' where "e' = (if e < b then b else e)"
  have bounds: "0 \<le> b" "e \<le> n" by (auto simp: b_def e_def n_def)
  have sl: "slice i j xs = take (nat (e' - b)) (drop (nat b) xs)"
    by (auto simp: slice_def Let_def n_def b_def e_def e'_def min_def)
  have "nat b + nat (e' - b) \<le> length xs \<or> nat (e' - b) = 0"
    using bounds by (auto simp: e'_def n_def)
  note read = read_cells_items [OF a this]
  show ?thesis
    unfolding ASubArrayND_def Let_def is_arrayD(3) [OF a] n_def [symmetric]
    unfolding b_def [symmetric] e_def [symmetric]
    unfolding e'_def [symmetric] sl
    by (intro meets_AMake_then meets_liftE_then [OF read] meets_ret is_array_new)
qed

lemma meets_AConcatArrays:
  assumes "is_array xs a" "is_array ys b"
  shows "meets Q (AConcatArrays nil a b) (is_array (xs @ ys))"
  unfolding AConcatArrays_def is_arrayD(3) [OF assms(1)] is_arrayD(3) [OF assms(2)]
  by (intro meets_AMake_then meets_liftE_then [OF read_all [OF assms(1)]] meets_liftE_then [OF read_all [OF assms(2)]]
      meets_ret is_array_new)

lemma meets_AArrayCopy:
  assumes "is_array xs a"
  shows "meets Q (AArrayCopy nil a) (is_array xs)"
  unfolding AArrayCopy_def is_arrayD(3) [OF assms]
  by (intro meets_AMake_then meets_liftE_then [OF read_all [OF assms]] meets_ret is_array_new)

section \<open>Repetition\<close>

lemma meets_mul_cells:
  "i + k = length dst \<Longrightarrow> 0 < n \<Longrightarrow> n \<le> length src \<Longrightarrow>
   meets Q (mul_cells k i (i mod n) n src dst) (\<lambda>r. r = take i dst @ map (\<lambda>m. src ! (m mod n)) [i..<i + k])"
proof (induction k arbitrary: i dst)
  case 0
  then show ?case by (auto intro!: meets_ret)
next
  case (Suc k)
  let ?d = "dst[i := src ! (i mod n)]"
  have j: "i mod n < length src" using Suc.prems by (meson mod_less_divisor order_less_le_trans)
  have nxt: "(if i mod n + 1 = n then 0 else i mod n + 1) = (i + 1) mod n"
    by (simp add: mod_Suc)
  have up: "[i..<i + Suc k] = i # [Suc i..<Suc i + k]" by (simp add: upt_conv_Cons)
  have "meets Q (mul_cells k (i + 1) ((i + 1) mod n) n src ?d)
      (\<lambda>r. r = take (i + 1) ?d @ map (\<lambda>m. src ! (m mod n)) [i + 1..<i + 1 + k])"
    using Suc.prems by (intro Suc.IH) simp_all
  moreover have "take (i + 1) ?d = take i dst @ [src ! (i mod n)]"
    using Suc.prems by (simp add: take_Suc_conv_app_nth)
  ultimately have rest: "meets Q (mul_cells k (i + 1) ((i + 1) mod n) n src ?d)
      (\<lambda>r. r = take i dst @ map (\<lambda>m. src ! (m mod n)) [i..<i + Suc k])"
    unfolding up by simp
  show ?case
    unfolding mul_cells.simps nxt
    by (rule meets_liftE_then, simp only: AFixArrayItem_def if_P [OF j], rule meets_bind [OF meets_fix_store])
      (use Suc.prems rest in auto)
qed

lemma repeat_items: "map (\<lambda>m. xs ! (m mod length xs)) [0..<length xs * n] = concat (replicate n xs)"
proof (induction n)
  case (Suc n)
  have "[0..<length xs * Suc n] = [0..<length xs * n] @ map (\<lambda>m. length xs * n + m) [0..<length xs]"
    using upt_add_eq_append [of 0 "length xs * n" "length xs"] map_add_upt [of "length xs * n" "length xs"]
    by (simp add: add.commute)
  then have "map (\<lambda>m. xs ! (m mod length xs)) [0..<length xs * Suc n] =
      concat (replicate n xs) @ map (\<lambda>m. xs ! (m mod length xs)) [0..<length xs]"
    using Suc.IH by simp
  also have "map (\<lambda>m. xs ! (m mod length xs)) [0..<length xs] = xs" by (rule nth_equalityI) simp_all
  finally show ?case by (metis concat_append concat.simps append_Nil2 replicate_append_same replicate_Suc)
qed simp

lemma meets_mul_array:
  assumes a: "is_array xs a"
  shows "meets Q (mul_cells (length xs * n) 0 0 (length xs) (A_ARRAY_A a) (replicate (length xs * n) nil)) (\<lambda>r. r = concat (replicate n xs))"
proof (cases "xs = []")
  case True
  then show ?thesis by (auto intro!: meets_ret)
next
  case False
  let ?k = "length xs * n"
  have "map (\<lambda>m. A_ARRAY_A a ! (m mod length xs)) [0..<?k] = map (\<lambda>m. xs ! (m mod length xs)) [0..<?k]"
    using False by (intro map_cong refl is_array_nth [OF a]) simp
  then show ?thesis
    using meets_mul_cells [of 0 ?k "replicate ?k nil" "length xs" "A_ARRAY_A a" Q] False is_arrayD(4,5) [OF a]
    by (simp add: repeat_items)
qed

lemma count_value:
  assumes "norm_int arg" "0 \<le> int_value arg" "int_value arg < 9223372036854775808"
  shows "\<exists>w. AGetInt64 arg = ret w \<and> 0 \<le> sint w \<and> unat w = nat (int_value arg)"
proof -
  have range: "in_int64 (int_value arg)" using assms(2,3) unfolding in_int64_def by linarith
  from get_index [OF assms(1) range] obtain w where w: "AGetInt64 arg = ret w" "sint w = int_value arg" by (elim exE conjE)
  have "int (unat w) < 18446744073709551616" using unsigned_less [of w, where ?'a = int] by simp
  then have "int (unat w) = int_value arg"
    using w(2) assms(2) unfolding sint_unat by (simp only: split: if_splits)
  then have "unat w = nat (int_value arg)" by linarith
  then show ?thesis using w assms(2) by auto
qed

lemma meets_AArray_mul:
  assumes a: "is_array xs a" and v: "norm_int arg" "0 \<le> int_value arg" "int_value arg < 9223372036854775808"
    and small: "length xs * nat (int_value arg) < 2 ^ 63"
  shows "meets Q (AArray_mul nil arg a) (is_array (concat (replicate (nat (int_value arg)) xs)))"
proof -
  define n where "n = nat (int_value arg)"
  obtain w where w: "AGetInt64 arg = ret w" "0 \<le> sint w" "unat w = n" using count_value [OF v] n_def by blast
  have neg: "\<not> sint w < 0" and small': "\<not> length xs * n \<ge> 2 ^ 63" using w(2) small by (simp_all add: n_def)
  show ?thesis
    unfolding AArray_mul_def w(1) bind_ret Let_def w(3) is_arrayD(3) [OF a] n_def [symmetric] if_not_P [OF neg] if_not_P [OF small']
  proof (cases "length xs = 1")
    case True
    then obtain x where xs: "xs = [x]" by (auto simp: length_Suc_conv)
    have item: "AFixArrayItem (A_ARRAY_A a) 0 = Inr x"
      using is_array_nth [OF a, of 0] is_arrayD(4,5) [OF a] xs by (simp add: AFixArrayItem_def)
    have rep: "concat (replicate n xs) = replicate n x" unfolding xs by (induction n) simp_all
    show "meets Q (if length xs = 1 then bindM (AMakeArrayND nil n)
         (\<lambda>_. bindM (liftE (AFixArrayItem (A_ARRAY_A a) 0)) (\<lambda>init. ret (new_array (replicate n init))))
       else bindM (AMakeArrayND nil (length xs * n)) (\<lambda>r. bindM (mul_cells (length xs * n) 0 0 (length xs) (A_ARRAY_A a) (A_ARRAY_A r))
         (\<lambda>dst. ret (r\<lparr>A_ARRAY_A := dst\<rparr>)))) (is_array (concat (replicate n xs)))"
      unfolding rep if_P [OF True] by (intro meets_AMake_then meets_liftE_then [OF item] meets_ret is_array_new)
  next
    case False
    have arr: "is_array (concat (replicate n xs)) (new_array (replicate (length xs * n) nil)\<lparr>A_ARRAY_A := concat (replicate n xs)\<rparr>)"
      by (rule is_arrayI) (simp_all add: new_array_def length_concat sum_list_replicate mult.commute)
    have new: "A_ARRAY_A (new_array ys) = ys" for ys :: "'a list" by (simp add: new_array_def)
    show "meets Q (if length xs = 1 then bindM (AMakeArrayND nil n)
         (\<lambda>_. bindM (liftE (AFixArrayItem (A_ARRAY_A a) 0)) (\<lambda>init. ret (new_array (replicate n init))))
       else bindM (AMakeArrayND nil (length xs * n)) (\<lambda>r. bindM (mul_cells (length xs * n) 0 0 (length xs) (A_ARRAY_A a) (A_ARRAY_A r))
         (\<lambda>dst. ret (r\<lparr>A_ARRAY_A := dst\<rparr>)))) (is_array (concat (replicate n xs)))"
      unfolding if_not_P [OF False]
      by (rule meets_AMake_then, simp only: new, rule meets_bind [OF meets_mul_array [OF a]], simp only:, rule meets_ret, rule arr)
  qed
qed

section \<open>Iteration\<close>

text \<open>The items that the iterator gives, while it has some.\<close>

primrec drain :: "nat \<Rightarrow> 'v array_iter \<Rightarrow> aerror + 'v list" where
  "drain 0 it = (if AArrayTupleIterHasNext it then Inl UndefinedBehaviour else Inr [])"
| "drain (Suc n) it =
     (if AArrayTupleIterHasNext it then
        bindE (AArrayTupleIterNext it) (\<lambda>(v, it). bindE (drain n it) (\<lambda>vs. Inr (v # vs)))
      else Inr [])"

lemma drain_rest:
  "ARRAY_ITER_I it \<le> ARRAY_ITER_LEN it \<Longrightarrow> ARRAY_ITER_LEN it \<le> length (ARRAY_ITER_A it) \<Longrightarrow>
   ARRAY_ITER_LEN it - ARRAY_ITER_I it \<le> n \<Longrightarrow>
   drain n it = Inr (drop (ARRAY_ITER_I it) (take (ARRAY_ITER_LEN it) (ARRAY_ITER_A it)))"
proof (induction n arbitrary: it)
  case (Suc n)
  show ?case
  proof (cases "ARRAY_ITER_I it < ARRAY_ITER_LEN it")
    case True
    let ?it = "it\<lparr>ARRAY_ITER_I := ARRAY_ITER_I it + 1\<rparr>"
    have "drain n ?it = Inr (drop (ARRAY_ITER_I it + 1) (take (ARRAY_ITER_LEN it) (ARRAY_ITER_A it)))"
      using Suc.IH [of ?it] Suc.prems True by simp
    moreover have "drop (ARRAY_ITER_I it) (take (ARRAY_ITER_LEN it) (ARRAY_ITER_A it)) =
        ARRAY_ITER_A it ! ARRAY_ITER_I it # drop (ARRAY_ITER_I it + 1) (take (ARRAY_ITER_LEN it) (ARRAY_ITER_A it))"
      using True Suc.prems by (simp add: Cons_nth_drop_Suc [symmetric])
    ultimately show ?thesis using True Suc.prems
      by (simp add: AArrayTupleIterHasNext_def AArrayTupleIterNext_def AFixArrayItem_def)
  qed (use Suc.prems in \<open>simp add: AArrayTupleIterHasNext_def\<close>)
qed (simp add: AArrayTupleIterHasNext_def)

lemma drain_array: "is_array xs a \<Longrightarrow> length xs \<le> n \<Longrightarrow> drain n (AArrayIter a) = Inr xs"
  using drain_rest [of "AArrayIter a" n] is_arrayD [of xs a] by (simp add: AArrayIter_def)

section \<open>Comparison\<close>

text \<open>
  The order of nested arrays by a rank of the items in them: the sign of the first difference, or
  else of the difference of the lengths.
\<close>

fun nest_order :: "('v \<Rightarrow> int) \<Rightarrow> 'v nested \<Rightarrow> 'v nested \<Rightarrow> int" and
    list_order :: "('v \<Rightarrow> int) \<Rightarrow> 'v nested list \<Rightarrow> 'v nested list \<Rightarrow> int" where
  "nest_order f (Single x) (Single y) = f x - f y"
| "nest_order f (Nest xs) (Nest ys) = list_order f xs ys"
| "nest_order f (Single x) (Nest ys) = - 1"
| "nest_order f (Nest xs) (Single y) = 1"
| "list_order f [] [] = 0"
| "list_order f [] (y # ys) = - 1"
| "list_order f (x # xs) [] = 1"
| "list_order f (x # xs) (y # ys) = (if nest_order f x y = 0 then list_order f xs ys else nest_order f x y)"

text \<open>Arrays that can be compared: of the same shape, with at most the given number of levels.\<close>

fun comparable :: "nat \<Rightarrow> 'v nested \<Rightarrow> 'v nested \<Rightarrow> bool" and
    all_comparable :: "nat \<Rightarrow> 'v nested list \<Rightarrow> 'v nested list \<Rightarrow> bool" where
  "comparable n (Single x) (Single y) = True"
| "comparable n (Nest xs) (Nest ys) =
     (case n of 0 \<Rightarrow> False
      | Suc m \<Rightarrow> min (length xs) (length ys) < 2147483648 \<and> all_comparable m xs ys)"
| "comparable n (Single x) (Nest ys) = False"
| "comparable n (Nest xs) (Single y) = False"
| "all_comparable n (x # xs) (y # ys) = (comparable n x y \<and> all_comparable n xs ys)"
| "all_comparable n [] ys = True"
| "all_comparable n xs [] = True"

fun sign_satisfies :: "operator \<Rightarrow> int \<Rightarrow> bool" where
  "sign_satisfies OPER_EQ c = (c = 0)"
| "sign_satisfies OPER_NEQ c = (c \<noteq> 0)"
| "sign_satisfies OPER_LT c = (c < 0)"
| "sign_satisfies OPER_LTE c = (c \<le> 0)"
| "sign_satisfies OPER_GT c = (0 < c)"
| "sign_satisfies OPER_GTE c = (0 \<le> c)"

definition compares :: "('v \<Rightarrow> int) \<Rightarrow> (operator \<Rightarrow> 'v nested \<Rightarrow> 'v nested \<Rightarrow> aerror + bool) \<Rightarrow> bool" where
  "compares f cmp \<longleftrightarrow> (\<forall>op x y. cmp op (Single x) (Single y) = Inr (sign_satisfies op (f x - f y)))"

lemma common_len_small: "min m n < 2147483648 \<Longrightarrow> common_len m n = min m n"
proof -
  assume "min m n < 2147483648"
  then have "sint (word_of_nat (min m n) :: 32 word) = int (min m n)"
    by (simp add: signed_of_nat signed_take_bit_int_eq_self del: of_nat_min min_less_iff_disj)
  then show ?thesis by (simp add: common_len_def)
qed

lemma first_diff_value:
  assumes "\<And>x y. comparable n x y \<Longrightarrow> eq x y = Inr (nest_order f x y = 0)" "all_comparable n xs ys"
  shows "first_diff eq (take (min (length xs) (length ys)) xs) (take (min (length xs) (length ys)) ys) = first_diff eq xs ys
    \<and> ((first_diff eq xs ys = Inr None \<and> (list_order f xs ys < 0 \<longleftrightarrow> length xs < length ys) \<and> (list_order f xs ys = 0 \<longleftrightarrow> length xs = length ys))
       \<or> (\<exists>x y. first_diff eq xs ys = Inr (Some (x, y)) \<and> comparable n x y \<and> list_order f xs ys = nest_order f x y))"
  using assms(2)
proof (induction xs ys rule: list_induct2')
  case (4 x xs y ys)
  then show ?case using assms(1) [of x y] by (cases "nest_order f x y = 0") auto
qed auto

lemma compare_lengths_sign:
  "(c < 0 \<longleftrightarrow> m < n) \<Longrightarrow> (c = 0 \<longleftrightarrow> m = n) \<Longrightarrow> compare_lengths op m n = sign_satisfies op c"
  by (cases op) (auto simp: compare_lengths_def ALtSatisfiesOp_def AEqSatisfiesOp_def AGtSatisfiesOp_def)

lemma CompareArraysRecursive_value:
  assumes cmp: "compares f cmp"
  shows "comparable n x y \<Longrightarrow> CompareArraysRecursive cmp n op x y = Inr (sign_satisfies op (nest_order f x y))"
proof (induction n arbitrary: op x y)
  case 0
  then show ?case using cmp by (cases x; cases y) (auto simp: compares_def)
next
  case (Suc n)
  show ?case
  proof (cases "\<exists>xs ys. x = Nest xs \<and> y = Nest ys")
    case True
    then obtain xs ys where xy: "x = Nest xs" "y = Nest ys" by blast
    have len: "min (length xs) (length ys) < 2147483648" and all: "all_comparable n xs ys" using Suc.prems xy by auto
    have "CompareArraysRecursive cmp n OPER_EQ u v = Inr (nest_order f u v = 0)" if "comparable n u v" for u v
      using Suc.IH [OF that] by simp
    from first_diff_value [OF this all] show ?thesis
      using xy common_len_small [OF len] compare_lengths_sign [of "list_order f xs ys"] Suc.IH by (auto simp: Let_def)
  next
    case False
    then show ?thesis using Suc.prems cmp by (cases x; cases y) (auto simp: compares_def)
  qed
qed

lemma meets_ACompareArrays:
  assumes "compares f cmp" "comparable (MAX_ARRAY_COMPARE_DEPTH - 1) (Nest xs) (Nest ys)"
  shows "meets Q (ACompareArrays cmp xs ys op) (\<lambda>r. r = sign_satisfies op (list_order f xs ys))"
  unfolding ACompareArrays_def CompareArraysRecursive_value [OF assms]
  by (intro meets_with_temps meets_liftE [OF refl]) simp

text \<open>Too many levels raise an exception.\<close>

fun tower :: "nat \<Rightarrow> 'v nested" where
  "tower 0 = Nest []"
| "tower (Suc n) = Nest [tower n]"

lemma compare_tower: "CompareArraysRecursive cmp n op (tower n) (tower n) = Inl (ValueError [])"
proof (induction n arbitrary: op)
  case (Suc n)
  then show ?case by (simp add: common_len_def Let_def)
qed simp

end
