(* ===== verification/Str_Cut.thy ===== *)
theory Str_Cut
  imports Str_Lemmas
begin

text \<open>
  The reference for searching, counting, splitting, replacing and joining: occurrences of one list
  in another, and the parts that remain when non-overlapping occurrences are cut out from the left.
\<close>

section \<open>Occurrences\<close>

definition occurs_at :: "'a list \<Rightarrow> nat \<Rightarrow> 'a list \<Rightarrow> bool" where
  "occurs_at xs i ys \<longleftrightarrow> take (length ys) (drop i xs) = ys"

lemma occurs_at_nth:
  "i + length ys \<le> length xs \<Longrightarrow> occurs_at xs i ys \<longleftrightarrow> (\<forall>k<length ys. xs ! (i + k) = ys ! k)"
  by (auto simp: occurs_at_def list_eq_iff_nth_eq)

lemma occurs_at_length: "occurs_at xs i ys \<Longrightarrow> i \<le> length xs \<Longrightarrow> i + length ys \<le> length xs"
  unfolding occurs_at_def by (metis add.commute length_drop length_take min.cobounded1 Nat.le_diff_conv2)

lemma occurs_at_drop: "occurs_at (drop i xs) k ys \<longleftrightarrow> occurs_at xs (i + k) ys"
  by (simp add: occurs_at_def add.commute)

lemma match_loop_value:
  assumes wf: "wf_str src" "wf_str dst" and len: "i + n \<le> AStrLen src" "n \<le> AStrLen dst"
  shows "match_loop src i dst n j = Inr (\<forall>k. j \<le> k \<and> k < n \<longrightarrow> str_elems src ! (i + k) = str_elems dst ! k)"
proof (induction "n - j" arbitrary: j)
  case 0
  then show ?case by (subst match_loop.simps) simp
next
  case (Suc d)
  then have j: "j < n" by simp
  have IH: "match_loop src i dst n (Suc j) =
      Inr (\<forall>k. Suc j \<le> k \<and> k < n \<longrightarrow> str_elems src ! (i + k) = str_elems dst ! k)"
    by (rule Suc.hyps) (use Suc.hyps(2) in simp)
  have "AStrItem src (i + j) = Inr (str_elems src ! (i + j))" "AStrItem dst j = Inr (str_elems dst ! j)"
    using wf len j by (simp_all add: AStrItem_nth)
  then have "match_loop src i dst n j =
      Inr (str_elems src ! (i + j) = str_elems dst ! j \<and>
           (\<forall>k. Suc j \<le> k \<and> k < n \<longrightarrow> str_elems src ! (i + k) = str_elems dst ! k))"
    using j by (subst match_loop.simps) (simp add: IH)
  moreover have "(\<forall>k. j \<le> k \<and> k < n \<longrightarrow> P k) \<longleftrightarrow> P j \<and> (\<forall>k. Suc j \<le> k \<and> k < n \<longrightarrow> P k)" for P
    using j by (metis Suc_leD Suc_leI le_neq_implies_less order_refl)
  ultimately show ?case by simp
qed

lemma match_here_value:
  assumes wf: "wf_str str" "wf_str sub" and len: "0 < AStrLen sub" "i + AStrLen sub \<le> AStrLen str"
  shows "match_here str i (str_elems sub ! 0) sub (AStrLen sub) = Inr (occurs_at (str_elems str) i (str_elems sub))"
proof -
  have "occurs_at (str_elems str) i (str_elems sub) \<longleftrightarrow>
      str_elems str ! i = str_elems sub ! 0 \<and>
      (\<forall>k. 1 \<le> k \<and> k < AStrLen sub \<longrightarrow> str_elems str ! (i + k) = str_elems sub ! k)"
    using wf len by (subst occurs_at_nth) (auto simp: Suc_le_eq, metis add_0_right gr0I)
  then show ?thesis
    using wf len by (simp add: match_here_def AStrItem_nth IsMatchAt_def match_loop_value)
qed

section \<open>Searching\<close>

text \<open>The first occurrence from \<open>i\<close> on, or \<open>- 1\<close>.\<close>

definition first_occurrence :: "'a list \<Rightarrow> nat \<Rightarrow> 'a list \<Rightarrow> int \<Rightarrow> bool" where
  "first_occurrence xs i ys r \<longleftrightarrow>
     (if r = - 1 then \<forall>k. i \<le> k \<and> k \<le> length xs \<longrightarrow> \<not> occurs_at xs k ys
      else 0 \<le> r \<and> i \<le> nat r \<and> nat r \<le> length xs \<and> occurs_at xs (nat r) ys \<and>
           (\<forall>k. i \<le> k \<and> k < nat r \<longrightarrow> \<not> occurs_at xs k ys))"

lemma first_occurrence_Suc:
  assumes "\<not> occurs_at xs i ys" "first_occurrence xs (Suc i) ys r"
  shows "first_occurrence xs i ys r"
proof -
  have "k = i \<or> Suc i \<le> k" if "i \<le> k" for k using that by auto
  then show ?thesis using assms unfolding first_occurrence_def by (auto split: if_splits)
qed

lemma search_loop_value:
  assumes wf: "wf_str str" "wf_str sub" and len: "0 < AStrLen sub"
  shows "\<exists>r. search_loop str i (str_elems sub ! 0) sub (AStrLen sub) = Inr r \<and>
             first_occurrence (str_elems str) i (str_elems sub) r"
proof (induction "Suc (AStrLen str) - i" arbitrary: i)
  case 0
  then show ?case by (subst search_loop.simps) (use wf 0 in \<open>auto simp: first_occurrence_def\<close>)
next
  case (Suc d)
  let ?c = "str_elems sub ! 0" and ?n = "AStrLen sub"
  show ?case
  proof (cases "i + ?n \<le> AStrLen str")
    case True
    note here = match_here_value [OF wf len True]
    obtain r where r: "search_loop str (Suc i) ?c sub ?n = Inr r" "first_occurrence (str_elems str) (Suc i) (str_elems sub) r"
      using Suc.hyps(1) [of "Suc i"] Suc.hyps(2) by (metis Suc_inject True Suc_diff_le add_leD1 diff_Suc_Suc)
    show ?thesis
    proof (cases "occurs_at (str_elems str) i (str_elems sub)")
      case True
      then have "search_loop str i ?c sub ?n = Inr (int i)"
        using \<open>i + ?n \<le> AStrLen str\<close> here by (subst search_loop.simps) simp
      then show ?thesis using True \<open>i + ?n \<le> AStrLen str\<close> wf by (auto simp: first_occurrence_def)
    next
      case False
      then have "search_loop str i ?c sub ?n = Inr r"
        using \<open>i + ?n \<le> AStrLen str\<close> here r(1) by (subst search_loop.simps) simp
      then show ?thesis using False r(2) by (blast intro: first_occurrence_Suc)
    qed
  next
    case False
    then have "\<not> occurs_at (str_elems str) k (str_elems sub)" if "i \<le> k" "k \<le> AStrLen str" for k
      using occurs_at_length [of "str_elems str" k "str_elems sub"] that wf by fastforce
    then show ?thesis using False wf by (subst search_loop.simps) (simp add: first_occurrence_def)
  qed
qed

lemma Find_value:
  assumes wf: "wf_str str" "wf_str sub"
  shows "\<exists>r. Find str i sub = Inr r \<and> first_occurrence (str_elems str) i (str_elems sub) r"
proof (cases "AStrLen sub = 0")
  case True
  then have "str_elems sub = []" using length_str_elems [OF wf(2)] by simp
  then show ?thesis using True wf by (auto simp: Find_def first_occurrence_def occurs_at_def)
next
  case False
  then show ?thesis using search_loop_value [OF wf, of i] wf by (simp add: Find_def AStrItem_nth)
qed

section \<open>Cutting\<close>

function parts :: "'a list \<Rightarrow> nat \<Rightarrow> 'a list \<Rightarrow> 'a list list" where
  "parts ys m [] = [[]]"
| "parts ys m (x # xs) =
     (if 0 < m \<and> occurs_at (x # xs) 0 ys then [] # parts ys (m - 1) (drop (length ys - 1) xs)
      else case parts ys m xs of p # ps \<Rightarrow> (x # p) # ps | [] \<Rightarrow> [])"
  by pat_completeness auto

termination
  by (relation "measure (\<lambda>(_, _, xs). length xs)") auto

primrec intercalate :: "'a list \<Rightarrow> 'a list list \<Rightarrow> 'a list" where
  "intercalate ys [] = []"
| "intercalate ys (p # ps) = (if ps = [] then p else p @ ys @ intercalate ys ps)"

definition prepend :: "'a list \<Rightarrow> 'a list list \<Rightarrow> 'a list list" where
  "prepend p ps = (p @ hd ps) # List.tl ps"

lemma parts_ne [simp]: "parts ys m xs \<noteq> []"
proof (induction ys m xs rule: parts.induct)
  case (2 ys m x xs)
  then show ?case
    by (cases "0 < m \<and> occurs_at (x # xs) 0 ys"; cases "parts ys m xs") (simp, simp, blast, simp)
qed simp

lemma parts_no_occurrence:
  "\<not> (0 < m \<and> occurs_at (x # xs) 0 ys) \<Longrightarrow> parts ys m (x # xs) = prepend [x] (parts ys m xs)"
  by (cases "parts ys m xs") (auto simp: prepend_def)

lemma parts_occurrence:
  "0 < m \<Longrightarrow> ys \<noteq> [] \<Longrightarrow> xs \<noteq> [] \<Longrightarrow> occurs_at xs 0 ys \<Longrightarrow> parts ys m xs = [] # parts ys (m - 1) (drop (length ys) xs)"
  by (cases xs; cases ys) auto

lemma parts_short: "length xs < length ys \<Longrightarrow> parts ys m xs = [xs]"
proof (induction xs)
  case (Cons x xs)
  then have "\<not> occurs_at (x # xs) 0 ys" by (auto dest: occurs_at_length)
  then have "parts ys m (x # xs) = prepend [x] (parts ys m xs)" by (intro parts_no_occurrence) simp
  then show ?case using Cons by (simp add: prepend_def)
qed simp

lemma parts_0: "parts ys 0 xs = [xs]"
  by (induction xs) auto

lemma intercalate_prepend: "ps \<noteq> [] \<Longrightarrow> intercalate ys (prepend p ps) = p @ intercalate ys ps"
  by (cases ps) (auto simp: prepend_def)

lemma prepend_append: "prepend p (prepend q ps) = prepend (p @ q) ps"
  by (simp add: prepend_def)

lemma intercalate_parts: "ys \<noteq> [] \<Longrightarrow> intercalate ys (parts ys m xs) = xs"
proof (induction ys m xs rule: parts.induct)
  case (2 ys m x xs)
  show ?case
  proof (cases "0 < m \<and> occurs_at (x # xs) 0 ys")
    case True
    then have "ys @ drop (length ys - 1) xs = x # xs"
      using "2.prems" append_take_drop_id [of "length ys" "x # xs"] by (cases ys) (auto simp: occurs_at_def)
    then show ?thesis using True 2 by simp
  next
    case False
    then have "parts ys m (x # xs) = prepend [x] (parts ys m xs)" by (rule parts_no_occurrence)
    moreover have "intercalate ys (parts ys m xs) = xs" using False 2 by blast
    ultimately show ?thesis by (simp only: intercalate_prepend [OF parts_ne]) simp
  qed
qed simp

text \<open>Positions of a longer list.\<close>

lemma parts_skip:
  assumes "i < length xs" "\<not> (0 < m \<and> occurs_at xs i ys)"
  shows "parts ys m (drop i xs) = prepend [xs ! i] (parts ys m (drop (Suc i) xs))"
proof -
  have "drop i xs = xs ! i # drop (Suc i) xs" using assms(1) by (rule Cons_nth_drop_Suc [symmetric])
  then show ?thesis using assms(2) parts_no_occurrence [of m "xs ! i" "drop (Suc i) xs" ys]
    by (metis occurs_at_drop add_0_right)
qed

lemma parts_match:
  assumes "i < length xs" "ys \<noteq> []" "0 < m" "occurs_at xs i ys"
  shows "parts ys m (drop i xs) = [] # parts ys (m - 1) (drop (i + length ys) xs)"
  using parts_occurrence [of m ys "drop i xs"] assms by (simp add: occurs_at_drop add.commute)

lemma parts_skips:
  assumes "i \<le> j" "j \<le> length xs" "\<And>k. i \<le> k \<Longrightarrow> k < j \<Longrightarrow> \<not> occurs_at xs k ys"
  shows "parts ys m (drop i xs) = prepend (take (j - i) (drop i xs)) (parts ys m (drop j xs))"
  using assms
proof (induction "j - i" arbitrary: i)
  case 0
  then show ?case by (simp add: prepend_def)
next
  case (Suc d)
  have "parts ys m (drop i xs) = prepend [xs ! i] (parts ys m (drop (Suc i) xs))"
    using Suc by (intro parts_skip) auto
  also have "parts ys m (drop (Suc i) xs) = prepend (take (j - Suc i) (drop (Suc i) xs)) (parts ys m (drop j xs))"
    using Suc.prems Suc.hyps(2) by (intro Suc.hyps(1)) auto
  finally have "parts ys m (drop i xs) = prepend (xs ! i # take (j - Suc i) (drop (Suc i) xs)) (parts ys m (drop j xs))"
    by (simp add: prepend_append)
  moreover have "take (j - i) (drop i xs) = xs ! i # take (j - Suc i) (drop (Suc i) xs)"
    using Suc.hyps(2) Suc.prems Cons_nth_drop_Suc [of i xs] by (metis Suc_diff_Suc Suc_le_lessD diff_is_0_eq le_trans not_less_eq_eq old.nat.distinct(2) take_Suc_Cons nat_le_linear Suc_leI linorder_not_le)
  ultimately show ?case by simp
qed

section \<open>Counting\<close>

lemma count_matches_value:
  assumes wf: "wf_str str" "wf_str sub" and len: "0 < AStrLen sub"
  shows "cnt < mx \<Longrightarrow> i \<le> AStrLen str \<Longrightarrow>
    count_matches str i (str_elems sub ! 0) sub (AStrLen sub) cnt mx =
    Inr (cnt + (length (parts (str_elems sub) (mx - cnt) (drop i (str_elems str))) - 1))"
proof (induction "Suc (AStrLen str) - i" arbitrary: i cnt rule: less_induct)
  case less
  let ?c = "str_elems sub ! 0" and ?n = "AStrLen sub" and ?xs = "str_elems str" and ?ys = "str_elems sub"
  have ne: "?ys \<noteq> []" using len str_elems_ne wf(2) by blast
  show ?case
  proof (cases "i + ?n \<le> AStrLen str")
    case True
    note here = match_here_value [OF wf len True]
    show ?thesis
    proof (cases "occurs_at ?xs i ?ys")
      case occ: True
      have ps: "parts ?ys (mx - cnt) (drop i ?xs) = [] # parts ?ys (mx - Suc cnt) (drop (i + ?n) ?xs)"
        using parts_match [OF _ ne _ occ, of "mx - cnt"] wf len True less.prems by simp
      show ?thesis
      proof (cases "Suc cnt = mx")
        case m: True
        show ?thesis unfolding ps
          by (subst count_matches.simps) (use occ here True m in \<open>simp add: parts_0\<close>)
      next
        case False
        then have "count_matches str (i + ?n) ?c sub ?n (Suc cnt) mx =
            Inr (Suc cnt + (length (parts ?ys (mx - Suc cnt) (drop (i + ?n) ?xs)) - 1))"
          using less.prems len True by (intro less.hyps) auto
        moreover have "0 < length (parts ?ys (mx - Suc cnt) (drop (i + ?n) ?xs))" by simp
        ultimately show ?thesis unfolding ps
          by (subst count_matches.simps) (use occ here True False len in simp)
      qed
    next
      case occ: False
      have ps: "parts ?ys (mx - cnt) (drop i ?xs) = prepend [?xs ! i] (parts ?ys (mx - cnt) (drop (Suc i) ?xs))"
        using occ wf True len by (intro parts_skip) auto
      have "count_matches str (Suc i) ?c sub ?n cnt mx =
          Inr (cnt + (length (parts ?ys (mx - cnt) (drop (Suc i) ?xs)) - 1))"
        using less.prems len True by (intro less.hyps) auto
      then show ?thesis unfolding ps
        by (subst count_matches.simps) (use occ here True in \<open>simp add: prepend_def\<close>)
    qed
  next
    case False
    then have "parts ?ys (mx - cnt) (drop i ?xs) = [drop i ?xs]" using wf less.prems by (intro parts_short) simp
    then show ?thesis by (subst count_matches.simps) (use False in simp)
  qed
qed

lemma Count_value:
  assumes "wf_str str" "wf_str sub" "0 < AStrLen sub" "0 < mx"
  shows "Count str sub mx = Inr (length (parts (str_elems sub) mx (str_elems str)) - 1)"
  using count_matches_value [OF assms(1-3), of 0 mx 0] assms by (simp add: Count_def AStrItem_nth)

end
