(* ===== verification/Str_Method_Lemmas.thy ===== *)
theory Str_Method_Lemmas
  imports Str_Cut
begin

text \<open>
  The methods that build strings: splitting, joining, replacing and stripping, against the
  reference functions on lists of characters.
\<close>

section \<open>Splitting\<close>

definition is_strs :: "nat list list \<Rightarrow> strval list \<Rightarrow> bool" where
  "is_strs xss vs \<longleftrightarrow> list_all wf_str vs \<and> map str_elems vs = xss"

lemma meets_append_part:
  assumes wf: "wf_str str" "AStrLen str < 2147483648" "\<forall>x. Q x \<longrightarrow> sub_allocs str x"
    and i: "i0 \<le> i" "i \<le> AStrLen str" and acc: "is_strs xss acc"
  shows "meets Q (append_part str i0 i acc) (is_strs (xss @ [take (i - i0) (drop i0 (str_elems str))]))"
  unfolding append_part_def
proof (rule meets_bind [OF meets_ACreateSubStr [OF wf]], rule meets_any_alloc_then)
  fix r
  assume "is_str (slice (int i0) (int i) (str_elems str)) r \<and> is_wide r = is_wide str"
  then have "wf_str r" "str_elems r = take (i - i0) (drop i0 (str_elems str))"
    using slice_nat [of i0 i "str_elems str"] by (simp_all add: is_str_def)
  then show "meets Q (ret (acc @ [r])) (is_strs (xss @ [take (i - i0) (drop i0 (str_elems str))]))"
    using acc by (intro meets_ret) (simp add: is_strs_def)
qed

text \<open>What is left of the string to split at \<open>i\<close>, with the current part begun at \<open>i0\<close>.\<close>

definition rest_parts :: "nat list \<Rightarrow> nat list \<Rightarrow> nat \<Rightarrow> nat \<Rightarrow> nat \<Rightarrow> nat list list" where
  "rest_parts xs ys m i0 i = prepend (take (i - i0) (drop i0 xs)) (parts ys m (drop i xs))"

lemma rest_parts_skip:
  assumes "i < length xs" "i0 \<le> i" "\<not> (0 < m \<and> occurs_at xs i ys)"
  shows "rest_parts xs ys m i0 i = rest_parts xs ys m i0 (Suc i)"
proof -
  have "take (Suc i - i0) (drop i0 xs) = take (i - i0) (drop i0 xs) @ [xs ! i]"
    using assms(1,2) by (simp add: Suc_diff_le take_Suc_conv_app_nth)
  then show ?thesis using parts_skip [OF assms(1,3)] by (simp add: rest_parts_def prepend_append)
qed

lemma rest_parts_match:
  assumes "i < length xs" "ys \<noteq> []" "0 < m" "occurs_at xs i ys"
  shows "rest_parts xs ys m i0 i =
    take (i - i0) (drop i0 xs) # rest_parts xs ys (m - 1) (i + length ys) (i + length ys)"
proof -
  have "prepend [] (parts ys (m - 1) (drop (i + length ys) xs)) = parts ys (m - 1) (drop (i + length ys) xs)"
    by (cases "parts ys (m - 1) (drop (i + length ys) xs)") (auto simp: prepend_def)
  then show ?thesis using parts_match [OF assms] by (simp add: rest_parts_def prepend_def [of _ "_ # _"])
qed

lemma rest_parts_end: "length xs - i < length ys \<Longrightarrow> i0 \<le> i \<Longrightarrow> rest_parts xs ys m i0 i = [drop i0 xs]"
  using append_take_drop_id [of "i - i0" "drop i0 xs"] by (simp add: rest_parts_def parts_short prepend_def)

lemma meets_split_loop:
  assumes wf: "wf_str str" "AStrLen str < 2147483648" "\<forall>x. Q x \<longrightarrow> sub_allocs str x"
    and sep: "wf_str sep" "0 < AStrLen sep"
  shows "Suc (AStrLen str) - i < fuel \<Longrightarrow> i0 \<le> i \<Longrightarrow> i \<le> AStrLen str \<Longrightarrow> is_strs xss acc \<Longrightarrow>
    meets Q (split_loop fuel str sep (str_elems sep ! 0) mx i i0 n acc)
      (\<lambda>(i0', acc'). i0' \<le> AStrLen str \<and>
         (\<exists>yss. is_strs yss acc' \<and>
            yss @ [drop i0' (str_elems str)] = xss @ rest_parts (str_elems str) (str_elems sep) (nat (mx - int n)) i0 i))"
proof (induction fuel arbitrary: i i0 n xss acc)
  case (Suc fuel)
  let ?xs = "str_elems str" and ?ys = "str_elems sep"
  have ne: "?ys \<noteq> []" "length ?ys = AStrLen sep" using sep str_elems_ne by simp_all
  have lx: "length ?xs = AStrLen str" using wf(1) by simp
  show ?case
  proof (cases "i + AStrLen sep \<le> AStrLen str")
    case True
    then have i: "i < length ?xs" using sep lx by simp
    note here = match_here_value [OF wf(1) sep True]
    show ?thesis
    proof (cases "occurs_at ?xs i ?ys \<and> int n < mx")
      case occ: True
      have rest: "rest_parts ?xs ?ys (nat (mx - int n)) i0 i = take (i - i0) (drop i0 ?xs) #
          rest_parts ?xs ?ys (nat (mx - int (Suc n))) (i + AStrLen sep) (i + AStrLen sep)"
      proof -
        have m: "0 < nat (mx - int n)" "nat (mx - int n) - 1 = nat (mx - int (Suc n))" using occ by auto
        show ?thesis using rest_parts_match [OF i ne(1) m(1), of i0] occ ne(2) by (simp only: m(2) simp_thms)
      qed
      have "meets Q (bindM (append_part str i0 i acc)
          (\<lambda>acc. split_loop fuel str sep (?ys ! 0) mx (i + AStrLen sep) (i + AStrLen sep) (Suc n) acc))
          (\<lambda>(i0', acc'). i0' \<le> AStrLen str \<and>
            (\<exists>yss. is_strs yss acc' \<and>
               yss @ [drop i0' ?xs] = xss @ rest_parts ?xs ?ys (nat (mx - int n)) i0 i))"
        unfolding rest
        by (rule meets_bind [OF meets_append_part [OF wf Suc.prems(2,3,4)]], rule meets_mono [OF Suc.IH])
          (use True Suc.prems sep in auto)
      then show ?thesis using True occ here by (simp add: bind_ret)
    next
      case occ: False
      then have rest: "rest_parts ?xs ?ys (nat (mx - int n)) i0 i = rest_parts ?xs ?ys (nat (mx - int n)) i0 (Suc i)"
        using Suc.prems by (intro rest_parts_skip [OF i]) auto
      have "meets Q (split_loop fuel str sep (?ys ! 0) mx (Suc i) i0 n acc)
          (\<lambda>(i0', acc'). i0' \<le> AStrLen str \<and>
            (\<exists>yss. is_strs yss acc' \<and>
               yss @ [drop i0' ?xs] = xss @ rest_parts ?xs ?ys (nat (mx - int n)) i0 i))"
        unfolding rest by (rule Suc.IH) (use i lx Suc.prems in auto)
      then show ?thesis using True occ here by (auto simp: bind_ret)
    qed
  next
    case False
    then have "rest_parts ?xs ?ys (nat (mx - int n)) i0 i = [drop i0 ?xs]"
      using Suc.prems lx ne(2) by (intro rest_parts_end) auto
    then show ?thesis using False Suc.prems by (auto intro!: meets_ret)
  qed
qed simp

text \<open>The optional limit: any Int that fits a C int.\<close>

fun limit_ok :: "aint option \<Rightarrow> bool" where
  "limit_ok None = True"
| "limit_ok (Some (AShort w)) = (- 2147483648 \<le> short_val w \<and> short_val w < 2147483648)"
| "limit_ok (Some (ALong li)) = False"

definition limit_value :: "aint option \<Rightarrow> int" where
  "limit_value a = (case a of None \<Rightarrow> int A_SSIZE_T_MAX | Some v \<Rightarrow> int_value v)"

lemma get_limit:
  assumes "limit_ok a"
  shows "(case a of None \<Rightarrow> ret (int A_SSIZE_T_MAX) | Some v \<Rightarrow> bindM (AGetInt v) (\<lambda>i. ret (sint i))) =
    ret (limit_value a)"
proof (cases a)
  case (Some v)
  then obtain w where w: "v = AShort w" "- 2147483648 \<le> short_val w" "short_val w < 2147483648"
    using assms by (cases v) auto
  have u: "ucast (of_int k :: 64 word) = (of_int k :: 32 word)" for k
    by (simp add: unsigned_of_int word_of_int_eq_iff)
  from w have "AGetInt v = ret (of_int (short_val w))"
    by (simp add: AGetInt_def Let_def sint_AValueToInt AValueToInt_of_int [of w, THEN arg_cong [of _ _ "ucast :: 64 word \<Rightarrow> 32 word"], unfolded u])
  then show ?thesis using Some w
    by (simp add: limit_value_def bind_ret short_val_def signed_of_int signed_take_bit_int_eq_self)
qed (simp add: limit_value_def)

lemma meets_AStrSplit_sep:
  assumes wf: "wf_str str" "AStrLen str < 2147483648" "\<forall>x. Q x \<longrightarrow> sub_allocs str x"
    and sep: "wf_str sep" "0 < AStrLen sep" and lim: "limit_ok max_arg"
  shows "meets Q (AStrSplit str (Some sep) max_arg)
    (is_strs (parts (str_elems sep) (nat (limit_value max_arg)) (str_elems str)))"
proof -
  let ?xs = "str_elems str" and ?ys = "str_elems sep" and ?m = "nat (limit_value max_arg)"
  have "rest_parts ?xs ?ys ?m 0 0 = parts ?ys ?m ?xs"
    by (cases "parts ?ys ?m ?xs") (auto simp: rest_parts_def prepend_def dest: arg_cong [of _ _ length])
  then have loop: "meets Q (split_loop (AStrLen str + 2) str sep (?ys ! 0) (limit_value max_arg) 0 0 0 [])
      (\<lambda>(i0, acc). i0 \<le> AStrLen str \<and> (\<exists>yss. is_strs yss acc \<and> yss @ [drop i0 ?xs] = parts ?ys ?m ?xs))"
    using meets_split_loop [OF wf sep, of 0 "AStrLen str + 2" 0 "[]" "[]" "limit_value max_arg" 0] by (simp add: is_strs_def)
  have "meets Q (append_part str i0 (AStrLen str) acc) (is_strs (parts ?ys ?m ?xs))"
    if "i0 \<le> AStrLen str" "is_strs yss acc" "yss @ [drop i0 ?xs] = parts ?ys ?m ?xs" for i0 acc yss
    using meets_append_part [OF wf that(1) order_refl that(2)] that(3) wf(1) by simp
  then have "meets Q (bindM (split_loop (AStrLen str + 2) str sep (?ys ! 0) (limit_value max_arg) 0 0 0 [])
      (\<lambda>(i0, acc). append_part str i0 (AStrLen str) acc)) (is_strs (parts ?ys ?m ?xs))"
    by (intro meets_bind [OF loop]) auto
  then show ?thesis
    unfolding AStrSplit_def get_limit [OF lim] bind_ret
    using sep by (intro meets_any_alloc_then) (simp add: AStrItem_nth bind_ret)
qed

section \<open>Filling a new string\<close>

text \<open>A new string whose first characters have been written.\<close>

definition filled_to :: "bool \<Rightarrow> nat \<Rightarrow> nat list \<Rightarrow> strval \<Rightarrow> bool" where
  "filled_to w n p dst \<longleftrightarrow> fresh_str w n dst \<and> length p \<le> n \<and> take (length p) (str_elems dst) = p"

lemma filled_to_0: "fresh_str w n dst \<Longrightarrow> filled_to w n [] dst"
  by (simp add: filled_to_def)

lemma filled_to_done: "filled_to w n p dst \<Longrightarrow> length p = n \<Longrightarrow> is_str p dst"
  by (auto simp: filled_to_def fresh_str_def is_str_def)

lemma fresh_str_cases:
  assumes "fresh_str w n dst"
  obtains s where "w" "dst = Whole (AWide s)" "length s = n" "list_all (\<lambda>c. c < 65536) s"
    | s where "\<not> w" "dst = Whole (ANarrow s)" "length s = n" "list_all (\<lambda>c. c < 256) s"
  using assms by (cases w) (auto simp: fresh_str_def wf_block_def)

lemma ACopySubStr_fills:
  assumes dst: "filled_to w n p dst" and src: "wf_str src" "is_wide src \<longrightarrow> w"
    and len: "k + m \<le> AStrLen src" "length p + m \<le> n"
  shows "\<exists>dst'. ACopySubStr dst (length p) src k m = Inr dst' \<and> filled_to w n (p @ take m (drop k (str_elems src))) dst'"
proof -
  let ?part = "take m (drop (str_ind src + k) (elems (str_block src)))"
  have part: "?part = take m (drop k (str_elems src))"
    using src len by (cases src) (auto simp: str_elems_def str_ind_def drop_take min_absorb1 add.commute)
  have room: "str_ind src + k + m \<le> length (elems (str_block src))"
    using src len by (cases src) (auto simp: str_ind_def)
  have lp: "length ?part = m" using room by simp
  have all: "list_all (\<lambda>c. c < (if w then 65536 else 256)) ?part"
    unfolding part using src elems_wide [OF src(1)] elems_narrow [OF src(1)]
    by (auto simp: list_all_iff dest!: in_set_takeD in_set_dropD)
  have fresh: "fresh_str w n dst" and p: "take (length p) (str_elems dst) = p" using dst by (simp_all add: filled_to_def)
  have sp: "set p \<subseteq> set (str_elems dst)" using p by (metis set_take_subset)
  from fresh show ?thesis
  proof (cases rule: fresh_str_cases)
    case (1 s)
    then show ?thesis using room len p all lp sp unfolding part [symmetric]
      by (auto simp: ACopySubStr_def Let_def filled_to_def fresh_str_def wf_block_def list_all_iff
          dest: in_set_takeD in_set_dropD)
  next
    case (2 s)
    then show ?thesis using room len p all lp sp src unfolding part [symmetric]
      by (auto simp: ACopySubStr_def Let_def filled_to_def fresh_str_def wf_block_def list_all_iff
          dest: in_set_takeD in_set_dropD)
  qed
qed

lemma ASetStrItem_fills:
  assumes dst: "filled_to w n p dst" and c: "c < (if w then 65536 else 256)" and len: "length p < n"
  shows "\<exists>dst'. ASetStrItem dst (length p) c = Inr dst' \<and> filled_to w n (p @ [c]) dst'"
proof -
  have fresh: "fresh_str w n dst" and p: "take (length p) (str_elems dst) = p" using dst by (simp_all add: filled_to_def)
  from fresh show ?thesis
    by (cases rule: fresh_str_cases)
      (use c len p in \<open>auto simp: ASetStrItem_def Let_def filled_to_def fresh_str_def wf_block_def
        list_all_iff take_Suc_conv_app_nth dest!: set_update_subset_insert [THEN subsetD]\<close>)
qed

end
