(* ===== verification/Str_Replace_Lemmas.thy ===== *)
theory Str_Replace_Lemmas
  imports Str_Method_Lemmas "HOL-Library.Signed_Division"
begin

text \<open>Joining and replacing: the loops that fill a new string, and the length computed before them.\<close>

section \<open>Joining\<close>

lemma join_scan_value: "join_scan (map Some vs) = Inr (sum_list (map AStrLen vs), list_ex is_wide vs)"
  by (induction vs) auto

lemma length_intercalate: "length (intercalate ys ps) = (length ps - 1) * length ys + sum_list (map length ps)"
  by (induction ps) (auto simp: neq_Nil_conv)

lemma join_copy_value:
  assumes sep: "wf_str sep" "is_wide sep \<longrightarrow> w"
  shows "filled_to w n p dst \<Longrightarrow> list_all (\<lambda>v. wf_str v \<and> (is_wide v \<longrightarrow> w)) vs \<Longrightarrow>
    length p + length (intercalate (str_elems sep) (map str_elems vs)) \<le> n \<Longrightarrow>
    \<exists>dst'. join_copy sep (map Some vs) dst (length p) = Inr dst' \<and>
           filled_to w n (p @ intercalate (str_elems sep) (map str_elems vs)) dst'"
proof (induction vs arbitrary: p dst)
  case (Cons v vs)
  have v: "wf_str v" "is_wide v \<longrightarrow> w" using Cons.prems by simp_all
  obtain d1 where d1: "ACopySubStr dst (length p) v 0 (AStrLen v) = Inr d1" "filled_to w n (p @ str_elems v) d1"
    using ACopySubStr_fills [OF Cons.prems(1) v, of 0 "AStrLen v"] Cons.prems(3) v
    by (auto split: if_splits)
  show ?case
  proof (cases "AStrLen sep > 0 \<and> vs \<noteq> []")
    case True
    then have "length (p @ str_elems v) + AStrLen sep \<le> n" using Cons.prems(3) v sep by simp
    then obtain d2 where d2: "ACopySubStr d1 (length (p @ str_elems v)) sep 0 (AStrLen sep) = Inr d2"
        "filled_to w n ((p @ str_elems v) @ str_elems sep) d2"
      using ACopySubStr_fills [OF d1(2) sep, of 0 "AStrLen sep"] sep by auto
    show ?thesis using True Cons.IH [OF d2(2)] Cons.prems d1(1) d2(1) v sep by (simp add: add.assoc)
  next
    case False
    then have e: "vs = [] \<or> str_elems sep = []" using length_str_elems [OF sep(1)] by auto
    then have "intercalate (str_elems sep) (map str_elems (v # vs)) =
        str_elems v @ intercalate (str_elems sep) (map str_elems vs)" by auto
    then show ?thesis using False Cons.IH [OF d1(2)] Cons.prems d1(1) v by (auto simp: add.assoc)
  qed
qed simp

lemma not_single: "\<nexists>s. ys = [Some s] \<Longrightarrow> (case ys of [Some s] \<Rightarrow> f s | _ \<Rightarrow> b) = b"
  by (auto split: list.splits option.splits)

lemma meets_AStrJoin:
  assumes sep: "wf_str sep" and vs: "list_all wf_str vs"
  shows "meets Q (AStrJoin sep (map Some vs)) (is_str (intercalate (str_elems sep) (map str_elems vs)))"
proof (cases "\<exists>v. vs = [v]")
  case True
  then show ?thesis using vs
    by (auto simp: AStrJoin_def join_scan_value bind_ret is_str_def simp del: join_scan.simps intro!: meets_ret)
next
  case False
  define w where "w = (is_wide sep \<or> list_ex is_wide vs)"
  define n where "n = (length vs - 1) * AStrLen sep + sum_list (map AStrLen vs)"
  have "sum_list (map AStrLen vs) = sum_list (map (length \<circ> str_elems) vs)"
    using vs by (intro arg_cong [of _ _ sum_list]) (auto simp: list_all_iff)
  then have n: "length (intercalate (str_elems sep) (map str_elems vs)) = n"
    using sep by (simp add: length_intercalate n_def)
  have all: "list_all (\<lambda>v. wf_str v \<and> (is_wide v \<longrightarrow> w)) vs" using vs by (auto simp: w_def list_all_iff list_ex_iff)
  have eq: "AStrJoin sep (map Some vs) =
      bindM (if w then AMakeEmptyStrW n else AMakeEmptyStr n) (\<lambda>dst. liftE (join_copy sep (map Some vs) dst 0))"
    using False unfolding AStrJoin_def join_scan_value
    by (subst not_single) (auto simp: bind_ret Let_def w_def n_def simp del: join_copy.simps)
  have fill: "meets Q (liftE (join_copy sep (map Some vs) dst 0))
      (is_str (intercalate (str_elems sep) (map str_elems vs)))" if "fresh_str w n dst" for dst
    using join_copy_value [OF sep _ filled_to_0 [OF that] all] n that filled_to_done
    by (auto simp: w_def intro!: meets_ret)
  show ?thesis unfolding eq by (rule meets_bind [OF meets_make_str]) (rule fill)
qed

section \<open>Replacing\<close>

lemma put_loop_value:
  assumes src: "wf_str src" "is_wide src \<longrightarrow> w"
  shows "filled_to w n p dst \<Longrightarrow> length p + (AStrLen src - k) \<le> n \<Longrightarrow>
    \<exists>dst'. put_loop dst (length p) src k = Inr dst' \<and> filled_to w n (p @ drop k (str_elems src)) dst'"
proof (induction "AStrLen src - k" arbitrary: p dst k)
  case 0
  then show ?case using src by (subst put_loop.simps) simp
next
  case (Suc d)
  then have k: "k < AStrLen src" by simp
  let ?c = "str_elems src ! k"
  have "?c \<in> set (str_elems src)" using k src by simp
  then have c: "?c < (if w then 65536 else 256)" using str_elems_range [OF src(1)] src(2) by (fastforce split: if_splits)
  obtain d1 where d1: "ASetStrItem dst (length p) ?c = Inr d1" "filled_to w n (p @ [?c]) d1"
    using ASetStrItem_fills [OF Suc.prems(1) c] Suc k by auto
  have rest: "d = AStrLen src - Suc k" "length (p @ [?c]) + (AStrLen src - Suc k) \<le> n" using Suc k by simp_all
  obtain d2 where d2: "put_loop d1 (length (p @ [?c])) src (Suc k) = Inr d2"
      "filled_to w n ((p @ [?c]) @ drop (Suc k) (str_elems src)) d2"
    using Suc.hyps(1) [OF rest(1) d1(2) rest(2)] by blast
  have "drop k (str_elems src) = ?c # drop (Suc k) (str_elems src)" using k src by (simp add: Cons_nth_drop_Suc)
  then show ?case using k src d1(1) d2 by (subst put_loop.simps) (simp add: AStrItem_nth)
qed

lemma skip_loop_value:
  assumes wf: "wf_str str" "0 < m"
  shows "i + m \<le> Suc (AStrLen str) \<Longrightarrow>
    \<exists>i1. skip_loop str ch m i = Inr i1 \<and> i \<le> i1 \<and> i1 + m \<le> Suc (AStrLen str) \<and>
      (\<forall>k. i \<le> k \<and> k < i1 \<longrightarrow> str_elems str ! k \<noteq> ch) \<and> (i1 + m \<le> AStrLen str \<longrightarrow> str_elems str ! i1 = ch)"
proof (induction "Suc (AStrLen str) - i" arbitrary: i)
  case 0
  then show ?case using wf by simp
next
  case (Suc d)
  show ?case
  proof (cases "i + m \<le> AStrLen str \<and> str_elems str ! i \<noteq> ch")
    case True
    then obtain i1 where i1: "skip_loop str ch m (Suc i) = Inr i1" "Suc i \<le> i1" "i1 + m \<le> Suc (AStrLen str)"
        "\<forall>k. Suc i \<le> k \<and> k < i1 \<longrightarrow> str_elems str ! k \<noteq> ch" "i1 + m \<le> AStrLen str \<longrightarrow> str_elems str ! i1 = ch"
      using Suc.hyps(1) [of "Suc i"] Suc.hyps(2) by (auto simp: Suc_diff_le)
    moreover have "k = i \<or> Suc i \<le> k" if "i \<le> k" for k using that by auto
    ultimately show ?thesis using True wf by (subst skip_loop.simps) (auto simp: AStrItem_nth)
  next
    case False
    then have "skip_loop str ch m i = Inr i" using wf by (subst skip_loop.simps) (auto simp: AStrItem_nth)
    then show ?thesis using False Suc.prems by auto
  qed
qed


lemma replace_loop_value:
  assumes str: "wf_str str" "is_wide str \<longrightarrow> w" and src: "wf_str src" "0 < AStrLen src"
    and new: "wf_str new" "is_wide new \<longrightarrow> w"
  shows "AStrLen str - i < fuel \<Longrightarrow> i \<le> AStrLen str \<Longrightarrow> filled_to w N p dst \<Longrightarrow>
    length p + length (intercalate (str_elems new) (parts (str_elems src) (nat (mx - int n)) (drop i (str_elems str)))) = N \<Longrightarrow>
    \<exists>dst' i' p'. replace_loop fuel str src new (str_elems src ! 0) mx dst i (length p) n = Inr (dst', i', length p') \<and>
      filled_to w N p' dst' \<and> i' \<le> AStrLen str \<and>
      p' @ drop i' (str_elems str) =
        p @ intercalate (str_elems new) (parts (str_elems src) (nat (mx - int n)) (drop i (str_elems str)))"
proof (induction fuel arbitrary: i n p dst)
  case (Suc fuel)
  let ?xs = "str_elems str" and ?ys = "str_elems src" and ?zs = "str_elems new"
  let ?L = "\<lambda>n i. intercalate ?zs (parts ?ys (nat (mx - int n)) (drop i ?xs))"
  have lx: "length ?xs = AStrLen str" "length ?ys = AStrLen src" "length ?zs = AStrLen new"
    using str src new by simp_all
  have ne: "?ys \<noteq> []" using src str_elems_ne by blast
  show ?case
  proof (cases "i + AStrLen src \<le> AStrLen str \<and> int n < mx")
    case True
    obtain i1 where i1: "skip_loop str (?ys ! 0) (AStrLen src) i = Inr i1" "i \<le> i1" "i1 + AStrLen src \<le> Suc (AStrLen str)"
        "\<forall>k. i \<le> k \<and> k < i1 \<longrightarrow> ?xs ! k \<noteq> ?ys ! 0" "i1 + AStrLen src \<le> AStrLen str \<longrightarrow> ?xs ! i1 = ?ys ! 0"
      using skip_loop_value [OF str(1) src(2), of i "?ys ! 0"] True by auto
    let ?t = "take (i1 - i) (drop i ?xs)"
    have no: "\<not> occurs_at ?xs k ?ys" if "i \<le> k" "k < i1" for k
      using that i1 lx src occurs_at_nth [of k ?ys ?xs] by (auto intro!: exI [of _ 0])
    have i1len: "i1 \<le> AStrLen str" using i1(3) src(2) by simp
    have L: "?L n i = ?t @ ?L n i1"
      using parts_skips [OF i1(2) _ no] i1len lx by (simp add: intercalate_prepend)
    have lt: "length ?t = i1 - i" using i1len lx i1(2) by simp
    have N1: "length (p @ ?t) + length (?L n i1) = N"
      using Suc.prems(4) unfolding L by (simp only: length_append add.assoc)
    have room: "i + (i1 - i) \<le> AStrLen str" "length p + (i1 - i) \<le> N"
      using i1len i1(2) N1 lt by (simp_all only: length_append)
    obtain d1 where d1: "ACopySubStr dst (length p) str i (i1 - i) = Inr d1" "filled_to w N (p @ ?t) d1"
      using ACopySubStr_fills [OF Suc.prems(3) str room] by blast
    show ?thesis
    proof (cases "i1 + AStrLen src > AStrLen str")
      case end1: True
      then have "?L n i1 = drop i1 ?xs" using lx i1len by (simp add: parts_short)
      then show ?thesis using True i1(1) d1 end1 lt i1len L
        by (intro exI [of _ d1] exI [of _ i1] exI [of _ "p @ ?t"]) (simp add: Let_def)
    next
      case False
      then have in1: "i1 + AStrLen src \<le> AStrLen str" by simp
      have match: "IsMatchAt str i1 src (AStrLen src) = Inr (occurs_at ?xs i1 ?ys)"
        using match_here_value [OF str(1) src in1] i1(5) in1 str src by (simp add: match_here_def AStrItem_nth)
      show ?thesis
      proof (cases "occurs_at ?xs i1 ?ys")
        case occ: True
        have m: "0 < nat (mx - int n)" "nat (mx - int n) - 1 = nat (mx - int (Suc n))" using True by auto
        have L1: "?L n i1 = ?zs @ ?L (Suc n) (i1 + AStrLen src)"
          using parts_match [OF _ ne m(1) occ] in1 src lx by (simp add: m(2) [simplified])
        obtain d2 where d2: "put_loop d1 (length (p @ ?t)) new 0 = Inr d2" "filled_to w N ((p @ ?t) @ ?zs) d2"
          using put_loop_value [OF new d1(2), of 0] N1 L1 lx by auto
        have "\<exists>dst' i' p'. replace_loop fuel str src new (?ys ! 0) mx d2 (i1 + AStrLen src)
              (length ((p @ ?t) @ ?zs)) (Suc n) = Inr (dst', i', length p') \<and>
            filled_to w N p' dst' \<and> i' \<le> AStrLen str \<and>
            p' @ drop i' ?xs = ((p @ ?t) @ ?zs) @ ?L (Suc n) (i1 + AStrLen src)"
          using Suc.prems(1) N1 L1 in1 src i1(2) by (intro Suc.IH [OF _ _ d2(2)]) auto
        then show ?thesis using True i1(1) d1(1) d2(1) False match occ L L1 lt lx
          by (simp add: Let_def add.assoc)
      next
        case occ: False
        have L1: "?L n i1 = ?ys ! 0 # ?L n (Suc i1)"
          using parts_skip [of i1 ?xs "nat (mx - int n)" ?ys] occ in1 src lx i1(5) by (simp add: intercalate_prepend)
        have "?ys ! 0 \<in> set ?xs" using i1(5) in1 src lx by (metis add_leD1 add_less_cancel_left add_0_right le_eq_less_or_eq less_le_trans nth_mem)
        then have c: "?ys ! 0 < (if w then 65536 else 256)"
          using str_elems_range [OF str(1)] str(2) by (fastforce split: if_splits)
        obtain d2 where d2: "ASetStrItem d1 (length (p @ ?t)) (?ys ! 0) = Inr d2" "filled_to w N ((p @ ?t) @ [?ys ! 0]) d2"
          using ASetStrItem_fills [OF d1(2) c] N1 L1 by auto
        have "\<exists>dst' i' p'. replace_loop fuel str src new (?ys ! 0) mx d2 (Suc i1)
              (length ((p @ ?t) @ [?ys ! 0])) n = Inr (dst', i', length p') \<and>
            filled_to w N p' dst' \<and> i' \<le> AStrLen str \<and>
            p' @ drop i' ?xs = ((p @ ?t) @ [?ys ! 0]) @ ?L n (Suc i1)"
          using Suc.prems(1) N1 L1 in1 src i1(2) by (intro Suc.IH [OF _ _ d2(2)]) auto
        then show ?thesis using True i1(1) d1(1) d2(1) False match occ L L1 lt
          by (simp add: Let_def)
      qed
    qed
  next
    case False
    have "?L n i = drop i ?xs"
    proof (cases "int n < mx")
      case True
      then show ?thesis using False lx Suc.prems(2) by (simp add: parts_short)
    qed (simp add: parts_0)
    then show ?thesis using False Suc.prems by auto
  qed
qed simp


text \<open>The length that is computed before the result is built.\<close>

lemma sdiv_times: "0 < c \<Longrightarrow> (d * c) sdiv c = (d :: int)"
  by (simp add: signed_divide_int_def sgn_mult abs_mult mult.commute [of _ c])
    (metis mult_sgn_abs sgn_mult_abs)

lemma length_replaced:
  assumes ps: "ps = parts ys m xs" and ne: "ys \<noteq> []"
  shows "int (length (intercalate zs ps)) =
      int (length xs) + (int (length zs) - int (length ys)) * int (length ps - 1)"
    and "length ps - 1 \<le> length xs"
proof -
  have xs: "length xs = (length ps - 1) * length ys + sum_list (map length ps)"
    using intercalate_parts [OF ne, of m xs] length_intercalate [of ys ps] ps by simp
  show "int (length (intercalate zs ps)) =
      int (length xs) + (int (length zs) - int (length ys)) * int (length ps - 1)"
    unfolding length_intercalate xs
    by (simp only: of_nat_add of_nat_mult) (simp only: algebra_simps)
  have "length ps - 1 \<le> (length ps - 1) * length ys" using ne by (cases ys) auto
  then show "length ps - 1 \<le> length xs" using xs by linarith
qed

lemma replace_len_value:
  assumes wf: "wf_str str" "wf_str src" "wf_str new" and len: "0 < AStrLen src"
    "AStrLen str < 2147483648" "AStrLen new < 2147483648" "AStrLen src < 2147483648" and mx: "0 < mx"
  defines "ps \<equiv> parts (str_elems src) (nat mx) (str_elems str)"
  shows "replace_len str src new mx =
     Inr (if AStrLen new \<noteq> AStrLen src \<and> length ps = 1 then None
          else Some (length (intercalate (str_elems new) ps)))"
proof -
  let ?d = "int (AStrLen new) - int (AStrLen src)" and ?c = "length ps - 1"
  have ne: "str_elems src \<noteq> []" using wf len str_elems_ne by blast
  have eq: "ps = parts (str_elems src) (nat mx) (str_elems str)" by (simp add: ps_def)
  have newLen: "int (length (intercalate (str_elems new) ps)) = int (AStrLen str) + ?d * int ?c"
    and c: "?c \<le> AStrLen str"
    using length_replaced(1) [OF eq ne, of "str_elems new"] length_replaced(2) [OF eq ne] wf by simp_all
  have p0: "ps \<noteq> []" by (simp add: ps_def)
  then have c0: "?c = 0 \<longleftrightarrow> length ps = 1" by (cases ps) auto
  show ?thesis
  proof (cases "?d = 0")
    case True
    then have "length (intercalate (str_elems new) ps) = AStrLen str" using newLen by simp
    then show ?thesis using True by (simp add: replace_len_def Let_def)
  next
    case False
    have Count: "Count str src (nat mx) = Inr ?c" unfolding ps_def using Count_value [OF wf(1,2) len(1)] mx by simp
    have "\<bar>?d * int ?c\<bar> = \<bar>?d\<bar> * int ?c" by (simp add: abs_mult)
    also have "\<dots> \<le> 2147483648 * 2147483648" using len c by (intro mult_mono) linarith+
    finally have b: "- 4611686018427387904 \<le> ?d * int ?c" "?d * int ?c \<le> 4611686018427387904" by linarith+
    have small: "sint (of_int k :: 64 word) = k" if "- 9223372036854775808 \<le> k" "k < 9223372036854775808" for k
      using that by (simp add: signed_of_int signed_take_bit_int_eq_self)
    have x: "sint (of_int (?d * int ?c) :: 64 word) = ?d * int ?c" by (rule small) (use b in linarith)+
    have y: "sint (of_int (int (AStrLen str) + ?d * int ?c) :: 64 word) = int (AStrLen str) + ?d * int ?c"
      by (rule small) (use b len(2) in linarith)+
    have dv: "(?d * int ?c) sdiv int ?c = ?d" if "?c \<noteq> 0"
      using that sdiv_times [of "int ?c" ?d] by simp
    have nn: "\<not> int (AStrLen str) + ?d * int ?c < 0" "nat (int (AStrLen str) + ?d * int ?c) = length (intercalate (str_elems new) ps)"
      using newLen by linarith+
    show ?thesis
      unfolding replace_len_def Let_def Count bindE_simps x y using False c0 dv nn by simp
  qed
qed

lemma meets_AStrReplace:
  assumes wf: "wf_str str" "wf_str src" "wf_str new" and len: "0 < AStrLen src"
    "AStrLen str < 2147483648" "AStrLen new < 2147483648" "AStrLen src < 2147483648" and lim: "limit_ok max_arg"
  shows "meets Q (AStrReplace str src new max_arg)
    (is_str (intercalate (str_elems new) (parts (str_elems src) (nat (limit_value max_arg)) (str_elems str))))"
proof -
  let ?mx = "limit_value max_arg"
  let ?ps = "parts (str_elems src) (nat ?mx) (str_elems str)" and ?c = "str_elems src ! 0"
  let ?r = "intercalate (str_elems new) ?ps"
  have same: "is_str ?r str" if one: "length ?ps = 1"
  proof -
    obtain p where "?ps = [p]" using one by (cases ?ps) auto
    then show ?thesis using intercalate_parts [OF str_elems_ne [OF wf(2) len(1)], of "nat ?mx" "str_elems str"] wf(1)
      by (simp add: is_str_def)
  qed
  define w where "w = (is_wide str \<or> is_wide src \<or> is_wide new)"
  have build: "meets Q (liftE (bindE (replace_loop (Suc (AStrLen str)) str src new ?c ?mx dst 0 0 0)
      (\<lambda>(dst, i, j). ACopySubStr dst j str i (AStrLen str - i)))) (is_str ?r)" if new_dst: "fresh_str w (length ?r) dst" for dst
  proof -
    obtain d i p where l: "replace_loop (Suc (AStrLen str)) str src new ?c ?mx dst 0 0 0 = Inr (d, i, length p)"
        "filled_to w (length ?r) p d" "i \<le> AStrLen str" "p @ drop i (str_elems str) = ?r"
      using replace_loop_value [OF wf(1) _ wf(2) len(1) wf(3) _ _ _ filled_to_0 [OF new_dst], of 0 "Suc (AStrLen str)" ?mx 0]
      by (auto simp: w_def)
    have r: "i + (AStrLen str - i) \<le> AStrLen str" "length p + (AStrLen str - i) \<le> length ?r"
      using l(3,4) wf(1) by (auto dest: arg_cong [of _ _ length])
    obtain d' where "ACopySubStr d (length p) str i (AStrLen str - i) = Inr d'"
        "filled_to w (length ?r) (p @ take (AStrLen str - i) (drop i (str_elems str))) d'"
      using ACopySubStr_fills [OF l(2) wf(1) _ r] by (auto simp: w_def)
    then show ?thesis using l filled_to_done wf(1) by (auto intro!: meets_ret)
  qed
  show ?thesis
  proof (cases "?mx \<le> 0")
    case True
    then show ?thesis using same wf unfolding AStrReplace_def get_limit [OF lim] bind_ret
      by (auto simp: parts_0 intro!: meets_ret)
  next
    case False
    then have pos: "0 < ?mx" by simp
    have mk: "(if \<not> is_wide str \<and> \<not> is_wide src \<and> \<not> is_wide new then AMakeEmptyStr n else AMakeEmptyStrW n) =
        (if w then AMakeEmptyStrW n else AMakeEmptyStr n)" for n by (simp add: w_def)
    have item: "AStrItem src 0 = Inr ?c" using wf len by (simp add: AStrItem_nth)
    have go: "\<not> (AStrLen src = 0 \<or> ?mx \<le> 0)" using len pos by simp
    have make: "meets Q (bindM (if w then AMakeEmptyStrW (length ?r) else AMakeEmptyStr (length ?r))
        (\<lambda>dst. liftE (bindE (replace_loop (Suc (AStrLen str)) str src new ?c ?mx dst 0 0 0)
          (\<lambda>(dst, i, j). ACopySubStr dst j str i (AStrLen str - i))))) (is_str ?r)"
      by (rule meets_bind [OF meets_make_str]) (rule build)
    have skip: "meets Q (ret str) (is_str ?r)" if "length ?ps = 1" using same [OF that] by (rule meets_ret)
    note run = AStrReplace_def get_limit [OF lim] bind_ret replace_len_value [OF wf len pos] liftE_simps mk item
      bindE_simps if_not_P [OF go]
    show ?thesis
    proof (cases "AStrLen new \<noteq> AStrLen src \<and> length ?ps = 1")
      case True
      show ?thesis unfolding run if_P [OF True] option.case using skip True by blast
    next
      case False
      show ?thesis unfolding run if_not_P [OF False] option.case by (rule make)
    qed
  qed
qed

end
