(* ===== verification/Array_Text.thy ===== *)
theory Array_Text
  imports Array_Seq_Lemmas Str_Replace_Lemmas
begin

text \<open>
  The text of an array or a tuple (\<^verbatim>\<open>AArrayTuple_str\<close> in \<^verbatim>\<open>src/src/std_array.c\<close>): the
  texts of the items, between delimiters.  The parts are collected in an array of strings, which are
  then joined.
\<close>

section \<open>The operations\<close>

definition AMakeStr :: "nat list \<Rightarrow> strval rt" where
  "AMakeStr s = ACreateString s"

definition AJoin :: "strval option list \<Rightarrow> strval option \<Rightarrow> strval rt" where
  "AJoin xs separator =
     with_temps 4
       (bindM (case separator of Some sep \<Rightarrow> ret sep | None \<Rightarrow> AMakeStr []) (\<lambda>sep. AStrJoin sep xs))"

text \<open>Items of the array of parts are strings, or other values that \<^verbatim>\<open>Repr\<close> may return.\<close>

type_synonym 'b parts_op = "(strval option, 'b) array_op"

definition append_str :: "nat list \<Rightarrow> unit parts_op" where
  "append_str s = thenA (liftA (AMakeStr s)) (\<lambda>v. AAppendArray None (Some v))"

fun items_str_loop :: "('v \<Rightarrow> aerror + strval option) \<Rightarrow> bool \<Rightarrow> 'v list \<Rightarrow> unit parts_op" where
  "items_str_loop repr later [] = retA ()"
| "items_str_loop repr later (x # xs) =
     thenA (if later then append_str [44, 32] else retA ()) (\<lambda>_.
     thenA (readA (\<lambda>_. repr x)) (\<lambda>s.
     thenA (AAppendArray None s) (\<lambda>_. items_str_loop repr True xs)))"

definition str_parts :: "('v \<Rightarrow> aerror + strval option) \<Rightarrow> nat list \<Rightarrow> nat list \<Rightarrow> 'v list \<Rightarrow> unit parts_op" where
  "str_parts repr startDelim endDelim xs =
     thenA (append_str startDelim) (\<lambda>_.
     thenA (items_str_loop repr False xs) (\<lambda>_.
     thenA (if length xs = 1 \<and> hd endDelim = 41 then append_str [44] else retA ()) (\<lambda>_.
       append_str endDelim)))"

definition AArrayTuple_str :: "('v \<Rightarrow> aerror + strval option) \<Rightarrow> 'v aarray \<Rightarrow> nat list \<Rightarrow> nat list \<Rightarrow> strval rt" where
  "AArrayTuple_str repr a startDelim endDelim =
     bindM (cells a) (\<lambda>xs. bindM (AMakeArrayND None 0) (\<lambda>parts t.
       case str_parts repr startDelim endDelim xs parts t of
         (Inl e, _, t) \<Rightarrow> (Inl e, t)
       | (Inr _, parts, t) \<Rightarrow> bindM (cells parts) (\<lambda>ps. AJoin ps None) t))"

definition AArray_str :: "('v \<Rightarrow> aerror + strval option) \<Rightarrow> 'v aarray \<Rightarrow> strval rt" where
  "AArray_str repr a = AArrayTuple_str repr a [91] [93]"

definition ATuple_str :: "('v \<Rightarrow> aerror + strval option) \<Rightarrow> 'v aarray \<Rightarrow> strval rt" where
  "ATuple_str repr a = AArrayTuple_str repr a [40] [41]"

section \<open>The text\<close>

text \<open>An array of strings whose texts are given.\<close>

definition has_parts :: "nat list list \<Rightarrow> strval option aarray \<Rightarrow> bool" where
  "has_parts ts r \<longleftrightarrow> (\<exists>vs. is_array (map Some vs) r \<and> list_all wf_str vs \<and> map str_elems vs = ts)"

lemma has_parts_empty: "has_parts [] (new_array [])"
  unfolding has_parts_def by (rule exI [of _ "[]"]) simp

lemma returnsA_run:
  "returnsA f a P \<Longrightarrow> mem_ok t \<Longrightarrow> \<exists>x a' t'. f a t = (Inr x, a', t') \<and> P x a' \<and> mem_ok t'"
  unfolding returnsA_def runsA_def by blast

lemma returnsA_append_part:
  assumes "has_parts ts r" "is_str s v"
  shows "returnsA (AAppendArray None (Some v)) r (\<lambda>_. has_parts (ts @ [s]))"
proof -
  obtain vs where vs: "is_array (map Some vs) r" "list_all wf_str vs" "map str_elems vs = ts"
    using assms(1) has_parts_def by blast
  have "has_parts (ts @ [s]) r'" if "is_array (map Some vs @ [Some v]) r'" for r'
    unfolding has_parts_def using that vs assms(2) by (intro exI [of _ "vs @ [v]"]) (simp add: is_str_def)
  then show ?thesis by (rule returnsA_mono [OF returnsA_AAppendArray [OF vs(1)]])
qed

lemma returnsA_append_str:
  assumes "has_parts ts r" "list_all (\<lambda>c. c < 256) s"
  shows "returnsA (append_str s) r (\<lambda>_. has_parts (ts @ [s]))"
  unfolding append_str_def AMakeStr_def
  by (rule wpA_thenA, rule returnsA_liftA, rule meets_mono [OF meets_ACreateString [OF assms(2)]],
      rule returnsA_append_part [OF assms(1)])

fun separated :: "bool \<Rightarrow> nat list list \<Rightarrow> nat list list" where
  "separated later [] = []"
| "separated later (s # ss) = (if later then [[44, 32]] else []) @ s # separated True ss"

lemma concat_separated:
  "concat (separated True ss) = concat (map (\<lambda>s. [44, 32] @ s) ss)" "concat (separated False ss) = intercalate [44, 32] ss"
proof -
  show t: "concat (separated True ss) = concat (map (\<lambda>s. [44, 32] @ s) ss)" for ss by (induction ss) simp_all
  have "intercalate [44, 32] (s # ss) = s @ concat (map (\<lambda>s. [44, 32] @ s) ss)" for s :: "nat list" and ss
    by (induction ss arbitrary: s) simp_all
  then show "concat (separated False ss) = intercalate [44, 32] ss" using t by (cases ss) simp_all
qed

lemma returnsA_items_str_loop:
  "has_parts ts r \<Longrightarrow> list_all2 (\<lambda>x s. \<exists>v. repr x = Inr (Some v) \<and> is_str s v) xs ss \<Longrightarrow>
   returnsA (items_str_loop repr later xs) r (\<lambda>_. has_parts (ts @ separated later ss))"
proof (induction xs arbitrary: ss ts r later)
  case Nil
  then show ?case by (auto intro!: returnsA_retA)
next
  case (Cons x xs)
  obtain s ss' v where ss: "ss = s # ss'" "repr x = Inr (Some v)" "is_str s v"
      "list_all2 (\<lambda>x s. \<exists>v. repr x = Inr (Some v) \<and> is_str s v) xs ss'"
    using Cons.prems(2) by (auto simp: list_all2_Cons1)
  let ?ts = "ts @ (if later then [[44, 32]] else [])"
  have sep: "returnsA (if later then append_str [44, 32] else retA ()) r (\<lambda>_. has_parts ?ts)"
    using Cons.prems(1) returnsA_append_str [OF Cons.prems(1), of "[44, 32]"] by (auto intro!: returnsA_retA)
  have rest: "returnsA (items_str_loop repr True xs) r' (\<lambda>_. has_parts (ts @ separated later ss))" if "has_parts (?ts @ [s]) r'" for r'
    using Cons.IH [OF that ss(4), of True] ss(1) by simp
  have "returnsA (thenA (readA (\<lambda>_. repr x)) (\<lambda>s. thenA (AAppendArray None s) (\<lambda>_. items_str_loop repr True xs))) r'
      (\<lambda>_. has_parts (ts @ separated later ss))" if "has_parts ?ts r'" for r'
    by (rule wpA_thenA, rule returnsA_readA [OF ss(2)], rule returnsA_thenA [OF returnsA_append_part [OF that ss(3)] rest])
  then show ?case unfolding items_str_loop.simps by (rule returnsA_thenA [OF sep])
qed

lemma meets_AJoin:
  assumes "list_all wf_str vs"
  shows "meets Q (AJoin (map Some vs) None) (is_str (concat (map str_elems vs)))"
proof -
  have sep: "meets Q (AMakeStr []) (is_str [])" unfolding AMakeStr_def by (rule meets_ACreateString) simp
  have nil: "intercalate [] ss = concat ss" for ss :: "nat list list" by (induction ss) simp_all
  have "meets Q (AStrJoin s (map Some vs)) (is_str (concat (map str_elems vs)))" if "is_str [] s" for s
    using meets_AStrJoin [of s vs Q] that assms nil by (simp add: is_str_def)
  then show ?thesis unfolding AJoin_def option.case by (intro meets_with_temps meets_bind [OF sep])
qed

text \<open>The text between delimiters, with a comma after the only item of a tuple.\<close>

definition delimited :: "nat list \<Rightarrow> nat list \<Rightarrow> nat list list \<Rightarrow> nat list" where
  "delimited startDelim endDelim ss =
     startDelim @ intercalate [44, 32] ss @ (if length ss = 1 \<and> hd endDelim = 41 then [44] else []) @ endDelim"

lemma returnsA_str_parts:
  assumes r: "has_parts [] r" and xs: "list_all2 (\<lambda>x s. \<exists>v. repr x = Inr (Some v) \<and> is_str s v) xs ss"
    and d: "list_all (\<lambda>c. c < 256) startDelim" "list_all (\<lambda>c. c < 256) endDelim"
  shows "returnsA (str_parts repr startDelim endDelim xs) r (\<lambda>_ r'. \<exists>ts. has_parts ts r' \<and> concat ts = delimited startDelim endDelim ss)"
proof -
  have len: "length xs = length ss" using xs by (rule list_all2_lengthD)
  let ?ts = "startDelim # separated False ss"
  let ?c = "if length ss = 1 \<and> hd endDelim = 41 then [[44]] else []"
  have comma: "returnsA (if length xs = 1 \<and> hd endDelim = 41 then append_str [44] else retA ()) r' (\<lambda>_. has_parts (?ts @ ?c))"
    if "has_parts ?ts r'" for r'
    using that returnsA_append_str [OF that, of "[44]"] len by (auto intro!: returnsA_retA)
  have last: "returnsA (append_str endDelim) r' (\<lambda>_ r'. \<exists>ts. has_parts ts r' \<and> concat ts = delimited startDelim endDelim ss)"
    if "has_parts (?ts @ ?c) r'" for r'
    by (rule returnsA_mono [OF returnsA_append_str [OF that d(2)]], rule exI, erule conjI)
      (simp add: delimited_def concat_separated)
  have first: "returnsA (append_str startDelim) r (\<lambda>_. has_parts [startDelim])"
    using returnsA_append_str [OF r d(1)] by simp
  have loop: "returnsA (items_str_loop repr False xs) r' (\<lambda>_. has_parts ?ts)" if "has_parts [startDelim] r'" for r'
    using returnsA_items_str_loop [OF that xs, of False] by simp
  show ?thesis unfolding str_parts_def
    by (rule returnsA_thenA [OF first], rule returnsA_thenA [OF loop], assumption, rule returnsA_thenA [OF comma], assumption, rule last)
qed

lemma cells_array: "is_array xs a \<Longrightarrow> cells a = ret xs"
  by (simp add: cells_def liftE_def read_all is_arrayD(3))

lemma join_parts:
  assumes "has_parts ts r" "mem_ok t"
  shows "\<exists>v t'. bindM (cells r) (\<lambda>ps. AJoin ps None) t = (Inr v, t') \<and> is_str (concat ts) v \<and> mem_ok t'"
proof -
  obtain vs where vs: "is_array (map Some vs) r" "list_all wf_str vs" "map str_elems vs = ts"
    using assms(1) has_parts_def by blast
  show ?thesis unfolding cells_array [OF vs(1)] bind_ret vs(3) [symmetric]
    by (rule meets_mem_ok [OF meets_AJoin [OF vs(2)] assms(2)])
qed

lemma AArrayTuple_str_text:
  assumes a: "is_array xs a" and xs: "list_all2 (\<lambda>x s. \<exists>v. repr x = Inr (Some v) \<and> is_str s v) xs ss"
    and d: "list_all (\<lambda>c. c < 256) startDelim" "list_all (\<lambda>c. c < 256) endDelim" and t: "mem_ok t"
  shows "\<exists>v t'. AArrayTuple_str repr a startDelim endDelim t = (Inr v, t') \<and> is_str (delimited startDelim endDelim ss) v \<and> mem_ok t'"
proof -
  from meets_mem_ok [OF meets_AMakeArrayND [of any_alloc "None :: strval option" 0] t] obtain r t1
    where r: "AMakeArrayND None 0 t = (Inr r, t1)" "r = new_array (replicate 0 (None :: strval option))" "mem_ok t1"
    by (elim exE conjE)
  have "has_parts [] r" using r(2) has_parts_empty by (simp only: replicate_0)
  from returnsA_run [OF returnsA_str_parts [OF this xs d] r(3)] obtain u ts r' t2 where
    p: "str_parts repr startDelim endDelim xs r t1 = (Inr u, r', t2)" "has_parts ts r'" "concat ts = delimited startDelim endDelim ss" "mem_ok t2"
    by (elim exE conjE)
  have "AArrayTuple_str repr a startDelim endDelim t = bindM (cells r') (\<lambda>ps. AJoin ps None) t2"
    unfolding AArrayTuple_str_def cells_array [OF a] bind_ret bindM_def [of "AMakeArrayND None 0"] r(1) prod.case sum.case p(1) by (rule refl)
  then show ?thesis using join_parts [OF p(2,4)] p(3) by (simp only:)
qed

end
