(* ===== verification/Str_Safe.thy ===== *)
theory Str_Safe
  imports Str_Replace_Lemmas
begin

text \<open>
  Facts about the string operations that hold for all arguments, whatever their size and whatever
  the allocations do: a string that is returned is well-formed, and the loops end.
\<close>

section \<open>Results that are returned\<close>

definition yields :: "'a rt \<Rightarrow> ('a \<Rightarrow> bool) \<Rightarrow> bool" where
  "yields m P \<longleftrightarrow> (\<forall>t x t'. m t = (Inr x, t') \<longrightarrow> P x)"

named_theorems yields_rules

lemma yields_ret [yields_rules]: "P x \<Longrightarrow> yields (ret x) P"
  by (simp add: yields_def ret_def)

lemma yields_raise [yields_rules]: "yields (raise e) P"
  by (simp add: yields_def raise_def)

lemma yields_bind: "yields m P \<Longrightarrow> (\<And>x. P x \<Longrightarrow> yields (f x) R) \<Longrightarrow> yields (bindM m f) R"
  unfolding yields_def bindM_def by (fastforce split: prod.splits sum.splits)

lemma yields_then [yields_rules]: "(\<And>x. yields (f x) R) \<Longrightarrow> yields (bindM m f) R"
  by (rule yields_bind [of m "\<lambda>_. True"]) (simp_all add: yields_def)

lemma yields_liftE: "(\<And>x. r = Inr x \<Longrightarrow> P x) \<Longrightarrow> yields (liftE r) P"
  by (cases r) (auto intro: yields_rules)

lemma yields_attempt: "yields m P \<Longrightarrow> yields (attempt m) (\<lambda>r. \<forall>x. r = Inr x \<longrightarrow> P x)"
  by (auto simp: yields_def attempt_def split: prod.splits)

lemma yields_mono: "yields m P \<Longrightarrow> (\<And>x. P x \<Longrightarrow> R x) \<Longrightarrow> yields m R"
  by (auto simp: yields_def)

lemma bindE_Inr: "bindE m f = Inr y \<longleftrightarrow> (\<exists>x. m = Inr x \<and> f x = Inr y)"
  by (cases m) auto

lemma elems_in_wide: "wf_block b \<Longrightarrow> c \<in> set (elems b) \<Longrightarrow> c < 65536"
  by (auto simp: wf_block_def list_all_iff split: if_splits)

lemma elems_in_narrow: "wf_block b \<Longrightarrow> \<not> AIsWideStr b \<Longrightarrow> c \<in> set (elems b) \<Longrightarrow> c < 256"
  by (auto simp: wf_block_def list_all_iff)

lemma wf_str_block: "wf_str v \<Longrightarrow> wf_block (str_block v)"
  by (cases v) auto

lemma ASetStrItem_wf: "ASetStrItem v i c = Inr v' \<Longrightarrow> wf_str v \<Longrightarrow> wf_str v'"
  by (auto simp: ASetStrItem_def Let_def bindE_Inr wf_block_def list_all_iff
      split: strval.splits astr.splits if_splits dest!: set_update_subset_insert [THEN subsetD])

lemma ACopySubStr_wf: "ACopySubStr dst i src k n = Inr dst' \<Longrightarrow> wf_str dst \<Longrightarrow> wf_str src \<Longrightarrow> wf_str dst'"
  using elems_in_wide [of "str_block src"] elems_in_narrow [of "str_block src"] wf_str_block [of src]
  by (auto simp: ACopySubStr_def Let_def wf_block_def list_all_iff is_wide_def
      split: strval.splits astr.splits if_splits dest!: in_set_takeD in_set_dropD)

lemma put_loop_wf: "put_loop dst j src k = Inr dst' \<Longrightarrow> wf_str dst \<Longrightarrow> wf_str dst'"
proof (induction dst j src k rule: put_loop.induct)
  case (1 dst j src k)
  then show ?case by (auto simp: put_loop.simps [of dst j src k] bindE_Inr split: if_splits dest: ASetStrItem_wf)
qed

lemma replace_loop_wf:
  "replace_loop fuel str src new ch mx dst i j n = Inr (dst', i', j') \<Longrightarrow> wf_str str \<Longrightarrow> wf_str dst \<Longrightarrow> wf_str dst'"
proof (induction fuel arbitrary: dst i j n)
  case (Suc fuel)
  then show ?case
    by (auto simp: bindE_Inr Let_def split: if_splits dest: ACopySubStr_wf put_loop_wf ASetStrItem_wf)
qed simp

lemma join_copy_wf:
  "join_copy sep xs dst ti = Inr dst' \<Longrightarrow> wf_str dst \<Longrightarrow> wf_str sep \<Longrightarrow> \<forall>v. Some v \<in> set xs \<longrightarrow> wf_str v \<Longrightarrow> wf_str dst'"
proof (induction sep xs dst ti rule: join_copy.induct)
  case (3 sep s xs dst ti)
  then obtain d where d: "ACopySubStr dst ti s 0 (AStrLen s) = Inr d" by (auto simp: bindE_Inr)
  then have wf: "wf_str d" using 3 ACopySubStr_wf by auto
  show ?case
  proof (cases "AStrLen sep > 0 \<and> xs \<noteq> []")
    case True
    then obtain d' where d': "ACopySubStr d (ti + AStrLen s) sep 0 (AStrLen sep) = Inr d'"
        "join_copy sep xs d' (ti + AStrLen s + AStrLen sep) = Inr dst'"
      using "3.prems"(1) d by (auto simp: bindE_Inr)
    then have "wf_str d'" using wf "3.prems"(3) ACopySubStr_wf by blast
    then show ?thesis using "3.IH"(1) [OF True d'(2)] "3.prems" by auto
  next
    case False
    then show ?thesis using "3.IH"(2) [OF False, of d] "3.prems" d wf by auto
  qed
qed simp_all

section \<open>Well-formed results\<close>

lemma yields_empty:
  "yields (AMakeEmptyStr n) wf_str" "yields (AMakeEmptyStrW n) wf_str"
  unfolding AMakeEmptyStr_def AMakeEmptyStrW_def
  by (auto intro!: yields_rules simp: wf_block_def junk_range)

lemma yields_AMakeCh: "yields (AMakeCh ch) wf_str"
  unfolding AMakeCh_def
  by (rule yields_bind [of _ wf_str]) (auto simp: yields_empty intro!: yields_liftE elim!: ASetStrItem_wf)

lemma yields_ACreateString: "list_all (\<lambda>c. c < 256) buf \<Longrightarrow> yields (ACreateString buf) wf_str"
  unfolding ACreateString_def by (auto intro!: yields_rules simp: wf_block_def)

lemma yields_ACreateWideString: "list_all (\<lambda>c. c < 65536) buf \<Longrightarrow> yields (ACreateWideString buf) wf_str"
  unfolding ACreateWideString_def
  by (auto intro!: yields_rules simp: wf_block_def list_ex_iff list_all_iff not_less less_Suc_eq_le [of _ 255, simplified])

lemma yields_ANarrowStringToWide: "wf_str v \<Longrightarrow> yields (ANarrowStringToWide v) wf_str"
  using elems_wide [of v] unfolding ANarrowStringToWide_def
  by (auto intro!: yields_rules simp: wf_block_def split: strval.splits astr.splits)

lemma yields_ANormalizeNarrowString: "wf_str v \<Longrightarrow> yields (ANormalizeNarrowString v) wf_str"
  using elems_narrow [of v]
  unfolding ANormalizeNarrowString_def WideToNarrow_def
  by (auto intro!: yields_rules simp: wf_block_def list_ex_iff list_all_iff not_less less_Suc_eq_le [of _ 255, simplified]
      split: strval.splits astr.splits dest!: in_set_takeD in_set_dropD)

lemma yields_AConcatStrings:
  assumes "wf_str l" "wf_str r" shows "yields (AConcatStrings l r) wf_str"
proof -
  have w: "yields (if is_wide v then ret (Inr v) else attempt (ANarrowStringToWide v)) (\<lambda>r. \<forall>x. r = Inr x \<longrightarrow> wf_str x)"
    if "wf_str v" for v
    using that by (auto intro!: yields_rules yields_attempt yields_ANarrowStringToWide)
  have "yields (AConcatWideStrings l r) wf_str"
    unfolding AConcatWideStrings_def
    by (rule yields_bind [OF w [OF assms(1)]], rule yields_bind [OF w [OF assms(2)]])
      (auto intro!: yields_rules simp: wf_block_def elems_wide split: sum.splits)
  then show ?thesis
    using assms by (auto simp: AConcatStrings_def wf_block_def elems_narrow intro!: yields_rules)
qed

lemma yields_new_substr:
  "wf_block b \<Longrightarrow> 0 \<le> i \<Longrightarrow> 0 \<le> n \<Longrightarrow> i + n \<le> int (length (elems b)) \<Longrightarrow> yields (new_substr b i n) wf_str"
  unfolding new_substr_def by (auto intro!: yields_rules)

lemma yields_sub_of_block:
  assumes "wf_block b" "0 \<le> i" "0 \<le> n" "i + n \<le> int (length (elems b))"
  shows "yields (sub_of_block b i n) wf_str"
  using yields_new_substr [OF assms] assms(1)
  by (auto simp: sub_of_block_def wf_block_def list_all_iff intro!: yields_rules
      split: astr.splits dest!: in_set_takeD in_set_dropD)

lemma yields_ACreateSubStr:
  assumes "wf_str v" shows "yields (ACreateSubStr v i j) wf_str"
proof (cases v)
  case (Whole b)
  then show ?thesis using assms
    by (auto simp: ACreateSubStr_def Let_def intro!: yields_sub_of_block)
next
  case (SubStr b ind l)
  then show ?thesis using assms
    by (auto simp: ACreateSubStr_def Let_def intro!: yields_sub_of_block)
qed

lemma yields_ARepeatString:
  assumes "wf_str v" shows "yields (ARepeatString v num) wf_str"
  using elems_wide [OF assms] elems_narrow [OF assms] junk_range
  unfolding ARepeatString_def Let_def
  by (auto intro!: yields_rules simp: wf_block_def list_all_iff split: prod.splits dest!: in_set_dropD)

lemma yields_AStrReplace:
  assumes "wf_str str" "wf_str new" shows "yields (AStrReplace str src new max_arg) wf_str"
proof -
  have fill: "yields (liftE (bindE (AStrItem src 0) (\<lambda>ch.
      bindE (replace_loop f str src new ch mx dst 0 0 0) (\<lambda>(dst, i, j). ACopySubStr dst j str i (AStrLen str - i))))) wf_str"
    if "wf_str dst" for dst f mx
    using that assms by (auto intro!: yields_liftE simp: bindE_Inr, blast intro: replace_loop_wf ACopySubStr_wf)
  have make: "yields (if b then AMakeEmptyStr n else AMakeEmptyStrW n) wf_str" for b n by (simp add: yields_empty)
  have same: "yields (ret str) wf_str" using assms(1) by (rule yields_ret)
  show ?thesis
    unfolding AStrReplace_def
  proof (rule yields_then)
    fix mx
    have "yields (bindM (liftE (replace_len str src new mx))
        (\<lambda>len. case len of None \<Rightarrow> ret str
          | Some n \<Rightarrow> bindM (if \<not> is_wide str \<and> \<not> is_wide src \<and> \<not> is_wide new then AMakeEmptyStr n else AMakeEmptyStrW n)
              (\<lambda>dst. liftE (bindE (AStrItem src 0) (\<lambda>ch.
                 bindE (replace_loop (Suc (AStrLen str)) str src new ch mx dst 0 0 0)
                   (\<lambda>(dst, i, j). ACopySubStr dst j str i (AStrLen str - i))))))) wf_str"
    proof (rule yields_then, split option.split, intro conjI allI impI)
      fix n
      show "yields (bindM (if \<not> is_wide str \<and> \<not> is_wide src \<and> \<not> is_wide new then AMakeEmptyStr n else AMakeEmptyStrW n)
              (\<lambda>dst. liftE (bindE (AStrItem src 0) (\<lambda>ch.
                 bindE (replace_loop (Suc (AStrLen str)) str src new ch mx dst 0 0 0)
                   (\<lambda>(dst, i, j). ACopySubStr dst j str i (AStrLen str - i)))))) wf_str"
        by (rule yields_bind [OF make fill])
    qed (rule same)
    then show "yields (if AStrLen src = 0 \<or> mx \<le> 0 then ret str
        else bindM (liftE (replace_len str src new mx))
        (\<lambda>len. case len of None \<Rightarrow> ret str
          | Some n \<Rightarrow> bindM (if \<not> is_wide str \<and> \<not> is_wide src \<and> \<not> is_wide new then AMakeEmptyStr n else AMakeEmptyStrW n)
              (\<lambda>dst. liftE (bindE (AStrItem src 0) (\<lambda>ch.
                 bindE (replace_loop (Suc (AStrLen str)) str src new ch mx dst 0 0 0)
                   (\<lambda>(dst, i, j). ACopySubStr dst j str i (AStrLen str - i))))))) wf_str"
      using same by (simp only: split: if_split) blast
  qed
qed

lemma yields_AStrJoin:
  assumes "wf_str sep" "\<forall>v. Some v \<in> set xs \<longrightarrow> wf_str v" shows "yields (AStrJoin sep xs) wf_str"
proof -
  have fill: "yields (liftE (join_copy sep xs dst 0)) wf_str" if "wf_str dst" for dst
    using that assms by (auto intro!: yields_liftE dest: join_copy_wf)
  have "yields (bindM (if w then AMakeEmptyStrW n else AMakeEmptyStr n) (\<lambda>dst. liftE (join_copy sep xs dst 0))) wf_str"
    for w n by (rule yields_bind [OF _ fill]) (simp_all add: yields_empty)
  note make = this
  show ?thesis
  proof (cases "\<exists>s. xs = [Some s]")
    case True
    then show ?thesis
      using assms by (auto simp: AStrJoin_def intro!: yields_then yields_ret)
  next
    case False
    show ?thesis
      unfolding AStrJoin_def Let_def not_single [OF False]
      by (intro yields_then) (simp only: make split: prod.split, simp)
  qed
qed

lemma yields_append_part:
  "wf_str str \<Longrightarrow> list_all wf_str acc \<Longrightarrow> yields (append_part str i0 i acc) (list_all wf_str)"
  unfolding append_part_def by (rule yields_bind [OF yields_ACreateSubStr]) (auto intro!: yields_rules)

lemma yields_split_loop:
  "wf_str str \<Longrightarrow> list_all wf_str acc \<Longrightarrow>
   yields (split_loop fuel str sep ch mx i i0 n acc) (\<lambda>(i0, acc). list_all wf_str acc)"
proof (induction fuel arbitrary: i i0 n acc)
  case (Suc fuel)
  note part = yields_bind [OF yields_append_part [OF Suc.prems]]
  show ?case using Suc.prems
    by (auto intro!: yields_rules(1) yields_then [of _ _ "liftE _"] part Suc.IH [OF Suc.prems(1)])
qed (simp add: yields_raise)

lemma yields_space_loop:
  "wf_str str \<Longrightarrow> list_all wf_str acc \<Longrightarrow>
   yields (space_loop fuel str mx i i0 n acc) (\<lambda>(i0, acc). list_all wf_str acc)"
proof (induction fuel arbitrary: i i0 n acc)
  case (Suc fuel)
  note part = yields_bind [OF yields_append_part [OF Suc.prems]]
  show ?case using Suc.prems
    by (auto intro!: yields_rules(1) yields_then [of _ _ "liftE _"] part Suc.IH [OF Suc.prems(1)])
qed (simp add: yields_raise)

lemma yields_AStrSplit:
  assumes "wf_str str" shows "yields (AStrSplit str sep max_arg) (list_all wf_str)"
proof -
  note loops = yields_bind [OF yields_split_loop [OF assms]] yields_bind [OF yields_space_loop [OF assms]]
    yields_append_part [OF assms]
  show ?thesis
    unfolding AStrSplit_def
    by (rule yields_then, rule yields_then)
      (auto intro!: yields_then [of _ _ "liftE _"] yields_rules(1,2) loops split: option.splits
        simp del: split_loop.simps space_loop.simps)
qed

lemma yields_AStrStrip: "wf_str v \<Longrightarrow> yields (AStrStrip v) wf_str"
  unfolding AStrStrip_def by (intro yields_then yields_ACreateSubStr)

lemma yields_AStrIterNext: "yields (AStrIterNext it) (\<lambda>(s, it). wf_str s)"
  unfolding AStrIterNext_def
  by (auto intro!: yields_then yields_bind [OF yields_AMakeCh] yields_rules(1,2))

section \<open>The loops end\<close>

definition ends :: "'a rt \<Rightarrow> bool" where
  "ends m \<longleftrightarrow> (\<forall>t. fst (m t) \<noteq> Inl NonTermination)"

lemma ends_ret: "ends (ret x)" by (simp add: ends_def ret_def)

lemma ends_raise: "e \<noteq> NonTermination \<Longrightarrow> ends (raise e)" by (simp add: ends_def raise_def)

lemma ends_next_alloc: "ends next_alloc"
  by (simp add: ends_def next_alloc_def split: list.splits alloc.splits)

lemma ends_bind_if:
  assumes m: "yields m P" "ends m" and f: "\<And>x. P x \<Longrightarrow> ends (f x)"
  shows "ends (bindM m f)"
  unfolding ends_def
proof
  fix t
  obtain r t' where mt: "m t = (r, t')" by fastforce
  show "fst (bindM m f t) \<noteq> Inl NonTermination"
  proof (cases r)
    case (Inl e)
    then show ?thesis using m(2) mt by (auto simp: bindM_def ends_def dest: spec [of _ t])
  next
    case (Inr x)
    then show ?thesis using f [of x] m(1) mt by (auto simp: bindM_def ends_def yields_def)
  qed
qed

lemma ends_bind: "ends m \<Longrightarrow> (\<And>x. ends (f x)) \<Longrightarrow> ends (bindM m f)"
  by (rule ends_bind_if [of m "\<lambda>_. True"]) (simp_all add: yields_def)

lemma ends_liftE: "r \<noteq> Inl NonTermination \<Longrightarrow> ends (liftE r)"
  by (cases r) (auto simp: ends_ret ends_raise)

lemma bindE_NT:
  "bindE m f = Inl NonTermination \<longleftrightarrow> m = Inl NonTermination \<or> (\<exists>x. m = Inr x \<and> f x = Inl NonTermination)"
  by (cases m) auto

lemma AStrItem_ends [simp]: "AStrItem v i \<noteq> Inl NonTermination"
  by (cases v) (auto simp: item_def)

lemma match_loop_ends [simp]: "match_loop src i dst n j \<noteq> Inl NonTermination"
proof (induction "n - j" arbitrary: j)
  case (Suc d)
  then have "match_loop src i dst n (Suc j) \<noteq> Inl NonTermination" by simp
  then show ?case by (subst match_loop.simps) (auto simp: bindE_NT)
qed (subst match_loop.simps, simp)

lemma match_here_ends [simp]: "match_here str i ch sub n \<noteq> Inl NonTermination"
  by (auto simp: match_here_def bindE_NT IsMatchAt_def)

lemma strip_left_ends [simp]: "strip_left str i \<noteq> Inl NonTermination"
proof (induction "AStrLen str - i" arbitrary: i)
  case (Suc d)
  then have "strip_left str (Suc i) \<noteq> Inl NonTermination" by simp
  then show ?case by (subst strip_left.simps) (auto simp: bindE_NT)
qed (subst strip_left.simps, simp)

lemma strip_left_forward: "strip_left str i = Inr i' \<Longrightarrow> i \<le> i'"
proof (induction "AStrLen str - i" arbitrary: i)
  case (Suc d)
  have "d = AStrLen str - Suc i" using Suc.hyps(2) by simp
  from Suc.hyps(1) [OF this] Suc.prems show ?case
    by (subst (asm) strip_left.simps) (auto simp: bindE_Inr split: if_splits)
qed (subst (asm) strip_left.simps, simp)

text \<open>The inner loops of a replacement; the one that looks for a first character goes forward.\<close>

lemma skip_loop_ends [simp]: "skip_loop str ch n i \<noteq> Inl NonTermination"
proof (induction "Suc (AStrLen str) - i" arbitrary: i)
  case (Suc d)
  then have "skip_loop str ch n (Suc i) \<noteq> Inl NonTermination" by simp
  then show ?case by (subst skip_loop.simps) (auto simp: bindE_NT)
qed (subst skip_loop.simps, simp)

lemma skip_loop_forward: "skip_loop str ch n i = Inr i' \<Longrightarrow> i \<le> i'"
proof (induction "Suc (AStrLen str) - i" arbitrary: i)
  case (Suc d)
  have "d = Suc (AStrLen str) - Suc i" using Suc.hyps(2) by simp
  from Suc.hyps(1) [OF this] Suc.prems show ?case
    by (subst (asm) skip_loop.simps) (auto simp: bindE_Inr split: if_splits)
qed (subst (asm) skip_loop.simps, simp)

lemma ASetStrItem_ends [simp]: "ASetStrItem v i c \<noteq> Inl NonTermination"
  by (auto simp: ASetStrItem_def Let_def bindE_NT split: strval.splits)

lemma ACopySubStr_ends [simp]: "ACopySubStr dst i src k n \<noteq> Inl NonTermination"
  by (auto simp: ACopySubStr_def Let_def split: strval.splits astr.splits)

lemma put_loop_ends [simp]: "put_loop dst j src k \<noteq> Inl NonTermination"
proof (induction "AStrLen src - k" arbitrary: dst j k)
  case (Suc d)
  then have "put_loop dst' (Suc j) src (Suc k) \<noteq> Inl NonTermination" for dst' by simp
  then show ?case by (subst put_loop.simps) (auto simp: bindE_NT)
qed (subst put_loop.simps, simp)

lemma replace_loop_ends:
  "Suc (AStrLen str) - i \<le> fuel \<Longrightarrow> 0 < fuel \<Longrightarrow> 0 < AStrLen src \<Longrightarrow>
   replace_loop fuel str src new ch mx dst i j n \<noteq> Inl NonTermination"
proof (induction fuel arbitrary: dst i j n)
  case (Suc fuel)
  have rest: "replace_loop fuel str src new ch mx d i' j' n' \<noteq> Inl NonTermination"
    if "i + AStrLen src \<le> AStrLen str" "i < i'" for d i' j' n'
    using Suc that by (intro Suc.IH) auto
  show ?case
    using rest Suc.prems(3)
    by (auto simp: bindE_NT Let_def IsMatchAt_def dest!: skip_loop_forward)
qed simp

lemma count_matches_ends:
  "0 < AStrLen sub \<Longrightarrow> count_matches str i ch sub (AStrLen sub) cnt mx \<noteq> Inl NonTermination"
proof (induction "Suc (AStrLen str) - i" arbitrary: i cnt rule: less_induct)
  case less
  have "count_matches str i' ch sub (AStrLen sub) cnt' mx \<noteq> Inl NonTermination" if "i < i'" "i \<le> AStrLen str" for i' cnt'
    using less that by (intro less.hyps) auto
  then show ?case using less.prems by (subst count_matches.simps) (auto simp: bindE_NT)
qed

lemma ends_sub_of_block: "ends (sub_of_block b i n)"
proof -
  have "ends (new_substr b i n)" unfolding new_substr_def
    by (cases "sint (word_of_int n :: 32 word) < - 1") (simp_all add: ends_raise ends_bind ends_next_alloc ends_ret)
  then show ?thesis unfolding sub_of_block_def
    by (cases b) (auto intro!: ends_bind ends_next_alloc ends_ret ends_raise)
qed

lemma ends_ACreateSubStr: "ends (ACreateSubStr v i j)"
  unfolding ACreateSubStr_def Let_def by (cases v) (simp_all add: ends_sub_of_block split: prod.split)

lemma ends_append_part: "ends (append_part str i0 i acc)"
  unfolding append_part_def by (intro ends_bind ends_ACreateSubStr ends_next_alloc ends_ret)

lemma ends_limit: "ends (case a of None \<Rightarrow> ret (int A_SSIZE_T_MAX) | Some v \<Rightarrow> bindM (AGetInt v) (\<lambda>i. ret (sint i)))"
  by (auto simp: AGetInt_def Let_def intro!: ends_bind ends_ret ends_raise split: option.splits aint.splits)

lemma ends_split_loop:
  "Suc (AStrLen str) - i < fuel \<Longrightarrow> 0 < AStrLen sep \<Longrightarrow> ends (split_loop fuel str sep ch mx i i0 n acc)"
proof (induction fuel arbitrary: i i0 n acc)
  case (Suc fuel)
  have rest: "ends (split_loop fuel str sep ch mx i' i0' n' acc')"
    if "i + AStrLen sep \<le> AStrLen str" "i < i'" for i' i0' n' acc'
    using Suc.prems that by (intro Suc.IH) auto
  show ?case using Suc.prems(2) rest
    by (auto intro!: ends_bind ends_liftE ends_append_part ends_ret)
qed simp

lemma ends_space_loop:
  "AStrLen str - i < fuel \<Longrightarrow> ends (space_loop fuel str mx i i0 n acc)"
proof (induction fuel arbitrary: i i0 n acc)
  case (Suc fuel)
  have forward: "yields (liftE (strip_left str j)) (\<lambda>k. j \<le> k)" for j
    by (rule yields_liftE) (rule strip_left_forward)
  have rest: "ends (space_loop fuel str mx i' i0' n' acc')" if "i < AStrLen str" "i < i'" for i' i0' n' acc'
    using Suc.prems that by (intro Suc.IH) auto
  show ?case using rest
    by (auto intro!: ends_bind ends_liftE ends_append_part ends_ret ends_bind_if [OF forward])
qed simp

end
