(* ===== verification/Str_Props.thy ===== *)
theory Str_Props
  imports Str_Safe
begin

text \<open>Properties of strings.\<close>

section \<open>Strings a program can build\<close>

text \<open>Every string that operations return, starting from strings made of characters in range.\<close>

inductive built :: "strval \<Rightarrow> bool" where
  Narrow: "list_all (\<lambda>c. c < 256) buf \<Longrightarrow> ACreateString buf t = (Inr v, t') \<Longrightarrow> built v"
| Wide: "list_all (\<lambda>c. c < 65536) buf \<Longrightarrow> ACreateWideString buf t = (Inr v, t') \<Longrightarrow> built v"
| Char: "AMakeCh ch t = (Inr v, t') \<Longrightarrow> built v"
| Concat: "built l \<Longrightarrow> built r \<Longrightarrow> AConcatStrings l r t = (Inr v, t') \<Longrightarrow> built v"
| Slice: "built s \<Longrightarrow> ACreateSubStr s i j t = (Inr v, t') \<Longrightarrow> built v"
| Repeat: "built s \<Longrightarrow> ARepeatString s n t = (Inr v, t') \<Longrightarrow> built v"
| Normalize: "built s \<Longrightarrow> ANormalizeNarrowString s t = (Inr v, t') \<Longrightarrow> built v"
| Strip: "built s \<Longrightarrow> AStrStrip s t = (Inr v, t') \<Longrightarrow> built v"
| Replace: "built s \<Longrightarrow> built new \<Longrightarrow> AStrReplace s old new mx t = (Inr v, t') \<Longrightarrow> built v"
| Split: "built s \<Longrightarrow> AStrSplit s sep mx t = (Inr vs, t') \<Longrightarrow> v \<in> set vs \<Longrightarrow> built v"
| Join: "built sep \<Longrightarrow> (\<And>s. Some s \<in> set xs \<Longrightarrow> built s) \<Longrightarrow> AStrJoin sep xs t = (Inr v, t') \<Longrightarrow> built v"
| Item: "AStrIterNext it t = (Inr (v, it'), t') \<Longrightarrow> built v"

lemma yieldsD: "yields m P \<Longrightarrow> m t = (Inr x, t') \<Longrightarrow> P x"
  by (auto simp: yields_def)

lemmas wf_results =
  yields_ACreateString [THEN yieldsD] yields_ACreateWideString [THEN yieldsD] yields_AMakeCh [THEN yieldsD]
  yields_AConcatStrings [THEN yieldsD] yields_ACreateSubStr [THEN yieldsD] yields_ARepeatString [THEN yieldsD]
  yields_ANormalizeNarrowString [THEN yieldsD] yields_AStrStrip [THEN yieldsD] yields_AStrReplace [THEN yieldsD]

text \<open>
  C14: Every string that the operations build, in any order, with any arguments and whatever the
  allocations do, is well-formed: narrow characters below 256, wide characters below 65536 and
  substrings inside of their block.
\<close>

theorem built_well_formed:
  assumes "built v"
  shows "wf_str v"
  using assms
proof (induction rule: built.induct)
  case (Split s sep mx t vs t' v)
  then show ?case using yieldsD [OF yields_AStrSplit] by (fastforce simp: list_all_iff)
next
  case (Item it t v it' t')
  then show ?case using yieldsD [OF yields_AStrIterNext] by fastforce
next
  case (Join sep xs t v t')
  then show ?case using yieldsD [OF yields_AStrJoin] by blast
qed (auto dest: wf_results)

theorem built_well_formed_witness:
  "wf_str (Whole (ANarrow [97, 98, 97, 98]))"
proof (rule built_well_formed)
  let ?t = "\<lparr>allocs = [], tempStackPtr = 0\<rparr>"
  have "built (Whole (ANarrow [97, 98]))"
    by (rule built.Narrow [of "[97, 98]" ?t _ ?t]) (simp_all add: ACreateString_def bindM_def next_alloc_def ret_def)
  then show "built (Whole (ANarrow [97, 98, 97, 98]))"
    by (rule built.Concat [of _ _ ?t _ ?t], assumption)
      (simp_all add: AConcatStrings_def bindM_def next_alloc_def ret_def str_elems_def str_ind_def is_wide_def)
qed

section \<open>Substrings and concatenation\<close>

text \<open>A string of 12 narrow characters for the examples, and a substring object of it.\<close>

definition sample :: strval where
  "sample = Whole (ANarrow [97, 98, 44, 97, 98, 44, 97, 99, 44, 97, 98, 97])"

definition sample_sub :: strval where
  "sample_sub = SubStr (ANarrow [97, 98, 44, 97, 98, 44, 97, 99, 44, 97, 98, 97]) 1 11"

lemma sample_wf: "wf_str sample" "wf_str sample_sub" "AStrLen sample = 12" "AStrLen sample_sub = 11"
  "\<not> is_wide sample" "\<not> is_wide sample_sub"
  by (simp_all add: sample_def sample_sub_def wf_block_def)

lemma sub_allocs_eq: "sub_allocs v = (if is_wide v then no_gc else any_alloc)"
  by (auto simp: sub_allocs_def any_alloc_def)

text \<open>
  C25: The substring from \<open>i\<close> to \<open>j\<close> of a string of less than 2^31 characters holds the slice of the
  characters, whether the result is a copy or a substring object and whether the string is one itself;
  negative indices count from the end.  For a narrow string this holds in every run, for a wide string
  in a run without a collection (a collection can move the string during the allocation).
\<close>

theorem substring_slice:
  assumes "wf_str v" "AStrLen v < 2 ^ 31"
  shows "meets (if is_wide v then no_gc else any_alloc) (ACreateSubStr v i j) (is_str (slice i j (str_elems v)))"
  unfolding sub_allocs_eq [symmetric] by (rule meets_mono [OF meets_ACreateSubStr]) (use assms in auto)

theorem substring_slice_witness:
  "meets any_alloc (ACreateSubStr sample_sub (- 10) 11) (is_str [44, 97, 98, 44, 97, 99, 44, 97, 98, 97])
   \<and> meets no_gc (ACreateSubStr (SubStr (AWide [120, 955, 956, 957]) 1 3) 1 (- 1)) (is_str [956])"
proof
  show "meets any_alloc (ACreateSubStr sample_sub (- 10) 11) (is_str [44, 97, 98, 44, 97, 99, 44, 97, 98, 97])"
    using substring_slice [of sample_sub "- 10" 11] sample_wf
    by (simp add: slice_def sample_sub_def str_elems_def str_ind_def)
  show "meets no_gc (ACreateSubStr (SubStr (AWide [120, 955, 956, 957]) 1 3) 1 (- 1)) (is_str [956])"
    using substring_slice [of "SubStr (AWide [120, 955, 956, 957]) 1 3" 1 "- 1"]
    by (simp add: slice_def str_elems_def str_ind_def wf_block_def is_wide_def)
qed

text \<open>A short slice of a wide string is read from its old place when a collection has moved it.\<close>

theorem wide_slice_after_collection:
  "fst (ACreateSubStr (Whole (AWide [955, 120])) 0 1 \<lparr>allocs = [AllocBlock True []], tempStackPtr = 0\<rparr>) =
     Inl UndefinedBehaviour"
  by (simp add: ACreateSubStr_def sub_of_block_def A_MIN_SUBSTR_LEN_def AGetBlockSize_def bindM_def next_alloc_def raise_def)

text \<open>
  Concatenation appends the characters of strings of any representations, when no conversion
  to a wide string runs out of memory.
\<close>

theorem concat_correct:
  assumes "wf_str left" "wf_str right"
  shows "meets (concat_allocs left right) (AConcatStrings left right) (is_str (str_elems left @ str_elems right))"
  using assms by (rule meets_AConcatStrings)

theorem concat_correct_witness:
  "meets (concat_allocs sample_sub (Whole (AWide [955]))) (AConcatStrings sample_sub (Whole (AWide [955])))
     (is_str ([98, 44, 97, 98, 44, 97, 99, 44, 97, 98, 97] @ [955]))"
  using concat_correct [of sample_sub "Whole (AWide [955])"] sample_wf
  by (simp add: wf_block_def sample_sub_def str_elems_def str_ind_def)

text \<open>
  When the conversion of a narrow operand fails for lack of memory, the caller gets a type error
  for the left operand, and the error value of the right one is followed as a pointer.
\<close>

theorem concat_out_of_memory:
  "fst (AConcatStrings (Whole (ANarrow [97])) (Whole (AWide [955])) \<lparr>allocs = [AllocFail], tempStackPtr = 0\<rparr>) = Inl TypeError \<and>
   fst (AConcatStrings (Whole (AWide [955])) (Whole (ANarrow [97])) \<lparr>allocs = [AllocFail], tempStackPtr = 0\<rparr>) = Inl UndefinedBehaviour"
  by (simp add: AConcatStrings_def AConcatWideStrings_def attempt_def ANarrowStringToWide_def bindM_def next_alloc_def
      ret_def raise_def)

section \<open>Comparison\<close>

text \<open>
  C26: An order comparison of two strings gives the lexicographic order of their characters, except
  that a left operand that is the right one and 65536 characters more raises a type error, since
  the difference of the lengths is then the code of a failed comparison.
\<close>

theorem compare_strings:
  assumes "wf_str left" "wf_str right" "AStrLen left < 2 ^ 31" "AStrLen right < 2 ^ 31"
  shows "CompareOrder_Str op left right =
     (if AStrLen left = AStrLen right + 65536 \<and> take (AStrLen right) (str_elems left) = str_elems right
      then Inl TypeError else Inr (satisfies op (str_elems left) (str_elems right)))"
  using CompareOrder_value assms by simp

theorem compare_strings_witness:
  "CompareOrder_Str OPER_GT sample sample_sub = Inr False \<and>
   CompareOrder_Str OPER_GT (Whole (ANarrow (replicate 65536 97))) (Whole (ANarrow [])) = Inl TypeError"
proof
  show "CompareOrder_Str OPER_GT sample sample_sub = Inr False"
    using compare_strings [of sample sample_sub OPER_GT] sample_wf
    by (simp add: sample_def sample_sub_def str_elems_def str_ind_def)
  have "wf_str (Whole (ANarrow (replicate 65536 97)))" by (simp add: wf_block_def list_all_iff)
  then show "CompareOrder_Str OPER_GT (Whole (ANarrow (replicate 65536 97))) (Whole (ANarrow [])) = Inl TypeError"
    using compare_strings [of "Whole (ANarrow (replicate 65536 97))" "Whole (ANarrow [])" OPER_GT]
    by (simp add: wf_block_def)
qed

section \<open>Searching\<close>

text \<open>
  C24: Searching from an index on returns the index of the first occurrence there, or minus one when
  there is none; an empty string occurs at every index up to the length.
\<close>

theorem find_first:
  assumes "wf_str str" "wf_str sub"
  shows "\<exists>r. Find str i sub = Inr r \<and> first_occurrence (str_elems str) i (str_elems sub) r"
  using assms by (rule Find_value)

theorem find_first_witness:
  "\<exists>r. Find sample 1 (Whole (AWide [97, 98])) = Inr r \<and>
       first_occurrence [97, 98, 44, 97, 98, 44, 97, 99, 44, 97, 98, 97 :: nat] 1 [97, 98] r"
  using find_first [of sample "Whole (AWide [97, 98])" 1] sample_wf by (simp add: sample_def wf_block_def)

text \<open>
  Counting an empty string reads the first character of the empty string, which is none of its
  characters.
\<close>

theorem count_empty_undefined:
  "Count str (Whole (ANarrow [])) mx = Inl UndefinedBehaviour"
  by (simp add: Count_def item_def)

section \<open>Replacing, splitting and joining\<close>

text \<open>
  C13: Replacing gives the parts between the non-overlapping occurrences from the left, at most the
  given number of them, joined by the new string; in particular the length that is computed
  before the result is filled is right, and the loops stay inside of it.
\<close>

theorem replace_correct:
  assumes "wf_str str" "wf_str old" "wf_str new" "0 < AStrLen old"
    and "AStrLen str < 2 ^ 31" "AStrLen new < 2 ^ 31" "AStrLen old < 2 ^ 31" "limit_ok max_arg"
  shows "meets any_alloc (AStrReplace str old new max_arg)
    (is_str (intercalate (str_elems new) (parts (str_elems old) (nat (limit_value max_arg)) (str_elems str))))"
  by (rule meets_AStrReplace) (use assms in simp_all)

theorem replace_correct_witness:
  "meets any_alloc (AStrReplace sample (Whole (ANarrow [97, 98])) (Whole (AWide [955])) (Some (AShort 8)))
     (is_str [955, 44, 955, 44, 97, 99, 44, 97, 98, 97])"
  using replace_correct [of sample "Whole (ANarrow [97, 98])" "Whole (AWide [955])" "Some (AShort 8)"] sample_wf
  by (simp add: sample_def wf_block_def limit_value_def short_val_def occurs_at_def)

text \<open>
  C15: Splitting a string of less than 2^31 characters at a separator that is not empty, with no limit
  or a limit that fits a C \<^verbatim>\<open>int\<close>, and joining the parts with the separator gives the string back.
  For a narrow string this holds in every run, for a wide string in a run without a collection (its
  short parts are copied through a pointer that a collection makes stale).
\<close>

theorem split_join:
  assumes "wf_str str" "wf_str sep" "0 < AStrLen sep" "AStrLen str < 2 ^ 31" "limit_ok max_arg"
  shows "meets (if is_wide str then no_gc else any_alloc)
    (bindM (AStrSplit str (Some sep) max_arg) (\<lambda>ps. AStrJoin sep (map Some ps))) (is_str (str_elems str))"
  unfolding sub_allocs_eq [symmetric]
proof (rule meets_bind)
  let ?ps = "parts (str_elems sep) (nat (limit_value max_arg)) (str_elems str)"
  show "meets (sub_allocs str) (AStrSplit str (Some sep) max_arg) (is_strs ?ps)"
    using assms by (intro meets_AStrSplit_sep) simp_all
  fix ps assume ps: "is_strs ?ps ps"
  have "intercalate (str_elems sep) ?ps = str_elems str"
    using assms str_elems_ne by (intro intercalate_parts) blast
  then show "meets (sub_allocs str) (AStrJoin sep (map Some ps)) (is_str (str_elems str))"
    using meets_AStrJoin [OF assms(2), of ps "sub_allocs str"] ps by (simp add: is_strs_def)
qed

theorem split_join_witness:
  "meets any_alloc
    (bindM (AStrSplit sample (Some (Whole (ANarrow [44]))) None) (\<lambda>ps. AStrJoin (Whole (ANarrow [44])) (map Some ps)))
    (is_str [97, 98, 44, 97, 98, 44, 97, 99, 44, 97, 98, 97])
   \<and> meets no_gc
    (bindM (AStrSplit (Whole (AWide [955, 44, 956])) (Some (Whole (ANarrow [44]))) (Some (AShort 4)))
      (\<lambda>ps. AStrJoin (Whole (ANarrow [44])) (map Some ps)))
    (is_str [955, 44, 956])"
proof
  show "meets any_alloc
    (bindM (AStrSplit sample (Some (Whole (ANarrow [44]))) None) (\<lambda>ps. AStrJoin (Whole (ANarrow [44])) (map Some ps)))
    (is_str [97, 98, 44, 97, 98, 44, 97, 99, 44, 97, 98, 97])"
    using split_join [of sample "Whole (ANarrow [44])" None] sample_wf by (simp add: sample_def wf_block_def)
  show "meets no_gc
    (bindM (AStrSplit (Whole (AWide [955, 44, 956])) (Some (Whole (ANarrow [44]))) (Some (AShort 4)))
      (\<lambda>ps. AStrJoin (Whole (ANarrow [44])) (map Some ps)))
    (is_str [955, 44, 956])"
    using split_join [of "Whole (AWide [955, 44, 956])" "Whole (ANarrow [44])" "Some (AShort 4)"]
    by (simp add: wf_block_def is_wide_def str_elems_def str_ind_def short_val_def)
qed

text \<open>
  C27: Splitting a string ends, with a separator and with white space, with any limit and whatever
  the allocations do.
\<close>

theorem split_ends:
  "fst (AStrSplit str sep max_arg t) \<noteq> Inl NonTermination"
proof -
  have "ends (AStrSplit str sep max_arg)"
    unfolding AStrSplit_def
    by (rule ends_bind [OF ends_next_alloc], rule ends_bind [OF ends_limit])
      (auto simp: intro!: ends_bind ends_liftE ends_split_loop ends_space_loop ends_append_part ends_ret ends_raise
        simp del: split_loop.simps space_loop.simps split: option.splits)
  then show ?thesis by (simp add: ends_def)
qed

text \<open>
  Replacing in a string ends, also when the loops read or write outside of a string.
\<close>

theorem replace_ends:
  "fst (AStrReplace str old new max_arg t) \<noteq> Inl NonTermination"
proof -
  have len: "replace_len str old new mx \<noteq> Inl NonTermination" if "0 < AStrLen old" for mx
    using count_matches_ends [OF that] by (auto simp: replace_len_def Let_def bindE_NT Count_def)
  have fill: "ends (liftE (bindE (AStrItem old 0) (\<lambda>ch.
      bindE (replace_loop (Suc (AStrLen str)) str old new ch mx dst 0 0 0)
        (\<lambda>(dst, i, j). ACopySubStr dst j str i (AStrLen str - i)))))" if "0 < AStrLen old" for dst mx
    using replace_loop_ends [OF _ _ that, of str 0 "Suc (AStrLen str)"]
    by (intro ends_liftE) (auto simp: bindE_NT simp del: replace_loop.simps)
  have make: "ends (if b then AMakeEmptyStr n else AMakeEmptyStrW n)" for b n
    by (auto simp: AMakeEmptyStr_def AMakeEmptyStrW_def intro!: ends_bind ends_next_alloc ends_ret)
  have "ends (AStrReplace str old new max_arg)"
    unfolding AStrReplace_def
  proof (rule ends_bind [OF ends_limit])
    fix mx
    show "ends (if AStrLen old = 0 \<or> mx \<le> 0 then ret str
      else bindM (liftE (replace_len str old new mx)) (\<lambda>len. case len of
        None \<Rightarrow> ret str
      | Some n \<Rightarrow> bindM (if \<not> is_wide str \<and> \<not> is_wide old \<and> \<not> is_wide new then AMakeEmptyStr n else AMakeEmptyStrW n)
          (\<lambda>dst. liftE (bindE (AStrItem old 0) (\<lambda>ch.
             bindE (replace_loop (Suc (AStrLen str)) str old new ch mx dst 0 0 0)
               (\<lambda>(dst, i, j). ACopySubStr dst j str i (AStrLen str - i)))))))"
    proof (cases "AStrLen old = 0 \<or> mx \<le> 0")
      case False
      then have old: "0 < AStrLen old" by simp
      show ?thesis unfolding if_not_P [OF False]
        by (rule ends_bind [OF ends_liftE [OF len [OF old]]], split option.split)
          (intro conjI allI impI ends_ret ends_bind [OF make fill [OF old]])
    qed (simp add: ends_ret)
  qed
  then show ?thesis by (simp add: ends_def)
qed

section \<open>Repetition\<close>

text \<open>
  Repeating a string a number of times that is not negative gives that many copies, as long as
  the result has less than two to the 31 characters.
\<close>

theorem repeat_correct:
  assumes "wf_str v" "0 \<le> num" "num * int (AStrLen v) < 2 ^ 31"
  shows "meets any_alloc (ARepeatString v num) (is_str (concat (replicate (nat num) (str_elems v))))"
  by (rule meets_ARepeatString) (use assms in simp_all)

theorem repeat_correct_witness:
  "meets any_alloc (ARepeatString (Whole (AWide [955, 97])) 2) (is_str [955, 97, 955, 97])"
  using repeat_correct [of "Whole (AWide [955, 97])" 2] by (simp add: wf_block_def numeral_2_eq_2)

text \<open>A narrow string repeated minus one times asks for a block of a negative size.\<close>

theorem repeat_negative:
  "fst (ARepeatString (Whole (ANarrow [97])) (- 1) t) = Inl UndefinedBehaviour"
  by (simp add: ARepeatString_def raise_def)

end
