(* ===== verification/Std_Sort.thy ===== *)
theory Std_Sort
  imports Array_Lemmas Map_Refine
begin

text \<open>
  The function std::Sort of \<^verbatim>\<open>src/src/std_sort.c\<close>: an in-place quicksort on an array, with the
  default comparison or a comparison function given by the caller.  Comparing runs in the
  thread and may raise an exception, and so does storing an item when memory runs out.  The depth of
  the recursion is not limited.
\<close>

section \<open>Comparison\<close>

text \<open>
  The default comparison is \<^verbatim>\<open>AIsGt\<close>, the negation of \<^verbatim>\<open>AIsLte\<close>; a comparison function may
  also return a value that is not a Boolean (None).
\<close>

datatype 'a comparator =
    DefaultOrder "'a \<Rightarrow> 'a \<Rightarrow> bool rt"
  | CompareFunction "'a \<Rightarrow> 'a \<Rightarrow> bool option rt"

text \<open>Whether an item stays on the left of the pivot.\<close>

fun stays_left :: "'a comparator \<Rightarrow> 'a \<Rightarrow> 'a \<Rightarrow> bool rt" where
  "stays_left (DefaultOrder gt) pivot x = bindM (gt x pivot) (\<lambda>res. ret (\<not> res))"
| "stays_left (CompareFunction f) pivot x =
     bindM (f pivot x)
       (\<lambda>res. case res of None \<Rightarrow> raise (ValueError '''') | Some b \<Rightarrow> ret (\<not> b))"

section \<open>Quicksort\<close>

text \<open>
  Items \<open>i\<close> and \<open>j\<close> change places by two stores, the first one to \<open>i\<close>; the array is also returned when a
  store fails.
\<close>

definition swap_items :: "'a list \<Rightarrow> int \<Rightarrow> int \<Rightarrow> athread \<Rightarrow> (aerror + unit) \<times> 'a list \<times> athread" where
  "swap_items a i j t =
     (case fix_store a (nat i) (a ! nat j) t of
        (Inl e, t) \<Rightarrow> (Inl e, a, t)
      | (Inr a1, t) \<Rightarrow>
          (case fix_store a1 (nat j) (a ! nat i) t of
             (Inl e, t) \<Rightarrow> (Inl e, a1, t)
           | (Inr a2, t) \<Rightarrow> (Inr (), a2, t)))"

text \<open>The partition loop; the array is also returned on an exception.\<close>

function part_loop :: "'a comparator \<Rightarrow> 'a \<Rightarrow> 'a list \<Rightarrow> int \<Rightarrow> int \<Rightarrow> athread \<Rightarrow> (aerror + int) \<times> 'a list \<times> athread" where
  "part_loop c pivot a l r t =
     (if l \<le> r then
        (case stays_left c pivot (a ! nat l) t of
           (Inl e, t) \<Rightarrow> (Inl e, a, t)
         | (Inr True, t) \<Rightarrow> part_loop c pivot a (l + 1) r t
         | (Inr False, t) \<Rightarrow>
             (case swap_items a r l t of
                (Inl e, a, t) \<Rightarrow> (Inl e, a, t)
              | (Inr _, a, t) \<Rightarrow> part_loop c pivot a l (r - 1) t))
      else (Inr l, a, t))"
  by pat_completeness auto
termination by (relation "measure (\<lambda>(c, p, a, l, r, t). nat (r + 1 - l))") auto

declare part_loop.simps [simp del]

lemma part_loop_step:
  assumes "l \<le> r" "stays_left c pivot (a ! nat l) t = (res, u)"
  shows "part_loop c pivot a l r t =
    (case res of
       Inl e \<Rightarrow> (Inl e, a, u)
     | Inr True \<Rightarrow> part_loop c pivot a (l + 1) r u
     | Inr False \<Rightarrow>
         (case swap_items a r l u of
            (Inl e, a, t) \<Rightarrow> (Inl e, a, t)
          | (Inr _, a, t) \<Rightarrow> part_loop c pivot a l (r - 1) t))"
  using assms by (subst part_loop.simps) (simp split: sum.split bool.split)

lemma part_loop_bounds:
  "part_loop c pivot a l r t = (Inr l', a', t') \<Longrightarrow> l \<le> r + 1 \<Longrightarrow> l \<le> l' \<and> l' \<le> r + 1"
proof (induction "nat (r + 1 - l)" arbitrary: a l r t)
  case 0
  then show ?case by (simp add: part_loop.simps [of c pivot a])
next
  case (Suc n)
  then have lr: "l \<le> r" by simp
  have n: "n = nat (r + 1 - (l + 1))" "n = nat (r - 1 + 1 - l)" using Suc.hyps(2) by auto
  obtain res u where s: "stays_left c pivot (a ! nat l) t = (res, u)" by fastforce
  obtain x a1 t1 where w: "swap_items a r l u = (x, a1, t1)" by (metis prod_cases3)
  note step = part_loop_step [OF lr s]
  show ?case
    using Suc.hyps(1) [OF n(1)] Suc.hyps(1) [OF n(2)] Suc.prems lr unfolding step w
    by (cases res) (fastforce split: bool.splits sum.splits)+
qed

function QSort :: "'a comparator \<Rightarrow> 'a list \<Rightarrow> int \<Rightarrow> int \<Rightarrow> athread \<Rightarrow> (aerror + unit) \<times> 'a list \<times> athread" where
  "QSort c a b e t =
     (if b < e then
        (case part_loop c (a ! nat b) a (b + 1) e t of
           (Inl err, a, t) \<Rightarrow> (Inl err, a, t)
         | (Inr l, a, t) \<Rightarrow>
             let l = l - 1
             in (case swap_items a l b t of
                   (Inl err, a, t) \<Rightarrow> (Inl err, a, t)
                 | (Inr _, a, t) \<Rightarrow>
                     (case QSort c a b (l - 1) t of
                        (Inl err, a, t) \<Rightarrow> (Inl err, a, t)
                      | (Inr _, a, t) \<Rightarrow> QSort c a (l + 1) e t)))
      else (Inr (), a, t))"
  by pat_completeness auto
termination
  by (relation "measure (\<lambda>(c, a, b, e, t). nat (e + 1 - b))")
    (auto dest!: sym [of "part_loop _ _ _ _ _ _"] part_loop_bounds [OF sym])

declare QSort.simps [simp del]

text \<open>
  The length of the source is kept in a C \<^verbatim>\<open>int\<close>; if it comes out negative the function returns the error
  value although there is no exception.  The items are read one by one, which may raise an exception,
  and stored in a new array.
\<close>

definition AStdSort :: "'a comparator \<Rightarrow> 'a \<Rightarrow> aerror + (aerror + 'a) list \<Rightarrow> 'a list rt" where
  "AStdSort c nil src =
     bindM (liftE src)
       (\<lambda>items.
          let len = c_int (int (length items))
          in if len < 0 then raise UndefinedBehaviour
             else bindM (AMakeArrayND nil (nat len))
               (\<lambda>r. bindM (store_items (take (nat len) items) 0 (A_ARRAY_A r))
                  (\<lambda>a t. case QSort c a 0 (len - 1) t of
                           (Inl e, _, t) \<Rightarrow> (Inl e, t)
                         | (Inr _, a, t) \<Rightarrow> (Inr a, t))))"

section \<open>Swapping and storing\<close>

lemma bind_assoc: "bindM (bindM m f) g = bindM m (\<lambda>x. bindM (f x) g)"
  by (auto simp: bindM_def fun_eq_iff split: prod.splits sum.splits)

definition swapped :: "'a list \<Rightarrow> int \<Rightarrow> int \<Rightarrow> 'a list" where
  "swapped a i j = a[nat i := a ! nat j, nat j := a ! nat i]"

lemma store_ok:
  assumes "i < length xs" "mem_ok t"
  shows "\<exists>t'. fix_store xs i v t = (Inr (xs[i := v]), t') \<and> mem_ok t'"
  using meets_mem_ok [OF meets_fix_store [OF assms(1), of any_alloc v] assms(2)] by blast

lemma swap_ok:
  assumes "nat i < length a" "nat j < length a" "mem_ok t"
  shows "\<exists>t'. swap_items a i j t = (Inr (), swapped a i j, t') \<and> mem_ok t'"
proof -
  obtain t1 where t1: "fix_store a (nat i) (a ! nat j) t = (Inr (a[nat i := a ! nat j]), t1)" "mem_ok t1"
    using store_ok [OF assms(1,3)] by blast
  have "nat j < length (a[nat i := a ! nat j])" using assms(2) by simp
  from store_ok [OF this t1(2), of "a ! nat i"] show ?thesis
    by (auto simp: swap_items_def t1(1) swapped_def)
qed

lemma fix_store_cases:
  assumes "i < length xs"
  shows "(\<exists>t'. fix_store xs i v t = (Inr (xs[i := v]), t')) \<or> (\<exists>t'. fix_store xs i v t = (Inl MemoryError, t'))"
proof -
  obtain r t' where f: "fix_store xs i v t = (r, t')" by fastforce
  have "outcome_ok (\<lambda>ys. ys = xs[i := v]) t (r, t')"
    using meetsD [OF meets_fix_store [OF assms, of any_alloc] mem_ok_any, of v t] f by simp
  then show ?thesis using f by (cases r) (simp_all add: outcome_ok_def)
qed

lemma swap_cases:
  assumes "nat i < length a" "nat j < length a" "swap_items a i j t = (res, a', t')"
  shows "res = Inr () \<and> a' = swapped a i j \<or> res = Inl MemoryError \<and> (a' = a \<or> a' = a[nat i := a ! nat j])"
  using fix_store_cases [OF assms(1), of "a ! nat j" t]
proof (elim disjE exE)
  fix t1 assume 1: "fix_store a (nat i) (a ! nat j) t = (Inr (a[nat i := a ! nat j]), t1)"
  have "nat j < length (a[nat i := a ! nat j])" using assms(2) by simp
  from fix_store_cases [OF this, of "a ! nat i" t1] show ?thesis
    using assms(3) unfolding swap_items_def 1 prod.case sum.case
    by (elim disjE exE) (simp_all add: swapped_def)
next
  fix t1 assume "fix_store a (nat i) (a ! nat j) t = (Inl MemoryError, t1)"
  then show ?thesis using assms(3) by (simp add: swap_items_def)
qed

lemma meets_store_items:
  "i + length xs \<le> length dst \<Longrightarrow>
   meets Q (store_items (map Inr xs) i dst) (\<lambda>r. r = take i dst @ xs @ drop (i + length xs) dst)"
proof (induction xs arbitrary: i dst)
  case Nil
  then show ?case by (auto intro: meets_ret)
next
  case (Cons x xs)
  have i: "i < length dst" using Cons.prems by simp
  have "i + 1 + length xs \<le> length (dst[i := x])" using Cons.prems by simp
  note IH = Cons.IH [OF this]
  have "take (i + 1) (dst[i := x]) = take i dst @ [x]" using i by (simp add: take_Suc_conv_app_nth)
  moreover have "drop (i + 1 + length xs) (dst[i := x]) = drop (i + 1 + length xs) dst" by simp
  ultimately have "meets Q (store_items (map Inr xs) (i + 1) (dst[i := x]))
      (\<lambda>r. r = take i dst @ (x # xs) @ drop (i + length (x # xs)) dst)"
    using IH by simp
  then show ?case
    by (auto simp: liftE_def bind_ret intro!: meets_bind [OF meets_fix_store [OF i]])
qed

section \<open>Rearranging a range\<close>

text \<open>\<open>a'\<close> is \<open>a\<close> with the items in the range from \<open>b\<close> to \<open>e\<close> rearranged.\<close>

definition rearranged :: "'a list \<Rightarrow> 'a list \<Rightarrow> int \<Rightarrow> int \<Rightarrow> bool" where
  "rearranged a a' b e \<longleftrightarrow>
     mset a' = mset a \<and> (\<forall>i. 0 \<le> i \<and> (i < b \<or> e < i) \<longrightarrow> nat i < length a \<longrightarrow> a' ! nat i = a ! nat i)"

lemma rearranged_length: "rearranged a a' b e \<Longrightarrow> length a' = length a"
  unfolding rearranged_def by (metis mset_eq_length)

lemma rearranged_refl: "rearranged a a b e"
  by (simp add: rearranged_def)

lemma rearranged_trans: "rearranged a a1 b e \<Longrightarrow> rearranged a1 a2 b e \<Longrightarrow> rearranged a a2 b e"
  using rearranged_length [of a a1 b e] by (auto simp: rearranged_def)

lemma rearranged_widen: "rearranged a a' b' e' \<Longrightarrow> b \<le> b' \<Longrightarrow> e' \<le> e \<Longrightarrow> rearranged a a' b e"
  by (auto simp: rearranged_def)

lemma rearranged_swap:
  assumes "0 \<le> b" "b \<le> i" "i \<le> e" "b \<le> j" "j \<le> e" "e < int (length a)"
  shows "rearranged a (swapped a i j) b e"
proof -
  have "mset (swapped a i j) = mset a"
    using assms unfolding swapped_def by (intro mset_swap) auto
  moreover have "swapped a i j ! nat k = a ! nat k" if "0 \<le> k" "k < b \<or> e < k" for k
    using assms that by (auto simp: swapped_def nth_list_update)
  ultimately show ?thesis by (simp add: rearranged_def)
qed

text \<open>The items in the range are the same before and after.\<close>

lemma rearranged_range:
  assumes "rearranged a a' b e" "0 \<le> b" "b \<le> e + 1" "e < int (length a)"
  shows "(\<lambda>i. a' ! nat i) ` {b..e} = (\<lambda>i. a ! nat i) ` {b..e}"
proof -
  let ?m = "nat b" and ?n = "nat (e + 1)"
  have len: "length a' = length a" using assms(1) by (rule rearranged_length)
  have eq: "a' ! k = a ! k" if "k < length a" "k < ?m \<or> ?n \<le> k" for k
  proof -
    have "0 \<le> int k \<and> (int k < b \<or> e < int k) \<and> nat (int k) < length a" using that assms by auto
    then show ?thesis using assms(1) by (metis nat_int rearranged_def)
  qed
  have split: "xs = take ?m xs @ drop ?m (take ?n xs) @ drop ?n xs" for xs :: "'a list"
    using assms by (metis append_take_drop_id min_def nat_mono take_take drop_take le_add_diff_inverse append_assoc take_add
        Suc_nat_eq_nat_zadd1 add.commute)
  have "take ?m a' = take ?m a" "drop ?n a' = drop ?n a"
    using len eq assms by (auto intro!: nth_equalityI)
  then have "mset (drop ?m (take ?n a')) = mset (drop ?m (take ?n a))"
    using assms(1) split [of a] split [of a'] by (metis add_left_cancel add_right_cancel mset_append rearranged_def)
  then have "set (drop ?m (take ?n a')) = set (drop ?m (take ?n a))" by (rule mset_eq_setD)
  moreover have "set (drop ?m (take ?n xs)) = (\<lambda>i. xs ! nat i) ` {b..e}" if "length xs = length a" for xs
  proof -
    have "drop ?m (take ?n xs) = map ((!) xs) [?m..<?n]"
      using that assms by (auto intro!: nth_equalityI)
    then have "set (drop ?m (take ?n xs)) = (!) xs ` {?m..<?n}" by simp
    also have "{?m..<?n} = nat ` {b..e}"
    proof
      show "{?m..<?n} \<subseteq> nat ` {b..e}"
      proof
        fix k assume "k \<in> {?m..<?n}"
        then have "int k \<in> {b..e}" "nat (int k) = k" using assms(2) by auto
        then show "k \<in> nat ` {b..e}" by (metis imageI)
      qed
    qed (use assms in auto)
    finally show ?thesis by (simp add: image_image)
  qed
  ultimately show ?thesis using len by metis
qed

section \<open>Correctness\<close>

text \<open>
  The contract of a comparison on valid items: it returns, and it decides a total preorder
  \<open>le\<close>: an item stays on the left exactly when it is not greater than the pivot.
\<close>

locale sort_order =
  fixes c :: "'a comparator" and valid :: "'a \<Rightarrow> bool" and le :: "'a \<Rightarrow> 'a \<Rightarrow> bool"
  assumes decides: "valid p \<Longrightarrow> valid x \<Longrightarrow> mem_ok t \<Longrightarrow> \<exists>t'. stays_left c p x t = (Inr (le x p), t') \<and> mem_ok t'"
    and total: "valid x \<Longrightarrow> valid y \<Longrightarrow> le x y \<or> le y x"
    and trans: "valid x \<Longrightarrow> valid y \<Longrightarrow> valid z \<Longrightarrow> le x y \<Longrightarrow> le y z \<Longrightarrow> le x z"
begin

lemma part_loop_ok:
  assumes "valid p" "list_all valid a" "0 \<le> l" "l \<le> r + 1" "r < int (length a)" "mem_ok t"
  shows "\<exists>l' a' t'. part_loop c p a l r t = (Inr l', a', t') \<and> mem_ok t' \<and> rearranged a a' l r \<and>
     l \<le> l' \<and> l' \<le> r + 1 \<and> (\<forall>i. l \<le> i \<and> i < l' \<longrightarrow> le (a' ! nat i) p) \<and>
     (\<forall>i. l' \<le> i \<and> i \<le> r \<longrightarrow> \<not> le (a' ! nat i) p)"
  using assms
proof (induction "nat (r + 1 - l)" arbitrary: a l r t)
  case 0
  then show ?case by (intro exI [of _ l] exI [of _ a] exI [of _ t]) (auto simp: part_loop.simps rearranged_refl)
next
  case (Suc n)
  then have lr: "l \<le> r" by simp
  have "valid (a ! nat l)" using Suc.prems lr by (simp add: list_all_length)
  then obtain t1 where t1: "stays_left c p (a ! nat l) t = (Inr (le (a ! nat l) p), t1)" "mem_ok t1"
    using decides Suc.prems by blast
  show ?case
  proof (cases "le (a ! nat l) p")
    case True
    have "\<exists>l' a' t'. part_loop c p a (l + 1) r t1 = (Inr l', a', t') \<and> mem_ok t' \<and> rearranged a a' (l + 1) r \<and>
       l + 1 \<le> l' \<and> l' \<le> r + 1 \<and> (\<forall>i. l + 1 \<le> i \<and> i < l' \<longrightarrow> le (a' ! nat i) p) \<and>
       (\<forall>i. l' \<le> i \<and> i \<le> r \<longrightarrow> \<not> le (a' ! nat i) p)"
      using Suc.hyps(2) Suc.prems lr t1(2) by (intro Suc.hyps(1)) auto
    then obtain l' a' t' where r: "part_loop c p a (l + 1) r t1 = (Inr l', a', t')" "mem_ok t'"
        "rearranged a a' (l + 1) r" "l + 1 \<le> l'" "l' \<le> r + 1" "\<forall>i. l + 1 \<le> i \<and> i < l' \<longrightarrow> le (a' ! nat i) p"
        "\<forall>i. l' \<le> i \<and> i \<le> r \<longrightarrow> \<not> le (a' ! nat i) p" by blast
    have "a' ! nat l = a ! nat l" using r(3) Suc.prems lr by (auto simp: rearranged_def)
    then have "le (a' ! nat i) p" if "l \<le> i" "i < l'" for i
      using r(6) True that by (cases "i = l") auto
    moreover have "part_loop c p a l r t = (Inr l', a', t')" using True r(1) by (simp add: part_loop_step [OF lr t1(1)])
    moreover have "rearranged a a' l r" using r(3) by (rule rearranged_widen) auto
    ultimately show ?thesis using r by auto
  next
    case False
    let ?a = "swapped a r l"
    have sw: "rearranged a ?a l r" using Suc.prems lr by (intro rearranged_swap) auto
    have v: "list_all valid ?a"
      using Suc.prems(2) sw by (metis list.pred_set rearranged_def set_mset_mset)
    obtain t2 where t2: "swap_items a r l t1 = (Inr (), ?a, t2)" "mem_ok t2"
      using swap_ok [of r a l t1] Suc.prems(3,5) lr t1(2) by (metis nat_less_iff le_less_trans order_trans)
    have "\<exists>l' a' t'. part_loop c p ?a l (r - 1) t2 = (Inr l', a', t') \<and> mem_ok t' \<and> rearranged ?a a' l (r - 1) \<and>
       l \<le> l' \<and> l' \<le> r - 1 + 1 \<and> (\<forall>i. l \<le> i \<and> i < l' \<longrightarrow> le (a' ! nat i) p) \<and>
       (\<forall>i. l' \<le> i \<and> i \<le> r - 1 \<longrightarrow> \<not> le (a' ! nat i) p)"
      using Suc.hyps(2) Suc.prems lr t2(2) v rearranged_length [OF sw] by (intro Suc.hyps(1)) auto
    then obtain l' a' t' where r: "part_loop c p ?a l (r - 1) t2 = (Inr l', a', t')" "mem_ok t'"
        "rearranged ?a a' l (r - 1)" "l \<le> l'" "l' \<le> r" "\<forall>i. l \<le> i \<and> i < l' \<longrightarrow> le (a' ! nat i) p"
        "\<forall>i. l' \<le> i \<and> i \<le> r - 1 \<longrightarrow> \<not> le (a' ! nat i) p" by auto
    have "a' ! nat r = ?a ! nat r" using r(3) Suc.prems lr rearranged_length [OF sw] by (auto simp: rearranged_def)
    also have "\<dots> = a ! nat l" using Suc.prems lr by (auto simp: swapped_def nth_list_update)
    finally have "\<not> le (a' ! nat r) p" using False by simp
    then have "\<forall>i. l' \<le> i \<and> i \<le> r \<longrightarrow> \<not> le (a' ! nat i) p" using r(7) by (metis zle_diff1_eq less_le)
    moreover have "part_loop c p a l r t = (Inr l', a', t')" using False r(1) t2(1) by (simp add: part_loop_step [OF lr t1(1)])
    moreover have "rearranged a a' l r"
      using sw rearranged_widen [OF r(3), of l r] by (auto intro: rearranged_trans)
    ultimately show ?thesis using r by auto
  qed
qed

lemma valid_rearranged: "rearranged a a' b e \<Longrightarrow> list_all valid a \<Longrightarrow> list_all valid a'"
  by (metis list.pred_set rearranged_def set_mset_mset)

text \<open>A bound on the items of a range survives rearranging it.\<close>

lemma rearranged_bound:
  assumes "rearranged a a' b e" "0 \<le> b" "b \<le> e + 1" "e < int (length a)"
    and "\<And>i. b \<le> i \<Longrightarrow> i \<le> e \<Longrightarrow> P (a ! nat i)"
  shows "\<And>i. b \<le> i \<Longrightarrow> i \<le> e \<Longrightarrow> P (a' ! nat i)"
proof -
  fix i assume "b \<le> i" "i \<le> e"
  then have "a' ! nat i \<in> (\<lambda>i. a ! nat i) ` {b..e}"
    unfolding rearranged_range [OF assms(1-4), symmetric] by simp
  then show "P (a' ! nat i)" using assms(5) by auto
qed

definition sorted_range :: "'a list \<Rightarrow> int \<Rightarrow> int \<Rightarrow> bool" where
  "sorted_range a b e \<longleftrightarrow> (\<forall>i j. b \<le> i \<and> i < j \<and> j \<le> e \<longrightarrow> le (a ! nat i) (a ! nat j))"

text \<open>Partitioning and placing the pivot: everything left of \<open>l\<close> is at most the pivot at \<open>l\<close>.\<close>

lemma partition_ok:
  assumes v: "list_all valid a" and be: "0 \<le> b" "b < e" "e < int (length a)" and t: "mem_ok t"
  shows "\<exists>l a1 t1. part_loop c (a ! nat b) a (b + 1) e t = (Inr (l + 1), a1, t1) \<and> mem_ok t1 \<and> b \<le> l \<and> l \<le> e \<and>
     rearranged a (swapped a1 l b) b e \<and> swapped a1 l b ! nat l = a ! nat b \<and>
     (\<forall>i. b \<le> i \<and> i \<le> l - 1 \<longrightarrow> le (swapped a1 l b ! nat i) (a ! nat b)) \<and>
     (\<forall>i. l + 1 \<le> i \<and> i \<le> e \<longrightarrow> le (a ! nat b) (swapped a1 l b ! nat i))"
proof -
  let ?p = "a ! nat b"
  have vp: "valid ?p" using v be by (simp add: list_all_length)
  obtain l1 a1 t1 where p: "part_loop c ?p a (b + 1) e t = (Inr l1, a1, t1)" "mem_ok t1" "rearranged a a1 (b + 1) e"
      "b + 1 \<le> l1" "l1 \<le> e + 1" "\<forall>i. b + 1 \<le> i \<and> i < l1 \<longrightarrow> le (a1 ! nat i) ?p"
      "\<forall>i. l1 \<le> i \<and> i \<le> e \<longrightarrow> \<not> le (a1 ! nat i) ?p"
    using part_loop_ok [OF vp, of a "b + 1" e t] assms by auto
  define l where "l = l1 - 1"
  have l: "b \<le> l" "l \<le> e" using p by (auto simp: l_def)
  let ?a2 = "swapped a1 l b"
  have r1: "rearranged a a1 b e" using p(3) by (rule rearranged_widen) auto
  have len1: "length a1 = length a" using r1 by (rule rearranged_length)
  have r2: "rearranged a ?a2 b e"
    using r1 rearranged_swap [of b l e b a1] be l len1 by (auto intro: rearranged_trans)
  have pb: "a1 ! nat b = ?p" using p(3) be by (auto simp: rearranged_def)
  have nb: "nat b < length a1" "nat l < length a1" using be l len1 by auto
  have at_l: "?a2 ! nat l = ?p" using nb pb by (auto simp: swapped_def nth_list_update)
  have other: "?a2 ! nat i = a1 ! nat i" if "b < i" "i \<noteq> l" for i
    using that be l by (auto simp: swapped_def nth_list_update)
  have refl: "le ?p ?p" using total vp by blast
  have at_b: "le (?a2 ! nat b) ?p"
    using p(6) [rule_format, of l] l nb pb refl by (cases "l = b") (auto simp: swapped_def l_def)
  have left: "le (?a2 ! nat i) ?p" if "b \<le> i" "i \<le> l - 1" for i
    using that p(6) at_b other by (cases "i = b") (auto simp: l_def)
  have right: "le ?p (?a2 ! nat i)" if "l + 1 \<le> i" "i \<le> e" for i
  proof -
    have "valid (?a2 ! nat i)"
      using valid_rearranged [OF r2 v] rearranged_length [OF r2] be l that by (simp add: list_all_length)
    moreover have "\<not> le (?a2 ! nat i) ?p" using p(7) other [of i] that l by (auto simp: l_def)
    ultimately show ?thesis using total vp by blast
  qed
  show ?thesis
    using p(1,2) l r2 at_l left right by (intro exI [of _ l] exI [of _ a1] exI [of _ t1]) (auto simp: l_def)
qed

text \<open>Two sorted ranges on either side of the pivot.\<close>

lemma sorted_join:
  assumes "sorted_range a b (l - 1)" "sorted_range a (l + 1) e" "b \<le> l" "l \<le> e"
    and v: "\<And>i. b \<le> i \<Longrightarrow> i \<le> e \<Longrightarrow> valid (a ! nat i)"
    and lo: "\<And>i. b \<le> i \<Longrightarrow> i \<le> l - 1 \<Longrightarrow> le (a ! nat i) (a ! nat l)"
    and hi: "\<And>i. l + 1 \<le> i \<Longrightarrow> i \<le> e \<Longrightarrow> le (a ! nat l) (a ! nat i)"
  shows "sorted_range a b e"
  unfolding sorted_range_def
proof (intro allI impI, elim conjE)
  fix i j assume ij: "b \<le> i" "i < j" "j \<le> e"
  have vl: "valid (a ! nat l)" using assms by auto
  have refl: "le (a ! nat l) (a ! nat l)" using total vl by blast
  consider "j \<le> l - 1" | "l + 1 \<le> i" | "i \<le> l" "l \<le> j" by linarith
  then show "le (a ! nat i) (a ! nat j)"
  proof cases
    case 3
    have "le (a ! nat i) (a ! nat l)" using lo [of i] refl 3 ij by (cases "i = l") auto
    moreover have "le (a ! nat l) (a ! nat j)" using hi [of j] refl 3 ij by (cases "j = l") auto
    ultimately show ?thesis using trans [OF v vl v] ij by auto
  qed (use assms(1,2) ij in \<open>auto simp: sorted_range_def\<close>)
qed

lemma QSort_ok:
  assumes "list_all valid a" "0 \<le> b" "b \<le> e + 1" "e < int (length a)" "mem_ok t"
  shows "\<exists>a' t'. QSort c a b e t = (Inr (), a', t') \<and> mem_ok t' \<and> rearranged a a' b e \<and> sorted_range a' b e"
  using assms
proof (induction "nat (e + 1 - b)" arbitrary: a b e t rule: less_induct)
  case less
  show ?case
  proof (cases "b < e")
    case False
    with less.prems show ?thesis
      by (auto simp: QSort.simps [of c a b e t] rearranged_refl sorted_range_def)
  next
    case True
    let ?p = "a ! nat b"
    obtain l a1 t1 where p: "part_loop c ?p a (b + 1) e t = (Inr (l + 1), a1, t1)" "mem_ok t1" "b \<le> l" "l \<le> e"
        and r2: "rearranged a (swapped a1 l b) b e" and at_l: "swapped a1 l b ! nat l = ?p"
        and left: "\<forall>i. b \<le> i \<and> i \<le> l - 1 \<longrightarrow> le (swapped a1 l b ! nat i) ?p"
        and right: "\<forall>i. l + 1 \<le> i \<and> i \<le> e \<longrightarrow> le ?p (swapped a1 l b ! nat i)"
      using partition_ok [of a b e t] less.prems True by blast
    let ?a2 = "swapped a1 l b"
    have bounds: "0 \<le> b" "e < int (length a)" using less.prems by auto
    note v2 = valid_rearranged [OF r2 less.prems(1)] and len2 = rearranged_length [OF r2]
    have "nat l < length a1" "nat b < length a1" using len2 bounds p(3,4) by (simp_all add: swapped_def)
    then obtain t2 where t2: "swap_items a1 l b t1 = (Inr (), ?a2, t2)" "mem_ok t2" using swap_ok p(2) by blast
    obtain a3 t3 where s3: "QSort c ?a2 b (l - 1) t2 = (Inr (), a3, t3)" "mem_ok t3"
        "rearranged ?a2 a3 b (l - 1)" "sorted_range a3 b (l - 1)"
      using less.hyps [of "l - 1" b ?a2 t2] v2 bounds p(3,4) t2(2) len2 by auto
    note v3 = valid_rearranged [OF s3(3) v2] and len3 = rearranged_length [OF s3(3), unfolded len2]
    obtain a4 t4 where s4: "QSort c a3 (l + 1) e t3 = (Inr (), a4, t4)" "mem_ok t4"
        "rearranged a3 a4 (l + 1) e" "sorted_range a4 (l + 1) e"
      using less.hyps [of e "l + 1" a3 t3] v3 bounds p(3,4) len3 s3(2) by auto
    note v4 = valid_rearranged [OF s4(3) v3] and len4 = rearranged_length [OF s4(3), unfolded len3]
    have same3: "a3 ! nat i = ?a2 ! nat i" if "l \<le> i" "i \<le> e" for i
      using s3(3) that p(3,4) bounds len2 unfolding rearranged_def by auto
    have same4: "a4 ! nat i = a3 ! nat i" if "b \<le> i" "i \<le> l" for i
      using s4(3) that p(3,4) bounds len3 unfolding rearranged_def by auto
    have p4: "a4 ! nat l = ?p" using same4 [of l] same3 [of l] at_l p(3,4) by simp
    have "le (a3 ! nat i) ?p" if "b \<le> i" "i \<le> l - 1" for i
      by (rule rearranged_bound [OF s3(3), where P = "\<lambda>x. le x ?p"]) (use bounds p(3,4) len2 left that in auto)
    then have lo: "le (a4 ! nat i) (a4 ! nat l)" if "b \<le> i" "i \<le> l - 1" for i
      using same4 [of i] that p4 by auto
    have "le ?p (a3 ! nat i)" if "l + 1 \<le> i" "i \<le> e" for i
      using right same3 [of i] that by auto
    then have hi: "le (a4 ! nat l) (a4 ! nat i)" if "l + 1 \<le> i" "i \<le> e" for i
      unfolding p4 by (intro rearranged_bound [OF s4(3), where P = "le ?p"])
        (use bounds p(3,4) len3 that in auto)
    have left4: "sorted_range a4 b (l - 1)"
      using s3(4) same4 unfolding sorted_range_def by simp
    have "valid (a4 ! nat i)" if "b \<le> i" "i \<le> e" for i
      using v4 len4 bounds that by (simp add: list_all_length)
    then have "sorted_range a4 b e"
      using lo hi by (intro sorted_join [OF left4 s4(4) p(3,4)])
    moreover have "rearranged a a4 b e"
      using rearranged_trans [OF rearranged_trans [OF r2 rearranged_widen [OF s3(3)]] rearranged_widen [OF s4(3)]]
        p(3,4) by simp
    moreover have "QSort c a b e t = (Inr (), a4, t4)"
      using True p(1) t2(1) s3(1) s4(1) by (simp add: QSort.simps [of c a b e t] Let_def)
    ultimately show ?thesis using s4(2) by blast
  qed
qed

lemma AStdSort_ok:
  assumes "list_all valid xs" "mem_ok t" "length xs < 2147483648"
  shows "\<exists>ys t'. AStdSort c nil (Inr (map Inr xs)) t = (Inr ys, t') \<and> mset ys = mset xs \<and> sorted_wrt le ys"
proof -
  let ?n = "length xs"
  have len: "c_int (int ?n) = int ?n" using sint_small [of "int ?n"] assms(3) by (simp only: c_int_def sint_small)
  have "meets any_alloc (bindM (AMakeArrayND nil ?n) (\<lambda>r. store_items (map Inr xs) 0 (A_ARRAY_A r))) (\<lambda>a. a = xs)"
    unfolding AMakeArrayND_def
    using meets_store_items [of 0 xs "replicate ?n nil" any_alloc]
    by (auto simp: bind_assoc bind_ret intro!: meets_any_alloc_then)
  then obtain t1 where t1: "bindM (AMakeArrayND nil ?n) (\<lambda>r. store_items (map Inr xs) 0 (A_ARRAY_A r)) t = (Inr xs, t1)"
      "mem_ok t1"
    using meets_mem_ok [OF _ assms(2)] by blast
  obtain ys t' where q: "QSort c xs 0 (int ?n - 1) t1 = (Inr (), ys, t')"
      "rearranged xs ys 0 (int ?n - 1)" "sorted_range ys 0 (int ?n - 1)"
    using QSort_ok [OF assms(1), of 0 "int ?n - 1" t1] t1 by auto
  have "AStdSort c nil (Inr (map Inr xs)) = bindM (bindM (AMakeArrayND nil ?n) (\<lambda>r. store_items (map Inr xs) 0 (A_ARRAY_A r)))
      (\<lambda>a t. case QSort c a 0 (int ?n - 1) t of (Inl e, _, t) \<Rightarrow> (Inl e, t) | (Inr _, a, t) \<Rightarrow> (Inr a, t))"
    by (simp add: AStdSort_def liftE_def bind_ret Let_def len bind_assoc)
  then have "AStdSort c nil (Inr (map Inr xs)) t = (Inr ys, t')" by (simp add: bindM_def t1(1) [unfolded bindM_def] q(1))
  moreover have "sorted_wrt le ys"
    unfolding sorted_wrt_iff_nth_less
  proof (intro allI impI)
    fix i j assume "i < j" "j < length ys"
    then show "le (ys ! i) (ys ! j)"
      using q(3) rearranged_length [OF q(2)] unfolding sorted_range_def
      by (auto dest: spec [of _ "int i"] spec2 [of _ "int i" "int j"])
  qed
  ultimately show ?thesis using q(2) by (auto simp: rearranged_def)
qed

end

section \<open>Any comparison permutes\<close>

text \<open>
  What is left in the array: its items in some order, or, when memory runs out between the two stores
  of a swap, one of them in the place of another one.
\<close>

definition left_over :: "'a list \<Rightarrow> aerror + 'b \<Rightarrow> 'a list \<Rightarrow> bool" where
  "left_over a res a' \<longleftrightarrow>
     mset a' = mset a \<or>
     res = Inl MemoryError \<and>
       (\<exists>p i j. mset p = mset a \<and> i < length a \<and> j < length a \<and> a' = p[i := p ! j])"

lemma left_over_same: "left_over a res a"
  by (simp add: left_over_def)

lemma left_over_error: "left_over a (Inl e :: aerror + 'b) a' \<Longrightarrow> left_over a (Inl e :: aerror + 'c) a'"
  by (auto simp: left_over_def)

lemma left_over_ok: "left_over a (Inr x) a' \<Longrightarrow> mset a' = mset a"
  by (simp add: left_over_def)

lemma left_over_from: "mset b = mset a \<Longrightarrow> left_over b res a' \<Longrightarrow> left_over a res a'"
  using mset_eq_length [of b a] by (simp add: left_over_def)

lemma left_over_swap:
  assumes "0 \<le> i" "i < int (length a)" "0 \<le> j" "j < int (length a)" "swap_items a i j t = (res, a', t')"
  shows "left_over a res a'"
proof -
  have n: "nat i < length a" "nat j < length a" using assms by auto
  from swap_cases [OF n assms(5)] show ?thesis
  proof (elim disjE conjE)
    assume "a' = swapped a i j"
    then show ?thesis using mset_swap [OF n(2,1)] by (simp add: left_over_def swapped_def)
  next
    assume "res = Inl MemoryError" "a' = a[nat i := a ! nat j]"
    then show ?thesis unfolding left_over_def using n
      by (intro disjI2 conjI exI [of _ a] exI [of _ "nat i"] exI [of _ "nat j"]) simp_all
  qed (simp add: left_over_same)
qed

lemma part_loop_left_over:
  assumes "0 \<le> l" "r < int (length a)" "part_loop c p a l r t = (res, a', t')"
  shows "left_over a res a'"
  using assms
proof (induction "nat (r + 1 - l)" arbitrary: a l r t)
  case 0
  then show ?case by (simp add: part_loop.simps [of c p a] left_over_same)
next
  case (Suc n)
  then have lr: "l \<le> r" by simp
  obtain b u where s: "stays_left c p (a ! nat l) t = (b, u)" by fastforce
  obtain x a1 t1 where w: "swap_items a r l u = (x, a1, t1)" by (metis prod_cases3)
  have sw: "left_over a x a1" using left_over_swap [OF _ _ _ _ w] Suc.prems(1,2) lr by simp
  have n: "n = nat (r + 1 - (l + 1))" "n = nat (r - 1 + 1 - l)" using Suc.hyps(2) by auto
  note step = Suc.prems(3) [unfolded part_loop_step [OF lr s]]
  consider e where "b = Inl e" | "b = Inr True" | "b = Inr False" by (cases b) auto
  then show ?case
  proof cases
    case 1
    then show ?thesis using step by (auto simp: left_over_same)
  next
    case 2
    then show ?thesis using step Suc.hyps(1) [OF n(1)] Suc.prems(1,2) by simp
  next
    case 3
    show ?thesis
    proof (cases x)
      case (Inl e)
      then show ?thesis using step sw 3 w by (auto intro: left_over_error)
    next
      case (Inr y)
      have m: "mset a1 = mset a" using sw Inr by (auto dest: left_over_ok)
      have "part_loop c p a1 l (r - 1) t1 = (res, a', t')" using step 3 w Inr by simp
      from Suc.hyps(1) [OF n(2) Suc.prems(1) _ this] show ?thesis
        using Suc.prems(2) mset_eq_length [OF m] left_over_from [OF m] by simp
    qed
  qed
qed

lemma QSort_left_over:
  "QSort c a b e t = (res, a', t') \<Longrightarrow> 0 \<le> b \<Longrightarrow> e < int (length a) \<Longrightarrow> left_over a res a'"
proof (induction "nat (e + 1 - b)" arbitrary: a b e t res a' t' rule: less_induct)
  case less
  show ?case
  proof (cases "b < e")
    case False
    with less.prems show ?thesis by (simp add: QSort.simps [of c a b e t] left_over_same)
  next
    case True
    obtain x a1 t1 where p: "part_loop c (a ! nat b) a (b + 1) e t = (x, a1, t1)" by (metis prod_cases3)
    have lo1: "left_over a x a1" using part_loop_left_over [OF _ _ p] less.prems True by simp
    note q = less.prems(1) [unfolded QSort.simps [of c a b e t] if_P [OF True] p prod.case Let_def]
    show ?thesis
    proof (cases x)
      case (Inl err)
      with q lo1 show ?thesis by (auto intro: left_over_error)
    next
      case (Inr l1)
      let ?l = "l1 - 1"
      have l: "b \<le> ?l" "?l \<le> e"
        using part_loop_bounds [of c "a ! nat b" a "b + 1" e t l1 a1 t1] p True Inr by auto
      have m1: "mset a1 = mset a" using lo1 Inr by (auto dest: left_over_ok)
      note len1 = mset_eq_length [OF m1]
      obtain y a2 t2 where w: "swap_items a1 ?l b t1 = (y, a2, t2)" by (metis prod_cases3)
      have "left_over a1 y a2" using left_over_swap [OF _ _ _ _ w] l less.prems(2,3) len1 True by simp
      then have lo2: "left_over a y a2" by (rule left_over_from [OF m1])
      show ?thesis
      proof (cases y)
        case (Inl err)
        with q \<open>x = Inr l1\<close> w lo2 show ?thesis by (auto intro: left_over_error)
      next
        case y: (Inr u)
        have m2: "mset a2 = mset a" using lo2 y by (auto dest: left_over_ok)
        note len2 = mset_eq_length [OF m2]
        obtain z a3 t3 where s: "QSort c a2 b (?l - 1) t2 = (z, a3, t3)" by (metis prod_cases3)
        have lo3: "left_over a z a3"
          using less.hyps [OF _ s] less.prems l len2 True left_over_from [OF m2] by simp
        show ?thesis
        proof (cases z)
          case (Inl err)
          with q \<open>x = Inr l1\<close> w y s lo3 show ?thesis by (auto intro: left_over_error)
        next
          case z: (Inr v)
          have m3: "mset a3 = mset a" using lo3 z by (auto dest: left_over_ok)
          have r: "QSort c a3 (?l + 1) e t3 = (res, a', t')" using q \<open>x = Inr l1\<close> w y s z by simp
          have "left_over a3 res a'"
            using less.hyps [OF _ r] less.prems(2,3) l True mset_eq_length [OF m3] by simp
          then show ?thesis by (rule left_over_from [OF m3])
        qed
      qed
    qed
  qed
qed

section \<open>The order of Int values\<close>

text \<open>\<^verbatim>\<open>AIsGt\<close> on Int values: a short and a long operand are first coerced.\<close>

fun AIsGt_Int :: "aint \<Rightarrow> aint \<Rightarrow> bool rt" where
  "AIsGt_Int (AShort a) (AShort b) = ret (sint a > sint b)"
| "AIsGt_Int a b =
     bindM (ACoerce a b) (\<lambda>(l, r). the_long l (\<lambda>l. the_long r (\<lambda>r. ret (ACompareLongInt l r > 0))))"

lemma compare_gt:
  assumes "operand a" "operand b" "li_neg a \<longleftrightarrow> li_value a < 0" "li_neg b \<longleftrightarrow> li_value b < 0"
  shows "ACompareLongInt a b > 0 \<longleftrightarrow> li_value a > li_value b"
proof -
  have "sgn (ACompareLongInt a b) = sgn (li_value a - li_value b)"
    using assms by (intro compare_sgn) (auto simp: li_value_def split: if_splits)
  then show ?thesis by (auto simp: sgn_if split: if_splits)
qed

lemma meets_AIsGt_Int:
  assumes "norm_int a" "norm_int b"
  shows "meets Q (AIsGt_Int a b) (\<lambda>r. r \<longleftrightarrow> int_value a > int_value b)"
proof (cases a; cases b)
  fix x y assume "a = AShort x" "b = AShort y"
  then show ?thesis
    using assms tagged_sint [of x] tagged_sint [of y] by (auto intro!: meets_ret simp: short_val_def)
next
  fix x y assume ab: "a = AShort x" "b = ALong y"
  then have y: "operand y" "li_neg y \<longleftrightarrow> li_value y < 0" using assms operand_norm norm_long_neg by auto
  show ?thesis
    unfolding ab AIsGt_Int.simps
  proof (rule meets_bind [OF meets_coerce_left], clarify)
    fix li assume "operand li" "li_value li = short_val x" "li_neg li = (short_val x < 0)"
    then show "meets Q (the_long (ALong li) (\<lambda>l. the_long (ALong y) (\<lambda>r. ret (ACompareLongInt l r > 0))))
        (\<lambda>r. r \<longleftrightarrow> int_value (AShort x) > int_value (ALong y))"
      using y compare_gt [of li y] by (auto intro!: meets_ret simp: short_val_def)
  qed
next
  fix x y assume ab: "a = ALong x" "b = AShort y"
  then have x: "operand x" "li_neg x \<longleftrightarrow> li_value x < 0" using assms operand_norm norm_long_neg by auto
  show ?thesis
    unfolding ab AIsGt_Int.simps
  proof (rule meets_bind [OF meets_coerce_right], clarify)
    fix li assume "operand li" "li_value li = short_val y" "li_neg li = (short_val y < 0)"
    then show "meets Q (the_long (ALong x) (\<lambda>l. the_long (ALong li) (\<lambda>r. ret (ACompareLongInt l r > 0))))
        (\<lambda>r. r \<longleftrightarrow> int_value (ALong x) > int_value (AShort y))"
      using x compare_gt [of x li] by (auto intro!: meets_ret simp: short_val_def)
  qed
next
  fix x y assume ab: "a = ALong x" "b = ALong y"
  then have "ACompareLongInt x y > 0 \<longleftrightarrow> li_value x > li_value y"
    using assms operand_norm norm_long_neg by (intro compare_gt) auto
  then show ?thesis using ab by (auto intro!: meets_bind [OF meets_ret, of "\<lambda>p. p = (ALong x, ALong y)"] meets_ret)
qed

interpretation int_order: sort_order "DefaultOrder AIsGt_Int" norm_int "\<lambda>a b. int_value a \<le> int_value b"
proof
  fix p x :: aint and t :: athread
  assume v: "norm_int p" "norm_int x" and t: "mem_ok t"
  have "meets any_alloc (stays_left (DefaultOrder AIsGt_Int) p x) (\<lambda>r. r \<longleftrightarrow> int_value x \<le> int_value p)"
    unfolding stays_left.simps by (rule meets_bind [OF meets_AIsGt_Int [OF v(2,1)]]) auto
  from meetsD [OF this, of t]
  show "\<exists>t'. stays_left (DefaultOrder AIsGt_Int) p x t = (Inr (int_value x \<le> int_value p), t') \<and> mem_ok t'"
    using t by (cases "stays_left (DefaultOrder AIsGt_Int) p x t"; cases "fst (stays_left (DefaultOrder AIsGt_Int) p x t)")
      (auto simp: outcome_ok_def mem_ok_def any_alloc_def list_all_iff)
qed auto

section \<open>Properties\<close>

text \<open>
  C3: With a comparison that decides a total preorder on the items, sorting a sequence of less than
  2^31 items returns, in a run where no allocation fails, a sorted array with the same items.
\<close>

theorem sort_correct:
  assumes "sort_order c valid le" "list_all valid xs" "mem_ok t" "length xs < 2 ^ 31"
  shows "\<exists>ys t'. AStdSort c nil (Inr (map Inr xs)) t = (Inr ys, t') \<and> mset ys = mset xs \<and> sorted_wrt le ys"
  using sort_order.AStdSort_ok [OF assms(1-3)] assms(4) by simp

theorem sort_correct_witness:
  "\<exists>ys t'. AStdSort (DefaultOrder AIsGt_Int) (short 0) (Inr (map Inr [short 3, short (- 2), short 3, short 0]))
       \<lparr>allocs = [], tempStackPtr = 0\<rparr> = (Inr ys, t') \<and>
     mset ys = mset [short 3, short (- 2), short 3, short 0] \<and> sorted_wrt (\<lambda>a b. int_value a \<le> int_value b) ys"
  by (rule sort_correct [OF int_order.sort_order_axioms]) (simp_all add: mem_ok_def)

text \<open>
  From 2^31 items on the length is not the number of items: it is negative, or only the first items
  are sorted.
\<close>

theorem sort_long_sequence:
  assumes "2 ^ 31 \<le> length xs" "length xs < 2 ^ 32"
  shows "AStdSort c nil (Inr xs) = raise UndefinedBehaviour"
proof -
  let ?n = "int (length xs)"
  have n: "2147483648 \<le> ?n" "?n < 4294967296" using assms by simp_all
  have "c_int ?n = (?n + 2147483648) mod 4294967296 - 2147483648"
    unfolding c_int_def signed_of_int by (simp add: signed_take_bit_eq_take_bit_shift take_bit_eq_mod)
  also have "(?n + 2147483648) mod 4294967296 = ?n - 2147483648"
    using n mod_pos_pos_trivial [of "?n - 2147483648" 4294967296] mod_add_self2 [of "?n - 2147483648" 4294967296]
    by (simp add: add.commute)
  finally have "c_int ?n < 0" using n by simp
  then show ?thesis using assms by (simp add: AStdSort_def liftE_def bind_ret)
qed

text \<open>
  C31: Whatever the comparison does, even when it raises an exception or is inconsistent, the
  quicksort ends, and what it leaves in the array is a permutation of the original items, except
  that one item may be there twice in the place of another one if it ends with a memory error.
\<close>

theorem qsort_permutes:
  assumes "0 \<le> b" "e < int (length a)"
  shows "\<exists>res a' t'. QSort c a b e t = (res, a', t') \<and>
     (mset a' = mset a \<or>
      res = Inl MemoryError \<and> (\<exists>p i j. mset p = mset a \<and> i < length a \<and> j < length a \<and> a' = p[i := p ! j]))"
proof -
  obtain res a' t' where "QSort c a b e t = (res, a', t')" by (metis prod_cases3)
  with QSort_left_over [OF this assms] show ?thesis unfolding left_over_def by blast
qed

theorem qsort_permutes_witness:
  "\<exists>res a' t'. QSort (CompareFunction (\<lambda>_ _. ret (Some True))) [2, 1, 3 :: nat] 0 2
      \<lparr>allocs = [AllocBlock False [], AllocFail], tempStackPtr = 0\<rparr> = (res, a', t') \<and>
     (mset a' = mset [2, 1, 3] \<or>
      res = Inl MemoryError \<and>
        (\<exists>p i j. mset p = mset [2, 1, 3] \<and> i < length [2, 1, 3 :: nat] \<and> j < length [2, 1, 3 :: nat] \<and> a' = p[i := p ! j]))"
  using qsort_permutes [of 0 2 "[2, 1, 3 :: nat]" "CompareFunction (\<lambda>_ _. ret (Some True))"
      "\<lparr>allocs = [AllocBlock False [], AllocFail], tempStackPtr = 0\<rparr>"] by simp

text \<open>A run that ends between the two stores: the item 3 is lost.\<close>

theorem qsort_loses_item:
  "\<exists>t'. QSort (CompareFunction (\<lambda>_ _. ret (Some True))) [2, 1, 3 :: nat] 0 2
      \<lparr>allocs = [AllocBlock False [], AllocFail], tempStackPtr = 0\<rparr> = (Inl MemoryError, [2, 1, 1], t')"
  by (simp add: QSort.simps part_loop.simps swap_items_def fix_store_def bindM_def next_alloc_def ret_def raise_def)

end
