(* ===== verification/Str_Compose.thy ===== *)
theory Str_Compose
  imports Str_Props Map_Refine Std_Sort
begin

text \<open>
  Strings together with maps and sorting: strings satisfy the contract of keys, and their order
  that of sorting.
\<close>

section \<open>String keys\<close>

text \<open>\<^verbatim>\<open>AStdHash\<close> and \<^verbatim>\<open>AIsEq\<close> on strings.\<close>

definition AStdHash_Str :: "strval \<Rightarrow> aint" where
  "AStdHash_Str s = AShort (AStringHashValue s)"

definition AIsEq_Str :: "strval \<Rightarrow> strval \<Rightarrow> bool" where
  "AIsEq_Str a b \<longleftrightarrow> ACompareStrings a b = 0"

definition str_keys :: "strval keyops" where
  "str_keys = \<lparr>khash = (\<lambda>k. Inr (HInt (AStdHash_Str k))), keq = (\<lambda>a b. Inr (AIsEq_Str a b))\<rparr>"

definition key_str :: "strval \<Rightarrow> bool" where
  "key_str v \<longleftrightarrow> wf_str v \<and> AStrLen v < 2147483648"

interpretation str_keys: key_contract str_keys key_str str_elems
proof
  fix k k' :: strval
  show "\<exists>h. khash str_keys k = Inr (HInt h)" by (simp add: str_keys_def)
  assume v: "key_str k" "key_str k'"
  then show "keq str_keys k k' = Inr (str_elems k = str_elems k')"
    by (simp add: str_keys_def AIsEq_Str_def ACompareStrings_def cmp_chars_eq key_str_def)
  assume "str_elems k = str_elems k'"
  then show "khash str_keys k = khash str_keys k'"
    by (simp add: str_keys_def AStdHash_Str_def AStringHashValue_def)
qed

text \<open>
  C23: A map with string keys behaves as a finite map from sequences of characters: any sequence of
  method calls on a new map gives the replies of the finite map, where keys with the same
  characters are one key whatever their representations are.
\<close>

theorem string_keyed_map:
  assumes "AMapInitialize mark t = (Inr m, t')" "mem_ok t" "length cs \<le> 2 ^ 27"
    and "\<forall>c\<in>set cs. \<forall>k. call_key c = Some k \<longrightarrow> wf_str k \<and> AStrLen k < 2 ^ 31"
  shows "map_calls mark str_keys cs m t' = spec_calls str_elems cs Map.empty"
proof (rule str_keys.calls_simulate [OF str_keys.initial_simulates [OF assms(1)]])
  show "0 + length cs \<le> 134217728" using assms(3) by simp
  show "mem_ok t'" using assms(1,2)
    by (auto simp: AMapInitialize_def bindM_def ret_def mem_ok_def next_alloc_def
        split: prod.splits sum.splits list.splits alloc.splits)
  show "key_str k" if "c \<in> set cs" "call_key c = Some k" for c k
    using assms(4) that by (simp add: key_str_def)
qed

theorem string_keyed_map_witness:
  "map_calls 0 str_keys [CallSet (Whole (ANarrow [97, 98])) (5 :: nat), CallGet (Whole (AWide [97, 98])), CallGet sample]
     \<lparr>MAP_A = replicate 4 (EmptyMarker, 0), MAP_LEN = 0, MAP_SIZE = 4, MAP_NUM_REMOVED = 0\<rparr>
     \<lparr>allocs = [], tempStackPtr = 0\<rparr> = [Done (Inr ()), Value (Inr 5), Value (Inl KeyError)]"
proof -
  let ?t = "\<lparr>allocs = [], tempStackPtr = 0\<rparr>"
  let ?m = "\<lparr>MAP_A = replicate 4 (EmptyMarker, 0), MAP_LEN = 0, MAP_SIZE = 4, MAP_NUM_REMOVED = 0\<rparr>"
  have "AMapInitialize 0 ?t = (Inr ?m, ?t)"
    by (simp add: AMapInitialize_def bindM_def ret_def next_alloc_def numeral_eq_Suc)
  from string_keyed_map [OF this,
      of "[CallSet (Whole (ANarrow [97, 98])) (5 :: nat), CallGet (Whole (AWide [97, 98])), CallGet sample]"]
  show ?thesis using sample_wf by (simp add: mem_ok_def wf_block_def sample_def)
qed

section \<open>Sorting strings\<close>

text \<open>\<^verbatim>\<open>AIsGt\<close> on strings.\<close>

definition AIsGt_Str :: "strval \<Rightarrow> strval \<Rightarrow> bool rt" where
  "AIsGt_Str a b = liftE (CompareOrder_Str OPER_GT a b)"

text \<open>Strings short enough for every comparison to succeed.\<close>

definition sort_str :: "strval \<Rightarrow> bool" where
  "sort_str v \<longleftrightarrow> wf_str v \<and> AStrLen v < 65536"

definition le_str :: "strval \<Rightarrow> strval \<Rightarrow> bool" where
  "le_str a b \<longleftrightarrow> \<not> lex_less (str_elems b) (str_elems a)"

lemma AIsGt_Str_value: "sort_str a \<Longrightarrow> sort_str b \<Longrightarrow> AIsGt_Str a b = ret (\<not> le_str a b)"
  by (simp add: AIsGt_Str_def CompareOrder_value sort_str_def le_str_def)

interpretation str_order: sort_order "DefaultOrder AIsGt_Str" sort_str le_str
proof
  fix x y z :: strval and t :: athread
  show "le_str x y \<or> le_str y x" using lex_less_trans [of "str_elems x" "str_elems y" "str_elems x"]
    by (auto simp: le_str_def)
  show "le_str x z" if "le_str x y" "le_str y z"
    using that lex_less_trans lex_less_total unfolding le_str_def by metis
  show "\<exists>t'. stays_left (DefaultOrder AIsGt_Str) y x t = (Inr (le_str x y), t') \<and> mem_ok t'"
    if "sort_str y" "sort_str x" "mem_ok t"
    using that by (simp add: AIsGt_Str_value bind_ret) (simp add: ret_def)
qed

text \<open>
  C28: Sorting a sequence of less than 2^31 strings of less than 65536 characters each returns, in a run
  where no allocation fails, a permutation of them in lexicographic order.
\<close>

theorem sort_strings:
  assumes "list_all (\<lambda>v. wf_str v \<and> AStrLen v < 65536) xs" "length xs < 2 ^ 31" "mem_ok t"
  shows "\<exists>ys t'. AStdSort (DefaultOrder AIsGt_Str) nil (Inr (map Inr xs)) t = (Inr ys, t') \<and> mset ys = mset xs \<and>
    sorted_wrt (\<lambda>a b. \<not> lex_less (str_elems b) (str_elems a)) ys"
  using str_order.AStdSort_ok [of xs t nil] assms unfolding sort_str_def [abs_def] le_str_def [abs_def] by simp

theorem sort_strings_witness:
  "\<exists>ys t'. AStdSort (DefaultOrder AIsGt_Str) sample (Inr (map Inr [sample, Whole (AWide [955]), sample_sub]))
       \<lparr>allocs = [], tempStackPtr = 0\<rparr> = (Inr ys, t') \<and>
     mset ys = mset [sample, Whole (AWide [955]), sample_sub] \<and>
     sorted_wrt (\<lambda>a b. \<not> lex_less (str_elems b) (str_elems a)) ys"
  by (rule sort_strings) (simp_all add: sample_wf mem_ok_def wf_block_def)

end
