(* ===== verification/Array_Props.thy ===== *)
theory Array_Props
  imports Array_Refine Array_Text Str_Compose
begin

text \<open>Properties of arrays.\<close>

section \<open>Contracts of items\<close>

text \<open>Ints satisfy the contract as keys of maps do; so do strings.\<close>

interpretation str_items: item_contract "keq str_keys" key_str str_elems
  by unfold_locales (rule str_keys.eq_kid)

section \<open>Method calls\<close>

text \<open>
  C7: Any sequence of calls of append, extend, insertAt, remove, removeAt, indexing, assignment,
  length, find, count and the in operator on a new array replies as a list does: through every
  growth of the buffer, with negative indices counted from the end, IndexError for those out of
  range, and extension by the array itself.
\<close>

theorem array_calls_refine:
  assumes "item_contract eq valid kid" "AArrayInitialize nil t = (Inr a, t')" "mem_ok t'"
    "list_all (cmd_ok valid) cs" "stays_small kid cs []"
  shows "array_calls nil zero eq cs a t' = spec_array_calls kid cs []"
proof -
  have "is_array [] a"
    using meetsD [OF meets_AArrayInitialize [of any_alloc nil] mem_ok_any, of t] assms(2) by (simp add: outcome_ok_def)
  then show ?thesis using assms by (intro item_contract.array_calls_refine_list) simp_all
qed

definition seven :: aint where
  "seven = AShort (AIntToValue 7)"

definition minus_one :: aint where
  "minus_one = AShort 18446744073709551612"

lemma sample_ints: "norm_int seven" "norm_int minus_one" "int_value seven = 7" "int_value minus_one = - 1"
  by (simp_all add: seven_def minus_one_def int_value_short short_val_def AIntToValue_def)

theorem array_calls_refine_witness:
  "array_calls seven seven (keq int_keys) [DoAppend seven, DoExtend Itself, DoSet minus_one minus_one, DoRemove seven, DoLength]
     \<lparr>A_ARRAY_A = [seven], A_ARRAY_LEN = 0, A_ARRAY_CAPACITY = 1\<rparr> \<lparr>allocs = [], tempStackPtr = 0\<rparr> =
   [RUnit (Inr ()), RUnit (Inr ()), RUnit (Inr ()), RUnit (Inr ()), RInt (Inr (AShort (AIntToValue 1)))]"
  using array_calls_refine [OF int_keys.items.item_contract_axioms, of seven "\<lparr>allocs = [], tempStackPtr = 0\<rparr>"
      "\<lparr>A_ARRAY_A = [seven], A_ARRAY_LEN = 0, A_ARRAY_CAPACITY = 1\<rparr>" "\<lparr>allocs = [], tempStackPtr = 0\<rparr>"
      "[DoAppend seven, DoExtend Itself, DoSet minus_one minus_one, DoRemove seven, DoLength]" seven]
  by (simp add: sample_ints AArrayInitialize_def AMakeFixArray_def bindM_def ret_def next_alloc_def mem_ok_def position_def)

section \<open>New arrays\<close>

text \<open>
  A slice of an array is the slice of its items: bounds left out stand for the start and the end,
  negative ones count from the end, and those out of range are cut to the array.
\<close>

theorem array_slice:
  assumes "is_array xs a" "length xs < 2305843009213693952"
    "\<forall>v. lo = Some v \<or> hi = Some v \<longrightarrow> norm_int v \<and> in_int64 (int_value v)"
  shows "meets any_alloc (AArray_get_slice nil lo hi a)
    (is_array (slice (case lo of None \<Rightarrow> 0 | Some v \<Rightarrow> int_value v)
                     (case hi of None \<Rightarrow> int (length xs) | Some v \<Rightarrow> int_value v) xs))"
proof -
  have bound: "\<exists>w. (case b of None \<Rightarrow> ret d | Some v \<Rightarrow> AGetInt64 v) = ret w \<and>
      sint w = (case b of None \<Rightarrow> sint d | Some v \<Rightarrow> int_value v)"
    if "\<forall>v. b = Some v \<longrightarrow> norm_int v \<and> in_int64 (int_value v)" for b and d :: "64 word"
    using that get_index by (cases b) auto
  obtain i where i: "(case lo of None \<Rightarrow> ret 0 | Some v \<Rightarrow> AGetInt64 v) = ret i"
      "sint i = (case lo of None \<Rightarrow> 0 | Some v \<Rightarrow> int_value v)"
    using bound [of lo 0] assms(3) by (cases lo) auto
  obtain j where j: "(case hi of None \<Rightarrow> ret A_SHORT_INT_MAX | Some v \<Rightarrow> AGetInt64 v) = ret j"
      "sint j = (case hi of None \<Rightarrow> sint A_SHORT_INT_MAX | Some v \<Rightarrow> int_value v)"
    using bound [of hi A_SHORT_INT_MAX] assms(3) by auto
  have "sint A_SHORT_INT_MAX = 2305843009213693951" by code_simp
  then have "slice k (sint A_SHORT_INT_MAX) xs = slice k (int (length xs)) xs" for k
    using assms(2) by (simp add: slice_def)
  then show ?thesis
    unfolding AArray_get_slice_def i(1) j(1) bind_ret
    using meets_ASubArrayND [OF assms(1), of any_alloc nil "sint i" "sint j"] i(2) j(2) by (cases hi) simp_all
qed

theorem array_slice_witness:
  "meets any_alloc (AArray_get_slice 0 None (Some minus_one) (new_array [5, 6, 7 :: nat])) (is_array [5, 6])"
  using array_slice [of "[5, 6, 7 :: nat]" "new_array [5, 6, 7]" None "Some minus_one" 0] sample_ints
  by (simp add: in_int64_def slice_def)

text \<open>
  C29: The comparison of arrays whose items are arrays in turn, up to the level that the code admits,
  is the lexicographic order given by the first pair of items that differ, or else by the lengths.
\<close>

theorem compare_arrays:
  assumes "compares f cmp" "comparable 4 (Nest xs) (Nest ys)"
  shows "meets any_alloc (ACompareArrays cmp xs ys op) (\<lambda>r. r = sign_satisfies op (list_order f xs ys))"
  using meets_ACompareArrays [OF assms(1), of xs ys] assms(2) by (simp add: MAX_ARRAY_COMPARE_DEPTH_def)

definition compare_ints :: "operator \<Rightarrow> int nested \<Rightarrow> int nested \<Rightarrow> aerror + bool" where
  "compare_ints op x y = (case (x, y) of (Single m, Single n) \<Rightarrow> Inr (sign_satisfies op (m - n)) | _ \<Rightarrow> Inl TypeError)"

lemma comparable_sample: "comparable 4 (Nest [Single 1, Nest [Single 2]]) (Nest [Single 1, Nest [Single 3], Single (0 :: int)])"
proof -
  have "comparable (Suc (Suc n)) (Nest [Single 1, Nest [Single 2]]) (Nest [Single 1, Nest [Single 3], Single (0 :: int)])" for n
    by simp
  from this [of 2] show ?thesis by simp
qed

theorem compare_arrays_witness:
  "meets any_alloc (ACompareArrays compare_ints [Single 1, Nest [Single 2]] [Single 1, Nest [Single 3], Single 0] OPER_LT) (\<lambda>r. r)"
  using comparable_sample compare_arrays [of "\<lambda>x. x" compare_ints "[Single 1, Nest [Single 2]]" "[Single 1, Nest [Single 3], Single 0]" OPER_LT]
  by (simp add: compares_def compare_ints_def)

text \<open>
  Equal arrays that are nested one level deeper can not be compared at all, although the limit that
  the code names is five.
\<close>

theorem compare_too_deep:
  "fst (ACompareArrays (cmp :: operator \<Rightarrow> 'v nested \<Rightarrow> 'v nested \<Rightarrow> aerror + bool) [tower 3] [tower 3] op \<lparr>allocs = [], tempStackPtr = 0\<rparr>) = Inl (ValueError [])"
proof -
  have "Nest [tower 3 :: 'v nested] = tower 4" using tower.simps(2) [of 3, symmetric] by simp
  then have "CompareArraysRecursive cmp 4 op (Nest [tower 3]) (Nest [tower 3]) = Inl (ValueError [])"
    using compare_tower [of cmp 4 op] by (simp only:)
  then show ?thesis
    by (simp add: ACompareArrays_def MAX_ARRAY_COMPARE_DEPTH_def with_temps_def bindM_def next_alloc_def liftE_def raise_def)
qed

section \<open>Text\<close>

text \<open>
  C30: The text of an array is the texts of its items, separated by a comma and a space, between
  brackets; that of a tuple is between parentheses, with a comma after an only item.
\<close>

theorem array_text:
  assumes "is_array xs a" "list_all2 (\<lambda>x s. \<exists>v. repr x = Inr (Some v) \<and> is_str s v) xs ss" "mem_ok t"
    "(f, start, stop) \<in> {(AArray_str, 91, 93), (ATuple_str, 40, 41)}"
  shows "\<exists>v t'. f repr a t = (Inr v, t') \<and>
    is_str (start # intercalate [44, 32] ss @ (if length ss = 1 \<and> stop = 41 then [44, stop] else [stop])) v"
proof -
  have "f repr a = AArrayTuple_str repr a [start] [stop]" "list_all (\<lambda>c. c < 256) [start]" "list_all (\<lambda>c. c < 256) [stop]"
    using assms(4) by (auto simp: AArray_str_def ATuple_str_def)
  then show ?thesis
    using AArrayTuple_str_text [of xs a repr ss "[start]" "[stop]" t] assms(1-3) by (auto simp: delimited_def)
qed

theorem array_text_witness:
  "\<exists>v t'. ATuple_str (\<lambda>c. Inr (Some (Whole (ANarrow [c])))) (new_array [55]) \<lparr>allocs = [], tempStackPtr = 0\<rparr> = (Inr v, t') \<and>
    is_str [40, 55, 44, 41] v"
  using array_text [of "[55]" "new_array [55]" "\<lambda>c. Inr (Some (Whole (ANarrow [c])))" "[[55]]"
      "\<lparr>allocs = [], tempStackPtr = 0\<rparr>" ATuple_str 40 41]
  by (simp add: is_str_def wf_block_def mem_ok_def)

section \<open>Failures\<close>

text \<open>
  When memory runs out at the last store of a growth, the array is left with the new capacity and the
  old buffer, and the next append stores outside the buffer.
\<close>

theorem append_after_failed_growth:
  "\<exists>a t. AArrayAppend nil v \<lparr>A_ARRAY_A = [x], A_ARRAY_LEN = 1, A_ARRAY_CAPACITY = 1\<rparr>
      \<lparr>allocs = [AllocBlock False [], AllocBlock False [], AllocBlock False [], AllocFail], tempStackPtr = 0\<rparr> = (Inl MemoryError, a, t) \<and>
     fst (AArrayAppend nil v a t) = Inl UndefinedBehaviour"
  by (simp add: AArrayAppend_def AResizeArray_def thenA_def readA_def liftA_def setA_def ASetFixArrayItem_def grown_capacity_def
      next_alloc_def AMakeFixArray_def fix_store_def AFixArrayItem_def liftE_def bindM_def ret_def retA_def raise_def Let_def)

text \<open>
  When the comparison of an item raises an exception after one has been removed, the items that have
  been moved stay twice and the length is not changed.
\<close>

theorem remove_raises:
  assumes "eq x v = Inr True" "eq y v = Inr False" "eq z v = Inl e"
  shows "\<exists>t. AArrayRemove eq v (new_array [x, y, z]) \<lparr>allocs = [], tempStackPtr = 0\<rparr> = (Inl e, new_array [y, y, z], t)"
  using assms
  by (simp add: AArrayRemove_def thenA_def readA_def retA_def item_at_def AFixArrayItem_def new_array_def numeral_eq_Suc
      ASetFixArrayItem_def fix_store_def bindM_def next_alloc_def ret_def)

end
