(* ===== verification/Int_Text_Lemmas.thy ===== *)
theory Int_Text_Lemmas
  imports Int_Text
begin

text \<open>
  What the string conversions compute.  \<open>dec_val\<close> and \<open>radix_val\<close> give the number written by a
  string of digits and \<open>num_str\<close> the string of a number; the loops of the code are related to
  them, for short and long values.
\<close>

section \<open>Reading decimal digits\<close>

definition dec_val :: "nat \<Rightarrow> nat list \<Rightarrow> nat" where
  "dec_val n s = foldl (\<lambda>a ch. a * 10 + (ch - 48)) n s"

lemma dec_val_simps [simp]: "dec_val n [] = n" "dec_val n (ch # s) = dec_val (n * 10 + (ch - 48)) s"
  by (simp_all add: dec_val_def)

lemma dec_val_append: "dec_val n (s @ s') = dec_val (dec_val n s) s'"
  by (simp add: dec_val_def)

lemma dec_val_mono: "n \<le> dec_val n s"
proof (induction s arbitrary: n)
  case (Cons ch s)
  have "n \<le> n * 10 + (ch - 48)" by simp
  also have "\<dots> \<le> dec_val (n * 10 + (ch - 48)) s" by (rule Cons)
  finally show ?case by simp
qed simp

lemma short_limit: "A_SHORT_INT_MAX + 1 = 2305843009213693952" "(A_SHORT_INT_MAX + 1) div 10 = 230584300921369395"
  unfolding A_SHORT_INT_MAX_eq by simp_all

lemma too_big_iff:
  assumes "d \<le> 9" shows "too_big n d \<longleftrightarrow> 2 ^ 61 < unat n * 10 + d"
proof -
  have d: "unat (of_nat d :: 64 word) = d" using assms by (intro unat_of_nat_64) simp
  have "(of_nat d > (2 :: 64 word)) = (d > 2)" using d by (simp add: word_less_nat_alt)
  moreover have "(n \<ge> 230584300921369395) = (unat n \<ge> 230584300921369395)"
    "(n > 230584300921369395) = (unat n > 230584300921369395)" by (simp_all add: word_le_nat_alt word_less_nat_alt)
  ultimately have "too_big n d \<longleftrightarrow> unat n \<ge> 230584300921369395 \<and> (unat n > 230584300921369395 \<or> d > 2)"
    unfolding too_big_def short_limit by simp
  also have "\<dots> \<longleftrightarrow> 2305843009213693952 < unat n * 10 + d" using assms by linarith
  finally show ?thesis by simp
qed

lemma short_loop_ok:
  assumes "short_loop n s = (m, rest, big)" "unat n \<le> 2 ^ 61"
  shows "\<exists>pre. s = pre @ rest \<and> list_all AIsDigit pre \<and> unat m = dec_val (unat n) pre \<and> unat m \<le> 2 ^ 61 \<and>
    (if big then \<exists>ch r. rest = ch # r \<and> AIsDigit ch \<and> 2 ^ 61 < unat m * 10 + (ch - 48)
     else rest = [] \<or> \<not> AIsDigit (hd rest))"
  using assms
proof (induction n s arbitrary: m rest big rule: short_loop.induct)
  case (2 n ch s)
  show ?case
  proof (cases "AIsDigit ch")
    case False
    with 2(2,3) show ?thesis by auto
  next
    case dig: True
    then have d: "ch - 48 \<le> 9" by (auto simp: AIsDigit_def)
    show ?thesis
    proof (cases "too_big n (ch - 48)")
      case True
      with dig 2(2,3) too_big_iff [OF d] show ?thesis by auto
    next
      case False
      then have le: "unat n * 10 + (ch - 48) \<le> 2 ^ 61" using too_big_iff [OF d] by simp
      have "n * 10 + of_nat (ch - 48) = of_nat (unat n * 10 + (ch - 48))" by simp
      then have u: "unat (n * 10 + of_nat (ch - 48)) = unat n * 10 + (ch - 48)"
        using le by (simp only:) (rule unat_of_nat_64, simp)
      have "short_loop (n * 10 + of_nat (ch - 48)) s = (m, rest, big)" using 2(2) dig False by simp
      from 2(1) [OF _ False this] dig le u obtain pre where
        "s = pre @ rest" "list_all AIsDigit pre" "unat m = dec_val (unat n * 10 + (ch - 48)) pre" "unat m \<le> 2 ^ 61"
        "if big then \<exists>ch r. rest = ch # r \<and> AIsDigit ch \<and> 2 ^ 61 < unat m * 10 + (ch - 48)
         else rest = [] \<or> \<not> AIsDigit (hd rest)" by auto
      with dig show ?thesis by (intro exI [of _ "ch # pre"]) simp
    qed
  qed
qed simp

lemma takeWhile_split:
  "list_all P pre \<Longrightarrow> rest = [] \<or> \<not> P (hd rest) \<Longrightarrow> takeWhile P (pre @ rest) = pre \<and> dropWhile P (pre @ rest) = rest"
  by (induction pre) (cases rest; simp)+

text \<open>The value of the digits at the front of \<open>s\<close>, and what the loop tells about it.\<close>

lemma short_loop_cases:
  assumes "short_loop 0 s = (m, rest, big)"
  defines "ds \<equiv> takeWhile AIsDigit s"
  shows "\<not> big \<Longrightarrow> unat m = dec_val 0 ds \<and> dec_val 0 ds \<le> 2 ^ 61 \<and> rest = dropWhile AIsDigit s"
    "big \<Longrightarrow> \<exists>pre. ds = pre @ takeWhile AIsDigit rest \<and> unat m = dec_val 0 pre \<and> unat m \<le> 2 ^ 61 \<and>
       2 ^ 61 < dec_val 0 ds \<and> dropWhile AIsDigit rest = dropWhile AIsDigit s"
proof -
  obtain pre where p: "s = pre @ rest" "list_all AIsDigit pre" "unat m = dec_val 0 pre" "unat m \<le> 2 ^ 61"
      "if big then \<exists>ch r. rest = ch # r \<and> AIsDigit ch \<and> 2 ^ 61 < unat m * 10 + (ch - 48)
       else rest = [] \<or> \<not> AIsDigit (hd rest)"
    using short_loop_ok [OF assms(1)] by auto
  have all: "\<And>x. x \<in> set pre \<Longrightarrow> AIsDigit x" using p(2) by (simp add: list_all_iff)
  show "unat m = dec_val 0 ds \<and> dec_val 0 ds \<le> 2 ^ 61 \<and> rest = dropWhile AIsDigit s" if "\<not> big"
    using takeWhile_split [OF p(2), of rest] p that unfolding ds_def by simp
  have ds: "ds = pre @ takeWhile AIsDigit rest" "dropWhile AIsDigit rest = dropWhile AIsDigit s"
    unfolding ds_def p(1) using all by (simp_all add: takeWhile_append2 dropWhile_append2)
  have "2 ^ 61 < dec_val 0 ds" if b: big
  proof -
    obtain ch r where "rest = ch # r" "AIsDigit ch" "2 ^ 61 < unat m * 10 + (ch - 48)" using p(5) b by auto
    moreover have "dec_val 0 ds = dec_val (unat m) (takeWhile AIsDigit rest)" unfolding ds p(3) by (rule dec_val_append)
    ultimately show ?thesis
      using dec_val_mono [of "unat m * 10 + (ch - 48)" "takeWhile AIsDigit r"] by simp
  qed
  with ds p(3,4) show "big \<Longrightarrow> \<exists>pre. ds = pre @ takeWhile AIsDigit rest \<and> unat m = dec_val 0 pre \<and> unat m \<le> 2 ^ 61 \<and>
       2 ^ 61 < dec_val 0 ds \<and> dropWhile AIsDigit rest = dropWhile AIsDigit s" by auto
qed

lemma meets_long_loop:
  assumes "magnitude n li" "1 \<le> li_len li"
  shows "meets Q (long_loop li s) (\<lambda>r. magnitude (dec_val n (takeWhile AIsDigit s)) r \<and> 1 \<le> li_len r)"
  using assms
proof (induction s arbitrary: li n)
  case Nil
  then show ?case by (auto intro: meets_ret)
next
  case (Cons ch s)
  show ?case
  proof (cases "AIsDigit ch")
    case False
    with Cons.prems show ?thesis by (auto intro: meets_ret)
  next
    case True
    then have "ch - 48 < 10" by (auto simp: AIsDigit_def)
    then have d: "unat (of_nat (ch - 48) :: digit) = ch - 48" by (simp add: unsigned_of_nat take_bit_nat_eq_self_iff)
    have "meets Q (AMulAddSingle li 10 (of_nat (ch - 48)))
        (\<lambda>r. magnitude (n * 10 + (ch - 48)) r \<and> 1 \<le> li_len r)"
      using Cons.prems d by (intro meets_mono [OF meets_AMulAddSingle]) (auto simp: magnitude_def)
    then show ?thesis using True Cons.IH by (auto intro!: meets_bind)
  qed
qed

lemma meets_ConvertLongInt:
  assumes "unat n \<le> 2 ^ 61"
  shows "meets Q (ConvertLongInt n s) (magnitude (dec_val (unat n) (takeWhile AIsDigit s)))"
proof -
  have s: "sint n = int (unat n)" using assms by (simp add: sint_unat)
  show ?thesis
    unfolding ConvertLongInt_def
  proof (rule meets_bind [OF meets_ACreateLongIntFromIntND])
    fix v assume "coerced (sint n) v"
    then obtain li where li: "v = ALong li" "operand li" "li_value li = int (unat n)" "\<not> li_neg li"
      unfolding coerced_def s by auto
    have "digs_val (digits li) = unat n" using li(3,4) unfolding li_value_def by (metis of_nat_eq_iff)
    with li have m: "magnitude (unat n) li" by (simp add: magnitude_def operand_def)
    show "meets Q (the_long v (\<lambda>li. long_loop li s)) (magnitude (dec_val (unat n) (takeWhile AIsDigit s)))"
      using li(1,2) by (auto simp: operand_def intro: meets_mono [OF meets_long_loop [OF m]])
  qed
qed

text \<open>A magnitude above the short range is a normal long integer, with either sign.\<close>

lemma magnitude_norm:
  assumes "magnitude n li" "2 ^ 61 < n"
  shows "returns_int (with_sign s n) (ALong (if s then ASetLongIntSign li else li))"
proof -
  have m: "wf_li li" "\<not> li_neg li" "digs_val (digits li) = n" "1 < li_len li \<longrightarrow> last (digits li) \<noteq> 0"
    using assms(1) by (auto simp: magnitude_def)
  have "2 \<le> li_len li"
  proof (rule ccontr)
    assume "\<not> 2 \<le> li_len li"
    then have "(2 :: nat) ^ (32 * length (digits li)) \<le> 2 ^ 32" using m(1) by (intro power_increasing) simp_all
    then have "digs_val (digits li) < 2 ^ 32" using digs_val_less [of "digits li"] by linarith
    with m(3) assms(2) show False by simp
  qed
  moreover have "\<not> fits_short (with_sign s n)" using assms(2) by (auto simp: with_sign_def fits_short_def)
  ultimately show ?thesis
    unfolding set_sign [OF m(2)] using m by (simp add: returns_int_def li_value_with_sign)
qed

lemma meets_short_result:
  assumes "unat n \<le> 2 ^ 61" shows "meets Q (short_result s n) (returns_int (with_sign s (unat n)))"
proof -
  define k where "k = unat n"
  have n: "n = of_int (int k)" by (simp add: k_def)
  have sn: "sint n = int k" unfolding k_def using assms by (simp only: sint_unat) simp
  have kb: "k \<le> 2305843009213693952" using assms by (simp add: k_def)
  have top: "n = A_SHORT_INT_MAX + 1 \<longleftrightarrow> k = 2305843009213693952"
    unfolding short_limit k_def by (simp add: word_unat_eq_iff)
  have short: "returns_int i (AShort (AIntToValue (of_int i)))" if "fits_short i" for i
    using AIntToValue_returns [of "of_int i"] sint_of_int_64 [of i] that
    by (simp add: fits_short_def)
  consider "s" | "\<not> s" "k = 2305843009213693952" | "\<not> s" "k \<noteq> 2305843009213693952" by blast
  then have "meets Q (short_result s n) (returns_int (with_sign s k))"
  proof cases
    case 1
    have "- n = of_int (- int k)" by (simp add: n)
    moreover have "returns_int (- int k) (AShort (AIntToValue (of_int (- int k))))"
      using kb by (intro short) (simp add: fits_short_def)
    ultimately show ?thesis using 1 by (auto simp: short_result_def with_sign_def intro: meets_ret)
  next
    case 2
    have "meets Q (ACreateLongIntFromIntND n) (returns_int (int k))"
    proof (rule meets_mono [OF meets_ACreateLongIntFromIntND])
      fix v assume "coerced (sint n) v"
      then show "returns_int (int k) v" unfolding sn 2(2)
        by (auto simp: coerced_def returns_int_def operand_def fits_short_def)
    qed
    with 2 top show ?thesis by (simp add: short_result_def with_sign_def)
  next
    case 3
    then have "returns_int (int k) (AShort (AIntToValue (of_int (int k))))"
      using kb by (intro short) (simp add: fits_short_def)
    with 3 n top show ?thesis by (auto simp: short_result_def with_sign_def intro: meets_ret)
  qed
  then show ?thesis by (simp only: k_def)
qed

section \<open>Construction from a string\<close>

text \<open>The parts of the argument: sign, digits and what follows them.\<close>

definition int_text :: "nat list \<Rightarrow> bool \<times> nat list \<times> nat list" where
  "int_text s =
     (let (neg, s) = read_sign (dropWhile is_blank s) in (neg, takeWhile AIsDigit s, dropWhile AIsDigit s))"

lemma TryConvert_spec:
  assumes region: "0 \<le> ind" "e \<le> int (length buf)"
  defines "s \<equiv> take (nat (e - ind)) (drop (nat ind) buf)"
  assumes parts: "int_text s = (neg, ds, tail)"
  shows "ds = [] \<or> dec_val 0 ds \<le> 2 ^ 61 \<and> \<not> list_all is_blank tail \<Longrightarrow>
      TryConvert buf ind e = raise (ValueError ''Invalid string argument'')"
    "ds \<noteq> [] \<Longrightarrow> 2 ^ 61 < dec_val 0 ds \<or> list_all is_blank tail \<Longrightarrow>
      meets Q (TryConvert buf ind e) (returns_int (with_sign neg (dec_val 0 ds)))"
proof -
  have inside: "\<not> (ind < e \<and> (ind < 0 \<or> int (length buf) < e))" using region by linarith
  obtain s' where s': "read_sign (dropWhile is_blank s) = (neg, s')" "ds = takeWhile AIsDigit s'" "tail = dropWhile AIsDigit s'"
    using parts by (auto simp: int_text_def split: prod.splits)
  obtain m rest big where sl: "short_loop 0 s' = (m, rest, big)" by (metis prod_cases3)
  note C = short_loop_cases [OF sl]
  have blank: "list_ex (\<lambda>ch. \<not> is_blank ch) tail = (\<not> list_all is_blank tail)" by (simp add: list_all_iff list_ex_iff)
  have none: "TryConvert buf ind e = raise (ValueError ''Invalid string argument'')" if "ds = []"
    using that s' by (cases s') (auto simp: TryConvert_def inside s_def [symmetric])
  have big: "big \<longleftrightarrow> 2 ^ 61 < dec_val 0 ds" using C s'(2) by (cases big) auto
  have some: "TryConvert buf ind e =
      (if big then bindM (ConvertLongInt m rest) (\<lambda>li. ret (ALong (if neg then ASetLongIntSign li else li)))
       else if \<not> list_all is_blank rest then raise (ValueError ''Invalid string argument'')
       else short_result neg m)" if "ds \<noteq> []"
    using that s' sl by (cases s') (auto simp: TryConvert_def inside s_def [symmetric] list_all_iff list_ex_iff split: if_splits)
  show "TryConvert buf ind e = raise (ValueError ''Invalid string argument'')"
    if "ds = [] \<or> dec_val 0 ds \<le> 2 ^ 61 \<and> \<not> list_all is_blank tail"
  proof (cases "ds = []")
    case False
    with that have "\<not> big" "\<not> list_all is_blank tail" using big by auto
    then show ?thesis using some [OF False] C(1) s'(3) by simp
  qed (rule none)
  show "meets Q (TryConvert buf ind e) (returns_int (with_sign neg (dec_val 0 ds)))"
    if "ds \<noteq> []" "2 ^ 61 < dec_val 0 ds \<or> list_all is_blank tail"
  proof (cases big)
    case True
    then obtain pre where pre: "ds = pre @ takeWhile AIsDigit rest" "unat m = dec_val 0 pre" "unat m \<le> 2 ^ 61"
      using C(2) s'(2) by auto
    then have v: "dec_val (unat m) (takeWhile AIsDigit rest) = dec_val 0 ds" by (simp add: dec_val_append)
    have "meets Q (bindM (ConvertLongInt m rest) (\<lambda>li. ret (ALong (if neg then ASetLongIntSign li else li))))
        (returns_int (with_sign neg (dec_val 0 ds)))"
    proof (rule meets_bind [OF meets_ConvertLongInt [OF pre(3)]], rule meets_ret)
      fix li assume "magnitude (dec_val (unat m) (takeWhile AIsDigit rest)) li"
      then have "magnitude (dec_val 0 ds) li" by (simp only: v)
      then show "returns_int (with_sign neg (dec_val 0 ds)) (ALong (if neg then ASetLongIntSign li else li))"
        using True big by (intro magnitude_norm) simp_all
    qed
    with some [OF that(1)] True show ?thesis by simp
  next
    case False
    have le: "unat m \<le> 2 ^ 61" "unat m = dec_val 0 ds" "rest = tail" using C(1) False s' by auto
    with meets_short_result [OF le(1), of Q neg] some [OF that(1)] that(2) False big show ?thesis by simp
  qed
qed

section \<open>Writing digits\<close>

fun num_str :: "nat \<Rightarrow> nat \<Rightarrow> nat list" where
  "num_str r n = (if n < r \<or> r < 2 then [digit_char n] else num_str r (n div r) @ [digit_char (n mod r)])"

declare num_str.simps [simp del]

lemma num_str_small: "n < r \<Longrightarrow> num_str r n = [digit_char n]"
  by (subst num_str.simps) simp

lemma num_str_step: "2 \<le> r \<Longrightarrow> r \<le> n \<Longrightarrow> num_str r n = num_str r (n div r) @ [digit_char (n mod r)]"
  by (subst num_str.simps) simp

lemma num_str_not_Nil [simp]: "num_str r n \<noteq> []"
  by (subst num_str.simps) simp

lemma num_str_length: "2 \<le> r \<Longrightarrow> n < r ^ Suc k \<Longrightarrow> length (num_str r n) \<le> Suc k"
proof (induction k arbitrary: n)
  case 0
  then show ?case by (simp add: num_str_small)
next
  case (Suc k)
  show ?case
  proof (cases "n < r")
    case False
    have "n div r < r ^ Suc k" using Suc.prems by (simp add: div_less_iff_less_mult mult.commute)
    then have "length (num_str r (n div r)) \<le> Suc k" using Suc by simp
    with False Suc.prems show ?thesis by (simp add: num_str_step)
  qed (simp add: num_str_small)
qed

lemma str_loop_ok:
  "length (num_str 10 n) + length out \<le> room \<Longrightarrow> str_loop room n out = Inr (num_str 10 n @ out)"
proof (induction n arbitrary: out rule: less_induct)
  case (less n)
  show ?case
  proof (cases "n < 10")
    case True
    with less.prems show ?thesis by (subst str_loop.simps) (simp add: num_str_small push_char_def digit_char_def)
  next
    case False
    then have st: "num_str 10 n = num_str 10 (n div 10) @ [digit_char (n mod 10)]" by (intro num_str_step) simp_all
    have "n div 10 < n" using False by simp
    moreover have "length (num_str 10 (n div 10)) + length ((n mod 10 + 48) # out) \<le> room"
      using less.prems unfolding st by simp
    ultimately have "str_loop room (n div 10) ((n mod 10 + 48) # out) = Inr (num_str 10 (n div 10) @ (n mod 10 + 48) # out)"
      by (rule less.IH)
    moreover have "length out < room" using less.prems st by simp
    ultimately show ?thesis using False st by (subst str_loop.simps) (simp add: push_char_def digit_char_def)
  qed
qed

lemma dec_val_num_str: "dec_val a (num_str 10 n) = a * 10 ^ length (num_str 10 n) + n \<and> list_all AIsDigit (num_str 10 n)"
proof (induction n arbitrary: a rule: less_induct)
  case (less n)
  show ?case
  proof (cases "n < 10")
    case True
    then show ?thesis by (simp add: num_str_small digit_char_def AIsDigit_def)
  next
    case False
    have st: "num_str 10 n = num_str 10 (n div 10) @ [digit_char (n mod 10)]" using False by (intro num_str_step) simp_all
    have "n div 10 < n" using False by simp
    from less.IH [OF this] show ?thesis
      unfolding st by (simp add: dec_val_append digit_char_def AIsDigit_def algebra_simps)
  qed
qed

section \<open>Writing long integers\<close>

text \<open>
  The loop goes on while the quotient has digits.  A quotient of zero has no digit: it comes from
  a block of one digit, which is cut to none in place.
\<close>

definition digit_block :: "nat \<Rightarrow> longint \<Rightarrow> bool" where
  "digit_block n q \<longleftrightarrow> wf_li q \<and> digs_val (digits q) = n \<and> (1 < li_len q \<longrightarrow> last (digits q) \<noteq> 0) \<and>
     (if n = 0 then li_len q = 0 \<and> li_cells q ! 0 = 0 else 1 \<le> li_len q)"

lemma meets_truncate_one:
  assumes "fresh 1 d"
  shows "meets Q (TruncateZeroDigits (put_digits [x] d) False) (digit_block (unat x))"
proof -
  note f = fresh_put_digits [OF assms, of "[x]"]
  have d: "li_len d = 1" "\<not> li_neg d" "li_newGen d" "length (li_cells d) = 2"
    using assms by (simp_all add: fresh_def wf_li_def capacity_eq)
  then obtain u v where c: "li_cells d = [u, v]" by (auto simp: length_Suc_conv numeral_2_eq_2)
  have cap: "capacity 0 = 2" "capacity (Suc 0) = 2" by (simp_all add: capacity_eq)
  show ?thesis
  proof (cases "x = 0")
    case True
    have "TruncateZeroDigits (put_digits [x] d) False =
        ret ((put_digits [x] d)\<lparr>li_len := 0, li_neg := False, li_cells := [x, v]\<rparr>)"
      using d c True by (simp add: TruncateZeroDigits_def put_digits_def Let_def AGetBlockSize_def AGetLongIntSize_def cap)
    then show ?thesis
      using True by (auto simp: digit_block_def wf_li_def digits_def cap intro!: meets_ret)
  next
    case False
    have "TruncateZeroDigits (put_digits [x] d) False = ret (put_digits [x] d)"
      using d c False by (simp add: TruncateZeroDigits_def put_digits_def)
    moreover have "unat x \<noteq> 0" using False by (simp add: word_unat_eq_iff)
    ultimately show ?thesis
      using d c by (auto simp: digit_block_def wf_li_def digits_def put_digits_def cap intro!: meets_ret)
  qed
qed

lemma meets_div_quotient:
  assumes "digit_block n li" "n \<noteq> 0" "2 \<le> unat b" "unat b \<le> 36"
  shows "meets Q (ADivModSingle li b) (\<lambda>(q, r). digit_block (n div unat b) q \<and> unat r = n mod unat b)"
proof -
  have li: "wf_li li" "1 \<le> li_len li" "digs_val (digits li) = n" "1 < li_len li \<longrightarrow> last (digits li) \<noteq> 0"
    using assms by (auto simp: digit_block_def)
  show ?thesis
  proof (cases "li_len li = 1")
    case False
    then have l2: "2 \<le> li_len li" using li(2) by simp
    have "digits li \<noteq> []" using l2 length_digits [OF li(1)] by auto
    then have "2 ^ (32 * (length (digits li) - 1)) \<le> n" using li l2 digs_val_top [of "digits li"] by simp
    moreover have "(2 :: nat) ^ 32 \<le> 2 ^ (32 * (length (digits li) - 1))" using l2 li(1) by (intro power_increasing) simp_all
    ultimately have "2 ^ 32 \<le> n" by linarith
    then have "1 \<le> n div unat b" using assms(3,4) by (simp add: Suc_le_eq div_greater_zero_iff)
    then show ?thesis
      using assms(3) l2 li(1,2,3)
      by (intro meets_mono [OF meets_ADivModSingle]) (auto simp: digit_block_def magnitude_def)
  next
    case True
    then obtain x where x: "digits li = [x]" using length_digits [OF li(1)] by (auto simp: length_Suc_conv)
    then have n: "n = unat x" using li(3) by simp
    have b: "b \<noteq> 0" "unat (ucast b :: ddigit) = unat b" using assms(3) by auto
    have q: "unat (ucast ((ucast x :: ddigit) div ucast b) :: digit) = n div unat b"
      unfolding n using unat_digit_lt [of x]
      by (subst ucast_small) (simp_all add: unat_div_distrib div_le_dividend [THEN le_less_trans])
    have "unat (ucast ((ucast x :: ddigit) mod ucast b) :: digit) = n mod unat b"
      unfolding n using unat_digit_lt [of x]
      by (subst ucast_small) (simp_all add: unat_mod_distrib mod_less_eq_dividend [THEN le_less_trans])
    with q show ?thesis
      unfolding ADivModSingle_def True x
      by (auto simp: Let_def x intro!: meets_create_then meets_ret meets_bind [OF meets_truncate_one])
  qed
qed

lemma meets_long_str_loop:
  assumes "digit_block n li" "n \<noteq> 0" "2 \<le> unat r" "unat r \<le> 36" "length (num_str (unat r) n) \<le> room"
  shows "meets Q (long_str_loop room li r out) (\<lambda>s. s = num_str (unat r) n @ out)"
  using assms
proof (induction room arbitrary: n li out)
  case 0
  then show ?case by simp
next
  case (Suc room)
  let ?r = "unat r"
  show ?case
    unfolding long_str_loop.simps
  proof (rule meets_bind [OF meets_div_quotient [OF Suc.prems(1-4)]], clarify)
    fix q m assume q: "digit_block (n div ?r) q" "unat m = n mod ?r"
    show "meets Q (let out = digit_char (unat m) # out
          in if li_len q > 0 \<or> li_cells q ! 0 \<noteq> 0 then long_str_loop room q r out else ret out)
        (\<lambda>s. s = num_str ?r n @ out)"
    proof (cases "n < ?r")
      case True
      then have "li_len q = 0 \<and> li_cells q ! 0 = 0" "n mod ?r = n" using q by (auto simp: digit_block_def)
      then show ?thesis using True q(2) by (simp add: num_str_small meets_ret)
    next
      case False
      then have "n div ?r \<noteq> 0" using Suc.prems(3) by (auto simp: div_eq_0_iff)
      moreover have st: "num_str ?r n = num_str ?r (n div ?r) @ [digit_char (n mod ?r)]"
        using False Suc.prems(3) by (intro num_str_step) auto
      moreover have "0 < li_len q" using q(1) calculation(1) by (simp add: digit_block_def)
      moreover have "length (num_str ?r (n div ?r)) \<le> room" using Suc.prems(5) st by simp
      ultimately show ?thesis using Suc.IH [OF q(1)] Suc.prems(3,4) q(2) by simp
    qed
  qed
qed

text \<open>The buffer is long enough for every radix.\<close>

lemma digits_fit:
  assumes "n < 2 ^ (32 * l)" "1 \<le> l" "2 \<le> r"
  shows "int (length (num_str r n)) + 1 \<le> str_max_len r l w"
proof -
  have fit: "length (num_str r n) \<le> k" if "2 ^ (32 * l) \<le> r ^ k" "1 \<le> k" for k
    using num_str_length [OF assms(3), of n "k - 1"] assms(1) that by simp
  have *: "2 ^ (32 * l) \<le> r ^ k" if "b \<le> r" "2 ^ (32 * l) \<le> b ^ k" for b k :: nat
    using that power_mono [of b r k] by linarith
  consider "r < 8" | "8 \<le> r" "r < 16" | "16 \<le> r" by linarith
  then have "int (length (num_str r n)) + 1 \<le>
      (if r < 8 then int (l * 32) + 1 else if r < 16 then int (l * 32 div 3) + 2 else int (l * 32 div 4) + 2)"
  proof cases
    case 1
    have "length (num_str r n) \<le> 32 * l" using assms by (intro fit * [of 2]) simp_all
    with 1 show ?thesis by simp
  next
    case 2
    have "(8 :: nat) ^ (l * 32 div 3 + 1) = 2 ^ (3 * (l * 32 div 3 + 1))" by (simp only: power_mult) simp
    moreover have "(2 :: nat) ^ (32 * l) \<le> 2 ^ (3 * (l * 32 div 3 + 1))" by (rule power_increasing) (presburger, simp)
    ultimately have "length (num_str r n) \<le> l * 32 div 3 + 1" using 2 by (intro fit * [of 8]) simp_all
    with 2 show ?thesis by simp
  next
    case 3
    have "(16 :: nat) ^ (8 * l) = 2 ^ (4 * (8 * l))" by (simp only: power_mult [of 2 4]) simp
    then have "length (num_str r n) \<le> 8 * l" using 3 assms(2) by (intro fit * [of 16]) simp_all
    with 3 show ?thesis by simp
  qed
  then show ?thesis by (simp add: str_max_len_def Let_def)
qed

definition signed_str :: "nat \<Rightarrow> int \<Rightarrow> int \<Rightarrow> nat list" where
  "signed_str r w i = (if i < 0 then [45] else []) @ pad_zeros w (num_str r (nat \<bar>i\<bar>))"

lemma pad_zeros_0 [simp]: "w \<le> 0 \<Longrightarrow> pad_zeros w s = s"
  by (simp add: pad_zeros_def)

lemma meets_ALongIntToStr:
  assumes li: "norm_int (ALong li)" and r: "2 \<le> r" "r \<le> 36" and w: "w < 2 ^ 31 - 1"
  shows "meets Q (ALongIntToStr li r w) (\<lambda>s. s = signed_str r w (li_value li))"
proof -
  let ?n = "digs_val (digits li)" and ?m = "str_max_len r (li_len li) w"
  have L: "wf_li li" "2 \<le> li_len li" "last (digits li) \<noteq> 0" using li by simp_all
  have n0: "?n \<noteq> 0" by (rule norm_long_nonzero [OF li])
  have abs: "nat \<bar>li_value li\<bar> = ?n" "li_value li < 0 \<longleftrightarrow> li_neg li" using n0 by (auto simp: li_value_def)
  have ur: "unat (of_nat r :: digit) = r" using r by (simp add: unsigned_of_nat take_bit_nat_eq_self_iff)
  have "?n < 2 ^ (32 * li_len li)" using digs_val_less [of "digits li"] L(1) by simp
  then have fit: "int (length (num_str r ?n)) + 1 \<le> ?m" using L(2) r by (intro digits_fit) simp_all
  have mw: "w + 1 \<le> ?m" by (simp add: str_max_len_def Let_def)
  have "digit_block ?n (promote gc li)" for gc using L n0 by (simp add: digit_block_def)
  from meets_long_str_loop [OF this n0, where r = "of_nat r" and room = "nat ?m" and out = "[]" and Q = Q]
  have loop: "meets Q (long_str_loop (nat ?m) (promote gc li) (of_nat r) []) (\<lambda>s. s = num_str r ?n)" for gc
    using ur r fit by simp
  let ?s = "signed_str r w (li_value li)"
  have s: "(if li_neg li then 45 # pad_zeros w (num_str r ?n) else pad_zeros w (num_str r ?n)) = ?s"
    using abs by (simp add: signed_str_def)
  have "int (length (pad_zeros w (num_str r ?n))) + 1 \<le> ?m" using fit mw by (simp add: pad_zeros_def)
  then have len: "int (length ?s) \<le> ?m" using abs by (simp add: signed_str_def)
  have rest: "meets Q (bindM (long_str_loop (nat ?m) (promote gc li) (of_nat r) [])
      (\<lambda>out. let out = pad_zeros w out; out = (if li_neg li then 45 # out else out)
             in if int (length out) > ?m then raise UndefinedBehaviour else bindM next_alloc (\<lambda>_. ret out)))
      (\<lambda>x. x = ?s)" for gc
  proof (rule meets_bind [OF loop], clarify)
    show "meets Q (let out = pad_zeros w (num_str r ?n); out = (if li_neg li then 45 # out else out)
             in if int (length out) > ?m then raise UndefinedBehaviour else bindM next_alloc (\<lambda>_. ret out)) (\<lambda>x. x = ?s)"
      using len by (auto simp: Let_def s intro!: meets_bind [OF meets_next_alloc] meets_ret)
  qed
  show ?thesis
    unfolding ALongIntToStr_def Let_def
    using w rest unfolding Let_def
    by (auto intro!: meets_with_temps meets_bind [OF meets_next_alloc] meets_bind [OF meets_ret, of "\<lambda>_. True"])
qed

section \<open>Writing short integers\<close>

lemma meets_ShortToStr: "meets Q (ShortToStr w) (\<lambda>s. s = signed_str 10 0 (short_val w))"
proof -
  let ?n = "nat \<bar>short_val w\<bar>"
  have "?n < 10 ^ Suc 18" using short_val_bounds [of w] by simp
  then have len: "length (num_str 10 ?n) \<le> 19" using num_str_length [of 10 ?n 18] by simp
  then have loop: "str_loop INT_BUF_SIZE ?n [] = Inr (num_str 10 ?n)" by (subst str_loop_ok) (simp_all add: INT_BUF_SIZE_def)
  have push: "push_char INT_BUF_SIZE 45 (num_str 10 ?n) = Inr (45 # num_str 10 ?n)"
    using len by (simp add: push_char_def INT_BUF_SIZE_def)
  show ?thesis
    unfolding ShortToStr_def sint_AValueToInt Let_def loop sum.case signed_str_def
    by (cases "short_val w < 0"; simp only: if_True if_False sum.case push pad_zeros_0 order_refl append.simps)
      (auto intro!: meets_bind [OF meets_next_alloc] meets_ret)
qed

lemma meets_AStdStr_Int: "norm_int v \<Longrightarrow> meets Q (AStdStr_Int v) (\<lambda>s. s = signed_str 10 0 (int_value v))"
proof (cases v)
  case (AShort w)
  then show ?thesis using meets_ShortToStr by (simp add: int_value_short del: int_value.simps)
next
  case (ALong li)
  assume "norm_int v"
  with ALong show ?thesis using meets_ALongIntToStr [of li 10 0 Q] by simp
qed

lemma digit_ADigits: "d < 36 \<Longrightarrow> ADigits ! d = digit_char d"
proof -
  have "list_all (\<lambda>d. ADigits ! d = digit_char d) [0..<36]" by code_simp
  then show "d < 36 \<Longrightarrow> ADigits ! d = digit_char d" unfolding list_all_iff set_upt by simp
qed

lemma IntToStr_loop_ok:
  "2 \<le> r \<Longrightarrow> r \<le> 36 \<Longrightarrow> length (num_str r n) \<le> room \<Longrightarrow> IntToStr_loop room r n out = Inr (num_str r n @ out)"
proof (induction room arbitrary: n out)
  case 0
  then show ?case by simp
next
  case (Suc room)
  have "n mod r < r" using Suc.prems by simp
  then have d: "ADigits ! (n mod r) = digit_char (n mod r)" using Suc.prems by (intro digit_ADigits) linarith
  show ?case
  proof (cases "n < r")
    case True
    with d show ?thesis by (simp add: num_str_small)
  next
    case False
    then have st: "num_str r n = num_str r (n div r) @ [digit_char (n mod r)]" using Suc.prems by (intro num_str_step) simp_all
    have nz: "n div r \<noteq> 0" using False Suc.prems by (simp add: div_eq_0_iff)
    have "length (num_str r (n div r)) \<le> room" using Suc.prems(3) st by simp
    from Suc.IH [OF Suc.prems(1,2) this] show ?thesis unfolding st by (simp add: Let_def d nz)
  qed
qed

section \<open>Arithmetic through the C interface\<close>

lemma AAdd_Int_eq: "AAdd_Int a b = AAddInts a b"
proof -
  have "the_long v (\<lambda>a. AAddLongInt a l) = AddSame v (ALong l)" "the_long v (AAddLongInt l) = AddSame (ALong l) v" for v l
    by (cases v; simp)+
  then show ?thesis
    by (cases a; cases b)
      (auto simp: AAdd_Int_def bindM_def ret_def fun_eq_iff split: prod.splits sum.splits)
qed

lemma AMul_Int_short: "AMul_Int (AShort a) (AShort b) = AMultiplyShortInt a b"
  by (auto simp: AMul_Int_def AMultiplyShortInt_def Let_def)

lemma meets_AMul_Int:
  assumes "norm_int a" "norm_int b" "0 \<le> int_value a" "0 \<le> int_value b" and mem: "\<not> Q AllocFail"
  shows "meets Q (AMul_Int a b) (returns_int (int_value a * int_value b))"
proof -
  have long: "meets Q (bindM (ACoerce a b) (\<lambda>(a, b). the_long a (\<lambda>a. the_long b (\<lambda>b. AMultiplyLongInt a b))))
      (returns_int (int_value a * int_value b))" if "\<not> (\<exists>x y. a = AShort x \<and> b = AShort y)"
  proof (cases a; cases b)
    fix x l assume e: "a = AShort x" "b = ALong l"
    show ?thesis
      unfolding e
    proof (rule meets_bind [OF meets_coerce_left], clarify)
      fix li assume "operand li" "li_value li = short_val x"
      then show "meets Q (the_long (ALong li) (\<lambda>a. the_long (ALong l) (\<lambda>b. AMultiplyLongInt a b)))
          (returns_int (int_value (AShort x) * int_value (ALong l)))"
        using meets_AMultiplyLongInt [of li l Q] assms(2) e by (simp add: operand_def int_value_short del: int_value.simps(1))
    qed
  next
    fix x l assume e: "a = ALong l" "b = AShort x"
    show ?thesis
      unfolding e
    proof (rule meets_bind [OF meets_coerce_right], clarify)
      fix li assume "operand li" "li_value li = short_val x"
      then show "meets Q (the_long (ALong l) (\<lambda>a. the_long (ALong li) (\<lambda>b. AMultiplyLongInt a b)))
          (returns_int (int_value (ALong l) * int_value (AShort x)))"
        using meets_AMultiplyLongInt [of l li Q] assms(1) e by (simp add: operand_def int_value_short del: int_value.simps(1))
    qed
  next
    fix k l assume e: "a = ALong k" "b = ALong l"
    show ?thesis unfolding e using assms(1,2) e
      by (auto intro!: meets_bind [OF meets_ret, of "\<lambda>p. p = (ALong k, ALong l)"] meets_AMultiplyLongInt)
  qed (use that in auto)
  show ?thesis
  proof (cases "\<exists>x y. a = AShort x \<and> b = AShort y")
    case True
    then obtain x y where e: "a = AShort x" "b = AShort y" by blast
    have "\<not> mul_wrong (short_val x) (short_val y)"
      using assms(3,4) by (simp add: e mul_wrong_def int_value_short not_less del: int_value.simps)
    then show ?thesis
      using meets_AMultiplyShortInt [of x y Q] assms(1,2) mem by (simp add: e AMul_Int_short int_value_short del: int_value.simps)
  next
    case False
    with long show ?thesis by (cases a; cases b) (simp_all add: AMul_Int_def)
  qed
qed

definition neg_result :: "aint \<Rightarrow> int" where
  "neg_result v = (case v of ALong li \<Rightarrow> if negate_shortcut li \<and> 2 < li_len li then - (2 ^ 61) else - li_value li
                           | AShort w \<Rightarrow> - short_val w)"

lemma meets_ANeg_Int: "norm_int v \<Longrightarrow> meets Q (ANeg_Int v) (returns_int (neg_result v))"
proof (cases v)
  case (ALong li)
  assume "norm_int v"
  with ALong meets_ANegateLongInt [of li Q] show ?thesis by (simp add: ANeg_Int_def neg_result_def)
next
  case (AShort w)
  assume "norm_int v"
  then have w: "w = of_int (4 * short_val w)" using AShort by (intro tagged_of_int) simp
  have mn: "AIntToValue A_SHORT_INT_MIN = of_int (4 * - 2305843009213693952)"
    using AIntToValue_of_int [of "- 2305843009213693952"] by (simp add: A_SHORT_INT_MIN_eq)
  show ?thesis
  proof (cases "short_val w = - 2305843009213693952")
    case True
    then have "w = AIntToValue A_SHORT_INT_MIN" using w mn by simp
    moreover have "sint (- A_SHORT_INT_MIN) = 2305843009213693952" by (simp add: A_SHORT_INT_MIN_eq)
    then have "meets Q (ACreateLongIntFromIntND (- A_SHORT_INT_MIN)) (returns_int 2305843009213693952)"
      by (intro meets_mono [OF meets_ACreateLongIntFromIntND])
        (auto simp: coerced_def returns_int_def operand_def fits_short_def)
    ultimately show ?thesis using AShort True by (simp add: ANeg_Int_def neg_result_def)
  next
    case False
    have "fits_short (- short_val w)" using short_val_bounds [of w] False by (simp add: fits_short_def)
    moreover have "- w = of_int (4 * (- short_val w))" by (subst w) simp
    ultimately have "returns_int (- short_val w) (AShort (- w))" by (intro returns_short)
    moreover have "w \<noteq> AIntToValue A_SHORT_INT_MIN"
    proof
      assume "w = AIntToValue A_SHORT_INT_MIN"
      then have "int_value (AShort w) = - 2305843009213693952" using short_min by simp
      with False show False by (simp add: int_value_short del: int_value.simps)
    qed
    ultimately show ?thesis using AShort by (auto simp: ANeg_Int_def neg_result_def intro: meets_ret)
  qed
qed

section \<open>Construction with a radix\<close>

definition radix_val :: "nat \<Rightarrow> nat \<Rightarrow> nat list \<Rightarrow> nat" where
  "radix_val r n s = foldl (\<lambda>a ch. a * r + the (radix_digit ch)) n s"

lemma radix_val_simps [simp]:
  "radix_val r n [] = n" "radix_val r n (ch # s) = radix_val r (n * r + the (radix_digit ch)) s"
  by (simp_all add: radix_val_def)

lemma radix_val_append: "radix_val r n (s @ s') = radix_val r (radix_val r n s) s'"
  by (simp add: radix_val_def)

definition is_alnum :: "nat \<Rightarrow> bool" where
  "is_alnum ch = (radix_digit ch \<noteq> None)"

lemma returns_small: "0 \<le> d \<Longrightarrow> d \<le> 36 \<Longrightarrow> returns_int d (AShort (AIntToValue (of_int d)))"
  by (rule returns_short) (simp_all add: AIntToValue_of_int fits_short_def)

lemma next_ind_ok: "i + 1 < 2147483648 \<Longrightarrow> next_ind i f = f (i + 1)"
  by (simp add: next_ind_def)

lemma blank_loop_ok:
  "i + length s < 2147483648 \<Longrightarrow> blank_loop i s = ret (i + length (takeWhile is_blank s), dropWhile is_blank s)"
  by (induction s arbitrary: i) (simp_all add: next_ind_ok)

lemma meets_radix_loop:
  assumes "returns_int (int n) v" "list_all (\<lambda>ch. the (radix_digit ch) < r) (takeWhile is_alnum s)"
    and "i + length s < 2147483648" and r: "2 \<le> r" "r \<le> 36" and mem: "\<not> Q AllocFail"
  shows "meets Q (radix_loop r i v s)
    (\<lambda>(i', x, rest). i' = i + length (takeWhile is_alnum s) \<and>
       returns_int (int (radix_val r n (takeWhile is_alnum s))) x \<and> rest = dropWhile is_alnum s)"
  using assms(1-3)
proof (induction s arbitrary: n v i)
  case Nil
  then show ?case by (auto intro: meets_ret)
next
  case (Cons ch s)
  show ?case
  proof (cases "radix_digit ch")
    case None
    with Cons.prems show ?thesis by (auto simp: is_alnum_def intro: meets_ret)
  next
    case (Some d)
    then have al: "is_alnum ch" by (simp add: is_alnum_def)
    with Some Cons.prems have d: "d < r" and rest: "list_all (\<lambda>ch. the (radix_digit ch) < r) (takeWhile is_alnum s)"
      by auto
    have i: "i + 1 + length s < 2147483648" "i + 1 < 2147483648" using Cons.prems(3) by simp_all
    have rr: "returns_int (int r) (AShort (AIntToValue (of_nat r)))" "returns_int (int d) (AShort (AIntToValue (of_nat d)))"
      using returns_small [of "int r"] returns_small [of "int d"] r d by simp_all
    have mul: "meets Q (AMul_Int v (AShort (AIntToValue (of_nat r)))) (returns_int (int (n * r)))"
      using meets_AMul_Int [of v "AShort (AIntToValue (of_nat r))" Q] Cons.prems(1) rr(1) mem
      unfolding returns_int_def by (simp del: int_value.simps norm_int.simps)
    have add: "meets Q (AAdd_Int x (AShort (AIntToValue (of_nat d)))) (returns_int (int (n * r + d)))"
      if "returns_int (int (n * r)) x" for x
      using meets_AAddInts [of x "AShort (AIntToValue (of_nat d))" Q] that rr(2)
      unfolding returns_int_def AAdd_Int_eq by (simp del: int_value.simps norm_int.simps)
    let ?P = "\<lambda>(i', x, rest). i' = i + 1 + length (takeWhile is_alnum s) \<and>
        returns_int (int (radix_val r (n * r + d) (takeWhile is_alnum s))) x \<and> rest = dropWhile is_alnum s"
    have "meets Q (radix_loop r (i + 1) y s) ?P"
      if "returns_int (int (n * r + d)) y" for y using Cons.IH [OF that rest i(1)] .
    then have "meets Q (bindM (AMul_Int v (AShort (AIntToValue (of_nat r))))
        (\<lambda>v. bindM (AAdd_Int v (AShort (AIntToValue (of_nat d)))) (\<lambda>v. radix_loop r (i + 1) v s))) ?P"
      by (intro meets_bind [OF mul] meets_bind [OF add])
    with Some d al show ?thesis by (simp add: next_ind_ok [OF i(2)])
  qed
qed

lemma radix_digit_char: "d < 36 \<Longrightarrow> radix_digit (digit_char d) = Some d"
  by (auto simp: radix_digit_def digit_char_def AIsDigit_def)

lemma radix_val_num_str:
  "2 \<le> r \<Longrightarrow> r \<le> 36 \<Longrightarrow> radix_val r a (num_str r n) = a * r ^ length (num_str r n) + n \<and>
   list_all (\<lambda>ch. is_alnum ch \<and> the (radix_digit ch) < r) (num_str r n)"
proof (induction n arbitrary: a rule: less_induct)
  case (less n)
  have d: "radix_digit (digit_char (n mod r)) = Some (n mod r)" "n mod r < r"
  proof -
    show "n mod r < r" using less.prems by simp
    then show "radix_digit (digit_char (n mod r)) = Some (n mod r)" using less.prems by (intro radix_digit_char) linarith
  qed
  show ?case
  proof (cases "n < r")
    case True
    with d show ?thesis by (simp add: num_str_small is_alnum_def)
  next
    case False
    have st: "num_str r n = num_str r (n div r) @ [digit_char (n mod r)]" using False less.prems by (intro num_str_step) simp_all
    have "n div r < n" using False less.prems by (simp add: div_less_dividend)
    from less.IH [OF this less.prems] d show ?thesis
      unfolding st by (simp add: radix_val_append is_alnum_def algebra_simps)
  qed
qed

lemma radix_val_pad: "radix_val r 0 (pad_zeros w s) = radix_val r 0 s"
proof -
  have "radix_val r 0 (replicate k 48) = 0" for k
    by (induction k) (simp_all add: radix_digit_def AIsDigit_def)
  then show ?thesis by (simp add: pad_zeros_def radix_val_append)
qed

end
