(* ===== verification/Int_Props.thy ===== *)
theory Int_Props
  imports Int_Arith_Lemmas Map_Refine
begin

text \<open>
  The properties of Int arithmetic, stated for the values user code can see, with an example
  for each.  \<open>meets\<close> says that the operation returns a value with the stated property or
  raises a memory error after a failed allocation, and that it leaves the temporary stack
  as it was; the allocator may return any left-over memory and may run a collection.
\<close>

text \<open>A long integer block with the given sign and digits, in the old generation.\<close>

definition long_of :: "bool \<Rightarrow> digit list \<Rightarrow> aint" where
  "long_of neg ds = ALong \<lparr>li_len = length ds, li_neg = neg, li_newGen = False,
     li_cells = ds @ replicate (capacity (length ds) - length ds) 0\<rparr>"

lemma digits_long_of: "long_of neg ds = ALong li \<Longrightarrow> digits li = ds \<and> li_len li = length ds \<and> li_neg li = neg"
  by (auto simp: long_of_def digits_def)

lemma norm_long_of:
  assumes "2 \<le> length ds" "last ds \<noteq> 0" "\<not> fits_short (with_sign neg (digs_val ds))"
  shows "norm_int (long_of neg ds)" "int_value (long_of neg ds) = with_sign neg (digs_val ds)"
  using assms
  by (auto simp: long_of_def wf_li_def digits_def li_value_with_sign)

section \<open>Addition and subtraction\<close>

text \<open>
  C2: Adding two Int values, short or long in any combination, gives their sum in normal form.
\<close>

theorem add_correct:
  assumes "norm_int a" "norm_int b"
  shows "meets any_alloc (AAddInts a b) (returns_int (int_value a + int_value b))"
  using meets_AAddInts [OF assms] .

theorem add_correct_witness:
  "meets any_alloc (AAddInts (short 2305843009213693951) (long_of True [5, 0, 1]))
     (returns_int (2305843009213693951 - (5 + 2 ^ 64)))"
proof -
  have n: "norm_int (long_of True [5, 0, 1])" "int_value (long_of True [5, 0, 1]) = - (5 + 2 ^ 64)"
    using norm_long_of [of "[5, 0, 1]" True] by (simp_all add: with_sign_def fits_short_def)
  show ?thesis using add_correct [OF _ n(1), of "short 2305843009213693951"] n(2) by simp
qed

text \<open>
  C20: Subtracting two Int values gives their difference in normal form, unless one is long,
  their signs differ and the first has fewer digits than the second: then the result is the
  difference with the wrong sign.
\<close>

theorem sub_exact:
  assumes "norm_int a" "norm_int b"
  shows "meets any_alloc (ASubInts a b) (returns_int
     (if (is_long a \<or> is_long b) \<and> (int_value a < 0) \<noteq> (int_value b < 0) \<and> ndig a < ndig b
      then int_value b - int_value a else int_value a - int_value b))"
  using meets_ASubInts [OF assms] by (simp add: sub_result_def)

theorem sub_exact_witness:
  "meets any_alloc (ASubInts (short 1) (long_of True [5, 0, 1])) (returns_int (- (5 + 2 ^ 64) - 1))"
proof -
  have n: "norm_int (long_of True [5, 0, 1])" "int_value (long_of True [5, 0, 1]) = - (5 + 2 ^ 64)"
    using norm_long_of [of "[5, 0, 1]" True] by (simp_all add: with_sign_def fits_short_def)
  have "ndig (short 1) = 1" by (simp add: short_val_def)
  moreover have "ndig (long_of True [5, 0, 1]) = 3" "is_long (long_of True [5, 0, 1])" by (simp_all add: long_of_def)
  ultimately show ?thesis using sub_exact [OF _ n(1), of "short 1"] n(2) by simp
qed

section \<open>Multiplication\<close>

text \<open>C17: Multiplying two long integers gives their product in normal form.\<close>

theorem mul_long_correct:
  assumes "norm_int (ALong a)" "norm_int (ALong b)"
  shows "meets any_alloc (AMultiplyLongInt a b) (returns_int (li_value a * li_value b))"
  using assms by (intro meets_AMultiplyLongInt) auto

definition two64 :: longint where
  "two64 = \<lparr>li_len = 3, li_neg = True, li_newGen = False, li_cells = [5, 0, 1, 0]\<rparr>"

lemma two64: "norm_int (ALong two64)" "li_value two64 = - (5 + 2 ^ 64)"
  by (simp_all add: two64_def wf_li_def digits_def li_value_def fits_short_def capacity_eq)

theorem mul_long_correct_witness:
  "meets any_alloc (AMultiplyLongInt two64 two64) (returns_int ((5 + 2 ^ 64) * (5 + 2 ^ 64)))"
  using mul_long_correct [OF two64(1) two64(1)] two64(2) by simp

text \<open>
  C18: In a run where no allocation fails, multiplying two short integers gives their product in
  normal form, except for products in the hole \<open>mul_wrong\<close> of the overflow test: negative products
  below the short range whose larger factor is a multiple of 2^29.
\<close>

theorem mul_short_correct:
  assumes "norm_int (AShort a)" "norm_int (AShort b)" "\<not> mul_wrong (short_val a) (short_val b)"
  shows "meets enough_mem (AMultiplyShortInt a b) (returns_int (short_val a * short_val b))"
  using assms by (intro meets_AMultiplyShortInt) auto

theorem mul_short_correct_witness:
  "meets enough_mem (AMultiplyShortInt (of_int (4 * 2305843009213693951)) (of_int (4 * - 3)))
     (returns_int (2305843009213693951 * - 3))"
proof -
  have v: "short_val 9223372036854775804 = 2305843009213693951" "short_val (- 12) = - 3"
    by (simp_all add: short_val_def)
  have "\<not> mul_wrong 2305843009213693951 (- 3)" by (simp add: mul_wrong_def mul_hole_def)
  then show ?thesis
    using mul_short_correct [of "of_int (4 * 2305843009213693951)" "of_int (4 * - 3)"] by (simp add: v)
qed

text \<open>
  In the hole of the overflow test the product of two short integers wraps: the product
  of -1610612736 and 1610612736 comes out positive.
\<close>

theorem mul_short_wraps:
  "fst (AMultiplyShortInt (of_int (4 * - 1610612736)) (of_int (4 * 1610612736)) t) =
     Inr (AShort (of_int (4 * (2 ^ 62 - 1610612736 * 1610612736))))
   \<and> (2 ^ 62 - 1610612736 * 1610612736 :: int) \<noteq> - 1610612736 * 1610612736"
  by code_simp

text \<open>
  When memory runs out in the multiplication of a long integer by a digit, the null pointer is taken
  for the product.
\<close>

theorem mul_short_out_of_memory:
  "fst (AMultiplyShortInt (of_int (4 * 2305843009213693951)) (of_int (4 * 3))
     \<lparr>allocs = [AllocBlock False [], AllocFail], tempStackPtr = 0\<rparr>) = Inl UndefinedBehaviour"
  by code_simp

section \<open>Negation\<close>

text \<open>
  C21: Negating a long integer gives the negated value in normal form, unless its two lowest
  digits are those of 2^61 and it has more digits: then the result is -2^61.
\<close>

theorem negate_exact:
  assumes "norm_int (ALong a)"
  shows "meets any_alloc (ANegateLongInt a) (returns_int
     (if negate_shortcut a \<and> 2 < li_len a then - (2 ^ 61) else - li_value a))"
  using meets_ANegateLongInt [OF assms] .

definition neg_bug :: longint where
  "neg_bug = \<lparr>li_len = 3, li_neg = False, li_newGen = False, li_cells = [0, 0x20000000, 5, 0]\<rparr>"

theorem negate_exact_witness:
  "norm_int (ALong neg_bug) \<and> li_value neg_bug = 5 * 2 ^ 64 + 2 ^ 61 \<and>
   meets any_alloc (ANegateLongInt neg_bug) (returns_int (- (2 ^ 61)))"
proof -
  have n: "norm_int (ALong neg_bug)" "li_value neg_bug = 5 * 2 ^ 64 + 2 ^ 61"
    by (simp_all add: neg_bug_def wf_li_def digits_def li_value_def fits_short_def capacity_eq)
  moreover have "negate_shortcut neg_bug" "li_len neg_bug = 3" by (simp_all add: negate_shortcut_def neg_bug_def SHORT_TOP_eq)
  ultimately show ?thesis using negate_exact [OF n(1)] by simp
qed

section \<open>Division of short integers\<close>

text \<open>
  Dividing two short integers raises an arithmetic error for a zero divisor; otherwise it
  gives the quotient rounded towards minus infinity and the remainder with the sign of the
  divisor, also for the one quotient that does not fit in a short integer.
\<close>

theorem div_short_correct:
  assumes "norm_int (AShort a)" "norm_int (AShort b)"
  shows "if short_val b = 0 then AIntDivMod a b t = (Inl ArithmeticError, t)
    else meets any_alloc (AIntDivMod a b)
      (\<lambda>(q, r). returns_int (short_val a div short_val b) q \<and>
                returns_int (short_val a mod short_val b) (AShort r))"
proof (cases "b = 0")
  case True
  then show ?thesis by (simp add: AIntDivMod_def raise_def short_val_def)
next
  case False
  then have "short_val b \<noteq> 0" using tagged_of_int [of b] assms(2) by auto
  moreover have "meets any_alloc (AIntDivMod a b) (returns_div (short_val a) (short_val b))"
    using assms False by (intro meets_AIntDivMod) auto
  ultimately show ?thesis by (simp add: returns_div_def [abs_def] case_prod_unfold)
qed

theorem div_short_correct_witness:
  "meets any_alloc (AIntDivMod (of_int (4 * - 7)) (of_int (4 * 2)))
     (\<lambda>(q, r). returns_int (- 4) q \<and> returns_int 1 (AShort r))"
  using div_short_correct [of "of_int (4 * - 7)" "of_int (4 * 2)"] by (simp add: short_val_def)

section \<open>Comparison and equality\<close>

text \<open>
  Two Int values compare equal exactly when they stand for the same integer; long integers
  are compared by their digits and a short value never equals a long one.
\<close>

theorem eq_int_correct:
  assumes "norm_int a" "norm_int b"
  shows "AIsEq_Int a b \<longleftrightarrow> int_value a = int_value b"
  using AIsEq_Int_value [OF assms] .

theorem eq_int_correct_witness: "AIsEq_Int (short 4) (short 4) \<and> \<not> AIsEq_Int (short 4) (short 5)"
  using eq_int_correct [of "short 4" "short 4"] eq_int_correct [of "short 4" "short 5"] by simp

section \<open>Conversions\<close>

text \<open>
  A C integer of 64 bits made into an Int value, short or long, reads back as the same C
  integer; reading an Int value outside the range of 64 bits raises a value error.
\<close>

theorem int64_roundtrip:
  assumes "norm_int v"
  shows "meets any_alloc (AMakeInt64 i) (\<lambda>v. returns_int (sint i) v \<and> AGetInt64 v = ret i) \<and>
    AGetInt64 v = (if - 9223372036854775808 \<le> int_value v \<and> int_value v < 9223372036854775808
      then ret (of_int (int_value v)) else raise (ValueError ''Out of range''))"
proof -
  have "AGetInt64 w = ret i" if "returns_int (sint i) w" for w
    using that AGetInt64_norm [of w] sint_bounds [of i] by (simp add: returns_int_def in_int64_def)
  then have "meets any_alloc (AMakeInt64 i) (\<lambda>v. returns_int (sint i) v \<and> AGetInt64 v = ret i)"
    using meets_AMakeInt64 [of any_alloc i] by (auto elim: meets_mono)
  then show ?thesis using AGetInt64_norm [OF assms] by (simp add: in_int64_def)
qed

theorem int64_roundtrip_witness:
  "AGetInt64 (ALong two64) = raise (ValueError ''Out of range'') \<and>
   meets any_alloc (AMakeInt64 (- 1)) (\<lambda>v. returns_int (- 1) v \<and> AGetInt64 v = ret (- 1))"
  using int64_roundtrip [OF two64(1), of "- 1"] two64(2) by simp

text \<open>The same for unsigned C integers of 64 bits.\<close>

theorem uint64_roundtrip:
  assumes "norm_int v"
  shows "meets any_alloc (AMakeIntU64 i) (\<lambda>v. returns_int (int (unat i)) v \<and> AGetIntU64 v = ret i) \<and>
    (AGetIntU64 v = ret (of_int (int_value v)) \<longleftrightarrow> 0 \<le> int_value v \<and> int_value v < 18446744073709551616)"
proof -
  have "AGetIntU64 w = ret i" if "returns_int (int (unat i)) w" for w
    using that AGetIntU64_norm [of w] unsigned_less [of i, where ?'a = int]
    by (simp add: returns_int_def in_uint64_def)
  then have "meets any_alloc (AMakeIntU64 i) (\<lambda>v. returns_int (int (unat i)) v \<and> AGetIntU64 v = ret i)"
    using meets_AMakeIntU64 [of any_alloc i] by (auto elim: meets_mono)
  moreover have "raise e \<noteq> ret x" for e and x :: "64 word" by (auto simp: raise_def ret_def fun_eq_iff)
  ultimately show ?thesis using AGetIntU64_norm [OF assms] by (simp add: in_uint64_def)
qed

theorem uint64_roundtrip_witness:
  "AGetIntU64 (short 7) = ret 7 \<and>
   meets any_alloc (AMakeIntU64 (- 1)) (\<lambda>v. returns_int 18446744073709551615 v \<and> AGetIntU64 v = ret (- 1))"
  using uint64_roundtrip [of "short 7" "- 1"] by (simp add: unsigned_minus_1_eq_mask mask_eq_exp_minus_1)

section \<open>Single digit operations\<close>

text \<open>
  Dividing a long integer block by one digit, as conversion to text does, and multiplying
  it by a digit and adding another, as conversion from text does, are inverse: they give
  quotient and remainder, and the value they came from.
\<close>

theorem single_digit_inverse:
  assumes "wf_li a" "2 \<le> li_len a" "m \<noteq> 0"
  shows "meets any_alloc (bindM (ADivModSingle a m) (\<lambda>(q, r). AMulAddSingle q m r))
     (\<lambda>p. digs_val (digits p) = digs_val (digits a) \<and> \<not> li_neg p)"
proof (rule meets_bind [OF meets_ADivModSingle])
  show "0 < unat m" using assms(3) by (simp add: unat_gt_0)
  fix x :: "longint \<times> digit" assume x: "case x of (q, r) \<Rightarrow> magnitude (digs_val (digits a) div unat m) q \<and>
        unat r = digs_val (digits a) mod unat m \<and> li_len q \<le> li_len a \<and> (2 \<le> li_len a \<longrightarrow> 1 \<le> li_len q)"
  obtain q r where qr: "x = (q, r)" by fastforce
  have "meets any_alloc (AMulAddSingle q m r)
     (\<lambda>p. magnitude (digs_val (digits q) * unat m + unat r) p \<and> 1 \<le> li_len p \<and> li_len p \<le> li_len q + 1)"
    using x qr assms(2) by (intro meets_AMulAddSingle) (auto simp: magnitude_def)
  moreover have "digs_val (digits q) * unat m + unat r = digs_val (digits a)"
    using x qr by (simp add: magnitude_def)
  ultimately show "meets any_alloc (case x of (q, r) \<Rightarrow> AMulAddSingle q m r)
      (\<lambda>p. digs_val (digits p) = digs_val (digits a) \<and> \<not> li_neg p)"
    unfolding qr by (auto simp: magnitude_def elim!: meets_mono)
qed (use assms in auto)

theorem single_digit_inverse_witness:
  "meets any_alloc (bindM (ADivModSingle two64 10) (\<lambda>(q, r). AMulAddSingle q 10 r))
     (\<lambda>p. digs_val (digits p) = digs_val (digits two64) \<and> \<not> li_neg p)"
  by (rule single_digit_inverse) (use two64(1) in \<open>auto simp: two64_def\<close>)

end
