(* ===== verification/Int_Text_Props.thy ===== *)
theory Int_Text_Props
  imports Int_Text_Lemmas Int_Props
begin

text \<open>
  The properties of the string conversions of Int values: printing and reading are inverse in any
  radix, and what the scanner accepts on every input.  Reading of decimal strings is the subject of
  \<^verbatim>\<open>Str_Int\<close>.
\<close>

section \<open>Decimal strings\<close>

lemma digit_not_blank: "AIsDigit ch \<Longrightarrow> \<not> is_blank ch \<and> ch \<noteq> 45 \<and> ch \<noteq> 43"
  by (auto simp: AIsDigit_def is_blank_def)

lemma int_text_signed:
  "int_text (signed_str 10 0 i) = (i < 0, num_str 10 (nat \<bar>i\<bar>), [])"
proof -
  let ?s = "num_str 10 (nat \<bar>i\<bar>)"
  have all: "list_all AIsDigit ?s" using dec_val_num_str by blast
  obtain ch s' where s: "?s = ch # s'" by (cases ?s) auto
  with all have ch: "\<not> is_blank ch" "ch \<noteq> 45" "ch \<noteq> 43" using digit_not_blank by auto
  have "takeWhile AIsDigit ?s = ?s" "dropWhile AIsDigit ?s = []" using takeWhile_split [OF all, of "[]"] by simp_all
  moreover have "read_sign (dropWhile is_blank (signed_str 10 0 i)) = (i < 0, ?s)"
    using ch s by (auto simp: signed_str_def read_sign_def is_blank_def)
  ultimately show ?thesis by (simp add: int_text_def)
qed

text \<open>Twenty nines, which do not fit a short integer.\<close>

definition nines :: "nat list" where
  "nines = [57, 57, 57, 57, 57, 57, 57, 57, 57, 57, 57, 57, 57, 57, 57, 57, 57, 57, 57, 57]"

lemma nines:
  "dec_val 0 nines = 99999999999999999999" "list_all AIsDigit nines" "nines \<noteq> []"
  by (simp_all add: nines_def AIsDigit_def)

lemma nines_then: "\<not> AIsDigit ch \<Longrightarrow> takeWhile AIsDigit (nines @ [ch]) = nines \<and> dropWhile AIsDigit (nines @ [ch]) = [ch]"
  using takeWhile_split [OF nines(2), of "[ch]"] by simp

text \<open>
  C40: The scanner's conversion.  Leading blanks and a sign that is followed by another character
  are skipped; without digits it raises ValueError.  Otherwise it returns the number, except that
  the minus sign of a number below \<open>-2^61\<close> is lost.  It stops behind the digits in every case, also
  when memory runs out.
\<close>

theorem scan_int_exact:
  assumes "scan_sign (dropWhile is_blank s) = (neg, s')" and "AStrToInt s t = (r, rest, t')"
  defines "ds \<equiv> takeWhile AIsDigit s'"
  shows "rest = dropWhile AIsDigit s' \<and> (case r of
       Inl e \<Rightarrow> (ds = [] \<and> e = ValueError '''') \<or> (ds \<noteq> [] \<and> e = MemoryError \<and> AllocFail \<in> set (allocs t))
     | Inr v \<Rightarrow> ds \<noteq> [] \<and> returns_int (if 2 ^ 61 < dec_val 0 ds then int (dec_val 0 ds) else with_sign neg (dec_val 0 ds)) v)"
proof -
  obtain m q big where sl: "short_loop 0 s' = (m, q, big)" by (metis prod_cases3)
  note C = short_loop_cases [OF sl, folded ds_def]
  show ?thesis
  proof (cases big)
    case True
    then obtain pre where pre: "ds = pre @ takeWhile AIsDigit q" "unat m = dec_val 0 pre" "unat m \<le> 2 ^ 61"
      "2 ^ 61 < dec_val 0 ds" "dropWhile AIsDigit q = dropWhile AIsDigit s'" using C(2) by auto
    then have v: "dec_val (unat m) (takeWhile AIsDigit q) = dec_val 0 ds" by (simp add: dec_val_append)
    have nz: "ds \<noteq> []" using pre(4) by auto
    have "meets any_alloc (bindM (ConvertLongInt m q) (\<lambda>li. ret (ALong li))) (returns_int (int (dec_val 0 ds)))"
    proof (rule meets_bind [OF meets_ConvertLongInt [OF pre(3)]], rule meets_ret)
      fix li assume "magnitude (dec_val (unat m) (takeWhile AIsDigit q)) li"
      then show "returns_int (int (dec_val 0 ds)) (ALong li)"
        using magnitude_norm [of "dec_val 0 ds" li False] pre(4) v by (simp add: with_sign_def)
    qed
    from meetsD [OF this, of t] have "outcome_ok (returns_int (int (dec_val 0 ds))) t (bindM (ConvertLongInt m q) (\<lambda>li. ret (ALong li)) t)"
      by (simp add: list_all_iff any_alloc_def)
    moreover have "AStrToInt s t = (case bindM (ConvertLongInt m q) (\<lambda>li. ret (ALong li)) t of
              (r, t) \<Rightarrow> (r, dropWhile AIsDigit q, t))" using assms(1) sl True by (simp add: AStrToInt_def)
    ultimately show ?thesis
      using assms(2) pre(4,5) nz by (auto simp: outcome_ok_def split: prod.splits sum.splits)
  next
    case False
    then have m: "unat m = dec_val 0 ds" "dec_val 0 ds \<le> 2 ^ 61" "q = dropWhile AIsDigit s'" using C(1) by auto
    have eq: "q = s' \<longleftrightarrow> ds = []"
      unfolding m ds_def by (cases s') (auto, metis length_Cons length_dropWhile_le not_less_eq_eq order_refl)
    have a: "AStrToInt s t = (if ds = [] then (Inl (ValueError ''''), q, t)
        else (case short_result neg m t of (r, t) \<Rightarrow> (r, q, t)))"
      using assms(1) sl False eq by (simp add: AStrToInt_def)
    have "outcome_ok (returns_int (with_sign neg (unat m))) t (short_result neg m t)"
      using m by (intro meetsD [OF meets_short_result, of m any_alloc]) (simp_all add: list_all_iff any_alloc_def)
    with a assms(2) m show ?thesis by (auto simp: outcome_ok_def split: prod.splits sum.splits if_splits)
  qed
qed

theorem scan_int_exact_witness:
  "\<exists>v t'. AStrToInt (45 # nines @ [59]) \<lparr>allocs = [], tempStackPtr = 0\<rparr> = (Inr v, [59], t')
     \<and> returns_int 99999999999999999999 v"
proof -
  let ?t = "\<lparr>allocs = [], tempStackPtr = 0\<rparr>"
  have "\<not> AIsDigit 59" by (simp add: AIsDigit_def)
  note d = nines_then [OF this]
  obtain x y where xy: "nines @ [59] = x # y" by (cases "nines @ [59]") auto
  have s: "scan_sign (dropWhile is_blank (45 # nines @ [59])) = (True, nines @ [59])"
    by (simp add: scan_sign_def is_blank_def xy)
  obtain r rest t' where e: "AStrToInt (45 # nines @ [59]) ?t = (r, rest, t')" by (metis prod_cases3)
  have "rest = [59]" using scan_int_exact [OF s e] d by simp
  moreover have "\<exists>v. r = Inr v \<and> returns_int 99999999999999999999 v"
    using scan_int_exact [OF s e] d nines by (cases r) auto
  ultimately show ?thesis using e by auto
qed

section \<open>Strings in any radix\<close>

lemma shortcut_value:
  assumes "norm_int (ALong li)" "negate_shortcut li" "2 < li_len li"
  shows "2 ^ 61 < digs_val (digits li)" "digs_val (digits li) mod 2 ^ 64 = 2 ^ 61"
proof -
  have w: "wf_li li" using assms(1) by simp
  then have "length (digits li) = li_len li" by simp
  with assms(3) obtain d0 d1 ds where d: "digits li = d0 # d1 # ds" "ds \<noteq> []"
    by (cases "digits li"; cases "tl (digits li)"; cases "tl (tl (digits li))") auto
  have c: "d0 = 0" "d1 = 0x20000000"
    using assms(2,3) d digits_cells [of 0 li] digits_cells [of 1 li] by (simp_all add: negate_shortcut_def SHORT_TOP_eq)
  have v: "digs_val (digits li) = 2 ^ 61 + 2 ^ 64 * digs_val ds" unfolding d c by simp
  have "last ds \<noteq> 0" using assms(1) d by simp
  then have "2 ^ (32 * (length ds - 1)) \<le> digs_val ds" using d(2) by (intro digs_val_top)
  then have "digs_val ds \<noteq> 0" by (metis not_numeral_le_zero power_not_zero le_zero_eq zero_neq_numeral)
  with v show "2 ^ 61 < digs_val (digits li)" by simp
  show "digs_val (digits li) mod 2 ^ 64 = 2 ^ 61" unfolding v by simp
qed

lemma neg_result_ok:
  assumes "returns_int (int n) v" "\<not> (2 ^ 61 < n \<and> n mod 2 ^ 64 = 2 ^ 61)"
  shows "neg_result v = - int n"
proof (cases v)
  case (AShort w)
  with assms(1) show ?thesis by (simp add: neg_result_def returns_int_def int_value_short del: int_value.simps)
next
  case (ALong li)
  then have li: "norm_int (ALong li)" "li_value li = int n" using assms(1) by (simp_all add: returns_int_def del: norm_int.simps)
  then have "digs_val (digits li) = n" by (simp add: li_value_def split: if_splits)
  then have "\<not> (negate_shortcut li \<and> 2 < li_len li)" using shortcut_value [OF li(1)] assms(2) by blast
  with ALong li(2) show ?thesis by (auto simp: neg_result_def)
qed

lemma AGetInt_small: "0 \<le> i \<Longrightarrow> i \<le> 36 \<Longrightarrow> AGetInt (short i) = ret (of_int i)"
proof -
  assume i: "0 \<le> i" "i \<le> 36"
  then have "AValueToInt (of_int (4 * i)) = of_int i" by (intro AValueToInt_tagged) (simp add: fits_short_def)
  moreover have "sint (of_int i :: 64 word) = i" using i by (intro sint_of_int_64) simp_all
  moreover have "ucast (of_int i :: 64 word) = (of_int i :: 32 word)"
    using i by (simp add: unsigned_of_int take_bit_int_eq_self)
  ultimately show ?thesis using i by (simp add: AGetInt_def Let_def)
qed

lemma meets_RadixInt:
  assumes r: "2 \<le> r" "r \<le> 36" and ds: "ds \<noteq> []" "list_all (\<lambda>ch. is_alnum ch \<and> the (radix_digit ch) < r) ds"
    and ok: "neg \<longrightarrow> \<not> (2 ^ 61 < radix_val r 0 ds \<and> radix_val r 0 ds mod 2 ^ 64 = 2 ^ 61)"
  defines "s \<equiv> (if neg then [45] else []) @ ds"
  assumes len: "length s < 2147483648" and mem: "\<not> Q AllocFail"
  shows "meets Q (RadixInt s (short (int r))) (returns_int (with_sign neg (radix_val r 0 ds)))"
proof -
  let ?w = "of_int (int r) :: 32 word" and ?j = "if neg then 1 else 0 :: nat"
  have w: "unat ?w = r" "sint ?w = int r"
    using r by (simp_all add: unsigned_of_nat take_bit_nat_eq_self_iff signed_of_nat signed_take_bit_int_eq_self)
  obtain ch ds' where c: "ds = ch # ds'" using ds(1) by (cases ds) auto
  have ch: "\<not> is_blank ch" "ch \<noteq> 45" using ds(2) c by (auto simp: is_alnum_def radix_digit_def is_blank_def AIsDigit_def split: if_splits)
  have s1: "blank_loop 0 s = ret (0, s)"
    using blank_loop_ok [of 0 s] len ch c by (auto simp: s_def is_blank_def)
  have s2: "(case s of ch # s' \<Rightarrow> if ch = 45 then next_ind 0 (\<lambda>i. ret (True, i, s')) else ret (False, 0, s)
      | [] \<Rightarrow> ret (False, 0, s)) = ret (neg, ?j, ds)"
    using ch(2) c by (auto simp: s_def next_ind_def)
  have al: "list_all is_alnum ds" using ds(2) by (simp add: list_all_iff)
  have tw: "takeWhile is_alnum ds = ds" "dropWhile is_alnum ds = []" using takeWhile_split [OF al, of "[]"] by simp_all
  have z: "returns_int (int 0) (AShort 0)" using returns_short [of 0 0] by (simp add: fits_short_def)
  have l: "?j + length ds < 2147483648" using len by (simp add: s_def split: if_splits)
  let ?F = "\<lambda>(i, v, s). if i = ?j then raise (ValueError ''Argument not number'')
       else bindM (blank_loop i s) (\<lambda>(_, s). if s \<noteq> [] then raise (ValueError ''Invalid character'')
          else if \<not> neg then ret v else ANeg_Int v)"
  have "meets Q (radix_loop r ?j (AShort 0) ds)
      (\<lambda>(i, x, rest). i = ?j + length ds \<and> returns_int (int (radix_val r 0 ds)) x \<and> rest = [])"
    using meets_radix_loop [where Q = Q, OF z _ l r mem] tw ds(2) by (simp add: list_all_iff)
  then have "meets Q (bindM (radix_loop r ?j (AShort 0) ds) ?F) (returns_int (with_sign neg (radix_val r 0 ds)))"
  proof (rule meets_bind, goal_cases)
    case (1 x)
    then obtain v where x: "x = (?j + length ds, v, [])" and v: "returns_int (int (radix_val r 0 ds)) v"
      by (cases x) auto
    have "meets Q (ANeg_Int v) (returns_int (- int (radix_val r 0 ds)))" if neg
      using meets_ANeg_Int [of v Q] neg_result_ok [OF v] ok that v by (simp add: returns_int_def)
    then show ?case
      unfolding x prod.case using ds(1) v by (auto simp: with_sign_def bind_ret intro: meets_ret)
  qed
  moreover have "RadixInt s (short (int r)) = bindM (ret ?w) (\<lambda>radix.
          if sint radix < 2 \<or> sint radix > 36 then raise (ValueError ''Invalid radix'')
          else bindM (radix_loop (unat radix) ?j (AShort 0) ds) ?F)"
    using AGetInt_small [of "int r"] r by (simp only: RadixInt_def s1 s2 bind_ret prod.case)
  ultimately show ?thesis using w r by (simp add: bind_ret)
qed

lemma AGetInt_fits:
  assumes "- (2 ^ 31) \<le> i" "i < 2 ^ 31"
  shows "AGetInt (short i) = ret (of_int i)" "sint (of_int i :: 32 word) = i"
proof -
  have "AValueToInt (of_int (4 * i)) = of_int i" using assms by (intro AValueToInt_tagged) (simp add: fits_short_def)
  moreover have "sint (of_int i :: 64 word) = i" using assms by (intro sint_of_int_64) simp_all
  moreover have "ucast (of_int i :: 64 word) = (of_int i :: 32 word)" by (rule bit_word_eqI) (simp add: bit_simps)
  ultimately show "AGetInt (short i) = ret (of_int i)" using assms by (simp add: AGetInt_def Let_def)
  show "sint (of_int i :: 32 word) = i" using assms by (simp add: signed_of_int signed_take_bit_int_eq_self)
qed

lemma signed_alnum:
  assumes "2 \<le> r" "r \<le> 36"
  shows "list_all (\<lambda>ch. is_alnum ch \<and> the (radix_digit ch) < r) (pad_zeros w (num_str r n))"
    "radix_val r 0 (pad_zeros w (num_str r n)) = n" "pad_zeros w (num_str r n) \<noteq> []"
proof -
  have "list_all (\<lambda>ch. is_alnum ch \<and> the (radix_digit ch) < r) (replicate k 48)" for k
    using assms by (induction k) (simp_all add: is_alnum_def radix_digit_def AIsDigit_def)
  then show "list_all (\<lambda>ch. is_alnum ch \<and> the (radix_digit ch) < r) (pad_zeros w (num_str r n))"
    using radix_val_num_str [OF assms] by (simp add: pad_zeros_def)
  show "radix_val r 0 (pad_zeros w (num_str r n)) = n"
    unfolding radix_val_pad using radix_val_num_str [OF assms, of 0] by simp
  show "pad_zeros w (num_str r n) \<noteq> []" by (simp add: pad_zeros_def)
qed

lemma meets_IntToStr:
  assumes v: "norm_int v" and r: "2 \<le> r" "r \<le> 36" and w: "- (2 ^ 31) \<le> w" "w < 2 ^ 31 - 1"
    and s: "is_long v \<or> \<bar>int_value v\<bar> < 2 ^ 31 \<and> w \<le> 100"
  shows "meets Q (IntToStr v (short (int r)) (Some (short w))) (\<lambda>x. x = signed_str r w (int_value v))"
proof -
  have ri: "AGetInt (short (int r)) = ret (of_int (int r))" "sint (of_int (int r) :: 32 word) = int r"
    using r by (intro AGetInt_fits; simp)+
  have ru: "unat (of_int (int r) :: 32 word) = r" using r by (simp add: unsigned_of_nat take_bit_nat_eq_self_iff)
  have wi: "AGetInt (short w) = ret (of_int w)" "sint (of_int w :: 32 word) = w" using w by (intro AGetInt_fits; simp)+
  show ?thesis
  proof (cases v)
    case (ALong li)
    then show ?thesis
      using meets_ALongIntToStr [of li r w Q] v r w
      by (simp add: IntToStr_def ri(1) [simplified] ri(2) [simplified] ru [simplified] wi(1) [simplified] wi(2) bind_ret)
  next
    case (AShort x)
    let ?i = "short_val x"
    have iv: "int_value v = ?i" by (simp add: AShort int_value_short del: int_value.simps)
    have b: "\<bar>?i\<bar> < 2 ^ 31" "w \<le> 100" using s AShort iv by auto
    have x: "AShort x = short ?i" using v AShort tagged_of_int [of x] by simp
    have xi: "AGetInt (AShort x) = ret (of_int ?i)" "sint (of_int ?i :: 32 word) = ?i"
      using AGetInt_fits [of ?i] b(1) x AShort by auto
    have nm: "(of_int ?i :: 32 word) \<noteq> - (2 ^ 31)"
    proof
      assume "(of_int ?i :: 32 word) = - (2 ^ 31)"
      then have "?i = sint (- (2 ^ 31) :: 32 word)" using xi(2) by simp
      also have "\<dots> = - (2 ^ 31)" by code_simp
      finally show False using b(1) by simp
    qed
    let ?n = "nat \<bar>?i\<bar>"
    have n31: "?n < 2 ^ 31" using b(1) by simp
    also have "\<dots> \<le> r ^ 31" using r(1) by (rule power_mono) simp
    finally have "?n < r ^ Suc 30" by simp
    then have len: "length (num_str r ?n) \<le> 31" using num_str_length [OF r(1), of ?n 30] by simp
    then have loop: "IntToStr_loop 101 r ?n [] = Inr (num_str r ?n)" using IntToStr_loop_ok [OF r, of ?n 101 "[]"] by simp
    have "length (pad_zeros w (num_str r ?n)) \<le> 100" using len b(2) by (simp add: pad_zeros_def)
    then have fit: "length (signed_str r w ?i) \<le> 101" by (cases "?i < 0") (simp_all add: signed_str_def)
    have "IntToStr v (short (int r)) (Some (short w)) = bindM next_alloc (\<lambda>_. ret (signed_str r w ?i))"
      unfolding IntToStr_def AShort ri wi bind_ret xi option.case aint.case ru
      using loop fit nm r by (cases "?i < 0") (simp_all add: signed_str_def)
    then show ?thesis unfolding iv by (auto intro!: meets_bind [OF meets_next_alloc] meets_ret)
  qed
qed

text \<open>The length of a printed integer.\<close>

lemma int_value_lt: "norm_int v \<Longrightarrow> nat \<bar>int_value v\<bar> < 2 ^ (32 * ndig v)"
proof (cases v)
  case (AShort w)
  have "\<bar>short_val w\<bar> < 18446744073709551616" using short_val_bounds [of w] by linarith
  then show ?thesis using AShort by (simp add: short_val_def [symmetric])
next
  case (ALong li)
  assume "norm_int v"
  then have "wf_li li" using ALong by simp
  then show ?thesis using ALong digs_val_less [of "digits li"] by (simp add: li_value_def)
qed

lemma num_str_ndig:
  assumes "norm_int v" "2 \<le> r" shows "length (num_str r (nat \<bar>int_value v\<bar>)) \<le> 32 * ndig v"
proof -
  have k: "Suc (32 * ndig v - 1) = 32 * ndig v" using assms(1) by (cases v) simp_all
  have "nat \<bar>int_value v\<bar> < 2 ^ (32 * ndig v)" by (rule int_value_lt [OF assms(1)])
  also have "\<dots> \<le> r ^ (32 * ndig v)" using assms(2) by (rule power_mono) simp
  finally show ?thesis using num_str_length [OF assms(2), of _ "32 * ndig v - 1"] k by simp
qed

lemma signed_str_length:
  assumes "norm_int v" "2 \<le> r" "w < 2 ^ 31 - 1" "ndig v < 2 ^ 26 \<or> \<bar>int_value v\<bar> < 2 ^ 31"
  shows "length (signed_str r w (int_value v)) < 2147483648"
proof -
  have "ndig v < 2 ^ 26"
    using assms(4)
  proof
    assume a: "\<bar>int_value v\<bar> < 2 ^ 31"
    then show ?thesis using assms(1) by (cases v) (auto simp: fits_short_def)
  qed
  then have "length (num_str r (nat \<bar>int_value v\<bar>)) < 2147483647"
    using num_str_ndig [OF assms(1,2)] by simp
  then show ?thesis using assms(3) by (auto simp: signed_str_def pad_zeros_def)
qed



text \<open>
  The limits of \<^verbatim>\<open>IntToStr\<close> for short integers: a value that does not fit a C \<^verbatim>\<open>int\<close> is refused with a
  ValueError although the language has no such limit, and a width above 101 writes in front of
  the buffer.
\<close>

theorem IntToStr_short_limits:
  "(2 ^ 31 \<le> i \<and> i < 2 ^ 61 \<longrightarrow> IntToStr (short i) (short 16) None = raise (ValueError ''Out of range'')) \<and>
   (101 < w \<and> w < 2 ^ 31 \<longrightarrow> IntToStr (short 1) (short 16) (Some (short w)) = raise UndefinedBehaviour)"
proof (intro conjI impI)
  have r: "AGetInt (short 16) = ret 16" "sint (16 :: 32 word) = 16" "unat (16 :: 32 word) = 16"
    using AGetInt_fits [of 16] by simp_all
  have o: "AGetInt (short 1) = ret 1" "sint (1 :: 32 word) = 1" using AGetInt_fits [of 1] by simp_all
  show "IntToStr (short i) (short 16) None = raise (ValueError ''Out of range'')" if that: "2 ^ 31 \<le> i \<and> i < 2 ^ 61"
  proof -
    have "AValueToInt (of_int (4 * i)) = of_int i" using that by (intro AValueToInt_tagged) (simp add: fits_short_def)
    moreover have "sint (of_int i :: 64 word) = i" using that by (intro sint_of_int_64) simp_all
    ultimately have "AGetInt (short i) = raise (ValueError ''Out of range'')" using that by (simp add: AGetInt_def Let_def)
    then show ?thesis
      unfolding IntToStr_def r bind_ret option.case aint.case by (simp add: bindM_def raise_def fun_eq_iff)
  qed
  show "IntToStr (short 1) (short 16) (Some (short w)) = raise UndefinedBehaviour" if that: "101 < w \<and> w < 2 ^ 31"
  proof -
    have w: "AGetInt (short w) = ret (of_int w)" "sint (of_int w :: 32 word) = w" using that by (intro AGetInt_fits; simp)+
    have "IntToStr_loop 101 16 1 [] = Inr (num_str 16 1)" by (subst IntToStr_loop_ok) (simp_all add: num_str_small)
    moreover have "length (pad_zeros w (num_str 16 1)) > 101" using that by (auto simp: pad_zeros_def num_str_small)
    ultimately show ?thesis
      unfolding IntToStr_def r o w bind_ret option.case aint.case by (simp add: Let_def)
  qed
qed

theorem IntToStr_short_limits_witness:
  "IntToStr (short (2 ^ 40)) (short 16) None = raise (ValueError ''Out of range'')"
  using IntToStr_short_limits [of "2 ^ 40" 0] by simp

end
