(* ===== verification/Str_Int.thy ===== *)
theory Str_Int
  imports Str_Lemmas Int_Text_Props
begin

text \<open>
  The constructor \<^verbatim>\<open>std::Int\<close> on a string of any representation (\<^verbatim>\<open>src/src/std_int.c\<close>): what it accepts
  and returns on every string, and that it inverts \<^verbatim>\<open>std::Str\<close>.
\<close>

section \<open>The constructor\<close>

text \<open>
  The part of a wide block from \<open>ind\<close> to \<open>end\<close> becomes a narrow string.  All indices are C \<^verbatim>\<open>int\<close>s; the
  difference of two of them that does not fit is undefined.
\<close>

definition AStdInt_Wide :: "astr \<Rightarrow> int \<Rightarrow> int \<Rightarrow> aint rt" where
  "AStdInt_Wide b ind end_ind =
     bindM (ACreateSubStr (Whole b) ind end_ind) (\<lambda>n.
       if end_ind - ind < - (2 ^ 31) \<or> 2 ^ 31 \<le> end_ind - ind then raise UndefinedBehaviour
       else bindM (WideToNarrow n) (\<lambda>n. TryConvert (str_elems n) 0 (end_ind - ind)))"

definition AStdInt_Str :: "strval \<Rightarrow> aint rt" where
  "AStdInt_Str v =
     (case v of
        Whole (ANarrow s) \<Rightarrow> TryConvert s 0 (c_int (int (length s)))
      | SubStr b i n \<Rightarrow>
          let ind = c_int (int i); end_ind = c_int (ind + int n)
          in (case b of ANarrow s \<Rightarrow> TryConvert s ind end_ind | AWide _ \<Rightarrow> AStdInt_Wide b ind end_ind)
      | Whole (AWide s) \<Rightarrow> AStdInt_Wide (AWide s) 0 (c_int (int (length s))))"

section \<open>Raising under conditions on the allocations\<close>

text \<open>The operation raises \<open>e\<close> in every run whose allocations meet \<open>Q\<close>, unless memory runs out.\<close>

definition raises :: "(alloc \<Rightarrow> bool) \<Rightarrow> aerror \<Rightarrow> 'a rt \<Rightarrow> bool" where
  "raises Q e m \<longleftrightarrow> (\<forall>t. list_all Q (allocs t) \<longrightarrow>
     fst (m t) = Inl e \<or> fst (m t) = Inl MemoryError \<and> AllocFail \<in> set (allocs t))"

lemma raises_raise: "raises Q e (raise e)"
  by (simp add: raises_def raise_def)

lemma raises_next:
  assumes m: "meets Q m P" and f: "\<And>x. P x \<Longrightarrow> raises Q e (f x)"
  shows "raises Q e (bindM m f)"
  unfolding raises_def
proof (intro allI impI)
  fix t :: athread assume t: "list_all Q (allocs t)"
  obtain r t' where mt: "m t = (r, t')" by fastforce
  have ok: "outcome_ok P t (r, t')" using meetsD [OF m t] mt by simp
  have sub: "set (allocs t') \<subseteq> set (allocs t)" using ok by (simp add: outcome_ok_def)
  then have t': "list_all Q (allocs t')" using t by (auto simp: list_all_iff)
  show "fst (bindM m f t) = Inl e \<or> fst (bindM m f t) = Inl MemoryError \<and> AllocFail \<in> set (allocs t)"
  proof (cases r)
    case (Inl x)
    then show ?thesis using ok mt by (simp add: bindM_def outcome_ok_def)
  next
    case (Inr x)
    then have "raises Q e (f x)" using ok f by (simp add: outcome_ok_def)
    then have "fst (f x t') = Inl e \<or> fst (f x t') = Inl MemoryError \<and> AllocFail \<in> set (allocs t')"
      using t' unfolding raises_def by blast
    then show ?thesis using mt Inr sub by (auto simp: bindM_def)
  qed
qed

lemma raises_first:
  assumes "raises Q e m" shows "raises Q e (bindM m f)"
  unfolding raises_def
proof (intro allI impI)
  fix t :: athread assume "list_all Q (allocs t)"
  then have "fst (m t) = Inl e \<or> fst (m t) = Inl MemoryError \<and> AllocFail \<in> set (allocs t)"
    using assms unfolding raises_def by blast
  then show "fst (bindM m f t) = Inl e \<or> fst (bindM m f t) = Inl MemoryError \<and> AllocFail \<in> set (allocs t)"
    by (cases "m t") (auto simp: bindM_def)
qed

section \<open>All representations\<close>

text \<open>What the conversion does with the characters, of a wide string or not.\<close>

definition int_result :: "(alloc \<Rightarrow> bool) \<Rightarrow> nat list \<Rightarrow> aint rt \<Rightarrow> bool" where
  "int_result Q s m \<longleftrightarrow>
     (case int_text s of (neg, ds, rest) \<Rightarrow>
        if ds = [] \<or> dec_val 0 ds \<le> 2 ^ 61 \<and> \<not> list_all is_blank rest
        then raises Q (ValueError ''Invalid string argument'') m
        else meets Q m (returns_int (with_sign neg (dec_val 0 ds))))"

lemma int_result_next:
  assumes "meets Q m P" and "\<And>x. P x \<Longrightarrow> int_result Q s (f x)"
  shows "int_result Q s (bindM m f)"
  using assms(2) unfolding int_result_def
  by (auto split: prod.splits if_splits intro!: raises_next [OF assms(1)] meets_bind [OF assms(1)])

lemma int_result_TryConvert:
  assumes "0 \<le> ind" "e \<le> int (length buf)" "take (nat (e - ind)) (drop (nat ind) buf) = s"
  shows "int_result Q s (TryConvert buf ind e)"
proof -
  obtain neg ds rest where p: "int_text s = (neg, ds, rest)" by (metis prod_cases3)
  note T = TryConvert_spec [OF assms(1,2), unfolded assms(3), OF p]
  show ?thesis
    using T(1) T(2) [of Q] raises_raise unfolding int_result_def p prod.case by (auto split: if_splits)
qed

lemma c_int_small: "0 \<le> i \<Longrightarrow> i < 2147483648 \<Longrightarrow> c_int i = i"
  unfolding c_int_def by (rule sint_small)

lemma wide_part:
  assumes b: "wf_block b" "AIsWideStr b" "i + n \<le> length (elems b)" "length (elems b) < 2147483648"
    and Q: "\<And>x. Q x \<Longrightarrow> no_gc x"
  shows "meets Q (ACreateSubStr (Whole b) (int i) (int (i + n)))
    (\<lambda>r. is_str (take n (drop i (elems b))) r \<and> is_wide r)"
proof -
  have "slice (int i) (int (i + n)) (elems b) = take n (drop i (elems b))"
    using b(3) by (simp add: slice_def Let_def)
  moreover have "meets Q (ACreateSubStr (Whole b) (int i) (int (i + n)))
      (\<lambda>r. is_str (slice (int i) (int (i + n)) (str_elems (Whole b))) r \<and> is_wide r = is_wide (Whole b))"
    using b Q by (intro meets_ACreateSubStr) (auto simp: sub_allocs_def)
  ultimately show ?thesis
    using b(2) by (simp add: str_elems_def str_ind_def is_wide_def)
qed

lemma int_result_Wide:
  assumes b: "wf_block b" "AIsWideStr b" "i + n \<le> length (elems b)" "length (elems b) < 2147483648"
    and Q: "\<And>x. Q x \<Longrightarrow> no_gc x"
  defines "s \<equiv> take n (drop i (elems b))"
  shows "if list_ex (\<lambda>c. 255 < c) s then raises Q (ValueError []) (AStdInt_Wide b (int i) (int (i + n)))
    else int_result Q s (AStdInt_Wide b (int i) (int (i + n)))"
proof -
  have W: "meets Q (ACreateSubStr (Whole b) (int i) (int (i + n))) (\<lambda>r. is_str s r \<and> is_wide r)"
    unfolding s_def by (rule wide_part [OF b]) (rule Q)
  have d: "int (i + n) - int i = int n" by simp
  have fits: "\<not> (int n < - (2 ^ 31) \<or> 2 ^ 31 \<le> int n)" using b(3,4) by simp
  have len: "length s = n" using b(3) by (simp add: s_def)
  show ?thesis
  proof (cases "list_ex (\<lambda>c. 255 < c) s")
    case True
    have narrow: "raises Q (ValueError []) (WideToNarrow r)" if "is_str s r" for r
      using True that raises_raise by (simp add: WideToNarrow_def is_str_def)
    have "raises Q (ValueError []) (AStdInt_Wide b (int i) (int (i + n)))"
      unfolding AStdInt_Wide_def d if_not_P [OF fits]
      by (rule raises_next [OF W], rule raises_first, rule narrow, erule conjunct1)
    then show ?thesis using True by simp
  next
    case False
    have conv: "int_result Q s (bindM (WideToNarrow r) (\<lambda>n'. TryConvert (str_elems n') 0 (int n)))" if r: "is_str s r" for r
    proof (rule int_result_next [OF meets_WideToNarrow])
      show "wf_str r" "\<not> list_ex (\<lambda>c. 255 < c) (str_elems r)" using r False by (simp_all add: is_str_def)
      fix x assume "is_str (str_elems r) x \<and> \<not> is_wide x"
      then show "int_result Q s (TryConvert (str_elems x) 0 (int n))"
        using r len by (intro int_result_TryConvert) (simp_all add: is_str_def)
    qed
    have "int_result Q s (AStdInt_Wide b (int i) (int (i + n)))"
      unfolding AStdInt_Wide_def d if_not_P [OF fits] by (rule int_result_next [OF W]) (use conv in blast)
    then show ?thesis using False by simp
  qed
qed

lemma int_result_Str:
  assumes v: "wf_str v" "length (elems (str_block v)) < 2147483648" and Q: "\<And>x. Q x \<Longrightarrow> sub_allocs v x"
  shows "if is_wide v \<and> list_ex (\<lambda>c. 255 < c) (str_elems v) then raises Q (ValueError []) (AStdInt_Str v)
    else int_result Q (str_elems v) (AStdInt_Str v)"
proof -
  have narrow: "int_result Q (take n (drop i s)) (TryConvert s (int i) (int (i + n)))" if "i + n \<le> length s" for s i n
    using that by (intro int_result_TryConvert) simp_all
  show ?thesis
  proof (cases v)
    case (Whole b)
    then have n: "c_int (int (length (elems b))) = int (0 + length (elems b))" using v by (simp add: c_int_small)
    show ?thesis
    proof (cases b)
      case (ANarrow s)
      then show ?thesis using narrow [of 0 "length s" s] n Whole
        by (simp add: AStdInt_Str_def is_wide_def str_elems_def str_ind_def)
    next
      case (AWide s)
      have "\<And>x. Q x \<Longrightarrow> no_gc x" using Q Whole AWide by (simp add: sub_allocs_def is_wide_def)
      from int_result_Wide [of b 0 "length s" Q, OF _ _ _ _ this] show ?thesis
        using v n Whole AWide by (simp add: AStdInt_Str_def is_wide_def str_elems_def str_ind_def cong: if_cong)
    qed
  next
    case (SubStr b i n)
    then have l: "i + n \<le> length (elems b)" "length (elems b) < 2147483648" using v by simp_all
    then have n: "c_int (int i) = int i" "c_int (int i + int n) = int (i + n)" by (simp_all add: c_int_small)
    show ?thesis
    proof (cases b)
      case (ANarrow s)
      then show ?thesis using narrow [of i n s] n l SubStr
        by (simp add: AStdInt_Str_def Let_def is_wide_def str_elems_def str_ind_def)
    next
      case (AWide s)
      have "\<And>x. Q x \<Longrightarrow> no_gc x" using Q SubStr AWide by (simp add: sub_allocs_def is_wide_def)
      from int_result_Wide [of b i n Q, OF _ _ _ _ this] show ?thesis
        using v n l SubStr AWide by (simp add: AStdInt_Str_def Let_def is_wide_def str_elems_def str_ind_def cong: if_cong)
    qed
  qed
qed

section \<open>Properties\<close>

text \<open>
  C39: What the constructor accepts, for a string of any representation whose block has less than 2^31
  characters.  The argument is cut into blanks, sign, digits and a rest.  A wide string with a
  character above 255 raises ValueError.  Without digits, or with a rest that is not blank behind a
  number of at most \<open>2^61\<close>, it raises ValueError too.  In all other cases it returns the number; in
  particular the rest is not looked at when the number is larger.  This holds in every run for narrow
  strings and in runs without a collection for wide ones, unless memory runs out.
\<close>

theorem int_of_string_exact:
  assumes "wf_str v" "length (elems (str_block v)) < 2 ^ 31" and "int_text (str_elems v) = (neg, ds, rest)"
  defines "Q \<equiv> if is_wide v then no_gc else any_alloc"
  shows "if is_wide v \<and> list_ex (\<lambda>c. 255 < c) (str_elems v) then raises Q (ValueError []) (AStdInt_Str v)
    else if ds = [] \<or> dec_val 0 ds \<le> 2 ^ 61 \<and> \<not> list_all is_blank rest
    then raises Q (ValueError ''Invalid string argument'') (AStdInt_Str v)
    else meets Q (AStdInt_Str v) (returns_int (with_sign neg (dec_val 0 ds)))"
proof -
  have "\<And>x. Q x \<Longrightarrow> sub_allocs v x" by (simp add: Q_def sub_allocs_def split: if_splits)
  from int_result_Str [OF assms(1) _ this] show ?thesis
    using assms(2) unfolding int_result_def assms(3) prod.case by simp
qed

theorem int_of_string_exact_witness:
  "meets any_alloc (AStdInt_Str (SubStr (ANarrow ([9, 57, 32, 45] @ nines @ [120])) 2 23)) (returns_int (- 99999999999999999999))
   \<and> meets no_gc (AStdInt_Str (Whole (AWide ([32, 45] @ nines @ [120])))) (returns_int (- 99999999999999999999))
   \<and> raises no_gc (ValueError []) (AStdInt_Str (Whole (AWide [49, 955])))"
proof (intro conjI)
  have "\<not> AIsDigit 120" by (simp add: AIsDigit_def)
  then have p: "int_text ([32, 45] @ nines @ [120]) = (True, nines, [120])"
    using nines_then by (simp add: int_text_def read_sign_def is_blank_def)
  have l: "length nines = 20" "list_all (\<lambda>c. c < 256) nines" "\<not> list_ex (\<lambda>c. 255 < c) nines" by (simp_all add: nines_def)
  let ?n = "SubStr (ANarrow ([9, 57, 32, 45] @ nines @ [120])) 2 23" and ?w = "Whole (AWide ([32, 45] @ nines @ [120]))"
  have e: "str_elems ?n = [32, 45] @ nines @ [120]" "str_elems ?w = [32, 45] @ nines @ [120]"
    by (simp_all add: str_elems_def str_ind_def l(1))
  have wf: "wf_str ?n" "wf_str ?w" using l(2) by (auto simp: wf_block_def l(1) list_all_iff)
  show "meets any_alloc (AStdInt_Str ?n) (returns_int (- 99999999999999999999))"
    using int_of_string_exact [OF wf(1)] p nines l(1) unfolding e by (simp add: is_wide_def with_sign_def)
  show "meets no_gc (AStdInt_Str ?w) (returns_int (- 99999999999999999999))"
    using int_of_string_exact [OF wf(2)] p nines l unfolding e by (simp add: is_wide_def with_sign_def)
  show "raises no_gc (ValueError []) (AStdInt_Str (Whole (AWide [49, 955])))"
    using int_of_string_exact [of "Whole (AWide [49, 955])" False "[49]" "[955]"]
    by (simp add: is_wide_def wf_block_def str_elems_def str_ind_def int_text_def is_blank_def read_sign_def AIsDigit_def)
qed

text \<open>
  C8: Reading what \<^verbatim>\<open>Str\<close> prints gives the integer back, for every Int value of less than 2^26 digits of 32
  bits: \<^verbatim>\<open>Int(Str(v))\<close> is \<open>v\<close> unless memory runs out.
\<close>

theorem str_int_roundtrip:
  assumes "norm_int v" "ndig v < 2 ^ 26"
  shows "meets any_alloc (bindM (AStdStr_Int v) (\<lambda>s. AStdInt_Str (Whole (ANarrow s)))) (returns_int (int_value v))"
proof (rule meets_bind [OF meets_AStdStr_Int [OF assms(1)]], clarify)
  let ?i = "int_value v" and ?s = "signed_str 10 0 (int_value v)"
  have d: "dec_val 0 (num_str 10 (nat \<bar>?i\<bar>)) = nat \<bar>?i\<bar>" using dec_val_num_str [of 0] by simp
  have w: "with_sign (?i < 0) (nat \<bar>?i\<bar>) = ?i" by (simp add: with_sign_def)
  have n: "num_str 10 (nat \<bar>?i\<bar>) \<noteq> []" by simp
  have "length ?s < 2147483648" using signed_str_length [OF assms(1), of 10 0] assms(2) by simp
  then have c: "AStdInt_Str (Whole (ANarrow ?s)) = TryConvert ?s 0 (int (length ?s))"
    by (simp add: AStdInt_Str_def c_int_small)
  have "int_result any_alloc ?s (TryConvert ?s 0 (int (length ?s)))" by (rule int_result_TryConvert) simp_all
  then show "meets any_alloc (AStdInt_Str (Whole (ANarrow ?s))) (returns_int ?i)"
    unfolding c int_result_def int_text_signed prod.case d w using n by simp
qed

theorem str_int_roundtrip_witness:
  "meets any_alloc (bindM (AStdStr_Int (ALong two64)) (\<lambda>s. AStdInt_Str (Whole (ANarrow s)))) (returns_int (- (5 + 2 ^ 64)))"
  using str_int_roundtrip [OF two64(1)] two64(2) by (simp add: two64_def)

end
