(* ===== verification/Str_Strip.thy ===== *)
theory Str_Strip
  imports Str_Method_Lemmas
begin

text \<open>Stripping white space from both ends of a string.\<close>

definition strip_chars :: "nat list \<Rightarrow> nat list" where
  "strip_chars xs = rev (dropWhile is_space (rev (dropWhile is_space xs)))"

lemma strip_left_value:
  assumes "wf_str str"
  shows "i \<le> AStrLen str \<Longrightarrow> strip_left str i = Inr (i + length (takeWhile is_space (drop i (str_elems str))))"
proof (induction "AStrLen str - i" arbitrary: i)
  case 0
  then show ?case using assms by (subst strip_left.simps) simp
next
  case (Suc d)
  then have i: "i < AStrLen str" by simp
  then have "drop i (str_elems str) = str_elems str ! i # drop (Suc i) (str_elems str)"
    using assms by (simp add: Cons_nth_drop_Suc)
  moreover have "strip_left str (Suc i) = Inr (Suc i + length (takeWhile is_space (drop (Suc i) (str_elems str))))"
    using Suc i by (intro Suc.hyps(1)) simp_all
  ultimately show ?case using i assms by (subst strip_left.simps) (simp add: AStrItem_nth)
qed

lemma strip_right_value:
  assumes "wf_str str"
  shows "i1 + n < AStrLen str \<Longrightarrow> \<exists>m\<le>n. strip_right str (int i1) (int (i1 + n)) = Inr (int (i1 + m)) \<and>
    (\<forall>k. m < k \<and> k \<le> n \<longrightarrow> is_space (str_elems str ! (i1 + k))) \<and> (m = 0 \<or> \<not> is_space (str_elems str ! (i1 + m)))"
proof (induction n)
  case 0
  then show ?case by (subst strip_right.simps) simp
next
  case (Suc n)
  have item: "AStrItem str (nat (int (i1 + Suc n))) = Inr (str_elems str ! (i1 + Suc n))"
    using assms Suc.prems by (simp add: AStrItem_nth nat_add_distrib)
  have step: "strip_right str (int i1) (int (i1 + Suc n)) =
      (if is_space (str_elems str ! (i1 + Suc n)) then strip_right str (int i1) (int (i1 + n)) else Inr (int (i1 + Suc n)))"
    by (subst strip_right.simps, subst item) simp
  show ?case
  proof (cases "is_space (str_elems str ! (i1 + Suc n))")
    case True
    obtain m where "m \<le> n" "strip_right str (int i1) (int (i1 + n)) = Inr (int (i1 + m))"
        "\<forall>k. m < k \<and> k \<le> n \<longrightarrow> is_space (str_elems str ! (i1 + k))" "m = 0 \<or> \<not> is_space (str_elems str ! (i1 + m))"
      using Suc by auto
    with True show ?thesis unfolding step by (auto simp: le_Suc_eq intro!: exI [of _ m])
  next
    case False
    then show ?thesis unfolding step by (auto intro!: exI [of _ "Suc n"])
  qed
qed

lemma strip_end:
  assumes "m < length ys" "\<forall>k. m < k \<and> k < length ys \<longrightarrow> is_space (ys ! k)" "\<not> is_space (ys ! m)"
  shows "rev (dropWhile is_space (rev ys)) = take (Suc m) ys"
proof -
  have sp: "\<forall>c \<in> set (rev (drop (Suc m) ys)). is_space c" using assms(2) by (auto simp: in_set_conv_nth)
  have "rev ys = rev (drop (Suc m) ys) @ ys ! m # rev (take m ys)"
    using assms(1) by (metis append_take_drop_id rev_append rev.simps(2) append.assoc append_Cons append_Nil take_Suc_conv_app_nth)
  then have "dropWhile is_space (rev ys) = ys ! m # rev (take m ys)"
    using sp assms(3) by (simp only: dropWhile_append2 [OF sp [rule_format]]) simp
  then show ?thesis using assms(1) by (simp add: take_Suc_conv_app_nth)
qed

lemma meets_AStrStrip:
  assumes wf: "wf_str str" "AStrLen str < 2147483648" "\<forall>x. Q x \<longrightarrow> sub_allocs str x"
  shows "meets Q (AStrStrip str) (is_str (strip_chars (str_elems str)))"
proof -
  let ?xs = "str_elems str"
  define i1 where "i1 = length (takeWhile is_space ?xs)"
  have ys: "dropWhile is_space ?xs = drop i1 ?xs" by (simp add: i1_def dropWhile_eq_drop)
  have i1: "i1 \<le> AStrLen str" using length_takeWhile_le [of is_space ?xs] wf(1) by (simp add: i1_def)
  have left: "strip_left str 0 = Inr i1" using strip_left_value [OF wf(1), of 0] by (simp add: i1_def)
  have sub: "meets Q (ACreateSubStr str (int i1) (int j)) (is_str (strip_chars ?xs))"
    if "take (j - i1) (drop i1 ?xs) = strip_chars ?xs" for j
    by (rule meets_mono [OF meets_ACreateSubStr [OF wf]]) (use that in \<open>simp add: slice_nat\<close>)
  show ?thesis
  proof (cases "i1 = AStrLen str")
    case True
    then have "strip_chars ?xs = []" using wf(1) unfolding strip_chars_def ys by simp
    moreover have "strip_right str (int i1) (int (AStrLen str) - 1) = Inr (int i1 - 1)"
      by (subst strip_right.simps) (use True in simp)
    ultimately show ?thesis using sub [of i1] left by (simp add: AStrStrip_def bind_ret)
  next
    case False
    define n where "n = AStrLen str - i1 - 1"
    have n: "i1 + n < AStrLen str" "int (AStrLen str) - 1 = int (i1 + n)" "length (drop i1 ?xs) = Suc n"
      using False i1 wf(1) by (auto simp: n_def)
    obtain m where m: "m \<le> n" "strip_right str (int i1) (int (i1 + n)) = Inr (int (i1 + m))"
        "\<forall>k. m < k \<and> k \<le> n \<longrightarrow> is_space (?xs ! (i1 + k))" "m = 0 \<or> \<not> is_space (?xs ! (i1 + m))"
      using strip_right_value [OF wf(1) n(1)] by auto
    have "\<not> is_space (?xs ! i1)" using nth_length_takeWhile [of is_space ?xs] False i1 wf(1) by (simp add: i1_def)
    then have "rev (dropWhile is_space (rev (drop i1 ?xs))) = take (Suc m) (drop i1 ?xs)"
      using m n wf(1) by (intro strip_end) (auto simp: less_Suc_eq_le)
    then have "take (i1 + Suc m - i1) (drop i1 ?xs) = strip_chars ?xs" by (simp add: strip_chars_def ys)
    then have "meets Q (ACreateSubStr str (int i1) (int (i1 + Suc m))) (is_str (strip_chars ?xs))" by (rule sub)
    moreover have "AStrStrip str = ACreateSubStr str (int i1) (int (i1 + Suc m))"
      unfolding AStrStrip_def left liftE_simps bind_ret n(2) m(2) by (simp add: add.commute)
    ultimately show ?thesis by simp
  qed
qed

text \<open>
  Stripping a string removes the spaces, tabs and line ends at both of its ends and nothing else;
  a string of white space only becomes empty.
\<close>

theorem strip_correct:
  assumes "wf_str str" "AStrLen str < 2 ^ 31"
  shows "meets (sub_allocs str) (AStrStrip str) (is_str (strip_chars (str_elems str)))"
  by (rule meets_AStrStrip) (use assms in simp_all)

theorem strip_correct_witness:
  "meets (sub_allocs (Whole (ANarrow [32, 9, 97, 32, 98, 10]))) (AStrStrip (Whole (ANarrow [32, 9, 97, 32, 98, 10])))
     (is_str [97, 32, 98])"
  using strip_correct [of "Whole (ANarrow [32, 9, 97, 32, 98, 10])"]
  by (simp add: wf_block_def strip_chars_def is_space_def)

end
