(* ===== verification/Bitop.thy ===== *)
theory Bitop
  imports Int_Text_Lemmas
begin

text \<open>
  Bitwise operations on Int values (\<^verbatim>\<open>src/src/bitop_module.c\<close>).  Long operands are written in two's
  complement to a buffer of digits, which is a string object; the operation works on the buffers
  and the result is turned back into a sign and a magnitude.
\<close>

section \<open>Buffers\<close>

definition DIGITS_IN_INT :: nat where
  "DIGITS_IN_INT = 2"

fun IntLen :: "aint \<Rightarrow> nat" where
  "IntLen (AShort _) = DIGITS_IN_INT"
| "IntLen (ALong li) = li_len li + 1"

text \<open>
  Two's complement negation.  The decrement stops at the first digit that is not zero; in a
  buffer of zeros it would run out of it.
\<close>

fun dec_loop :: "digit list \<Rightarrow> aerror + digit list" where
  "dec_loop [] = Inl UndefinedBehaviour"
| "dec_loop (d # ds) =
     (if d = 0 then (case dec_loop ds of Inl e \<Rightarrow> Inl e | Inr ds \<Rightarrow> Inr ((d - 1) # ds)) else Inr ((d - 1) # ds))"

definition NegateSign :: "digit list \<Rightarrow> aerror + digit list" where
  "NegateSign ds = (case dec_loop ds of Inl e \<Rightarrow> Inl e | Inr ds \<Rightarrow> Inr (map NOT ds))"

definition lift_err :: "aerror + 'a \<Rightarrow> 'a rt" where
  "lift_err r = (case r of Inl e \<Rightarrow> raise e | Inr x \<Rightarrow> ret x)"

definition GetLongIntDigits :: "aint \<Rightarrow> nat \<Rightarrow> digit list rt" where
  "GetLongIntDigits v n =
     bindM next_alloc
       (\<lambda>_. case v of
              AShort w \<Rightarrow>
                let ii = AValueToInt w
                in ret (map (\<lambda>i. ucast (signed_drop_bit (i * 32) ii AND MASK)) [0..<DIGITS_IN_INT]
                        @ replicate (n - DIGITS_IN_INT) (if sint w < 0 then - 1 else 0))
            | ALong li \<Rightarrow>
                let ds = digits li @ replicate (n - li_len li) 0
                in lift_err (if li_neg li then NegateSign ds else Inr ds))"

definition top_bit :: "digit list \<Rightarrow> bool" where
  "top_bit ds = (last ds AND push_bit 31 1 \<noteq> 0)"

definition MakeIntFromBinary :: "digit list \<Rightarrow> aint rt" where
  "MakeIntFromBinary ds =
     (let isNeg = top_bit ds
      in bindM (lift_err (if isNeg then NegateSign ds else Inr ds))
           (\<lambda>ds. bindM (CreateLongInt (length ds)) (\<lambda>(gc, li). ANormalize (put_digits ds li) isNeg)))"

section \<open>Operations\<close>

text \<open>The loop that \<^verbatim>\<open>And\<close>, \<^verbatim>\<open>Or\<close> and \<^verbatim>\<open>Xor\<close> share but for the operator.\<close>

definition binary_op :: "(digit \<Rightarrow> digit \<Rightarrow> digit) \<Rightarrow> aint \<Rightarrow> aint \<Rightarrow> aint rt" where
  "binary_op f a b =
     (let n = max (IntLen a) (IntLen b)
      in bindM (GetLongIntDigits a n)
           (\<lambda>x. bindM (GetLongIntDigits b n) (\<lambda>y. MakeIntFromBinary (map2 f x y))))"

fun BitopAnd :: "aint \<Rightarrow> aint \<Rightarrow> aint rt" where
  "BitopAnd (AShort a) (AShort b) = AMakeInt64 (AValueToInt a AND AValueToInt b)"
| "BitopAnd a b = binary_op (AND) a b"

fun BitopOr :: "aint \<Rightarrow> aint \<Rightarrow> aint rt" where
  "BitopOr (AShort a) (AShort b) = AMakeInt64 (AValueToInt a OR AValueToInt b)"
| "BitopOr a b = binary_op (OR) a b"

fun BitopXor :: "aint \<Rightarrow> aint \<Rightarrow> aint rt" where
  "BitopXor (AShort a) (AShort b) = AMakeInt64 (AValueToInt a XOR AValueToInt b)"
| "BitopXor a b = binary_op (XOR) a b"

fun BitopNeg :: "aint \<Rightarrow> aint rt" where
  "BitopNeg (AShort a) = AMakeInt64 (NOT (AValueToInt a))"
| "BitopNeg (ALong li) =
     bindM (GetLongIntDigits (ALong li) (IntLen (ALong li))) (\<lambda>x. MakeIntFromBinary (map NOT x))"

text \<open>The shift count.\<close>

definition IsShlOverflow :: "avalue \<Rightarrow> int \<Rightarrow> bool" where
  "IsShlOverflow i s = (s \<ge> 64 \<or> signed_drop_bit (nat s) (push_bit (nat s) i) \<noteq> i)"

definition shl_count :: "aint \<Rightarrow> int rt" where
  "shl_count m =
     (case m of
        AShort w \<Rightarrow> if sint (AValueToInt w) < 0 then raise (ValueError ''Negative shift count'') else ret (sint (AValueToInt w))
      | ALong li \<Rightarrow> if li_neg li then raise (ValueError ''Negative shift count'')
                     else bindM (AGetInt m) (\<lambda>i. ret (sint i)))"

text \<open>
  The loop over the digits of the result, whose digit is made from the digit at the same place
  and the one below (\<open>prev\<close>).  It runs from the top, where it has not yet overwritten them.
\<close>

fun shl_loop :: "nat \<Rightarrow> digit \<Rightarrow> digit list \<Rightarrow> digit list" where
  "shl_loop shift prev [] = []"
| "shl_loop shift prev (d # ds) =
     ucast ((ucast (push_bit shift d) AND MASK) OR drop_bit (32 - shift) (ucast prev :: ddigit)) # shl_loop shift d ds"

definition shl_digits :: "aint \<Rightarrow> nat \<Rightarrow> aint rt" where
  "shl_digits n shift =
     (let digitShift = shift div 32; len = IntLen n + digitShift
      in bindM (GetLongIntDigits n len)
           (\<lambda>ds. MakeIntFromBinary
              (replicate digitShift 0 @ shl_loop (shift mod 32) 0 (take (len - digitShift) ds))))"

definition BitopShl :: "aint \<Rightarrow> aint \<Rightarrow> aint rt" where
  "BitopShl n m =
     bindM (shl_count m)
       (\<lambda>shift. case n of
            AShort w \<Rightarrow>
              if \<not> IsShlOverflow w shift then ret (AShort (push_bit (nat shift) w)) else shl_digits n (nat shift)
          | ALong _ \<Rightarrow> shl_digits n (nat shift))"

text \<open>
  The loop to the right reads the digit at the same place and the one above; above the last
  digit are copies of the sign.
\<close>

fun shr_loop :: "nat \<Rightarrow> bool \<Rightarrow> digit list \<Rightarrow> digit list" where
  "shr_loop shift isNeg [] = []"
| "shr_loop shift isNeg (d # ds) =
     ucast ((ucast (drop_bit shift d) AND MASK) OR
            (case ds of
               d' # _ \<Rightarrow> push_bit (32 - shift) (ucast d' :: ddigit)
             | [] \<Rightarrow> if isNeg then push_bit (32 - shift) MASK else 0)) # shr_loop shift isNeg ds"

definition shr_digits :: "aint \<Rightarrow> nat \<Rightarrow> aint rt" where
  "shr_digits n shift =
     (let digitShift = shift div 32
      in bindM (GetLongIntDigits n (IntLen n))
           (\<lambda>ds. let isNeg = top_bit ds
                 in MakeIntFromBinary (shr_loop (shift mod 32) isNeg (drop digitShift ds)
                      @ replicate (min digitShift (length ds)) (if isNeg then - 1 else 0))))"

definition BitopShr :: "aint \<Rightarrow> aint \<Rightarrow> aint rt" where
  "BitopShr n m =
     (case m of
        ALong li \<Rightarrow> if li_neg li then raise (ValueError ''Negative shift count'') else ret (AShort 0)
      | AShort s \<Rightarrow>
          let shift = sint (AValueToInt s)
          in if shift < 0 then raise (ValueError ''Negative shift count'')
             else (case n of
                 AShort w \<Rightarrow>
                   if shift < 64 then ret (AShort (AIntToValue (signed_drop_bit (nat shift) (AValueToInt w))))
                   else shr_digits n (nat shift)
               | ALong _ \<Rightarrow> shr_digits n (nat shift)))"

end
