(* ===== verification/Bitop_Lemmas.thy ===== *)
theory Bitop_Lemmas
  imports Bitop Int_Text_Props
begin

text \<open>
  Two's complement buffers.  A buffer holds an integer when its digits are the low bits of the
  integer; the operations of \<open>Bitop\<close> are then the operations on integers, cut to the length
  of the buffer.
\<close>

section \<open>Digits as bits\<close>

lemma take_bit_digit: "take_bit 32 (uint (d :: digit)) = uint d"
  by (simp add: take_bit_int_eq_self uint_lt2p [where 'a = 32, simplified])

lemma digs_val_concat: "int (digs_val (d # ds)) = concat_bit 32 (uint d) (int (digs_val ds))"
  by (simp add: concat_bit_eq push_bit_eq_mult take_bit_digit)

lemmas digs_bits = digs_val_concat unsigned_and_eq unsigned_or_eq unsigned_xor_eq bit_eq_iff bit_simps

lemma digs_val_and:
  "length xs = length ys \<Longrightarrow> int (digs_val (map2 (AND) xs ys)) = int (digs_val xs) AND int (digs_val ys)"
  by (induction xs ys rule: list_induct2) (auto simp add: digs_bits simp del: digs_val.simps(2) of_nat_add)

lemma digs_val_or:
  "length xs = length ys \<Longrightarrow> int (digs_val (map2 (OR) xs ys)) = int (digs_val xs) OR int (digs_val ys)"
  by (induction xs ys rule: list_induct2) (auto simp add: digs_bits simp del: digs_val.simps(2) of_nat_add)

lemma digs_val_xor:
  "length xs = length ys \<Longrightarrow> int (digs_val (map2 (XOR) xs ys)) = int (digs_val xs) XOR int (digs_val ys)"
  by (induction xs ys rule: list_induct2) (auto simp add: digs_bits simp del: digs_val.simps(2) of_nat_add)

lemma uint_not_digit: "uint (NOT d) = 4294967295 - uint (d :: digit)"
  by (simp add: unsigned_not_eq take_bit_not_eq_mask_diff mask_eq_exp_minus_1 take_bit_digit)

lemma digs_val_not: "int (digs_val (map NOT ds)) = 2 ^ (32 * length ds) - 1 - int (digs_val ds)"
proof (induction ds)
  case (Cons d ds)
  have "int (digs_val (map NOT (d # ds))) = 4294967295 - uint d + 4294967296 * (2 ^ (32 * length ds) - 1 - int (digs_val ds))"
    using Cons by (simp add: uint_not_digit)
  then show ?case by (simp add: power_add)
qed simp

lemma uint_digit_minus_1: "uint (- 1 :: digit) = 4294967295"
  by (simp add: unsigned_minus_1_eq_mask mask_eq_exp_minus_1)

section \<open>Buffers that hold an integer\<close>

definition holds :: "nat \<Rightarrow> int \<Rightarrow> digit list \<Rightarrow> bool" where
  "holds n v ds \<longleftrightarrow> length ds = n \<and> int (digs_val ds) = take_bit (32 * n) v"

lemma holds_val: "holds (length ds) (int (digs_val ds)) ds"
  using digs_val_less_int [of ds] by (simp add: holds_def take_bit_int_eq_self)

lemma holds_and: "holds n v xs \<Longrightarrow> holds n w ys \<Longrightarrow> holds n (v AND w) (map2 (AND) xs ys)"
  by (simp add: holds_def digs_val_and)

lemma holds_or: "holds n v xs \<Longrightarrow> holds n w ys \<Longrightarrow> holds n (v OR w) (map2 (OR) xs ys)"
  by (simp add: holds_def digs_val_or)

lemma holds_xor: "holds n v xs \<Longrightarrow> holds n w ys \<Longrightarrow> holds n (v XOR w) (map2 (XOR) xs ys)"
  by (simp add: holds_def digs_val_xor)

lemma holds_not: "holds n v xs \<Longrightarrow> holds n (NOT v) (map NOT xs)"
  by (simp add: holds_def digs_val_not take_bit_not_eq_mask_diff mask_eq_exp_minus_1)

lemma holds_append:
  assumes "holds n v xs" and "holds k (drop_bit (32 * n) v) ys"
  shows "holds (n + k) v (xs @ ys)"
proof -
  have "take_bit (32 * (n + k)) v = take_bit (32 * n) v + 2 ^ (32 * n) * take_bit (32 * k) (drop_bit (32 * n) v)"
    using bits_ident [of "32 * n" "take_bit (32 * (n + k)) v"]
    by (simp add: drop_bit_take_bit push_bit_eq_mult algebra_simps min_def)
  with assms show ?thesis by (simp add: holds_def digs_val_append)
qed

lemma holds_sign: "holds k (if s then - 1 else 0) (replicate k (if s then - 1 else 0))"
proof -
  have "int (digs_val (replicate k (- 1))) = 2 ^ (32 * k) - 1"
    using digs_val_not [of "replicate k 0"] by simp
  then show ?thesis by (auto simp: holds_def mask_eq_exp_minus_1)
qed

lemma holds_take: assumes "holds n v ds" "k \<le> n" shows "holds k v (take k ds)"
proof -
  let ?x = "int (digs_val (take k ds))"
  have len: "length (take k ds) = k" using assms by (simp add: holds_def)
  have "int (digs_val ds) = ?x + 2 ^ (32 * k) * int (digs_val (drop k ds))"
    using digs_val_append [of "take k ds" "drop k ds"] len by simp
  then have "int (digs_val ds) mod 2 ^ (32 * k) = ?x mod 2 ^ (32 * k)" by simp
  moreover have "?x mod 2 ^ (32 * k) = ?x" using digs_val_less_int [of "take k ds"] len by (simp add: mod_pos_pos_trivial)
  moreover have "take_bit (32 * k) (int (digs_val ds)) = take_bit (32 * k) v"
    using assms by (simp add: holds_def take_bit_take_bit min_def)
  ultimately show ?thesis using len by (simp add: holds_def take_bit_eq_mod)
qed

text \<open>Negation.\<close>

lemma dec_loop_ok:
  "digs_val ds \<noteq> 0 \<Longrightarrow> \<exists>ds'. dec_loop ds = Inr ds' \<and> length ds' = length ds \<and> int (digs_val ds') = int (digs_val ds) - 1"
proof (induction ds)
  case (Cons d ds)
  show ?case
  proof (cases "d = 0")
    case True
    with Cons obtain ds' where "dec_loop ds = Inr ds'" "length ds' = length ds" "int (digs_val ds') = int (digs_val ds) - 1"
      by auto
    with True show ?thesis by (simp add: uint_digit_minus_1)
  next
    case False
    then have "int (unat (d - 1)) = int (unat d) - 1" by (simp add: unat_minus_one of_nat_diff unat_gt_0 Suc_le_eq)
    with False show ?thesis by simp
  qed
qed simp

lemma NegateSign_ok:
  assumes "digs_val ds \<noteq> 0"
  obtains ds' where "NegateSign ds = Inr ds'" "length ds' = length ds" "int (digs_val ds') = 2 ^ (32 * length ds) - int (digs_val ds)"
  using dec_loop_ok [OF assms] by (auto simp: NegateSign_def digs_val_not)

lemma holds_negate:
  assumes "holds n v ds" "digs_val ds \<noteq> 0"
  obtains ds' where "NegateSign ds = Inr ds'" "holds n (- v) ds'"
proof -
  obtain ds' where ds': "NegateSign ds = Inr ds'" "length ds' = length ds" "int (digs_val ds') = 2 ^ (32 * length ds) - int (digs_val ds)"
    using NegateSign_ok [OF assms(2)] .
  have "take_bit (32 * n) (- v) = take_bit (32 * n) (- int (digs_val ds))"
    using assms(1) by (simp add: holds_def take_bit_minus)
  also have "\<dots> = 2 ^ (32 * n) - int (digs_val ds)"
    using assms digs_val_less_int [of ds] by (intro take_bit_minus_small_eq) (auto simp: holds_def intro: less_imp_le)
  finally show ?thesis using ds' assms(1) that by (simp add: holds_def)
qed

section \<open>From Int values to buffers and back\<close>

lemma in_buffer_bounds:
  assumes "norm_int v" "IntLen v \<le> n"
  shows "- (2 ^ (32 * n - 1)) \<le> int_value v" "int_value v < 2 ^ (32 * n - 1)"
proof -
  have "\<bar>int_value v\<bar> < 2 ^ (32 * n - 1)"
  proof (cases v)
    case (AShort w)
    then have "63 \<le> 32 * n - 1" using assms(2) by (simp add: DIGITS_IN_INT_def)
    then have "(2 :: int) ^ 63 \<le> 2 ^ (32 * n - 1)" by (rule power_increasing) simp
    then show ?thesis using AShort short_val_bounds [of w] by (simp add: short_val_def)
  next
    case (ALong li)
    then have "32 * li_len li \<le> 32 * n - 1" using assms(2) by simp
    then have "(2 :: int) ^ (32 * li_len li) \<le> 2 ^ (32 * n - 1)" by (rule power_increasing) simp
    moreover have "length (digits li) = li_len li" using assms(1) ALong by simp
    moreover have "\<bar>li_value li\<bar> < 2 ^ (32 * length (digits li))"
      using digs_val_less_int [of "digits li"] unfolding li_value_def
      by (simp only: abs_minus_cancel abs_of_nat split: if_splits) simp
    ultimately show ?thesis unfolding ALong int_value.simps by (metis less_le_trans)
  qed
  then show "- (2 ^ (32 * n - 1)) \<le> int_value v" "int_value v < 2 ^ (32 * n - 1)" by simp_all
qed

lemma buffer_exact:
  "norm_int v \<Longrightarrow> IntLen v \<le> n \<Longrightarrow> signed_take_bit (32 * n - 1) (int_value v) = int_value v"
  using in_buffer_bounds by (simp add: signed_take_bit_int_eq_self)

lemma drop_bit_sign: "0 \<le> v \<Longrightarrow> v < 2 ^ k \<Longrightarrow> drop_bit k v = 0" "- (2 ^ k) \<le> v \<Longrightarrow> v < 0 \<Longrightarrow> drop_bit k v = - 1" for v :: int
proof -
  show "0 \<le> v \<Longrightarrow> v < 2 ^ k \<Longrightarrow> drop_bit k v = 0" by (simp add: drop_bit_eq_div)
  assume v: "- (2 ^ k) \<le> v" "v < 0"
  have "v div 2 ^ k = (v + 1 * 2 ^ k) div 2 ^ k - 1" by (subst div_mult_self1) simp_all
  also have "(v + 1 * 2 ^ k) div 2 ^ k = 0" using v by simp
  finally show "drop_bit k v = - 1" by (simp add: drop_bit_eq_div)
qed

lemma ucast_mask: "(ucast (x AND MASK) :: digit) = ucast (x :: ddigit)"
proof -
  have "x AND MASK = take_bit 32 x" by (simp add: take_bit_eq_mask mask_eq_exp_minus_1)
  then show ?thesis by (auto intro!: bit_word_eqI simp: bit_simps)
qed

lemma holds_short:
  assumes "2 \<le> n"
  shows "holds n (short_val w) (map (\<lambda>i. ucast (signed_drop_bit (i * 32) (AValueToInt w) AND MASK)) [0..<DIGITS_IN_INT]
           @ replicate (n - DIGITS_IN_INT) (if sint w < 0 then - 1 else 0))"
proof -
  let ?w = "AValueToInt w" and ?v = "short_val w"
  have m: "map (\<lambda>i. ucast (signed_drop_bit (i * 32) ?w AND MASK)) [0..<DIGITS_IN_INT]
           = [ucast (?w AND MASK), ucast (drop_bit 32 ?w) :: digit]"
    by (simp add: DIGITS_IN_INT_def upt_rec ucast_mask signed_high)
  have "uint ?w = take_bit 64 ?v"
    unfolding AValueToInt_of_int by (simp add: unsigned_of_int)
  then have two: "holds 2 ?v [ucast (?w AND MASK), ucast (drop_bit 32 ?w)]"
    unfolding holds_def digs_val_split by simp
  have s: "?v < 0 \<longleftrightarrow> sint w < 0" by (simp add: short_val_def pos_imp_zdiv_neg_iff)
  have "drop_bit 64 ?v = (if sint w < 0 then - 1 else 0)"
    unfolding s [symmetric] using short_val_bounds [of w] drop_bit_sign [where v = ?v and k = 64] by simp
  then have "holds (n - 2) (drop_bit (32 * 2) ?v) (replicate (n - 2) (if sint w < 0 then - 1 else 0))"
    by (simp add: holds_sign)
  from holds_append [OF two this] have "holds n ?v ([ucast (?w AND MASK), ucast (drop_bit 32 ?w)] @ replicate (n - 2) (if sint w < 0 then - 1 else 0))"
    unfolding le_add_diff_inverse [OF assms] .
  then show ?thesis unfolding m by (simp only: DIGITS_IN_INT_def)
qed

lemma meets_GetLongIntDigits:
  assumes v: "norm_int v" and n: "IntLen v \<le> n"
  shows "meets Q (GetLongIntDigits v n) (holds n (int_value v))"
proof (cases v)
  case (AShort w)
  have "2 \<le> n" using n AShort by (simp add: DIGITS_IN_INT_def)
  from holds_short [OF this] show ?thesis
    unfolding GetLongIntDigits_def AShort Let_def
    by (intro meets_bind [OF meets_next_alloc]) (simp only: aint.case int_value_short meets_ret)
next
  case (ALong li)
  have wf: "wf_li li" "length (digits li) = li_len li" using v ALong by simp_all
  let ?ds = "digits li @ replicate (n - li_len li) 0"
  have len: "length ?ds = n" using n ALong wf by simp
  have val: "digs_val ?ds = digs_val (digits li)" by (simp add: digs_val_append)
  have h: "holds n (int (digs_val (digits li))) ?ds" using holds_val [of ?ds] len val by simp
  have "meets Q (lift_err (if li_neg li then NegateSign ?ds else Inr ?ds)) (holds n (li_value li))"
  proof (cases "li_neg li")
    case True
    have "li_value li \<noteq> 0" using v ALong by (auto simp: norm_long_neg [symmetric] True fits_short_def li_value_def)
    then have "digs_val ?ds \<noteq> 0" by (auto simp: val li_value_def split: if_splits)
    then obtain ds' where "NegateSign ?ds = Inr ds'" "holds n (- int (digs_val (digits li))) ds'"
      using holds_negate [OF h] by blast
    then show ?thesis using True by (auto simp: lift_err_def li_value_def)
  qed (use h in \<open>auto simp: lift_err_def li_value_def\<close>)
  then show ?thesis
    unfolding GetLongIntDigits_def ALong Let_def by (intro meets_bind [OF meets_next_alloc]) simp
qed

lemma top_bit_holds: assumes "holds n v ds" "0 < n" shows "top_bit ds = bit v (32 * n - 1)"
proof -
  have "ds \<noteq> []" using assms by (auto simp: holds_def)
  then obtain xs d where ds: "ds = xs @ [d]" by (metis append_butlast_last_id)
  have n: "n = Suc (length xs)" using assms ds by (simp add: holds_def)
  have "int (digs_val ds) = concat_bit (32 * length xs) (int (digs_val xs)) (uint d)"
    using digs_val_less_int [of xs] by (simp add: ds digs_val_append concat_bit_eq push_bit_eq_mult take_bit_int_eq_self)
  then have "bit (int (digs_val ds)) (32 * n - 1) = bit d 31"
    by (simp add: n bit_concat_bit_iff bit_uint_iff)
  moreover have "top_bit ds = bit d 31"
    unfolding top_bit_def ds last_snoc bit_iff_and_push_bit_not_eq_0 ..
  ultimately show ?thesis using assms by (simp add: holds_def bit_take_bit_iff)
qed

lemma meets_MakeIntFromBinary:
  assumes h: "holds n v ds" and n: "2 \<le> n"
  shows "meets Q (MakeIntFromBinary ds) (returns_int (signed_take_bit (32 * n - 1) v))"
proof -
  let ?neg = "top_bit ds" and ?k = "32 * n - 1"
  have k: "Suc ?k = 32 * n" using n by simp
  have neg: "?neg = bit v ?k" using top_bit_holds [OF h] n by simp
  have len: "length ds = n" using h by (simp add: holds_def)
  obtain ds' where ds': "(if ?neg then NegateSign ds else Inr ds) = Inr ds'" "length ds' = n"
    "with_sign ?neg (digs_val ds') = signed_take_bit ?k v"
  proof (cases ?neg)
    case True
    have "digs_val ds \<noteq> 0"
    proof
      assume "digs_val ds = 0"
      then have "take_bit (32 * n) v = 0" using h by (simp add: holds_def)
      then have "\<not> bit (take_bit (32 * n) v) ?k" by simp
      then show False using True neg n by (simp add: bit_take_bit_iff)
    qed
    then obtain ds' where d: "NegateSign ds = Inr ds'" "length ds' = length ds" "int (digs_val ds') = 2 ^ (32 * length ds) - int (digs_val ds)"
      using NegateSign_ok by metis
    moreover have "signed_take_bit ?k v = take_bit (32 * n) v - 2 ^ (32 * n)"
      using signed_take_bit_eq_take_bit_minus [of ?k v] True neg unfolding k by simp
    ultimately have "with_sign ?neg (digs_val ds') = signed_take_bit ?k v"
      using h True by (simp add: with_sign_def holds_def)
    then show ?thesis using that d True len by simp
  next
    case False
    then have "signed_take_bit ?k v = take_bit (32 * n) v"
      using signed_take_bit_eq_take_bit_minus [of ?k v] neg unfolding k by simp
    then show ?thesis using that False h by (simp add: with_sign_def holds_def)
  qed
  show ?thesis
    unfolding MakeIntFromBinary_def Let_def ds'(1) lift_err_def sum.case bind_ret
  proof (rule meets_bind [OF meets_CreateLongInt], clarify)
    fix gc li assume "fresh (length ds') li"
    then have "fresh n li" using ds'(2) by simp
    from meets_normalize_new [OF this ds'(2) n, of Q ?neg] ds'(3)
    show "meets Q (ANormalize (put_digits ds' li) ?neg) (returns_int (signed_take_bit ?k v))" by simp
  qed
qed

section \<open>Bitwise operations\<close>

lemma signed_cut_and: "signed_take_bit k (v AND w) = signed_take_bit k v AND signed_take_bit k w" for v w :: int
  by (auto simp: bit_eq_iff bit_simps)

lemma signed_cut_or: "signed_take_bit k (v OR w) = signed_take_bit k v OR signed_take_bit k w" for v w :: int
  by (auto simp: bit_eq_iff bit_simps)

lemma signed_cut_xor: "signed_take_bit k (v XOR w) = signed_take_bit k v XOR signed_take_bit k w" for v w :: int
  by (auto simp: bit_eq_iff bit_simps)

lemma signed_cut_not: "signed_take_bit k (NOT v) = NOT (signed_take_bit k v)" for v :: int
  by (auto simp: bit_eq_iff bit_simps)

lemma IntLen_ge: "norm_int v \<Longrightarrow> 2 \<le> IntLen v"
  by (cases v) (simp_all add: DIGITS_IN_INT_def)

lemma meets_binary_op:
  assumes a: "norm_int a" and b: "norm_int b"
    and f: "\<And>n v w xs ys. holds n v xs \<Longrightarrow> holds n w ys \<Longrightarrow> holds n (g v w) (map2 f xs ys)"
    and g: "\<And>k v w. signed_take_bit k (g v w) = g (signed_take_bit k v) (signed_take_bit k w)"
  shows "meets Q (binary_op f a b) (returns_int (g (int_value a) (int_value b)))"
proof -
  let ?n = "max (IntLen a) (IntLen b)"
  have n: "IntLen a \<le> ?n" "IntLen b \<le> ?n" "2 \<le> ?n" using IntLen_ge [OF a] by auto
  have "signed_take_bit (32 * ?n - 1) (g (int_value a) (int_value b)) = g (int_value a) (int_value b)"
    by (simp add: g buffer_exact [OF a n(1)] buffer_exact [OF b n(2)] del: One_nat_def)
  then show ?thesis
    unfolding binary_op_def Let_def
    by (intro meets_bind [OF meets_GetLongIntDigits [OF a n(1)]] meets_bind [OF meets_GetLongIntDigits [OF b n(2)]])
      (metis meets_MakeIntFromBinary f n(3))
qed

lemma short_bitop:
  assumes "sint (f x y) = g (sint x) (sint y)" "x = AValueToInt a" "y = AValueToInt b"
  shows "meets Q (AMakeInt64 (f x y)) (returns_int (g (int_value (AShort a)) (int_value (AShort b))))"
  using meets_AMakeInt64 [of Q "f x y"] assms by (simp only: int_value_short sint_AValueToInt)

lemma meets_BitopAnd:
  assumes "norm_int a" "norm_int b"
  shows "meets Q (BitopAnd a b) (returns_int (int_value a AND int_value b))"
proof -
  have "meets Q (binary_op (AND) a b) (returns_int (int_value a AND int_value b))"
    by (rule meets_binary_op [where g = "(AND)", OF assms holds_and signed_cut_and])
  then show ?thesis
    by (cases a; cases b) (simp_all only: BitopAnd.simps short_bitop [where f = "(AND)" and g = "(AND)", OF signed_and_eq refl refl])
qed

lemma meets_BitopOr:
  assumes "norm_int a" "norm_int b"
  shows "meets Q (BitopOr a b) (returns_int (int_value a OR int_value b))"
proof -
  have "meets Q (binary_op (OR) a b) (returns_int (int_value a OR int_value b))"
    by (rule meets_binary_op [where g = "(OR)", OF assms holds_or signed_cut_or])
  then show ?thesis
    by (cases a; cases b) (simp_all only: BitopOr.simps short_bitop [where f = "(OR)" and g = "(OR)", OF signed_or_eq refl refl])
qed

lemma meets_BitopXor:
  assumes "norm_int a" "norm_int b"
  shows "meets Q (BitopXor a b) (returns_int (int_value a XOR int_value b))"
proof -
  have "meets Q (binary_op (XOR) a b) (returns_int (int_value a XOR int_value b))"
    by (rule meets_binary_op [where g = "(XOR)", OF assms holds_xor signed_cut_xor])
  then show ?thesis
    by (cases a; cases b) (simp_all only: BitopXor.simps short_bitop [where f = "(XOR)" and g = "(XOR)", OF signed_xor_eq refl refl])
qed

lemma meets_BitopNeg:
  assumes "norm_int a" shows "meets Q (BitopNeg a) (returns_int (NOT (int_value a)))"
proof (cases a)
  case (AShort w)
  have "sint (NOT (AValueToInt w)) = NOT (short_val w)"
    using short_val_bounds [of w]
    by (simp add: signed_not_eq sint_AValueToInt signed_cut_not signed_take_bit_int_eq_self)
  then show ?thesis using meets_AMakeInt64 [of Q "NOT (AValueToInt w)"] AShort by (simp add: short_val_def)
next
  case (ALong li)
  let ?n = "IntLen a"
  have "signed_take_bit (32 * ?n - 1) (NOT (int_value a)) = NOT (int_value a)"
    by (simp only: signed_cut_not buffer_exact [OF assms le_refl])
  then have "meets Q (MakeIntFromBinary (map NOT xs)) (returns_int (NOT (int_value a)))" if "holds ?n (int_value a) xs" for xs
    using meets_MakeIntFromBinary [OF holds_not [OF that] IntLen_ge [OF assms], of Q] by simp
  from meets_bind [OF meets_GetLongIntDigits [OF assms le_refl] this] show ?thesis
    unfolding ALong by simp
qed

section \<open>Shifts\<close>

lemma shl_digit:
  assumes "s < 32" "n < 32"
  shows "bit (ucast ((ucast (push_bit s d) AND MASK) OR drop_bit (32 - s) (ucast prev :: ddigit)) :: digit) n
         \<longleftrightarrow> s \<le> n \<and> bit (d :: digit) (n - s) \<or> bit (prev :: digit) (32 + n - s)"
proof -
  have "(ucast (push_bit s d) :: ddigit) AND MASK = take_bit 32 (ucast (push_bit s d))"
    by (simp add: take_bit_eq_mask mask_eq_exp_minus_1)
  moreover have "\<not> 32 + n - s < 32 \<Longrightarrow> \<not> bit prev (32 + n - s)"
    using bit_imp_le_length [of prev "32 + n - s"] by auto
  ultimately show ?thesis using assms by (auto simp: bit_simps)
qed

lemma shl_loop_val:
  assumes "s < 32"
  shows "int (digs_val (shl_loop s prev ds)) =
    take_bit (32 * length ds) (push_bit s (int (digs_val ds)) OR drop_bit (32 - s) (uint prev))"
proof (induction ds arbitrary: prev)
  case (Cons d ds)
  show ?case
    unfolding shl_loop.simps digs_val_concat Cons.IH
  proof (rule bit_eqI)
    fix n
    show "bit (concat_bit 32 (uint (ucast ((ucast (push_bit s d) AND MASK) OR drop_bit (32 - s) (ucast prev :: ddigit)) :: digit))
            (take_bit (32 * length ds) (push_bit s (int (digs_val ds)) OR drop_bit (32 - s) (uint d)))) n =
          bit (take_bit (32 * length (d # ds)) (push_bit s (concat_bit 32 (uint d) (int (digs_val ds))) OR drop_bit (32 - s) (uint prev))) n"
    proof (cases "n < 32")
      case True
      then show ?thesis
        using assms
        by (simp only: bit_concat_bit_iff bit_uint_iff shl_digit [OF assms True]) (auto simp: bit_simps)
    next
      case False
      have "\<not> bit prev (32 + n - s)" "bit d (n - s) \<Longrightarrow> n - s < 32" "n - (s + 32) = n - (32 + s)"
        using assms False bit_imp_le_length [of prev "32 + n - s"] bit_imp_le_length [of d "n - s"] by auto
      with False show ?thesis
        using assms by (auto simp: bit_concat_bit_iff bit_simps)
    qed
  qed
qed simp

lemma length_shl_loop [simp]: "length (shl_loop s prev ds) = length ds"
  by (induction s prev ds rule: shl_loop.induct) simp_all

lemma holds_shl: assumes "s < 32" "holds n v ds" shows "holds n (push_bit s v) (shl_loop s 0 ds)"
proof -
  have "int (digs_val (shl_loop s 0 ds)) = take_bit (32 * n) (push_bit s (take_bit (32 * n) v))"
    using shl_loop_val [OF assms(1), of 0 ds] assms(2) by (simp add: holds_def)
  also have "\<dots> = take_bit (32 * n) (push_bit s v)" by (rule bit_eqI) (auto simp: bit_simps)
  finally show ?thesis using assms(2) by (simp add: holds_def)
qed

lemma holds_zeros: "holds n v ds \<Longrightarrow> holds (k + n) (push_bit (32 * k) v) (replicate k 0 @ ds)"
proof (rule holds_append)
  show "holds k (push_bit (32 * k) v) (replicate k 0)" by (simp add: holds_def take_bit_push_bit)
  have "drop_bit (32 * k) (push_bit (32 * k) v) = v" by (rule bit_eqI) (auto simp: bit_simps)
  then show "holds n v ds \<Longrightarrow> holds n (drop_bit (32 * k) (push_bit (32 * k) v)) ds" by simp
qed

text \<open>What a left shift returns: the shifted integer, cut to the length of the operand.\<close>

definition shl_cut :: "aint \<Rightarrow> nat \<Rightarrow> int" where
  "shl_cut n s = signed_take_bit (32 * IntLen n - 1) (int_value n * 2 ^ (s mod 32)) * 2 ^ (32 * (s div 32))"

lemma signed_cut_push: "signed_take_bit (k + m) (push_bit m v) = push_bit m (signed_take_bit k v)" for v :: int
  by (rule bit_eqI) (auto simp: bit_simps min_def)

lemma meets_shl_digits:
  assumes "norm_int n" shows "meets Q (shl_digits n s) (returns_int (shl_cut n s))"
proof -
  let ?k = "s div 32" and ?n = "IntLen n" and ?s = "s mod 32"
  have len: "?k + ?n = ?n + ?k" "?n + ?k - ?k = ?n" by simp_all
  have n2: "2 \<le> ?k + ?n" and k: "32 * (?k + ?n) - 1 = 32 * ?n - 1 + 32 * ?k" using IntLen_ge [OF assms] by simp_all
  have "signed_take_bit (32 * (?k + ?n) - 1) (push_bit (32 * ?k) (push_bit ?s (int_value n))) = shl_cut n s"
    unfolding k signed_cut_push unfolding shl_cut_def push_bit_eq_mult ..
  then have "meets Q (MakeIntFromBinary (replicate ?k 0 @ shl_loop ?s 0 (take ?n ds))) (returns_int (shl_cut n s))"
    if "holds (?n + ?k) (int_value n) ds" for ds
    using meets_MakeIntFromBinary [OF holds_zeros [OF holds_shl [OF _ holds_take [OF that]]] n2, of ?s Q] by simp
  from meets_bind [OF meets_GetLongIntDigits [OF assms] this] show ?thesis
    by (simp add: shl_digits_def Let_def)
qed

lemma shr_digit:
  assumes "s < 32" "n < 32"
  shows "bit (ucast ((ucast (drop_bit s d) AND MASK) OR push_bit (32 - s) (nxt :: ddigit)) :: digit) n
         \<longleftrightarrow> bit (d :: digit) (n + s) \<or> 32 \<le> n + s \<and> bit nxt (n + s - 32)"
proof -
  have "(ucast (drop_bit s d) :: ddigit) AND MASK = take_bit 32 (ucast (drop_bit s d))"
    by (simp add: take_bit_eq_mask mask_eq_exp_minus_1)
  then show ?thesis using assms by (auto simp: bit_simps add.commute)
qed

abbreviation fill :: "bool \<Rightarrow> int" where
  "fill neg \<equiv> if neg then - 1 else 0"

text \<open>The digit above the first one of \<open>ds\<close>, and the value of all of them with the sign behind.\<close>

definition above :: "bool \<Rightarrow> digit list \<Rightarrow> digit" where
  "above neg ds = (case ds of d # _ \<Rightarrow> d | [] \<Rightarrow> if neg then - 1 else 0)"

definition extended :: "bool \<Rightarrow> digit list \<Rightarrow> int" where
  "extended neg ds = concat_bit (32 * length ds) (int (digs_val ds)) (fill neg)"

lemma extended_Cons: "extended neg (d # ds) = concat_bit 32 (uint d) (extended neg ds)"
  by (simp only: extended_def digs_val_concat) (rule bit_eqI, auto simp: bit_simps)

lemma bit_above: "n < 32 \<Longrightarrow> bit (extended neg ds) n = bit (above neg ds) n"
  by (cases ds) (simp_all add: above_def extended_Cons bit_concat_bit_iff bit_uint_iff, simp add: extended_def)

lemma shr_loop_above:
  "shr_loop s neg (d # ds) =
     ucast ((ucast (drop_bit s d) AND MASK) OR push_bit (32 - s) (ucast (above neg ds))) # shr_loop s neg ds"
proof -
  have "(ucast (- 1 :: digit) :: ddigit) = MASK" by (simp add: word_uint_eq_iff unsigned_ucast_eq uint_digit_minus_1)
  then show ?thesis by (cases ds) (simp_all add: above_def)
qed

lemma shr_loop_val:
  assumes "s < 32"
  shows "int (digs_val (shr_loop s neg ds)) = take_bit (32 * length ds) (drop_bit s (extended neg ds))"
proof (induction ds)
  case (Cons d ds)
  show ?case
    unfolding shr_loop_above digs_val_concat Cons.IH extended_Cons
  proof (rule bit_eqI)
    fix n
    show "bit (concat_bit 32 (uint (ucast ((ucast (drop_bit s d) AND MASK) OR push_bit (32 - s) (ucast (above neg ds) :: ddigit)) :: digit))
            (take_bit (32 * length ds) (drop_bit s (extended neg ds)))) n =
          bit (take_bit (32 * length (d # ds)) (drop_bit s (concat_bit 32 (uint d) (extended neg ds)))) n"
    proof (cases "n < 32")
      case True
      have "bit d (n + s) \<Longrightarrow> n + s < 32" using bit_imp_le_length [of d "n + s"] by simp
      moreover have "32 \<le> n + s \<Longrightarrow> bit (extended neg ds) (n + s - 32) = bit (above neg ds) (n + s - 32)"
        using True assms by (intro bit_above) simp
      ultimately show ?thesis
        using assms True
        by (simp only: bit_concat_bit_iff bit_uint_iff shr_digit [OF assms True]) (auto simp: bit_simps add.commute)
    next
      case False
      then show ?thesis by (auto simp: bit_concat_bit_iff bit_simps add.commute)
    qed
  qed
qed simp

lemma length_shr_loop [simp]: "length (shr_loop s neg ds) = length ds"
  by (induction s neg ds rule: shr_loop.induct) simp_all

lemma holds_drop: assumes "holds n v ds" shows "holds (n - k) (drop_bit (32 * k) v) (drop k ds)"
proof (cases "k \<le> n")
  case True
  let ?x = "take k ds" and ?y = "drop k ds"
  have len: "length ?x = k" "length ds = n" using assms True by (auto simp: holds_def)
  have "int (digs_val ds) = int (digs_val ?x) + 2 ^ (32 * k) * int (digs_val ?y)"
    using digs_val_append [of ?x ?y] len by simp
  then have "int (digs_val ds) div 2 ^ (32 * k) = int (digs_val ?y)"
    using digs_val_less_int [of ?x] len by simp
  moreover have "drop_bit (32 * k) (take_bit (32 * n) v) = take_bit (32 * (n - k)) (drop_bit (32 * k) v)"
    by (simp add: drop_bit_take_bit right_diff_distrib')
  ultimately show ?thesis using assms len by (simp add: holds_def drop_bit_eq_div [symmetric])
qed (use assms in \<open>simp add: holds_def\<close>)

lemma holds_shr:
  assumes s: "s < 32" and h: "holds n v ds" and neg: "drop_bit (32 * n) v = fill neg"
  shows "holds n (drop_bit s v) (shr_loop s neg ds)"
proof -
  have "extended neg ds = concat_bit (32 * n) v (drop_bit (32 * n) v)"
    using h neg by (simp add: extended_def holds_def concat_bit_take_bit_eq)
  also have "\<dots> = v" unfolding concat_bit_eq add.commute [of "take_bit _ _"] by (rule bits_ident)
  finally show ?thesis using shr_loop_val [OF s, of neg ds] h by (simp add: holds_def)
qed

lemma drop_bit_fill: "- (2 ^ k) \<le> v \<Longrightarrow> v < 2 ^ k \<Longrightarrow> k \<le> m \<Longrightarrow> drop_bit m v = fill (v < 0)" for v :: int
proof -
  assume v: "- (2 ^ k) \<le> v" "v < 2 ^ k" and km: "k \<le> m"
  have "(2 :: int) ^ k \<le> 2 ^ m" using km by (rule power_increasing) simp
  then have "- (2 ^ m) \<le> v" "v < 2 ^ m" using v by linarith+
  then show ?thesis using drop_bit_sign [where v = v and k = m] by (cases "v < 0") simp_all
qed

lemma signed_cut_drop: "signed_take_bit k (drop_bit s (signed_take_bit k v)) = drop_bit s (signed_take_bit k v)" for v :: int
  by (rule bit_eqI) (auto simp: bit_simps min_def)

lemma meets_shr_digits:
  assumes "norm_int n" shows "meets Q (shr_digits n s) (returns_int (drop_bit s (int_value n)))"
proof -
  let ?k = "s div 32" and ?n = "IntLen n" and ?s = "s mod 32" and ?v = "int_value n"
  let ?r = "drop_bit s ?v"
  note b = in_buffer_bounds [OF assms le_refl]
  have n2: "2 \<le> ?n" using IntLen_ge [OF assms] .
  have bit: "bit ?v (32 * ?n - 1) = (?v < 0)"
    using drop_bit_fill [OF b, of "32 * ?n - 1"] bit_iff_odd_drop_bit [of ?v "32 * ?n - 1"] by simp
  have r: "drop_bit ?s (drop_bit (32 * ?k) ?v) = ?r" by (simp only: drop_bit_drop_bit) simp
  have fit: "signed_take_bit (32 * ?n - 1) ?r = ?r"
    using signed_cut_drop [of "32 * ?n - 1" s ?v] unfolding buffer_exact [OF assms le_refl] .
  have "meets Q (MakeIntFromBinary (shr_loop ?s (top_bit ds) (drop ?k ds)
          @ replicate (min ?k (length ds)) (if top_bit ds then - 1 else 0))) (returns_int ?r)"
    if h: "holds ?n ?v ds" for ds
  proof -
    have top: "top_bit ds = (?v < 0)" using top_bit_holds [OF h] n2 bit by simp
    have f1: "drop_bit (32 * (?n - ?k)) (drop_bit (32 * ?k) ?v) = fill (?v < 0)"
      unfolding drop_bit_drop_bit by (rule drop_bit_fill [OF b]) (simp add: algebra_simps)
    have f2: "drop_bit (32 * (?n - ?k)) ?r = fill (?v < 0)"
      unfolding drop_bit_drop_bit by (rule drop_bit_fill [OF b]) linarith
    have h1: "holds (?n - ?k) ?r (shr_loop ?s (?v < 0) (drop ?k ds))"
      using holds_shr [OF _ holds_drop [OF h] f1, of ?s] r by simp
    have h2: "holds (min ?k ?n) (drop_bit (32 * (?n - ?k)) ?r) (replicate (min ?k ?n) (if ?v < 0 then - 1 else 0))"
      unfolding f2 by (rule holds_sign)
    have "?n - ?k + min ?k ?n = ?n" "length ds = ?n" using h by (auto simp: holds_def)
    with holds_append [OF h1 h2] have "holds ?n ?r (shr_loop ?s (?v < 0) (drop ?k ds) @ replicate (min ?k (length ds)) (if ?v < 0 then - 1 else 0))"
      by simp
    from meets_MakeIntFromBinary [OF this n2, of Q] show ?thesis unfolding top fit .
  qed
  from meets_bind [OF meets_GetLongIntDigits [OF assms le_refl] this] show ?thesis
    by (simp add: shr_digits_def Let_def)
qed

lemma div_bounds: "- B \<le> v \<Longrightarrow> v < B \<Longrightarrow> 0 < p \<Longrightarrow> - B \<le> v div p \<and> v div p < B" for v p B :: int
proof -
  assume v: "- B \<le> v" "v < B" and p: "0 < p"
  have "B * 1 \<le> B * p" by (rule mult_left_mono) (use v p in simp_all)
  then have "- B * p \<le> v" using v by linarith
  moreover have "(B - 1) * 1 \<le> (B - 1) * p" by (rule mult_left_mono) (use v p in simp_all)
  then have "v \<le> (B - 1) * p" using v by (simp only: mult_1_right)
  ultimately have "(- B * p) div p \<le> v div p" "v div p \<le> ((B - 1) * p) div p"
    using p by (blast intro: zdiv_mono1)+
  moreover have "(- B * p) div p = - B" using p by (intro nonzero_mult_div_cancel_right) simp
  ultimately show ?thesis using p by simp
qed

text \<open>A short integer that passes the test of the left shift.\<close>

lemma shl_short:
  assumes "\<not> IsShlOverflow w (int s)"
  shows "sint (push_bit s w) = sint w * 2 ^ s"
proof -
  let ?x = "sint (push_bit s w)"
  have "signed_drop_bit s (push_bit s w) = w" using assms by (simp add: IsShlOverflow_def)
  then have d: "drop_bit s ?x = sint w" by (metis sint_signed_drop_bit_eq)
  have "take_bit s ?x = 0"
    using assms by (auto simp: bit_eq_iff bit_simps IsShlOverflow_def min_def)
  then have "?x = push_bit s (drop_bit s ?x)" using bits_ident [of s ?x] by simp
  then show ?thesis unfolding d by (simp only: push_bit_eq_mult [of s "sint w"])
qed

lemma shl_cut_self:
  assumes "- (2 ^ (32 * IntLen n - 1)) \<le> int_value n * 2 ^ (s mod 32)" "int_value n * 2 ^ (s mod 32) < 2 ^ (32 * IntLen n - 1)"
  shows "shl_cut n s = int_value n * 2 ^ s"
proof -
  have "signed_take_bit (32 * IntLen n - 1) (int_value n * 2 ^ (s mod 32)) = int_value n * 2 ^ (s mod 32)"
    by (rule signed_take_bit_int_eq_self [OF assms])
  then have "shl_cut n s = int_value n * (2 ^ (s mod 32) * 2 ^ (32 * (s div 32)))" unfolding shl_cut_def by simp
  then show ?thesis by (simp only: power_add [symmetric] mod_mult_div_eq)
qed

lemma shl_returns_short:
  assumes w: "w AND 3 = 0" and ov: "\<not> IsShlOverflow w (int s)"
  shows "returns_int (shl_cut (AShort w) s) (AShort (push_bit s w))"
proof -
  let ?v = "short_val w"
  have x: "sint (push_bit s w) = 4 * (?v * 2 ^ s)" using shl_short [OF ov] tagged_sint [OF w] by simp
  then have b: "- 2305843009213693952 \<le> ?v * 2 ^ s" "?v * 2 ^ s < 2305843009213693952"
    using sint_bounds [of "push_bit s w"] by linarith+
  have split: "?v * 2 ^ s = ?v * 2 ^ (s mod 32) * 2 ^ (32 * (s div 32))"
    by (simp only: mult.assoc power_add [symmetric] mod_mult_div_eq)
  have "?v * 2 ^ (s mod 32) = (?v * 2 ^ s) div 2 ^ (32 * (s div 32))" unfolding split by simp
  then have "- 2305843009213693952 \<le> ?v * 2 ^ (s mod 32) \<and> ?v * 2 ^ (s mod 32) < 2305843009213693952"
    using div_bounds [OF b] by simp
  then have "shl_cut (AShort w) s = ?v * 2 ^ s"
    using shl_cut_self [of "AShort w" s] by (simp add: DIGITS_IN_INT_def short_val_def)
  moreover have "push_bit s w = of_int (4 * (?v * 2 ^ s))" unfolding x [symmetric] by simp
  ultimately show ?thesis using b by (simp add: returns_short fits_short_def)
qed

lemma shl_cut_long:
  assumes "norm_int n" "is_long n" shows "shl_cut n s = int_value n * 2 ^ s"
proof (rule shl_cut_self)
  obtain li where n: "n = ALong li" using assms(2) by (cases n) auto
  let ?k = "32 * li_len li" and ?p = "2 ^ (s mod 32) :: int"
  have len: "length (digits li) = li_len li" using assms n by simp
  have "\<bar>int_value n\<bar> < 2 ^ ?k"
    using digs_val_less_int [of "digits li"] unfolding n int_value.simps li_value_def len
    by (simp only: abs_minus_cancel abs_of_nat split: if_splits) simp
  moreover have "?p \<le> 2 ^ 31" by (rule power_increasing) (simp_all add: less_Suc_eq_le [symmetric])
  ultimately have "\<bar>int_value n\<bar> * ?p < 2 ^ ?k * 2 ^ 31" by (intro mult_less_le_imp_less) simp_all
  moreover have "32 * IntLen n - 1 = ?k + 31" by (simp add: n)
  ultimately have "\<bar>int_value n * ?p\<bar> < 2 ^ (32 * IntLen n - 1)"
    by (simp only: abs_mult power_add) simp
  then show "- (2 ^ (32 * IntLen n - 1)) \<le> int_value n * ?p" "int_value n * ?p < 2 ^ (32 * IntLen n - 1)" by simp_all
qed

end
