(* ===== verification/Bitop_Props.thy ===== *)
theory Bitop_Props
  imports Bitop_Lemmas
begin

text \<open>The properties of the bitwise operations.\<close>

text \<open>
  C9: \<^verbatim>\<open>And\<close>, \<^verbatim>\<open>Or\<close>, \<^verbatim>\<open>Xor\<close> and \<^verbatim>\<open>Neg\<close> are the bitwise operations on integers in two's complement of
  unbounded length, for every mix of short and long operands; the result is normalised.
\<close>

theorem bitop_correct:
  assumes "norm_int a" and "norm_int b"
  shows "meets any_alloc (BitopAnd a b) (returns_int (int_value a AND int_value b)) \<and>
         meets any_alloc (BitopOr a b) (returns_int (int_value a OR int_value b)) \<and>
         meets any_alloc (BitopXor a b) (returns_int (int_value a XOR int_value b)) \<and>
         meets any_alloc (BitopNeg a) (returns_int (- int_value a - 1))"
  using meets_BitopAnd [OF assms] meets_BitopOr [OF assms] meets_BitopXor [OF assms] meets_BitopNeg [OF assms(1)]
  by (simp add: not_eq_complement)

theorem bitop_correct_witness:
  "meets any_alloc (BitopXor (ALong two64) (AShort 12)) (returns_int (- (5 + 2 ^ 64) XOR 3)) \<and>
   meets any_alloc (BitopNeg (ALong two64)) (returns_int (4 + 2 ^ 64))"
proof -
  have "norm_int (AShort 12)" by simp
  from bitop_correct [OF two64(1) this] show ?thesis using two64(2) by simp
qed

text \<open>
  C36: \<^verbatim>\<open>Shr\<close> divides by the power of two and rounds down.  A negative count raises ValueError.  A
  count that is a long integer gives zero, also when the operand is negative.
\<close>

theorem shr_exact:
  assumes "norm_int n" and "norm_int m"
  shows "if int_value m < 0 then BitopShr n m = raise (ValueError ''Negative shift count'')
         else if is_long m then BitopShr n m = ret (AShort 0)
         else meets any_alloc (BitopShr n m) (returns_int (int_value n div 2 ^ nat (int_value m)))"
proof (cases m)
  case (ALong li)
  then show ?thesis using assms norm_long_neg [of li] by (simp add: BitopShr_def)
next
  case (AShort s)
  let ?s = "short_val s"
  have m: "int_value m = ?s" "sint (AValueToInt s) = ?s" using AShort by (simp_all add: int_value_short sint_AValueToInt del: int_value.simps)
  have digits: "meets any_alloc (shr_digits n (nat ?s)) (returns_int (int_value n div 2 ^ nat ?s))"
    using meets_shr_digits [OF assms(1)] by (simp add: drop_bit_eq_div)
  show ?thesis
  proof (cases n)
    case (AShort w)
    let ?v = "short_val w" and ?r = "signed_drop_bit (nat ?s) (AValueToInt w)"
    have r: "sint ?r = ?v div 2 ^ nat ?s" by (simp add: sint_signed_drop_bit_eq sint_AValueToInt drop_bit_eq_div)
    have "- 2305843009213693952 \<le> ?v div 2 ^ nat ?s" "?v div 2 ^ nat ?s < 2305843009213693952"
      using div_bounds [OF short_val_bounds] by simp_all
    then have "returns_int (?v div 2 ^ nat ?s) (AShort (AIntToValue ?r))"
      using AIntToValue_returns [of ?r] r by (simp add: fits_short_def)
    then show ?thesis
      using digits \<open>m = AShort s\<close> m AShort by (auto simp: BitopShr_def Let_def int_value_short simp del: int_value.simps)
  next
    case (ALong li)
    then show ?thesis using digits \<open>m = AShort s\<close> m by (simp add: BitopShr_def)
  qed
qed

theorem shr_exact_witness:
  "meets any_alloc (BitopShr (ALong two64) (AShort 256)) (returns_int (- 2)) \<and>
   BitopShr (ALong two64) (AShort (- 4)) = raise (ValueError ''Negative shift count'')"
proof -
  have "norm_int (AShort 256)" "norm_int (AShort (- 4))" by simp_all
  from shr_exact [OF two64(1) this(1)] shr_exact [OF two64(1) this(2)] show ?thesis using two64(2) by simp
qed

text \<open>
  C37: \<^verbatim>\<open>Shl\<close> multiplies by the power of two when the operand is a long integer.  A short operand
  that leaves the range of short integers is shifted within 64 bits by the count modulo 32 before
  the whole digits are added: bits above are lost, and shifting \<open>2^60\<close> by eight gives zero.  A
  negative count and a count that is a long integer raise ValueError.
\<close>

theorem shl_exact:
  assumes "norm_int n" and "norm_int m"
  shows "if int_value m < 0 then BitopShl n m = raise (ValueError ''Negative shift count'')
         else if is_long m then BitopShl n m = raise (ValueError ''Out of range'')
         else meets any_alloc (BitopShl n m)
                (returns_int
                   (let s = nat (int_value m)
                    in if is_long n then int_value n * 2 ^ s
                       else signed_take_bit 63 (int_value n * 2 ^ (s mod 32)) * 2 ^ (32 * (s div 32))))"
proof (cases m)
  case (ALong li)
  then show ?thesis using assms norm_long_neg [of li] by (auto simp: BitopShl_def shl_count_def AGetInt_def bindM_def raise_def)
next
  case (AShort s)
  let ?s = "short_val s"
  have m: "int_value m = ?s" "sint (AValueToInt s) = ?s" using AShort by (simp_all add: int_value_short sint_AValueToInt del: int_value.simps)
  have cut: "shl_cut n k = (if is_long n then int_value n * 2 ^ k else signed_take_bit 63 (int_value n * 2 ^ (k mod 32)) * 2 ^ (32 * (k div 32)))" for k
    using shl_cut_long [OF assms(1)] by (cases n) (simp_all add: shl_cut_def DIGITS_IN_INT_def)
  have "meets any_alloc (case n of AShort w \<Rightarrow> if \<not> IsShlOverflow w ?s then ret (AShort (push_bit (nat ?s) w)) else shl_digits n (nat ?s)
          | ALong _ \<Rightarrow> shl_digits n (nat ?s)) (returns_int (shl_cut n (nat ?s)))" if "0 \<le> ?s"
    using meets_shl_digits [OF assms(1), of any_alloc "nat ?s"] shl_returns_short [of _ "nat ?s"] assms(1) that
    by (cases n) auto
  then show ?thesis using AShort m by (auto simp: BitopShl_def shl_count_def bind_ret cut Let_def bindM_def raise_def)
qed

theorem shl_exact_witness:
  "meets any_alloc (BitopShl (ALong two64) (AShort 16)) (returns_int (- (80 + 2 ^ 68))) \<and>
   meets any_alloc (BitopShl (AShort (2 ^ 62)) (AShort 32)) (returns_int 0)"
proof -
  have "norm_int (AShort 16)" "norm_int (AShort 32)" "norm_int (AShort (2 ^ 62))" by simp_all
  from shl_exact [OF two64(1) this(1)] shl_exact [OF this(3,2)] show ?thesis using two64(2) by (simp add: Let_def)
qed

end
