(* ===== verification/Long_Div.thy ===== *)
theory Long_Div
  imports Int_Arith_Lemmas
begin

text \<open>
  Division and powers of arbitrary precision integers (\<^verbatim>\<open>src/src/std_int_long.c\<close>) and the
  operators \<^verbatim>\<open>div\<close>, \<^verbatim>\<open>mod\<close> and \<^verbatim>\<open>**\<close> of \<^verbatim>\<open>src/src/aloreapi.c\<close> on Int operands.  Digit lists
  are little endian; the loops that run from the most significant digit take reversed lists.
\<close>

section \<open>Shifting digit strings\<close>

text \<open>
  The digits \<^verbatim>\<open>srcLen - 2\<close> down to 0 are shifted in below the carry; the digits written from
  the top down and the last carry are returned.
\<close>

fun lshift_loop :: "nat \<Rightarrow> ddigit \<Rightarrow> digit list \<Rightarrow> digit list \<times> ddigit" where
  "lshift_loop bitShift carry [] = ([], carry)"
| "lshift_loop bitShift carry (x # xs) =
     (let carry = push_bit 32 carry OR push_bit bitShift (ucast x);
          (ds, c) = lshift_loop bitShift carry xs
      in (ucast (drop_bit 32 carry) # ds, c))"

text \<open>\<open>dst\<close> is the old contents of the destination block.\<close>

definition Shl :: "digit list \<Rightarrow> digit list \<Rightarrow> nat \<Rightarrow> digit list" where
  "Shl src dst shift =
     (let wordShift = shift div 32; bitShift = shift mod 32;
          srcLen = length src;
          carry = push_bit bitShift (ucast (last src));
          (dst, dstLen) =
            (if carry > MASK
             then (dst[srcLen + wordShift := ucast (drop_bit 32 carry)], srcLen + wordShift + 1)
             else (dst, srcLen + wordShift));
          (ds, carry) = lshift_loop bitShift carry (tl (rev src));
          dst = replicate wordShift 0 @ ucast (carry AND MASK) # rev ds
                  @ drop (srcLen + wordShift) dst
      in if dstLen < length dst then dst[dstLen := 0] else dst)"

fun rshift_loop :: "nat \<Rightarrow> ddigit \<Rightarrow> digit list \<Rightarrow> digit list \<times> ddigit" where
  "rshift_loop bitShift carry [] = ([], carry)"
| "rshift_loop bitShift carry (x # xs) =
     (let carry = carry OR push_bit (32 - bitShift) (ucast x);
          (ds, c) = rshift_loop bitShift (drop_bit 32 carry) xs
      in (ucast (carry AND MASK) # ds, c))"

definition Shr :: "digit list \<Rightarrow> digit list \<Rightarrow> nat \<Rightarrow> digit list" where
  "Shr src dst shift =
     (let wordShift = shift div 32; bitShift = shift mod 32;
          dstLen = length src - wordShift;
          (ds, carry) = rshift_loop bitShift (drop_bit bitShift (ucast (src ! wordShift)))
                          (drop (wordShift + 1) src)
      in ds @ (if carry > 0 then ucast carry else 0) # drop dstLen dst)"

section \<open>Long division\<close>

text \<open>How far the divisor must be shifted left to set the top bit of its top digit.\<close>

function norm_shift :: "ddigit \<Rightarrow> nat \<Rightarrow> digit \<Rightarrow> nat" where
  "norm_shift i shift hi =
     (if ucast hi < i then norm_shift (drop_bit 1 i) (shift + 1) hi else shift)"
  by auto

lemma half_less: "x < i \<Longrightarrow> unat (drop_bit (Suc 0) (i :: ddigit)) < unat i"
  by (simp add: drop_bit_eq_div unat_div_distrib word_less_nat_alt)

termination norm_shift
  by (relation "measure (\<lambda>(i, _, _). unat i)") (auto intro: half_less)

text \<open>The first estimate of a digit of the quotient, and its correction.\<close>

definition estimate :: "ddigit \<Rightarrow> digit \<Rightarrow> digit \<Rightarrow> ddigit" where
  "estimate aHi a1 bTop =
     (if aHi = ucast bTop then MASK else (push_bit 32 aHi + ucast a1) div ucast bTop)"

function correct :: "ddigit \<Rightarrow> digit \<Rightarrow> digit \<Rightarrow> digit \<Rightarrow> digit \<Rightarrow> ddigit \<Rightarrow> ddigit" where
  "correct aHi a1 a2 bTop bDig2 q =
     (let t = push_bit 32 aHi + ucast a1 - q * ucast bTop
      in if t > MASK \<or> ucast bDig2 * q \<le> push_bit 32 t + ucast a2 then q
         else correct aHi a1 a2 bTop bDig2 (q - 1))"
  by auto

lemma pred_less: "q \<noteq> 0 \<Longrightarrow> unat (q - 1 :: ddigit) < unat q"
  by (simp add: unat_minus_one unat_gt_0)

termination correct
proof (relation "measure (\<lambda>(_, _, _, _, _, q). unat q)")
  fix aHi :: ddigit and a1 a2 bTop bDig2 :: digit and q t :: ddigit
  assume "\<not> (t > MASK \<or> ucast bDig2 * q \<le> push_bit 32 t + ucast a2)"
  then have "q \<noteq> 0" by auto
  then show "((aHi, a1, a2, bTop, bDig2, q - 1), aHi, a1, a2, bTop, bDig2, q)
      \<in> measure (\<lambda>(_, _, _, _, _, q). unat q)"
    by (simp add: pred_less)
qed simp

declare norm_shift.simps [simp del] correct.simps [simp del]

text \<open>Subtraction of \<open>q\<close> times the divisor from a window of the dividend.\<close>

fun submul_loop :: "ddigit \<Rightarrow> ddigit \<Rightarrow> digit list \<Rightarrow> digit list \<Rightarrow> digit list \<times> ddigit" where
  "submul_loop q carry (b # bs) (a # as) =
     (let s = ucast b * q; t = ucast a;
          (ds, c) = submul_loop q (drop_bit 32 (s - t + carry + MASK)) bs as
      in (ucast ((t - s - carry) AND MASK) # ds, c))"
| "submul_loop q carry _ _ = ([], carry)"

text \<open>
  One round: the next digit of the quotient and the dividend less its multiple of the
  divisor.  For a divisor of one digit the last round reads \<^verbatim>\<open>a->digit[-1]\<close>, the high half of
  the block header, which is 0; the comparison it occurs in is then true in any case.
\<close>

definition div_step :: "digit list \<Rightarrow> nat \<Rightarrow> digit list \<Rightarrow> digit \<times> digit list" where
  "div_step b dInd a =
     (let lenA = length a; lenB = length b; aInd = lenB + dInd;
          aHi = (if aInd < lenA then ucast (a ! aInd) else 0);
          q = estimate aHi (a ! (aInd - 1)) (b ! (lenB - 1));
          q = correct aHi (a ! (aInd - 1)) (if 2 \<le> aInd then a ! (aInd - 2) else 0)
                (b ! (lenB - 1)) (if 2 \<le> lenB then b ! (lenB - 2) else 0) q;
          (w, carry) = submul_loop q 0 b (take lenB (drop dInd a));
          (carry, a) =
            (if aInd < lenA
             then (carry - ucast (a ! aInd), (take dInd a @ w @ drop aInd a)[aInd := 0])
             else (carry, take dInd a @ w @ drop aInd a))
      in if carry = 0 then (ucast q, a)
         else (ucast (q - 1),
               take dInd a @ butlast (add_loop 0 (take lenB (drop dInd a)) b) @ drop aInd a))"

text \<open>The rounds for \<open>n - 1\<close> down to 0: the digits of the quotient and what is left.\<close>

fun div_loop :: "digit list \<Rightarrow> nat \<Rightarrow> digit list \<Rightarrow> digit list \<times> digit list" where
  "div_loop b 0 a = ([], a)"
| "div_loop b (Suc dInd) a =
     (let (q, a) = div_step b dInd a; (qs, a) = div_loop b dInd a in (qs @ [q], a))"

text \<open>Run an operation and tell whether a collection ran meanwhile.\<close>

definition watch_gc :: "'a rt \<Rightarrow> (bool \<times> 'a) rt" where
  "watch_gc m t =
     (case m t of
        (Inl e, t') \<Rightarrow> (Inl e, t')
      | (Inr x, t') \<Rightarrow>
          (Inr (list_ex (\<lambda>r. \<not> no_gc r) (take (length (allocs t) - length (allocs t')) (allocs t)), x), t'))"

text \<open>The second value is the block in the first slot of the temporary stack.\<close>

definition round_operand :: "longint \<Rightarrow> longint \<Rightarrow> (longint \<times> longint) rt" where
  "round_operand oldA oldB =
     (if li_neg oldA \<noteq> li_neg oldB then
        bindM (SubAbsoluteSingle oldB 1 False)
          (\<lambda>tmp. the_long tmp (\<lambda>tmp. bindM (AddAbsolute oldA tmp False)
             (\<lambda>s. the_long s (\<lambda>s. ret (s, tmp)))))
      else ret (oldA, oldA))"

text \<open>
  The end of the function: remainder and quotient are normalised.  The remainder is stored where
  \<^verbatim>\<open>mod\<close> points to while the quotient is normalised; the third value tells whether a collection
  ran meanwhile.
\<close>

definition div_finish :: "longint \<Rightarrow> longint \<Rightarrow> longint \<Rightarrow> longint \<Rightarrow> longint \<Rightarrow> (aint \<times> aint \<times> bool) rt" where
  "div_finish oldA oldB tmp a d =
     bindM (watch_gc
       (if li_neg oldA \<noteq> li_neg oldB then
          bindM (TruncateZeroDigits a False)
            (\<lambda>a. bindM (SubAbsolute tmp a False) (\<lambda>r. the_long r ret))
        else ret a))
     (\<lambda>(gc3, a). bindM (watch_gc (ANormalize a (li_neg oldB)))
     (\<lambda>(gc4, md). bindM (watch_gc (ANormalize (promote (gc3 \<or> gc4) d) (li_neg oldA \<noteq> li_neg oldB)))
     (\<lambda>(gc5, q). ret (q, md, gc5))))"

text \<open>
  The middle part, on the shifted operands.  A block for the quotient of no digits at all, or
  fewer, is allocated where the divisor is at least two digits longer than the dividend; what
  the code then reads is outside of the block.
\<close>

definition div_rounds :: "longint \<Rightarrow> longint \<Rightarrow> nat \<Rightarrow> longint \<Rightarrow> longint \<Rightarrow> longint \<Rightarrow> (aint \<times> aint \<times> bool) rt" where
  "div_rounds oldA oldB shift tmp a b =
     (if li_len a < li_len b then raise UndefinedBehaviour
      else bindM (CreateLongInt (li_len a - li_len b + 1))
        (\<lambda>(gc, d).
           let a = promote gc a;
               (qs, as) = div_loop (digits b) (li_len a - li_len b + 1) (digits a)
           in div_finish oldA oldB tmp (put_digits (Shr as as shift) a) (put_digits qs d)))"

definition ADivModLongInt :: "longint \<Rightarrow> longint \<Rightarrow> (aint \<times> aint \<times> bool) rt" where
  "ADivModLongInt oldA oldB =
     with_temps 2
       (let shift = norm_shift (push_bit 31 1) 0 (digits oldB ! (li_len oldB - 1))
        in bindM (round_operand oldA oldB)
       (\<lambda>(num, tmp). bindM (CreateLongInt (li_len num + 1))
       (\<lambda>(_, a). bindM (CreateLongInt (li_len oldB))
       (\<lambda>(gc, b).
          div_rounds oldA oldB shift tmp
            (promote gc (put_digits (Shl (digits num) (digits a) shift) a))
            (put_digits (Shl (digits oldB) (digits b) shift) b)))))"

section \<open>Powers\<close>

text \<open>Both operands are expected to be long integers.\<close>

definition mul_values :: "aint \<Rightarrow> aint \<Rightarrow> aint rt" where
  "mul_values x y = the_long x (\<lambda>x. the_long y (AMultiplyLongInt x))"

text \<open>
  The loop at \<^verbatim>\<open>LongIntLoop\<close>: squaring while the exponent is even, one multiplication when it
  is odd.  The values live in the temporary stack.
\<close>

function pow_long :: "nat \<Rightarrow> aint \<Rightarrow> aint \<Rightarrow> aint rt" where
  "pow_long e val base =
     (if e = 0 then ret val
      else if even e then bindM (mul_values base base) (pow_long (e div 2) val)
      else bindM (mul_values val base) (\<lambda>val. pow_long (e - 1) val base))"
  by auto

termination pow_long
  by (relation "measure (\<lambda>(e, _, _). e)") auto

text \<open>
  The loop on short integers, which goes on at \<^verbatim>\<open>LongIntLoopMiddle\<close> when the base has become
  long and at \<^verbatim>\<open>LongIntLoop\<close> when the value has.
\<close>

function pow_short :: "nat \<Rightarrow> avalue \<Rightarrow> avalue \<Rightarrow> aint rt" where
  "pow_short e val base =
     (if e = 0 then ret (AShort val)
      else if even e then
        bindM (AMultiplyShortInt base base)
          (\<lambda>r. case r of
                 AShort base \<Rightarrow> pow_short (e div 2) val base
               | ALong base \<Rightarrow>
                   bindM (ACreateLongIntFromIntND (AValueToInt val))
                     (\<lambda>val. bindM (mul_values val (ALong base))
                        (\<lambda>val. pow_long (e div 2 - 1) val (ALong base))))
      else
        bindM (AMultiplyShortInt val base)
          (\<lambda>r. case r of
                 AShort val \<Rightarrow> pow_short (e - 1) val base
               | ALong val \<Rightarrow>
                   bindM (ACreateLongIntFromIntND (AValueToInt base)) (pow_long (e - 1) (ALong val))))"
  by auto

termination pow_short
  by (relation "measure (\<lambda>(e, _, _). e)") auto

declare pow_long.simps [simp del] pow_short.simps [simp del]

text \<open>
  A long exponent is at least 2^61 in magnitude.  The branches of the code for a negative one
  behind the first test can not be reached.
\<close>

definition APowInt :: "aint \<Rightarrow> aint \<Rightarrow> aint rt" where
  "APowInt base expVal =
     (case expVal of
        ALong l \<Rightarrow>
          if li_neg l then raise ArithmeticError
          else if base = AShort 0 then ret (AShort 0)
          else if base = AShort (AIntToValue 1) then ret base
          else if base = AShort (AIntToValue (- 1)) then
            ret (if digits l ! 0 AND 1 = 0 then AShort (AIntToValue 1) else AShort (AIntToValue (- 1)))
          else raise (ValueError [])
      | AShort w \<Rightarrow>
          let e = sint (AValueToInt w)
          in if e \<le> 0 then (if e = 0 then ret (AShort (AIntToValue 1)) else raise ArithmeticError)
             else with_temps 2
               (case base of
                  ALong b \<Rightarrow> pow_long (nat (e - 1)) base base
                | AShort b \<Rightarrow> pow_short (nat (e - 1)) b b))"

section \<open>The operators on Int operands\<close>

definition DivModInts :: "aint \<Rightarrow> aint \<Rightarrow> (aint \<times> aint \<times> bool) rt" where
  "DivModInts a b =
     (case (a, b) of
        (AShort x, AShort y) \<Rightarrow> bindM (AIntDivMod x y) (\<lambda>(q, r). ret (q, AShort r, False))
      | _ \<Rightarrow>
          if b = AShort 0 then raise ArithmeticError
          else bindM (ACoerce a b)
            (\<lambda>(a, b). the_long a (\<lambda>a. the_long b (ADivModLongInt a))))"

text \<open>
  The remainder that \<^verbatim>\<open>div\<close> does not use lies in the temporary stack.  The one of \<^verbatim>\<open>mod\<close> lies in
  a variable the collector does not know of: a long remainder is lost in a collection.
\<close>

definition AIntDiv :: "aint \<Rightarrow> aint \<Rightarrow> aint rt" where
  "AIntDiv a b = bindM (DivModInts a b) (\<lambda>(q, _, _). ret q)"

definition AMod :: "aint \<Rightarrow> aint \<Rightarrow> aint rt" where
  "AMod a b =
     bindM (DivModInts a b)
       (\<lambda>(_, md, gc). if gc \<and> is_long md then raise UndefinedBehaviour else ret md)"

end
