(* ===== verification/Long_Div_Lemmas.thy ===== *)
theory Long_Div_Lemmas
  imports Long_Div
begin

text \<open>
  The digit loops of long division: shifting, the estimate of a digit of the quotient, its
  correction and the rounds compute quotient and remainder of the digit strings.
\<close>

section \<open>Shifting\<close>

lemma unat_pow2: "k < 64 \<Longrightarrow> unat (2 ^ k :: ddigit) = 2 ^ k"
  using unsigned_of_nat [of "2 ^ k", where ?'a = nat and ?'b = 64] by (simp add: take_bit_nat_eq_self)

lemma unat_push: "unat (push_bit k (x :: ddigit)) = unat x * 2 ^ k mod 2 ^ 64"
proof -
  have "unat (push_bit k x) = take_bit LENGTH(64) (push_bit k (unat x))" by (rule unsigned_push_bit_eq)
  then show ?thesis by (simp add: push_bit_eq_mult take_bit_eq_mod)
qed

lemma unat_drop: "unat (drop_bit k (x :: ddigit)) = unat x div 2 ^ k"
proof -
  have "unat (drop_bit k x) = drop_bit k (take_bit LENGTH(64) (unat x))" by (rule unsigned_drop_bit_eq)
  moreover have "take_bit LENGTH(64) (unat x) = unat x" using unat_ddigit_lt [of x] by (simp add: take_bit_nat_eq_self)
  ultimately show ?thesis by (simp only: drop_bit_eq_div)
qed

lemma norm_shift_spec:
  assumes "hi \<noteq> 0" "k \<le> 31" "unat hi * 2 ^ (31 - k) < 2 ^ 32"
  shows "norm_shift (2 ^ k) s hi \<le> s + k \<and>
    2 ^ k \<le> unat hi * 2 ^ (norm_shift (2 ^ k) s hi - s) \<and> s \<le> norm_shift (2 ^ k) s hi \<and>
    unat hi * 2 ^ (norm_shift (2 ^ k) s hi - s) * 2 ^ (31 - k) < 2 ^ 32"
  using assms(2,3)
proof (induction k arbitrary: s)
  case 0
  have "0 < unat hi" using assms(1) by (simp add: unat_gt_0)
  then have "\<not> ucast hi < (1 :: ddigit)" by (simp add: word_less_nat_alt)
  then have "norm_shift 1 s hi = s" by (subst norm_shift.simps) simp
  with \<open>0 < unat hi\<close> 0 show ?case by simp
next
  case (Suc k)
  have u: "unat (2 ^ Suc k :: ddigit) = 2 ^ Suc k" using Suc.prems by (simp add: unat_pow2 del: power_Suc)
  have lt: "ucast hi < (2 ^ Suc k :: ddigit) \<longleftrightarrow> unat hi < 2 ^ Suc k"
    by (simp add: word_less_nat_alt u del: power_Suc)
  have half: "drop_bit 1 (2 ^ Suc k :: ddigit) = 2 ^ k"
    using Suc.prems by (simp add: drop_bit_eq_div word_unat_eq_iff unat_div_distrib u unat_pow2 del: power_Suc) simp
  show ?case
  proof (cases "unat hi < 2 ^ Suc k")
    case True
    have eq: "norm_shift (2 ^ Suc k) s hi = norm_shift (2 ^ k) (s + 1) hi"
      using True lt half by (subst norm_shift.simps) simp
    have e: "(2::nat) ^ (31 - k) * 2 ^ Suc k = 2 ^ 32"
      using Suc.prems by (simp add: power_add [symmetric] del: power_Suc)
    have "unat hi * 2 ^ (31 - k) < 2 ^ Suc k * 2 ^ (31 - k)" using True by (simp del: power_Suc)
    then have "unat hi * 2 ^ (31 - k) < 2 ^ 32" using e by (metis mult.commute)
    then have IH: "norm_shift (2 ^ k) (s + 1) hi \<le> s + 1 + k"
      "2 ^ k \<le> unat hi * 2 ^ (norm_shift (2 ^ k) (s + 1) hi - (s + 1))"
      "s + 1 \<le> norm_shift (2 ^ k) (s + 1) hi"
      "unat hi * 2 ^ (norm_shift (2 ^ k) (s + 1) hi - (s + 1)) * 2 ^ (31 - k) < 2 ^ 32"
      using Suc.IH [of "s + 1"] Suc.prems by simp_all
    have p: "(2::nat) ^ (norm_shift (2 ^ k) (s + 1) hi - s) = 2 * 2 ^ (norm_shift (2 ^ k) (s + 1) hi - (s + 1))"
      using IH(3) by (simp add: Suc_diff_le flip: power_Suc)
    have q: "(2::nat) ^ (31 - k) = 2 * 2 ^ (31 - Suc k)"
      using Suc.prems(1) by (simp add: Suc_diff_Suc flip: power_Suc)
    show ?thesis unfolding eq p using IH q by (simp add: algebra_simps)
  next
    case False
    then have "norm_shift (2 ^ Suc k) s hi = s" using lt by (subst norm_shift.simps) simp
    with False Suc.prems show ?thesis by simp
  qed
qed

text \<open>The shift that puts the top bit of the divisor in place.\<close>

lemma norm_shift_top:
  assumes "hi \<noteq> 0"
  defines "s \<equiv> norm_shift (push_bit 31 1) 0 hi"
  shows "s \<le> 31" "2 ^ 31 \<le> unat hi * 2 ^ s" "unat hi * 2 ^ s < 2 ^ 32"
  using norm_shift_spec [OF assms(1), of 31 0] unat_digit_lt [of hi]
  by (simp_all add: s_def push_bit_eq_mult)

lemma unat_or_add:
  assumes "2 ^ n dvd unat x" "unat y < 2 ^ n"
  shows "unat (x OR y :: ddigit) = unat x + unat y"
proof -
  obtain k where k: "unat x = push_bit n k" using assms(1) by (auto simp: push_bit_eq_mult mult.commute elim: dvdE)
  have y: "unat y = take_bit n (unat y)" using assms(2) by (simp add: take_bit_nat_eq_self)
  have "\<not> bit (unat x) i \<or> \<not> bit (unat y) i" for i
    unfolding k by (subst y) (auto simp: bit_simps)
  then have "unat x + unat y = unat x OR unat y" by (rule disjunctive_add)
  then show ?thesis by (simp add: unsigned_or_eq)
qed

text \<open>Shifting left, from the top: the carry holds the last digit shifted.\<close>

lemma lshift_val:
  assumes "s < 32" "2 ^ s dvd unat carry" "lshift_loop s carry xs = (ds, c)"
  shows "length ds = length xs \<and>
    digs_val (rev xs) * 2 ^ s + unat carry mod 2 ^ 32 * 2 ^ (32 * length xs)
      = unat c mod 2 ^ 32 + 2 ^ 32 * digs_val (rev ds)"
  using assms(2,3)
proof (induction xs arbitrary: carry ds)
  case (Cons x xs)
  define c1 where "c1 = push_bit 32 carry OR push_bit s (ucast x)"
  obtain ds' where ds': "lshift_loop s c1 xs = (ds', c)" and ds: "ds = ucast (drop_bit 32 c1) # ds'"
    using Cons.prems(2) by (auto simp: c1_def split: prod.splits)
  have hi: "unat (push_bit 32 carry) = unat carry mod 2 ^ 32 * 2 ^ 32"
    using mult_mod_right [of "2 ^ 32" "unat carry" "2 ^ 32"] by (simp add: unat_push mult.commute)
  have xs: "unat x * 2 ^ s < 2 ^ (32 + s)" using unat_digit_lt [of x] by (simp add: power_add)
  have xs2: "unat x * 2 ^ s < 2 ^ 64"
    by (rule less_le_trans [OF xs]) (use assms(1) in \<open>intro power_increasing; simp\<close>)
  have lo: "unat (push_bit s (ucast x :: ddigit)) = unat x * 2 ^ s"
    using xs2 by (simp add: unat_push)
  have d: "2 ^ s dvd unat carry mod 2 ^ 32"
    by (rule dvd_mod [OF Cons.prems(1)], rule le_imp_power_dvd) (use assms(1) in simp)
  have c1: "unat c1 = unat carry mod 2 ^ 32 * 2 ^ 32 + unat x * 2 ^ s"
    unfolding c1_def using d xs lo hi
    by (subst unat_or_add [of "32 + s"]) (simp_all add: power_add mult.commute)
  have "2 ^ s dvd unat c1" unfolding c1 using d by simp
  note IH = Cons.IH [OF this ds']
  have top: "unat (ucast (drop_bit 32 c1) :: digit) = unat c1 div 2 ^ 32"
    using unat_ddigit_lt [of c1] by (subst ucast_small) (simp_all add: unat_drop_32 less_mult_imp_div_less)
  obtain h l where hl: "unat c1 div 4294967296 = h" "unat c1 mod 4294967296 = l" by blast
  then have "l + 2 ^ 32 * h = unat carry mod 2 ^ 32 * 2 ^ 32 + unat x * 2 ^ s"
    unfolding c1 [symmetric] by auto
  then have "2 ^ (32 * length xs) * l + 2 ^ (32 * length xs) * (2 ^ 32 * h)
      = 2 ^ (32 * length xs) * (unat carry mod 2 ^ 32 * 2 ^ 32 + unat x * 2 ^ s)"
    by (metis distrib_left)
  then show ?case
    using IH unfolding ds by (simp add: digs_val_append top hl algebra_simps power_add)
qed simp

lemma digs_val_take_drop: "digs_val (take n xs) + 2 ^ (32 * min n (length xs)) * digs_val (drop n xs) = digs_val xs"
  using digs_val_append [of "take n xs" "drop n xs"] by (simp add: min.commute)

text \<open>
  The destination has one digit more than the source, or as many when the shifted value fits.
\<close>

lemma Shl_val:
  assumes s: "s < 32" and src: "src \<noteq> []"
    and dst: "length dst = Suc (length src) \<or>
              length dst = length src \<and> unat (last src) * 2 ^ s < 2 ^ 32"
  shows "length (Shl src dst s) = length dst" "digs_val (Shl src dst s) = digs_val src * 2 ^ s"
proof -
  define carry :: ddigit where "carry = push_bit s (ucast (last src))"
  obtain xs x where sx: "src = xs @ [x]" using src by (metis rev_exhaust)
  obtain ds c where dc: "lshift_loop s carry (rev xs) = (ds, c)" by fastforce
  have "unat x * 2 ^ s < 2 ^ (32 + s)" using unat_digit_lt [of x] by (simp add: power_add)
  then have "unat x * 2 ^ s < 2 ^ 64"
    by (rule less_le_trans) (use s in \<open>intro power_increasing; simp\<close>)
  then have uc: "unat carry = unat x * 2 ^ s" by (simp add: carry_def sx unat_push)
  note L = lshift_val [OF s _ dc]
  have len: "length ds = length xs"
    and val: "digs_val xs * 2 ^ s + unat carry mod 2 ^ 32 * 2 ^ (32 * length xs)
      = unat c mod 2 ^ 32 + 2 ^ 32 * digs_val (rev ds)"
    using L uc by simp_all
  define low where "low = ucast (c AND MASK) # rev ds"
  have low: "length low = length src" "digs_val low = digs_val xs * 2 ^ s + unat carry mod 2 ^ 32 * 2 ^ (32 * length xs)"
    unfolding val by (simp_all add: low_def len sx unat_mask_digit)
  have big: "carry > MASK \<longleftrightarrow> 2 ^ 32 \<le> unat carry" by (auto simp: word_less_nat_alt)
  have hi: "unat (ucast (drop_bit 32 carry) :: digit) = unat carry div 2 ^ 32"
    using unat_ddigit_lt [of carry] by (subst ucast_small) (simp_all add: unat_drop_32 less_mult_imp_div_less)
  have total: "digs_val src * 2 ^ s = digs_val low + 2 ^ (32 * length src) * (unat carry div 2 ^ 32)"
  proof -
    have "digs_val src * 2 ^ s = digs_val xs * 2 ^ s + 2 ^ (32 * length xs) * unat carry"
      unfolding sx uc by (simp add: digs_val_append algebra_simps)
    also have "unat carry = unat carry mod 2 ^ 32 + 2 ^ 32 * (unat carry div 2 ^ 32)" by simp
    finally show ?thesis
      unfolding low(2) distrib_left by (simp add: sx power_add mult.commute mult.left_commute)
  qed
  have shl: "Shl src dst s =
     (if carry > MASK then low @ drop (length src) (dst[length src := ucast (drop_bit 32 carry)])
      else if length src < length dst then (low @ drop (length src) dst)[length src := 0] else low @ drop (length src) dst)"
    if "\<not> (carry > MASK) \<or> length src < length dst"
  proof -
    have s0: "s div 32 = 0" "s mod 32 = s" "tl (rev src) = rev xs" using s by (simp_all add: sx)
    have cat: "replicate 0 0 @ ucast (c AND MASK) # rev ds @ ys = low @ ys" for ys by (simp add: low_def)
    show ?thesis
      unfolding Shl_def Let_def s0 carry_def [symmetric] dc prod.case cat using that dst low(1)
      by (cases "carry > MASK") (auto simp: cat)
  qed
  consider (grow) "carry > MASK" "length dst = Suc (length src)" | (pad) "\<not> carry > MASK" "length dst = Suc (length src)"
    | (fit) "\<not> carry > MASK" "length dst = length src"
    using dst uc big sx by fastforce
  then have "length (Shl src dst s) = length dst \<and> digs_val (Shl src dst s) = digs_val src * 2 ^ s"
  proof cases
    case grow
    then obtain y where "drop (length src) (dst[length src := ucast (drop_bit 32 carry)]) = [ucast (drop_bit 32 carry)]"
      by (simp add: drop_update_swap Cons_nth_drop_Suc [symmetric])
    with grow low hi total show ?thesis by (simp add: shl digs_val_append)
  next
    case pad
    then have "drop (length src) dst = [dst ! length src]" by (simp add: Cons_nth_drop_Suc [symmetric])
    with pad low big total show ?thesis by (simp add: shl list_update_append digs_val_append)
  next
    case fit
    with low big total show ?thesis by (simp add: shl)
  qed
  then show "length (Shl src dst s) = length dst" "digs_val (Shl src dst s) = digs_val src * 2 ^ s" by auto
qed

text \<open>Shifting right, from the bottom: the carry holds the bits of the digit before.\<close>

lemma rshift_val:
  assumes "s < 32" "unat carry < 2 ^ (32 - s)" "rshift_loop s carry xs = (ds, c)"
  shows "length ds = length xs \<and> unat c < 2 ^ (32 - s) \<and>
    digs_val ds + 2 ^ (32 * length xs) * unat c = unat carry + 2 ^ (32 - s) * digs_val xs"
  using assms(2,3)
proof (induction xs arbitrary: carry ds)
  case (Cons x xs)
  define c1 where "c1 = carry OR push_bit (32 - s) (ucast x)"
  obtain ds' where ds': "rshift_loop s (drop_bit 32 c1) xs = (ds', c)" and ds: "ds = ucast (c1 AND MASK) # ds'"
    using Cons.prems(2) by (auto simp: c1_def split: prod.splits)
  have xs: "unat x * 2 ^ (32 - s) < 2 ^ (32 + (32 - s))" using unat_digit_lt [of x] by (simp add: power_add)
  have xs2: "unat x * 2 ^ (32 - s) < 2 ^ 64"
    by (rule less_le_trans [OF xs]) (intro power_increasing; simp)
  have lo: "unat (push_bit (32 - s) (ucast x :: ddigit)) = unat x * 2 ^ (32 - s)"
    using xs2 by (simp add: unat_push)
  have c1: "unat c1 = unat carry + 2 ^ (32 - s) * unat x"
    unfolding c1_def using Cons.prems(1) lo
    by (subst or.commute, subst unat_or_add [of "32 - s"]) simp_all
  have "unat c1 < 2 ^ (32 - s) * 2 ^ 32"
  proof -
    have "2 ^ (32 - s) * Suc (unat x) \<le> 2 ^ (32 - s) * 2 ^ 32" using unat_digit_lt [of x] by (intro mult_le_mono2) simp
    then show ?thesis using Cons.prems(1) unfolding c1 mult_Suc_right by linarith
  qed
  then have "unat (drop_bit 32 c1) < 2 ^ (32 - s)" by (simp add: unat_drop_32 less_mult_imp_div_less)
  note IH = Cons.IH [OF this ds']
  obtain h l where hl: "unat c1 div 4294967296 = h" "unat c1 mod 4294967296 = l" by blast
  then have "l + 2 ^ 32 * h = unat carry + 2 ^ (32 - s) * unat x"
    unfolding c1 [symmetric] by auto
  then show ?case
    using IH unfolding ds by (simp add: unat_mask_digit unat_drop_32 hl algebra_simps power_add)
qed simp

lemma Shr_val:
  assumes s: "s < 32" and src: "src \<noteq> []"
  shows "length (Shr src src s) = length src" "digs_val (Shr src src s) = digs_val src div 2 ^ s"
proof -
  obtain x xs where sx: "src = x # xs" using src by (cases src) auto
  obtain ds c where dc: "rshift_loop s (drop_bit s (ucast x)) xs = (ds, c)" by fastforce
  have u: "unat (drop_bit s (ucast x) :: ddigit) = unat x div 2 ^ s"
    by (simp add: unat_drop)
  have e: "(2::nat) ^ 32 = 2 ^ (32 - s) * 2 ^ s" using s by (simp flip: power_add)
  then have "unat x div 2 ^ s < 2 ^ (32 - s)" using unat_digit_lt [of x] by (simp add: less_mult_imp_div_less)
  note L = rshift_val [OF s _ dc, unfolded u, OF this]
  have "(2::nat) ^ (32 - s) \<le> 2 ^ 32" by (intro power_increasing) simp_all
  then have "unat (ucast c :: digit) = unat c" using L by (intro ucast_small) simp
  then have val: "digs_val (ds @ [ucast c]) = unat x div 2 ^ s + 2 ^ (32 - s) * digs_val xs"
    using L by (simp add: digs_val_append)
  have "digs_val src div 2 ^ s = (unat x + 2 ^ s * (2 ^ (32 - s) * digs_val xs)) div 2 ^ s"
    unfolding sx digs_val.simps e by (simp add: algebra_simps)
  also have "\<dots> = unat x div 2 ^ s + 2 ^ (32 - s) * digs_val xs" by simp
  finally have q: "digs_val src div 2 ^ s = digs_val (ds @ [ucast c])" by (simp add: val)
  have "Shr src src s = ds @ [ucast c]"
    using s by (simp add: Shr_def sx dc Let_def) (simp add: word_neq_0_conv [symmetric])
  then show "length (Shr src src s) = length src" "digs_val (Shr src src s) = digs_val src div 2 ^ s"
    using q L by (simp_all add: sx)
qed

section \<open>A digit of the quotient\<close>

text \<open>Leading digits bound a quotient from above and below.\<close>

lemma quot_top_le:
  assumes "W < (x + 1) * P" "y * P \<le> v" "0 < (P :: nat)"
  shows "W div v * y \<le> x"
proof -
  have "W div v * y * P \<le> W div v * v" using assms(2) by (simp add: mult.assoc)
  also have "\<dots> \<le> W" by simp
  also have "\<dots> < (x + 1) * P" by (rule assms(1))
  finally have "W div v * y < x + 1" by (rule mult_right_less_imp_less) simp
  then show ?thesis by simp
qed

lemma quot_top_ge:
  assumes "x * P \<le> W" "v \<le> (y + 1) * P" "q * y \<le> x" "q \<le> y + 1" "0 < (v :: nat)"
  shows "q \<le> W div v + 1"
proof (cases q)
  case (Suc p)
  have "p * (y + 1) \<le> q * y" using assms(4) Suc by simp
  then have "p * (y + 1) * P \<le> x * P" using assms(3) by (intro mult_le_mono1) simp
  moreover have "p * v \<le> p * ((y + 1) * P)" using assms(2) by (rule mult_le_mono2)
  ultimately have "p * v \<le> W" using assms(1) by (simp only: mult.assoc)
  then have "p \<le> W div v" using assms(5) by (simp add: less_eq_div_iff_mult_less_eq)
  then show ?thesis using Suc by simp
qed simp

lemma correct_spec:
  fixes h q :: ddigit and a1 a2 bt b2 :: digit
  assumes "unat q * unat bt \<le> unat h * 2 ^ 32 + unat a1" "unat q < 2 ^ 32" "unat h < 2 ^ 32"
    and A: "A = (unat h * 2 ^ 32 + unat a1) * 2 ^ 32 + unat a2"
    and V: "V = unat bt * 2 ^ 32 + unat b2"
  shows "unat (correct h a1 a2 bt b2 q) \<le> unat q \<and> unat (correct h a1 a2 bt b2 q) * V \<le> A \<and>
    (\<forall>Q. Q * V \<le> A \<and> Q \<le> unat q \<longrightarrow> Q \<le> unat (correct h a1 a2 bt b2 q))"
  using assms(1,2)
proof (induction "unat q" arbitrary: q rule: less_induct)
  case less
  define t where "t = push_bit 32 h + ucast a1 - q * ucast bt"
  have x: "unat (push_bit 32 h + ucast a1) = unat h * 2 ^ 32 + unat a1"
    using assms(3) unat_digit_lt [of a1] by (subst unat_sum_64) (simp_all add: unat_push)
  have p: "unat (q * ucast bt) = unat q * unat bt"
    using less.prems(1) assms(3) unat_digit_lt [of a1] by (subst unat_prod_64) simp_all
  have t: "unat t + unat q * unat bt = unat h * 2 ^ 32 + unat a1"
    unfolding t_def using less.prems(1)
    by (subst unat_sub) (simp_all add: x p word_le_nat_alt)
  have big: "t > MASK \<longleftrightarrow> 2 ^ 32 \<le> unat t" by (auto simp: word_less_nat_alt)
  have bq: "unat (ucast b2 * q) = unat b2 * unat q" "unat b2 * unat q \<le> 4294967295 * 4294967295"
  proof -
    show *: "unat b2 * unat q \<le> 4294967295 * 4294967295"
      using unat_digit_lt [of b2] less.prems(2) by (intro mult_le_mono) simp_all
    show "unat (ucast b2 * q) = unat b2 * unat q" using * by (subst unat_prod_64) simp_all
  qed
  have ta: "unat (push_bit 32 t + ucast a2) = unat t * 2 ^ 32 + unat a2" if "\<not> t > MASK"
    using that big unat_digit_lt [of a2] by (subst unat_sum_64) (simp_all add: unat_push)
  have eq: "A = unat q * unat bt * 2 ^ 32 + unat t * 2 ^ 32 + unat a2"
    unfolding A t [symmetric] by (simp add: algebra_simps)
  have qV: "unat q * V = unat q * unat bt * 2 ^ 32 + unat b2 * unat q" unfolding V by (simp add: algebra_simps)
  show ?case
  proof (cases "t > MASK \<or> ucast b2 * q \<le> push_bit 32 t + ucast a2")
    case True
    then have "correct h a1 a2 bt b2 q = q" by (subst correct.simps) (simp add: t_def [symmetric] Let_def)
    moreover have "unat b2 * unat q \<le> unat t * 2 ^ 32 + unat a2"
    proof (cases "t > MASK")
      case True
      then have "2 ^ 32 * 2 ^ 32 \<le> unat t * 2 ^ 32" using big by (intro mult_le_mono1) simp
      then show ?thesis using bq(2) by simp
    next
      case False
      with True ta bq(1) show ?thesis by (simp add: word_le_nat_alt)
    qed
    ultimately show ?thesis using eq qV by simp
  next
    case False
    then have nt: "\<not> t > MASK" by simp
    have r: "correct h a1 a2 bt b2 q = correct h a1 a2 bt b2 (q - 1)"
      using False by (subst correct.simps) (simp add: t_def [symmetric] Let_def)
    have "unat t * 2 ^ 32 + unat a2 < unat b2 * unat q"
      using False ta [OF nt] bq(1) by (simp add: word_le_nat_alt)
    then have lt: "A < unat q * V" using eq qV by simp
    then have "q \<noteq> 0" by (metis mult_is_0 not_less_zero unat_0)
    then have u: "unat (q - 1) = unat q - 1" "0 < unat q" by (simp_all add: unat_minus_one unat_gt_0)
    have "unat (q - 1) * unat bt \<le> unat q * unat bt" using u by simp
    then have IH: "unat (correct h a1 a2 bt b2 (q - 1)) \<le> unat (q - 1) \<and>
       unat (correct h a1 a2 bt b2 (q - 1)) * V \<le> A \<and>
      (\<forall>Q. Q * V \<le> A \<and> Q \<le> unat (q - 1) \<longrightarrow> Q \<le> unat (correct h a1 a2 bt b2 (q - 1)))"
      using less.prems u by (intro less.hyps) linarith+
    have "Q \<le> unat q - 1" if "Q * V \<le> A" "Q \<le> unat q" for Q
    proof -
      have "Q \<noteq> unat q" using that lt by auto
      then show ?thesis using that by simp
    qed
    then show ?thesis using IH u unfolding r by fastforce
  qed
qed

lemma power2_32: "(2 :: nat) ^ 32 = 4294967296"
  by simp

lemma ceiling_div:
  assumes "0 < (m :: int)" shows "m * ((z + (m - 1)) div m) - z = (- z) mod m"
proof -
  have b: "0 \<le> (- z) mod m" "(- z) mod m < m" using assms by simp_all
  have m: "m * ((- z) div m) + (- z) mod m = - z" by (rule mult_div_mod_eq)
  then have e: "z + (m - 1) = m * (- ((- z) div m)) + (m - 1 - (- z) mod m)"
    unfolding mult_minus_right by linarith
  have "(z + (m - 1)) div m = - ((- z) div m)"
    by (rule int_div_pos_eq [OF e]) (use b in simp_all)
  then show ?thesis using m unfolding mult_minus_right by (simp only: mult_minus_right)
qed

text \<open>One digit of the subtraction.\<close>

lemma submul_digit:
  fixes b a :: digit and q carry :: ddigit
  assumes q: "unat q < 2 ^ 32" and c: "unat carry < 2 ^ 32"
  defines "s \<equiv> ucast b * q" and "t \<equiv> ucast a"
  defines "c' \<equiv> drop_bit 32 (s - t + carry + MASK)"
  shows "unat c' < 2 ^ 32"
    "unat a + 2 ^ 32 * unat c' = unat (ucast ((t - s - carry) AND MASK) :: digit) + unat carry + unat q * unat b"
proof -
  define z where "z = int (unat b * unat q) + int (unat carry) - int (unat a)"
  have bq: "unat b * unat q \<le> 4294967295 * 4294967295" using unat_digit_lt [of b] q by (intro mult_le_mono) simp_all
  then have zb: "- 4294967295 \<le> z" "z + 4294967295 < 18446744073709551616" "0 \<le> z + 4294967295"
    unfolding z_def using unat_digit_lt [of a] c unfolding power2_32 by linarith+
  have wz: "s - t + carry + MASK = of_int (z + 4294967295)" "t - s - carry = of_int (- z)"
    by (simp_all add: s_def t_def z_def)
  have "uint (s - t + carry + MASK) = z + 4294967295"
    unfolding wz uint_of_int_64 using zb by (intro mod_pos_pos_trivial) simp_all
  then have "int (unat (s - t + carry + MASK)) = z + 4294967295" by simp
  then have c': "int (unat c') = (z + 4294967295) div 4294967296"
    by (simp add: c'_def unat_drop zdiv_int)
  show "unat c' < 2 ^ 32" using zb unat_ddigit_lt [of "s - t + carry + MASK"]
    by (simp add: c'_def unat_drop less_mult_imp_div_less)
  have o: "int (unat (ucast ((t - s - carry) AND MASK) :: digit)) = (- z) mod 4294967296"
  proof -
    have "uint (t - s - carry) = (- z) mod 2 ^ 64" unfolding wz by (rule uint_of_int_64)
    then have u: "int (unat (t - s - carry)) = (- z) mod 2 ^ 64" by simp
    have "int (unat (t - s - carry) mod 2 ^ 32) = (- z) mod 2 ^ 64 mod 2 ^ 32"
      by (simp only: zmod_int u) simp
    also have "\<dots> = (- z) mod 2 ^ 32" by (rule mod_mod_cancel) simp
    finally show ?thesis by (simp only: unat_mask_digit) simp
  qed
  have "4294967296 * ((z + 4294967295) div 4294967296) - z = (- z) mod 4294967296"
    using ceiling_div [of 4294967296 z] by simp
  then have "4294967296 * int (unat c') - z = int (unat (ucast ((t - s - carry) AND MASK) :: digit))"
    by (simp only: c' o)
  then have "unat a + 4294967296 * unat c' = unat (ucast ((t - s - carry) AND MASK) :: digit) + unat carry + unat b * unat q"
    unfolding z_def by linarith
  then show "unat a + 2 ^ 32 * unat c' = unat (ucast ((t - s - carry) AND MASK) :: digit) + unat carry + unat q * unat b"
    by (simp only: power2_32 mult.commute [of "unat q"])
qed

lemma submul_val:
  assumes "unat q < 2 ^ 32" "unat carry < 2 ^ 32" "length bs = length as"
    "submul_loop q carry bs as = (ds, c)"
  shows "length ds = length as \<and> unat c < 2 ^ 32 \<and>
    digs_val as + 2 ^ (32 * length as) * unat c = digs_val ds + unat carry + unat q * digs_val bs"
  using assms(2-)
proof (induction bs as arbitrary: carry ds rule: list_induct2')
  case (4 b bs a as)
  define c' where "c' = drop_bit 32 (ucast b * q - ucast a + carry + MASK)"
  obtain ds' where ds': "submul_loop q c' bs as = (ds', c)"
    and ds: "ds = ucast ((ucast a - ucast b * q - carry) AND MASK) # ds'"
    using "4.prems"(3) by (simp add: c'_def [symmetric] Let_def split: prod.splits)
  note d = submul_digit [OF assms(1) "4.prems"(1), where b = b and a = a, folded c'_def]
  have IH: "length ds' = length as" "unat c < 2 ^ 32"
    "digs_val as + 2 ^ (32 * length as) * unat c = digs_val ds' + unat c' + unat q * digs_val bs"
    using "4.IH" [OF d(1) _ ds'] "4.prems"(2) by simp_all
  have "2 ^ 32 * (digs_val as + 2 ^ (32 * length as) * unat c) = 2 ^ 32 * (digs_val ds' + unat c' + unat q * digs_val bs)"
    using IH(3) by simp
  then show ?case using IH(1,2) d(2) unfolding ds by (simp add: algebra_simps power_add)
qed simp_all

section \<open>The rounds\<close>

lemma digs_val_top_split:
  assumes "length xs = Suc n"
  shows "digs_val xs = digs_val (take n xs) + 2 ^ (32 * n) * unat (xs ! n)"
proof -
  have "xs = take n xs @ [xs ! n]" using assms by (simp add: take_Suc_conv_app_nth [symmetric])
  then have "digs_val xs = digs_val (take n xs @ [xs ! n])" by simp
  also have "\<dots> = digs_val (take n xs) + 2 ^ (32 * n) * unat (xs ! n)"
    using assms by (simp only: digs_val_append) simp
  finally show ?thesis .
qed

lemma digs_val_lt: "length xs = n \<Longrightarrow> digs_val xs < 2 ^ (32 * n)"
  using digs_val_less [of xs] by simp

text \<open>
  The estimate after its correction is the digit of the quotient or one more: the window is
  \<open>w\<close> with the digit \<open>h\<close> above it, the divisor \<open>b\<close> has its top bit set.
\<close>

lemma corrected_estimate:
  assumes w: "length w = Suc n" and b: "length b = Suc n" and top: "2 ^ 31 \<le> unat (b ! n)"
    and h: "unat h < 2 ^ 32"
    and W: "W = digs_val w + 2 ^ (32 * Suc n) * unat h" "W < digs_val b * 2 ^ 32"
    and a2: "0 < n \<Longrightarrow> a2 = w ! (n - 1)"
    and q: "q = correct h (w ! n) a2 (b ! n) (if 0 < n then b ! (n - 1) else 0)
                  (estimate h (w ! n) (b ! n))"
  shows "W div digs_val b \<le> unat q \<and> unat q \<le> W div digs_val b + 1 \<and> unat q < 2 ^ 32"
proof -
  define P :: nat where "P = 2 ^ (32 * n)"
  let ?v = "digs_val b" and ?bt = "unat (b ! n)" and ?q0 = "estimate h (w ! n) (b ! n)"
  let ?x = "unat h * 2 ^ 32 + unat (w ! n)"
  have P: "0 < P" by (simp add: P_def)
  have w1: "digs_val w = digs_val (take n w) + P * unat (w ! n)" "digs_val (take n w) < P"
    using digs_val_top_split [OF w] digs_val_lt [of "take n w" n] w by (simp_all add: P_def)
  have b1: "?v = digs_val (take n b) + P * ?bt" "digs_val (take n b) < P"
    using digs_val_top_split [OF b] digs_val_lt [of "take n b" n] b by (simp_all add: P_def)
  have W1: "W = digs_val (take n w) + P * ?x"
    unfolding W w1 by (simp add: P_def power_add algebra_simps)
  have v0: "0 < ?v" using b1 top P by simp
  have Q: "W div ?v * ?bt \<le> ?x"
    by (rule quot_top_le [OF _ _ P]) (use W1 w1 b1 in \<open>simp_all add: algebra_simps\<close>)
  have QB: "W div ?v < 2 ^ 32" using W(2) v0 by (simp add: less_mult_imp_div_less mult.commute)
  have "P * ?x < P * ((?bt + 1) * 2 ^ 32)" using W1 W(2) b1 by (simp add: algebra_simps)
  then have "?x < (?bt + 1) * 2 ^ 32" by (rule mult_left_less_imp_less) simp
  then have hb: "unat h \<le> ?bt" by simp
  have bt: "?bt < 2 ^ 32" using unat_digit_lt by simp
  have x: "unat (push_bit 32 h + ucast (w ! n)) = ?x"
    using h unat_digit_lt [of "w ! n"] by (subst unat_sum_64) (simp_all add: unat_push)
  have q0: "W div ?v \<le> unat ?q0 \<and> unat ?q0 * ?bt \<le> ?x \<and> unat ?q0 < 2 ^ 32"
  proof (cases "unat h = ?bt")
    case True
    then have "?q0 = MASK" by (simp add: estimate_def word_unat_eq_iff)
    then show ?thesis using QB True by simp
  next
    case False
    then have "h \<noteq> ucast (b ! n)" by auto
    then have u: "unat ?q0 = ?x div ?bt" by (simp add: estimate_def unat_div_distrib x)
    have "?x < ?bt * 2 ^ 32" using False hb unat_digit_lt [of "w ! n"] by simp
    then show ?thesis
      using Q top bt unfolding u by (simp add: less_eq_div_iff_mult_less_eq less_mult_imp_div_less mult.commute)
  qed
  show ?thesis
  proof (cases n)
    case 0
    have V: "?v = ?bt" "W = ?x" using b1 W1 w1 0 by (simp_all add: P_def)
    have "unat h < ?bt" using W(2) V by simp
    then have "?q0 = (push_bit 32 h + ucast (w ! n)) div ucast (b ! n)" by (auto simp: estimate_def)
    then have "unat ?q0 = W div ?v" unfolding V by (simp add: unat_div_distrib x)
    moreover have "q = ?q0" unfolding q using 0 by (subst correct.simps) simp
    ultimately show ?thesis using q0 by simp
  next
    case (Suc m)
    define R :: nat where "R = 2 ^ (32 * m)"
    let ?A = "?x * 2 ^ 32 + unat a2" and ?V = "?bt * 2 ^ 32 + unat (b ! m)"
    have PR: "P = R * 2 ^ 32" by (simp add: P_def R_def Suc power_add)
    have w2: "digs_val (take n w) = digs_val (take m w) + R * unat (w ! m)" "digs_val (take m w) < R"
      using digs_val_top_split [of "take n w" m] digs_val_lt [of "take m w" m] w Suc
      by (simp_all add: R_def)
    have b2: "digs_val (take n b) = digs_val (take m b) + R * unat (b ! m)" "digs_val (take m b) < R"
      using digs_val_top_split [of "take n b" m] digs_val_lt [of "take m b" m] b Suc
      by (simp_all add: R_def)
    have a2': "a2 = w ! m" using a2 Suc by simp
    have WA: "W = digs_val (take m w) + R * ?A" unfolding W1 w2 a2' PR by (simp add: algebra_simps)
    have vV: "?v = digs_val (take m b) + R * ?V" unfolding b1 b2 PR by (simp add: algebra_simps)
    note C = correct_spec [OF _ _ h refl refl, of ?q0 "b ! n" "w ! n" a2 "b ! m"]
    have qe: "q = correct h (w ! n) a2 (b ! n) (b ! m) ?q0" unfolding q using Suc by simp
    have le: "unat q \<le> unat ?q0" "unat q * ?V \<le> ?A"
      and ge: "\<And>Q. Q * ?V \<le> ?A \<Longrightarrow> Q \<le> unat ?q0 \<Longrightarrow> Q \<le> unat q"
      using C q0 unfolding qe by blast+
    have R0: "0 < R" by (simp add: R_def)
    have "W div ?v * ?V \<le> ?A"
      by (rule quot_top_le [OF _ _ R0]) (use WA vV w2 in \<open>simp_all add: algebra_simps\<close>)
    then have "W div ?v \<le> unat q" using q0 by (intro ge) simp_all
    moreover have "unat q \<le> W div ?v + 1"
    proof (rule quot_top_ge [OF _ _ le(2) _ v0])
      show "?A * R \<le> W" unfolding WA by (simp add: algebra_simps)
      show "?v \<le> (?V + 1) * R" unfolding vV using b2(2) by (simp add: algebra_simps)
      show "unat q \<le> ?V + 1" using le(1) q0 top by simp
    qed
    ultimately show ?thesis using le q0 by simp
  qed
qed

text \<open>A round on a dividend split at its window; the digit above the window is cleared.\<close>

fun clear_hd :: "digit list \<Rightarrow> digit list" where
  "clear_hd [] = []"
| "clear_hd (x # xs) = 0 # xs"

lemma length_submul: "length (fst (submul_loop q c bs as)) = min (length bs) (length as)"
  by (induction q c bs as rule: submul_loop.induct) (auto simp: Let_def split: prod.splits)

lemma div_step_split:
  fixes lo w hs :: "digit list"
  defines "h \<equiv> (case hs of [] \<Rightarrow> 0 | x # _ \<Rightarrow> ucast x)"
  assumes w: "length w = Suc n" and b: "length b = Suc n"
  obtains a2 where "0 < n \<Longrightarrow> a2 = w ! (n - 1)"
    "\<And>q w' c. q = correct h (w ! n) a2 (b ! n) (if 0 < n then b ! (n - 1) else 0) (estimate h (w ! n) (b ! n)) \<Longrightarrow>
      submul_loop q 0 b w = (w', c) \<Longrightarrow>
      div_step b (length lo) (lo @ w @ hs) =
        (if c - h = 0 then (ucast q, lo @ w' @ clear_hd hs)
         else (ucast (q - 1), lo @ butlast (add_loop 0 w' b) @ clear_hd hs))"
proof
  define a2 where "a2 = (if 2 \<le> Suc n + length lo then (lo @ w @ hs) ! (Suc n + length lo - 2) else 0)"
  show "a2 = w ! (n - 1)" if "0 < n" using that w by (cases n) (simp_all add: a2_def nth_append)
  fix q w' c
  assume q: "q = correct h (w ! n) a2 (b ! n) (if 0 < n then b ! (n - 1) else 0) (estimate h (w ! n) (b ! n))"
    and sub: "submul_loop q 0 b w = (w', c)"
  let ?a = "lo @ w @ hs" and ?i = "Suc n + length lo"
  have hh: "(if ?i < length ?a then ucast (?a ! ?i) else 0) = h"
    using w by (cases hs) (simp_all add: h_def nth_append)
  have w': "length w' = Suc n" using length_submul [of q 0 b w] sub w b by simp
  have a1: "?a ! (?i - 1) = w ! n" using w by (simp add: nth_append)
  have win: "take (Suc n) (drop (length lo) ?a) = w" "take (length lo) ?a = lo" "drop ?i ?a = hs"
    using w by simp_all
  have b2: "(if 2 \<le> Suc n then b ! (Suc n - 2) else 0) = (if 0 < n then b ! (n - 1) else 0)" by auto
  have clr: "(lo @ w' @ hs)[?i := 0] = lo @ w' @ clear_hd hs"
    using w' by (cases hs) (simp_all add: list_update_append list_update_beyond)
  have l: "?i < length ?a \<longleftrightarrow> hs \<noteq> []" using w by simp
  have cl: "hs = [] \<Longrightarrow> clear_hd hs = hs" by simp
  have h0: "hs = [] \<Longrightarrow> h = 0" "hs \<noteq> [] \<Longrightarrow> ucast (?a ! ?i) = h" using hh l by simp_all
  show "div_step b (length lo) ?a = (if c - h = 0 then (ucast q, lo @ w' @ clear_hd hs)
         else (ucast (q - 1), lo @ butlast (add_loop 0 w' b) @ clear_hd hs))"
    unfolding div_step_def Let_def b hh a1 diff_Suc_1 b2 a2_def [symmetric] q [symmetric] win sub prod.case
    unfolding l using clr cl h0 w' by auto
qed

lemma digs_val_butlast:
  assumes "length xs = Suc m" shows "digs_val (butlast xs) = digs_val xs mod 2 ^ (32 * m)"
proof -
  have "digs_val xs = digs_val (butlast xs) + 2 ^ (32 * m) * unat (xs ! m)"
    using digs_val_top_split [OF assms] assms by (simp add: butlast_conv_take)
  moreover have "digs_val (butlast xs) < 2 ^ (32 * m)" using assms by (intro digs_val_lt) simp
  ultimately show ?thesis by simp
qed

text \<open>One round divides the window: its quotient is stored, its remainder stays.\<close>

lemma div_step_val:
  assumes w: "length w = Suc n" and b: "length b = Suc n" and top: "2 ^ 31 \<le> unat (b ! n)"
    and W: "digs_val (w @ hs) < digs_val b * 2 ^ 32"
    and step: "div_step b (length lo) (lo @ w @ hs) = (qd, a')"
  shows "unat qd = digs_val (w @ hs) div digs_val b \<and>
    (\<exists>w'. a' = lo @ w' @ clear_hd hs \<and> length w' = Suc n \<and> digs_val (clear_hd hs) = 0 \<and>
       digs_val w' = digs_val (w @ hs) mod digs_val b)"
proof -
  define h :: ddigit where "h = (case hs of [] \<Rightarrow> 0 | x # _ \<Rightarrow> ucast x)"
  let ?v = "digs_val b" and ?M = "(2 :: nat) ^ (32 * Suc n)"
  define W' where "W' = digs_val (w @ hs)"
  have W'eq: "W' = digs_val w + ?M * digs_val hs" using w by (simp add: W'_def digs_val_append)
  have vM: "?v < ?M" and wM: "digs_val w < ?M" using digs_val_lt [OF b] digs_val_lt [OF w] .
  have "?v * 2 ^ 32 < ?M * 2 ^ 32" by (rule mult_strict_right_mono [OF vM]) simp
  then have "?M * digs_val hs < ?M * 2 ^ 32" using W W'eq unfolding W'_def [symmetric] by linarith
  then have "digs_val hs < 2 ^ 32" by (rule mult_left_less_imp_less) simp
  then have hv: "digs_val hs = unat h" "unat h < 2 ^ 32" and clr: "digs_val (clear_hd hs) = 0"
    by (cases hs; simp add: h_def)+
  obtain a2 where a2: "0 < n \<Longrightarrow> a2 = w ! (n - 1)" and ds:
    "\<And>q w' c. q = correct h (w ! n) a2 (b ! n) (if 0 < n then b ! (n - 1) else 0) (estimate h (w ! n) (b ! n)) \<Longrightarrow>
      submul_loop q 0 b w = (w', c) \<Longrightarrow>
      div_step b (length lo) (lo @ w @ hs) =
        (if c - h = 0 then (ucast q, lo @ w' @ clear_hd hs)
         else (ucast (q - 1), lo @ butlast (add_loop 0 w' b) @ clear_hd hs))"
    by (rule div_step_split [OF w b, of hs lo, folded h_def]) blast
  define q where "q = correct h (w ! n) a2 (b ! n) (if 0 < n then b ! (n - 1) else 0) (estimate h (w ! n) (b ! n))"
  obtain w' c where sub: "submul_loop q 0 b w = (w', c)" by fastforce
  have "W' = digs_val w + ?M * unat h" using W'eq hv by simp
  then have Q: "W' div ?v \<le> unat q" "unat q \<le> W' div ?v + 1" and q32: "unat q < 2 ^ 32"
    using corrected_estimate [OF w b top hv(2) _ _ a2 q_def] W unfolding W'_def [symmetric] by blast+
  have s: "length w' = Suc n" "digs_val w + ?M * unat c = digs_val w' + unat q * ?v"
    using submul_val [OF q32 _ _ sub] w b by simp_all
  have w'M: "digs_val w' < ?M" by (rule digs_val_lt [OF s(1)])
  have bal: "W' + ?M * unat c = digs_val w' + unat q * ?v + ?M * unat h" using s(2) W'eq hv(1) by simp
  have v0: "0 < ?v"
  proof -
    have "0 < unat (b ! n)" using top by (rule less_le_trans [rotated]) simp
    then show ?thesis using digs_val_top_split [OF b] by simp
  qed
  define Q where "Q = W' div ?v"
  define R where "R = W' mod ?v"
  have QR: "W' = Q * ?v + R" "R < ?v" using v0 by (simp_all add: Q_def R_def)
  show ?thesis
  proof (cases "unat q = Q")
    case True
    then have e: "R + ?M * unat c = digs_val w' + ?M * unat h" using bal QR(1) by simp
    have RM: "R < ?M" using QR(2) vM by simp
    have "R = digs_val w'" using arg_cong [OF e, of "\<lambda>x. x mod ?M"] RM w'M by simp
    moreover from this e have "unat c = unat h" by simp
    moreover from \<open>unat c = unat h\<close> have "c = h" by (simp add: word_unat_eq_iff)
    moreover have "div_step b (length lo) (lo @ w @ hs) = (ucast q, lo @ w' @ clear_hd hs)"
      using ds [OF q_def sub] \<open>c = h\<close> by simp
    ultimately show ?thesis
      using step True clr s(1) q32 unfolding W'_def [symmetric] Q_def R_def by (auto simp: ucast_small)
  next
    case False
    then have q1: "unat q = Suc Q" using Q unfolding Q_def by simp
    then have e: "R + ?M * unat c = digs_val w' + ?v + ?M * unat h" using bal QR(1) by simp
    have "?M * unat h < ?M * unat c" using e QR(2) by linarith
    then have "unat h < unat c" by (rule mult_left_less_imp_less) simp
    have "?M * unat c < ?M * (2 + unat h)" using e w'M vM unfolding distrib_left by linarith
    then have "unat c < 2 + unat h" by (rule mult_left_less_imp_less) simp
    with \<open>unat h < unat c\<close> have c1: "unat c = Suc (unat h)" by simp
    then have cne: "c - h \<noteq> 0" by auto
    have "R + ?M = digs_val w' + ?v" using e c1 by simp
    then have "(digs_val w' + ?v) mod ?M = (R + ?M) mod ?M" by (rule arg_cong [OF sym])
    also have "\<dots> = R" using QR(2) vM by simp
    finally have "digs_val (butlast (add_loop 0 w' b)) = R"
      using digs_val_butlast [of "add_loop 0 w' b" "Suc n"] add_loop_val [of b w' 0] s(1) b by simp
    moreover have "div_step b (length lo) (lo @ w @ hs) = (ucast (q - 1), lo @ butlast (add_loop 0 w' b) @ clear_hd hs)"
      using ds [OF q_def sub] cne by simp
    moreover have "unat (ucast (q - 1) :: digit) = Q"
    proof -
      have "unat (q - 1) = Q" using q1 by (simp add: unat_minus_one unat_gt_0 flip: unat_gt_0)
      then show ?thesis using q32 q1 by (subst ucast_small) simp_all
    qed
    ultimately show ?thesis
      using step clr s(1) unfolding W'_def [symmetric] Q_def R_def by auto
  qed
qed

text \<open>All rounds: the digits of the quotient, and the remainder in place of the dividend.\<close>

lemma div_loop_val:
  assumes b: "length b = Suc n" and top: "2 ^ 31 \<le> unat (b ! n)"
  shows "k + n \<le> length a \<Longrightarrow> digs_val (drop k a) < digs_val b \<Longrightarrow> div_loop b k a = (qs, a') \<Longrightarrow>
    length qs = k \<and> length a' = length a \<and> digs_val a' < digs_val b \<and>
    digs_val a = digs_val qs * digs_val b + digs_val a'"
proof (induction k arbitrary: a qs)
  case (Suc k)
  let ?v = "digs_val b"
  define lo where "lo = take k a"
  define w where "w = take (Suc n) (drop k a)"
  define hs where "hs = drop (Suc n) (drop k a)"
  have a: "a = lo @ w @ hs" unfolding lo_def w_def hs_def append_take_drop_id ..
  have lo: "length lo = k" and w: "length w = Suc n" using Suc.prems(1) by (simp_all add: lo_def w_def)
  have "drop k a = a ! k # drop (Suc k) a" using Suc.prems(1) by (simp add: Cons_nth_drop_Suc)
  then have "digs_val (drop k a) = unat (a ! k) + 2 ^ 32 * digs_val (drop (Suc k) a)" by simp
  moreover have "unat (a ! k) < 2 ^ 32" using unat_digit_lt by simp
  moreover have "2 ^ 32 * Suc (digs_val (drop (Suc k) a)) \<le> 2 ^ 32 * ?v" using Suc.prems(2) by (intro mult_le_mono2) simp
  moreover have dw: "drop k a = w @ hs" unfolding w_def hs_def append_take_drop_id ..
  ultimately have W: "digs_val (w @ hs) < ?v * 2 ^ 32" by simp
  obtain q a1 where st: "div_step b k a = (q, a1)" by fastforce
  obtain qs1 where rest: "div_loop b k a1 = (qs1, a')" and qs: "qs = qs1 @ [q]"
    using Suc.prems(3) st by (auto split: prod.splits)
  obtain w' where w': "a1 = lo @ w' @ clear_hd hs" "length w' = Suc n" "digs_val (clear_hd hs) = 0"
    "digs_val w' = digs_val (w @ hs) mod ?v" and q: "unat q = digs_val (w @ hs) div ?v"
    using div_step_val [OF w b top W, of lo q a1] st a lo by auto
  have lhs: "length (clear_hd hs) = length hs" by (cases hs) simp_all
  have la: "length a1 = length a" unfolding a w'(1) using w'(2) w lhs by simp
  have d1: "digs_val (drop k a1) = digs_val (w @ hs) mod ?v"
    unfolding w'(1) using lo w' by (simp add: digs_val_append)
  have v0: "0 < ?v" using Suc.prems(2) by simp
  have IH: "length qs1 = k" "length a' = length a1" "digs_val a' < ?v" "digs_val a1 = digs_val qs1 * ?v + digs_val a'"
    using Suc.IH [OF _ _ rest] Suc.prems(1) d1 v0 la by auto
  have A: "digs_val a = digs_val lo + 2 ^ (32 * k) * digs_val (w @ hs)"
    using a lo by (simp add: digs_val_append)
  have A1: "digs_val a1 = digs_val lo + 2 ^ (32 * k) * (digs_val (w @ hs) mod ?v)"
    unfolding w'(1) using lo w' by (simp add: digs_val_append)
  have "digs_val (w @ hs) = unat q * ?v + digs_val (w @ hs) mod ?v" unfolding q by simp
  then have "digs_val a = digs_val lo + 2 ^ (32 * k) * (unat q * ?v + digs_val (w @ hs) mod ?v)" using A by metis
  also have "\<dots> = (digs_val qs1 + 2 ^ (32 * k) * unat q) * ?v + digs_val a'"
    using IH A1 by (simp add: algebra_simps del: digs_val_append)
  also have "digs_val qs1 + 2 ^ (32 * k) * unat q = digs_val qs" using IH by (simp add: qs digs_val_append)
  finally show ?case using IH la qs by simp
qed simp

end
