(* ===== verification/Long_Div_Ops.thy ===== *)
theory Long_Div_Ops
  imports Long_Div_Lemmas
begin

text \<open>
  Correctness of division and powers of Int values of any size, built on the digit loops.
  The conditions under which a quotient or a remainder is the mathematical one are those
  the code needs: see the header of the development for what happens outside of them.
\<close>

section \<open>Operations that leave their result as it is\<close>

text \<open>A new block that holds a magnitude, possibly with leading zero digits.\<close>

definition raw :: "nat \<Rightarrow> nat \<Rightarrow> aint \<Rightarrow> bool" where
  "raw n k v \<longleftrightarrow> (\<exists>li. v = ALong li \<and> fresh n li \<and> digs_val (digits li) = k)"

lemma raw_put: "fresh n d \<Longrightarrow> length ds = n \<Longrightarrow> raw n (digs_val ds) (ALong (put_digits ds d))"
  using fresh_put_digits [of n d ds] by (auto simp: raw_def)

lemma meets_raw_long:
  assumes "meets Q m (raw n k)" and "\<And>li. fresh n li \<Longrightarrow> digs_val (digits li) = k \<Longrightarrow> meets Q (f li) R"
  shows "meets Q (bindM m (\<lambda>v. the_long v f)) R"
  by (rule meets_bind [OF assms(1)]) (use assms(2) in \<open>auto simp: raw_def\<close>)

lemma meets_SubAbsoluteSingle_raw:
  assumes "wf_li a" "unat i \<le> digs_val (digits a)"
  shows "meets Q (SubAbsoluteSingle a i False) (raw (li_len a) (digs_val (digits a) - unat i))"
  unfolding SubAbsoluteSingle_def using assms raw_put [of "li_len a" _ "sub_single_loop i (digits a)"]
  by (auto simp: Let_def sub_single_val intro!: meets_create_then meets_ret)

lemma meets_AddAbsolute_raw:
  assumes "wf_li a" "wf_li b"
  shows "meets Q (AddAbsolute a b False)
    (raw (max (li_len a) (li_len b) + 1) (digs_val (digits a) + digs_val (digits b)))"
proof -
  have *: "meets Q (AddAbsolute a b False) (raw (li_len x + 1) (digs_val (digits x) + digs_val (digits y)))"
    if "(if li_len a < li_len b then (b, a) else (a, b)) = (x, y)" for x y
  proof -
    have xy: "wf_li x" "wf_li y" "li_len y \<le> li_len x" using that assms by (auto split: if_splits)
    then have v: "digs_val (add_loop 0 (digits x) (digits y)) = digs_val (digits x) + digs_val (digits y)"
      by (subst add_loop_val) auto
    show ?thesis
      unfolding AddAbsolute_def that using xy raw_put [of "Suc (li_len x)" _ "add_loop 0 (digits x) (digits y)"]
      by (auto simp: Let_def v intro!: meets_create_then meets_ret)
  qed
  show ?thesis
  proof (cases "li_len a < li_len b")
    case True
    with * [of b a] show ?thesis by (simp add: max_def add.commute [of "digs_val (digits b)"])
  next
    case False
    with * [of a b] show ?thesis by (simp add: max_def)
  qed
qed

lemma meets_SubAbsolute_raw:
  assumes wf: "wf_li a" "wf_li b" and len: "li_len b \<le> li_len a"
    and le: "digs_val (digits b) \<le> digs_val (digits a)"
  shows "meets Q (SubAbsolute a b False) (raw (li_len a) (digs_val (digits a) - digs_val (digits b)))"
proof -
  have "\<not> (li_len a = li_len b \<and> below_top (rev (digits a)) (rev (digits b)))"
    using assms by (auto simp: below_top_iff)
  then have eq: "SubAbsolute a b False = bindM (CreateLongInt (li_len a))
         (\<lambda>(gc, d). ret (ALong (put_digits (sub_loop 0 (digits a) (digits b)) d)))"
    using len by (auto simp: SubAbsolute_def Let_def split: if_splits intro!: ext)
  show ?thesis
    unfolding eq using wf len le raw_put [of "li_len a" _ "sub_loop 0 (digits a) (digits b)"]
      sub_loop_val [of "digits b" "digits a"]
    by (auto intro!: meets_create_then meets_ret)
qed

section \<open>Normalisation in every case\<close>

lemma meets_normalize_any:
  assumes "wf_li li" "1 \<le> li_len li" "\<not> li_neg li"
  shows "meets Q (ANormalize li s) (\<lambda>_. True)"
  unfolding ANormalize_def
  by (rule meets_bind [OF meets_TruncateZeroDigits [OF assms]])
    (auto simp: Let_def intro!: meets_ret)

text \<open>A block of one digit that is not zero, taken as non-negative.\<close>

lemma meets_normalize_digit:
  assumes "wf_li li" "li_len li = 1" "\<not> li_neg li" "digs_val (digits li) \<noteq> 0"
  shows "meets Q (ANormalize li False) (returns_int (int (digs_val (digits li))))"
proof -
  let ?d = "li_cells li ! 0"
  have "2 \<le> length (li_cells li)" using assms(1) by (simp add: wf_li_def)
  then have ds: "digits li = [?d]" using assms(2) by (cases "li_cells li") (auto simp: digits_def)
  then have "?d \<noteq> 0" using assms(4) by auto
  then have eq: "ANormalize li False = ret (AShort (AIntToValue (ucast ?d)))"
    using assms(2) by (auto simp: ANormalize_def TruncateZeroDigits_def bind_ret Let_def)
  have "digs_val (digits li) < 2 ^ 61" unfolding ds using unat_digit_lt [of ?d] by simp
  then have "fits_short (int (digs_val (digits li)))" by (simp add: fits_short_def)
  from short_of_int [OF this] show ?thesis
    unfolding eq by (intro meets_ret) (simp add: returns_int_def ds del: int_value.simps)
qed

lemma meets_watch_gc:
  assumes "meets Q m P"
  shows "meets Q (watch_gc m) (\<lambda>(g, x). P x \<and> (Q = no_gc \<longrightarrow> \<not> g))"
proof (rule meetsI)
  fix t :: athread assume t: "list_all Q (allocs t)"
  obtain r t' where mt: "m t = (r, t')" by fastforce
  have ok: "outcome_ok P t (r, t')" using meetsD [OF assms t] mt by simp
  have "\<not> list_ex (\<lambda>r. \<not> no_gc r) (take k (allocs t))" if "Q = no_gc" for k
    using t that by (auto simp: list_all_iff list_ex_iff dest: in_set_takeD)
  with ok mt show "outcome_ok (\<lambda>(g, x). P x \<and> (Q = no_gc \<longrightarrow> \<not> g)) t (watch_gc m t)"
    by (cases r) (auto simp: outcome_ok_def watch_gc_def)
qed

section \<open>Long division\<close>

text \<open>The numerator and the block kept in the temporary stack.\<close>

definition num_of :: "longint \<Rightarrow> longint \<Rightarrow> nat" where
  "num_of a b = (if li_neg a \<noteq> li_neg b then digs_val (digits a) + digs_val (digits b) - 1 else digs_val (digits a))"

definition numlen_of :: "longint \<Rightarrow> longint \<Rightarrow> nat" where
  "numlen_of a b = (if li_neg a \<noteq> li_neg b then max (li_len a) (li_len b) + 1 else li_len a)"

lemma meets_round_operand:
  assumes "wf_li a" "wf_li b" "0 < digs_val (digits b)"
  shows "meets Q (round_operand a b)
    (\<lambda>(num, tmp). wf_li num \<and> li_len num = numlen_of a b \<and> digs_val (digits num) = num_of a b \<and>
      (li_neg a \<noteq> li_neg b \<longrightarrow> wf_li tmp \<and> li_len tmp = li_len b \<and> digs_val (digits tmp) = digs_val (digits b) - 1))"
    (is "meets Q _ ?P")
proof (cases "li_neg a = li_neg b")
  case False
  then have eq: "round_operand a b = bindM (SubAbsoluteSingle b 1 False)
          (\<lambda>tmp. the_long tmp (\<lambda>tmp. bindM (AddAbsolute a tmp False)
             (\<lambda>s. the_long s (\<lambda>s. ret (s, tmp)))))"
    by (simp add: round_operand_def)
  show ?thesis unfolding eq
  proof (rule meets_raw_long [OF meets_SubAbsoluteSingle_raw [OF assms(2)]])
    show "unat (1 :: digit) \<le> digs_val (digits b)" using assms(3) by simp
    fix tmp assume tmp: "fresh (li_len b) tmp" "digs_val (digits tmp) = digs_val (digits b) - unat (1 :: digit)"
    then have wt: "wf_li tmp" "li_len tmp = li_len b" by (simp_all add: fresh_def)
    show "meets Q (bindM (AddAbsolute a tmp False) (\<lambda>s. the_long s (\<lambda>s. ret (s, tmp)))) ?P"
      by (rule meets_raw_long [OF meets_AddAbsolute_raw [OF assms(1) wt(1)]])
        (use tmp wt False assms(3) in \<open>auto intro!: meets_ret simp: num_of_def numlen_of_def fresh_def\<close>)
  qed
qed (use assms in \<open>auto simp: round_operand_def num_of_def numlen_of_def intro!: meets_ret\<close>)

text \<open>The digits of quotient and remainder after the shifts are undone.\<close>

lemma scaled_div:
  assumes "n * s = q * (v * s) + r" "r < v * (s :: nat)" "0 < s"
  shows "q = n div v" "r div s = n mod v"
proof -
  have "s dvd q * (v * s) + r" using assms(1) by (metis dvd_triv_right)
  then have "s dvd r" by (simp add: dvd_add_right_iff)
  then obtain k where k: "r = s * k" by (auto elim: dvdE)
  have "s * n = s * (q * v + k)" using assms(1) k by (simp add: algebra_simps)
  then have n: "n = q * v + k" using assms(3) by simp
  have "k < v" using assms(2,3) k by (simp add: mult.commute)
  then show "q = n div v" "r div s = n mod v" using n k assms(3) by simp_all
qed

lemma div_digits:
  assumes b: "b \<noteq> []" "last b \<noteq> 0" and num: "num \<noteq> []"
    and a0: "length a0 = Suc (length num)" and b0: "length b0 = length b" and le: "length b \<le> Suc (length num)"
  defines "s \<equiv> norm_shift (push_bit 31 1) 0 (b ! (length b - 1))"
  assumes dl: "div_loop (Shl b b0 s) (Suc (length num) - length b + 1) (Shl num a0 s) = (qs, as)"
  shows "length qs = Suc (length num) - length b + 1" "length (Shr as as s) = Suc (length num)"
    "digs_val qs = digs_val num div digs_val b" "digs_val (Shr as as s) = digs_val num mod digs_val b"
proof -
  obtain n where n: "length b = Suc n" using b by (cases b) auto
  have lb: "last b = b ! n" using b n by (simp add: last_conv_nth)
  note S = norm_shift_top [of "b ! n"]
  have sd: "s = norm_shift (push_bit 31 1) 0 (b ! n)" using n by (simp add: s_def)
  have s: "s \<le> 31" "2 ^ 31 \<le> unat (b ! n) * 2 ^ s" "unat (b ! n) * 2 ^ s < 2 ^ 32"
    using S b(2) lb by (simp_all add: sd)
  have s32: "s < 32" using s(1) by simp
  note A = Shl_val [OF s32 num, of a0]
  note B = Shl_val [OF s32 b(1), of b0]
  have A': "length (Shl num a0 s) = Suc (length num)" "digs_val (Shl num a0 s) = digs_val num * 2 ^ s"
    using A a0 by simp_all
  have B': "length (Shl b b0 s) = Suc n" "digs_val (Shl b b0 s) = digs_val b * 2 ^ s"
    using B b0 n lb s(3) by simp_all
  have top: "2 ^ 31 \<le> unat (Shl b b0 s ! n)"
  proof -
    define P :: nat where "P = 2 ^ (32 * n)"
    let ?B = "Shl b b0 s"
    have "digs_val ?B = digs_val (take n ?B) + P * unat (?B ! n)" "digs_val (take n ?B) < P"
      using digs_val_top_split [OF B'(1)] digs_val_lt [of "take n ?B" n] B'(1) by (simp_all add: P_def)
    moreover have "P * (unat (b ! n) * 2 ^ s) \<le> digs_val ?B"
      using digs_val_top_split [OF n] B'(2) by (simp add: P_def algebra_simps)
    moreover have "P * 2 ^ 31 \<le> P * (unat (b ! n) * 2 ^ s)" using s(2) by (rule mult_le_mono2)
    ultimately have "P * 2 ^ 31 < P * (unat (?B ! n) + 1)" unfolding distrib_left by linarith
    then have "2 ^ 31 < unat (?B ! n) + 1" by (rule mult_left_less_imp_less) simp
    then show ?thesis by simp
  qed
  have small: "digs_val (drop (Suc (length num) - length b + 1) (Shl num a0 s)) < digs_val (Shl b b0 s)"
  proof -
    have "length (drop (Suc (length num) - length b + 1) (Shl num a0 s)) = n" using A'(1) n le by simp
    then have "digs_val (drop (Suc (length num) - length b + 1) (Shl num a0 s)) < 2 ^ (32 * n)" by (rule digs_val_lt)
    also have "\<dots> \<le> 2 ^ (32 * n) * unat (Shl b b0 s ! n)"
    proof -
      have "1 \<le> unat (Shl b b0 s ! n)" using top by (rule le_trans [rotated]) simp
      then show ?thesis by simp
    qed
    also have "\<dots> \<le> digs_val (Shl b b0 s)" using digs_val_top_split [OF B'(1)] by simp
    finally show ?thesis .
  qed
  have L: "length qs = Suc (length num) - length b + 1" "length as = Suc (length num)"
    "digs_val as < digs_val b * 2 ^ s" "digs_val num * 2 ^ s = digs_val qs * (digs_val b * 2 ^ s) + digs_val as"
    using div_loop_val [OF B'(1) top _ small dl] A' B' n le by auto
  have "as \<noteq> []" using L(2) by auto
  note R = Shr_val [OF s32 this]
  show "length qs = Suc (length num) - length b + 1" "length (Shr as as s) = Suc (length num)"
    using L R by simp_all
  show "digs_val qs = digs_val num div digs_val b" "digs_val (Shr as as s) = digs_val num mod digs_val b"
    using scaled_div [OF L(4,3)] R(2) by simp_all
qed

text \<open>Rounding towards minus infinity by way of the adjusted numerator.\<close>

lemma floor_neg:
  assumes "0 < nb"
  shows "(- int na) div int nb = - int ((na + nb - 1) div nb)"
    "(- int na) mod int nb = int (nb - 1 - (na + nb - 1) mod nb)"
proof -
  define q where "q = (na + nb - 1) div nb"
  define r where "r = (na + nb - 1) mod nb"
  have "q * nb + r = na + nb - 1" by (simp add: q_def r_def)
  then have e: "int q * int nb + int r = int na + int nb - 1" using assms by (simp flip: of_nat_mult of_nat_add)
  have r: "r < nb" using assms by (simp add: r_def)
  have e': "- int na = int nb * (- int q) + (int nb - 1 - int r)" using e by (simp add: algebra_simps)
  show "(- int na) div int nb = - int ((na + nb - 1) div nb)"
    unfolding q_def [symmetric] by (rule int_div_pos_eq [OF e']) (use r in simp_all)
  have "(- int na) mod int nb = int nb - 1 - int r"
    by (rule int_mod_pos_eq [OF e']) (use r in simp_all)
  then show "(- int na) mod int nb = int (nb - 1 - (na + nb - 1) mod nb)"
    using r unfolding r_def [symmetric] by (simp add: of_nat_diff)
qed

definition rem_of :: "longint \<Rightarrow> longint \<Rightarrow> nat" where
  "rem_of a b = (if li_neg a \<noteq> li_neg b then digs_val (digits b) - 1 - num_of a b mod digs_val (digits b)
     else num_of a b mod digs_val (digits b))"

lemma floor_value:
  assumes "0 < digs_val (digits b)"
  shows "li_value a div li_value b = with_sign (li_neg a \<noteq> li_neg b) (num_of a b div digs_val (digits b))"
    "li_value a mod li_value b = with_sign (li_neg b) (rem_of a b)"
  using floor_neg [OF assms, of "digs_val (digits a)"]
  by (cases "li_neg a"; cases "li_neg b";
      simp add: li_value_def with_sign_def num_of_def rem_of_def zdiv_int zmod_int div_minus_right mod_minus_right)+

text \<open>
  The sizes and allocations for which the code gets the remainder and the quotient right: a
  remainder kept in one digit must be positive, a quotient must have a block of two digits or
  more, and no collection may move a block before it is made negative.
\<close>

definition rem_ok :: "(alloc \<Rightarrow> bool) \<Rightarrow> longint \<Rightarrow> longint \<Rightarrow> bool" where
  "rem_ok Q a b \<longleftrightarrow>
     (if li_neg a \<noteq> li_neg b then 2 \<le> li_len b \<or> \<not> li_neg b \<and> rem_of a b \<noteq> 0
      else li_neg b \<longrightarrow> Q = no_gc)"

definition quot_ok :: "(alloc \<Rightarrow> bool) \<Rightarrow> longint \<Rightarrow> longint \<Rightarrow> bool" where
  "quot_ok Q a b \<longleftrightarrow> (if li_neg a \<noteq> li_neg b then Q = no_gc else li_len b \<le> li_len a)"

lemma trunc_len_bound:
  assumes "truncated li s r" "digs_val (digits li) < 2 ^ (32 * k)" "1 \<le> k"
  shows "li_len r \<le> k"
proof (rule ccontr)
  assume k: "\<not> li_len r \<le> k"
  have "wf_li r" "1 < li_len r" and v: "digs_val (digits r) = digs_val (digits li)"
    using assms k by (auto simp: truncated_def)
  moreover from this have "digits r \<noteq> []" by (auto simp flip: length_greater_0_conv)
  ultimately have "2 ^ (32 * (li_len r - 1)) \<le> digs_val (digits r)"
    using digs_val_top [of "digits r"] assms(1) by (simp add: truncated_def)
  moreover have "(2 :: nat) ^ (32 * k) \<le> 2 ^ (32 * (li_len r - 1))" using k by (intro power_increasing) simp_all
  ultimately show False using assms(2) v by linarith
qed

text \<open>The block of the remainder before its normalisation.\<close>

lemma meets_rem_block:
  assumes b: "wf_li b" "1 \<le> li_len b" "0 < digs_val (digits b)"
    and ra: "wf_li ra" "\<not> li_neg ra" "2 \<le> li_len ra" "Q = no_gc \<Longrightarrow> li_newGen ra"
      "digs_val (digits ra) = num_of a b mod digs_val (digits b)"
    and tmp: "li_neg a \<noteq> li_neg b \<Longrightarrow> wf_li tmp \<and> li_len tmp = li_len b \<and> digs_val (digits tmp) = digs_val (digits b) - 1"
  shows "meets Q (if li_neg a \<noteq> li_neg b then
        bindM (TruncateZeroDigits ra False) (\<lambda>a. bindM (SubAbsolute tmp a False) (\<lambda>r. the_long r ret))
      else ret ra)
    (\<lambda>r. wf_li r \<and> \<not> li_neg r \<and> li_len r = (if li_neg a \<noteq> li_neg b then li_len b else li_len ra)
       \<and> digs_val (digits r) = rem_of a b \<and> (li_neg a \<noteq> li_neg b \<or> Q = no_gc \<longrightarrow> li_newGen r))"
    (is "meets Q _ ?P")
proof (cases "li_neg a = li_neg b")
  case False
  let ?v = "digs_val (digits b)"
  have t: "wf_li tmp" "li_len tmp = li_len b" "digs_val (digits tmp) = ?v - 1" using tmp [OF False] by auto
  have "meets Q (bindM (TruncateZeroDigits ra False) (\<lambda>a. bindM (SubAbsolute tmp a False) (\<lambda>r. the_long r ret))) ?P"
  proof (rule meets_bind [OF meets_TruncateZeroDigits [OF ra(1) _ ra(2)]])
    show "1 \<le> li_len ra" using ra(3) by simp
    fix r assume r: "truncated ra False r"
    have lt: "digs_val (digits ra) < ?v" using ra(5) b(3) by simp
    also have "?v < 2 ^ (32 * li_len b)" using b(1) by (intro digs_val_lt) simp
    finally have "li_len r \<le> li_len b" using trunc_len_bound [OF r _ b(2)] by simp
    moreover have rv: "digs_val (digits r) = digs_val (digits ra)" "wf_li r" using r by (simp_all add: truncated_def)
    ultimately have "meets Q (SubAbsolute tmp r False) (raw (li_len tmp) (digs_val (digits tmp) - digs_val (digits r)))"
      using lt t by (intro meets_SubAbsolute_raw) simp_all
    then show "meets Q (bindM (SubAbsolute tmp r False) (\<lambda>r. the_long r ret)) ?P"
      by (rule meets_raw_long) (use False t rv ra(5) in \<open>auto intro!: meets_ret simp: fresh_def rem_of_def\<close>)
  qed
  then show ?thesis using False by simp
qed (use ra in \<open>auto intro!: meets_ret simp: rem_of_def\<close>)

lemma promote_fresh: "fresh n d \<Longrightarrow> wf_li (promote g d) \<and> \<not> li_neg (promote g d) \<and> li_len (promote g d) = n
    \<and> digits (promote g d) = digits d \<and> (\<not> g \<longrightarrow> li_newGen (promote g d))"
  by (simp add: fresh_def)

text \<open>Normalisation of quotient and remainder.\<close>

lemma meets_div_results:
  assumes b: "wf_li b" "1 \<le> li_len b" "0 < digs_val (digits b)"
    and r: "meets Q m (\<lambda>r. wf_li r \<and> \<not> li_neg r \<and> li_len r = rl \<and> digs_val (digits r) = rem_of a b
        \<and> (li_neg a \<noteq> li_neg b \<or> Q = no_gc \<longrightarrow> li_newGen r))"
    and rl: "rl = (if li_neg a \<noteq> li_neg b then li_len b else al)" "2 \<le> al"
    and d: "fresh dl d" "digs_val (digits d) = num_of a b div digs_val (digits b)" "1 \<le> dl"
    and dl: "li_neg a \<noteq> li_neg b \<or> li_len b \<le> li_len a \<Longrightarrow> 2 \<le> dl"
  shows "meets Q (bindM (watch_gc m)
       (\<lambda>(gc3, a'). bindM (watch_gc (ANormalize a' (li_neg b)))
       (\<lambda>(gc4, md). bindM (watch_gc (ANormalize (promote (gc3 \<or> gc4) d) (li_neg a \<noteq> li_neg b)))
       (\<lambda>(gc5, q). ret (q, md, gc5)))))
     (\<lambda>(q, md, gc5). (Q = no_gc \<longrightarrow> \<not> gc5) \<and> (quot_ok Q a b \<longrightarrow> returns_int (li_value a div li_value b) q) \<and>
                (rem_ok Q a b \<longrightarrow> returns_int (li_value a mod li_value b) md))"
    (is "meets Q _ ?P")
proof (rule meets_bind [OF meets_watch_gc [OF r]], clarify)
  fix g3 r
  assume r: "wf_li r" "\<not> li_neg r" "rl = li_len r" "digs_val (digits r) = rem_of a b"
    "li_neg a \<noteq> li_neg b \<or> Q = no_gc \<longrightarrow> li_newGen r" and g3: "Q = no_gc \<longrightarrow> \<not> g3"
  let ?neg = "li_neg b" and ?differ = "li_neg a \<noteq> li_neg b"
  have N: "meets Q (ANormalize r ?neg) (\<lambda>md. rem_ok Q a b \<longrightarrow> returns_int (li_value a mod li_value b) md)"
  proof (cases "rem_ok Q a b")
    case False
    have "1 \<le> li_len r" using r(3) rl b(2) by (auto split: if_splits)
    then show ?thesis using False meets_normalize_any [OF r(1) _ r(2)] by simp
  next
    case True
    show ?thesis
    proof (cases "2 \<le> li_len r")
      case True
      have "li_newGen r \<or> \<not> ?neg" using \<open>rem_ok Q a b\<close> r(5) by (auto simp: rem_ok_def split: if_splits)
      show ?thesis
        by (rule meets_mono [OF meets_ANormalize [OF r(1) True r(2) \<open>li_newGen r \<or> \<not> ?neg\<close>]])
          (use floor_value(2) [OF b(3), of a] r(4) in \<open>simp add: returns_int_def\<close>)
    next
      case False
      then have one: "li_len r = 1" "?differ" using r(3) rl b(2) by (auto split: if_splits)
      then have "\<not> ?neg" "digs_val (digits r) \<noteq> 0"
        using \<open>rem_ok Q a b\<close> False r(3,4) rl by (auto simp: rem_ok_def)
      with meets_normalize_digit [OF r(1) one(1) r(2), of Q] show ?thesis
        using floor_value(2) [OF b(3), of a] r(4) \<open>rem_ok Q a b\<close> by (simp add: with_sign_def)
    qed
  qed
  show "meets Q (bindM (watch_gc (ANormalize r ?neg)) (\<lambda>(g4, md). bindM (watch_gc (ANormalize (promote (g3 \<or> g4) d) ?differ))
       (\<lambda>(gc5, q). ret (q, md, gc5)))) ?P"
  proof (rule meets_bind [OF meets_watch_gc [OF N]], clarify)
    fix g4 md
    assume md: "rem_ok Q a b \<longrightarrow> returns_int (li_value a mod li_value b) md" and g4: "Q = no_gc \<longrightarrow> \<not> g4"
    let ?d = "promote (g3 \<or> g4) d"
    note D = promote_fresh [OF d(1), of "g3 \<or> g4"]
    have "meets Q (ANormalize ?d ?differ) (\<lambda>q. quot_ok Q a b \<longrightarrow> returns_int (li_value a div li_value b) q)"
    proof (cases "quot_ok Q a b")
      case True
      then have "2 \<le> li_len ?d" using D dl by (auto simp: quot_ok_def split: if_splits)
      moreover have "li_newGen ?d \<or> \<not> ?differ" using True D g3 g4 by (auto simp: quot_ok_def split: if_splits)
      ultimately have "meets Q (ANormalize ?d ?differ)
          (\<lambda>v. norm_int v \<and> int_value v = with_sign ?differ (digs_val (digits ?d)))"
        using D by (intro meets_ANormalize) simp_all
      then show ?thesis
        by (rule meets_mono) (use D d(2) floor_value(1) [OF b(3), of a] in \<open>simp add: returns_int_def\<close>)
    qed (use meets_normalize_any [of ?d Q ?differ] D d(3) in simp)
    then show "meets Q (bindM (watch_gc (ANormalize ?d ?differ)) (\<lambda>(gc5, q). ret (q, md, gc5))) ?P"
      by (intro meets_bind [OF meets_watch_gc]) (use md in \<open>auto intro!: meets_ret\<close>)
  qed
qed

lemma operand_last:
  assumes "operand b" "0 < digs_val (digits b)"
  shows "digits b \<noteq> []" "last (digits b) \<noteq> 0" "length (digits b) = li_len b" "1 \<le> li_len b"
proof -
  have b: "wf_li b" "1 \<le> li_len b" using assms(1) by (simp_all add: operand_def)
  then show l: "length (digits b) = li_len b" "1 \<le> li_len b" by simp_all
  then show "digits b \<noteq> []" by auto
  show "last (digits b) \<noteq> 0"
  proof (cases "2 \<le> li_len b")
    case True
    then show ?thesis using assms(1) by (simp add: operand_def)
  next
    case False
    then have "length (digits b) = 1" using l by simp
    then obtain x where "digits b = [x]" by (auto simp: length_Suc_conv)
    then show ?thesis using assms(2) by auto
  qed
qed

abbreviation div_post :: "(alloc \<Rightarrow> bool) \<Rightarrow> longint \<Rightarrow> longint \<Rightarrow> aint \<times> aint \<times> bool \<Rightarrow> bool" where
  "div_post Q a b \<equiv> (\<lambda>(q, md, gc5). (Q = no_gc \<longrightarrow> \<not> gc5) \<and> (quot_ok Q a b \<longrightarrow> returns_int (li_value a div li_value b) q) \<and>
                (rem_ok Q a b \<longrightarrow> returns_int (li_value a mod li_value b) md))"

lemma put_digits_promoted:
  assumes "fresh n d" "length ds = n"
  shows "wf_li (put_digits ds (promote g d))" "\<not> li_neg (put_digits ds (promote g d))"
    "li_len (put_digits ds (promote g d)) = n" "digits (put_digits ds (promote g d)) = ds"
    "\<not> g \<Longrightarrow> li_newGen (put_digits ds (promote g d))"
proof -
  have eq: "put_digits ds (promote g d) = promote g (put_digits ds d)" by (simp add: put_digits_def promote_def)
  show "wf_li (put_digits ds (promote g d))" "\<not> li_neg (put_digits ds (promote g d))"
    "li_len (put_digits ds (promote g d)) = n" "digits (put_digits ds (promote g d)) = ds"
    "\<not> g \<Longrightarrow> li_newGen (put_digits ds (promote g d))"
    using promote_fresh [OF fresh_put_digits(2) [OF assms], of g] fresh_put_digits(1) [OF assms]
    by (simp_all add: eq)
qed

lemma meets_div_rounds:
  assumes b: "operand b" and v: "0 < digs_val (digits b)" and num: "num \<noteq> []"
    and num': "length num = numlen_of a b" "digs_val num = num_of a b"
    and la: "li_neg a \<noteq> li_neg b \<or> li_len b \<le> li_len a + 1"
    and ba: "fresh (Suc (length num)) ba" "length da = Suc (length num)" and bb: "fresh (li_len b) bb" "length db = li_len b"
    and tmp: "li_neg a \<noteq> li_neg b \<Longrightarrow> wf_li tmp \<and> li_len tmp = li_len b \<and> digs_val (digits tmp) = digs_val (digits b) - 1"
    and g: "Q = no_gc \<Longrightarrow> \<not> g"
  defines "s \<equiv> norm_shift (push_bit 31 1) 0 (digits b ! (li_len b - 1))"
  shows "meets Q (div_rounds a b s tmp (promote g (put_digits (Shl num da s) ba)) (put_digits (Shl (digits b) db s) bb))
    (div_post Q a b)"
proof -
  note B = operand_last [OF b v]
  have wb: "wf_li b" using b by (simp add: operand_def)
  have le: "li_len b \<le> Suc (length num)" "li_neg a \<noteq> li_neg b \<or> li_len b \<le> li_len a \<Longrightarrow> li_len b \<le> length num"
    using la num' by (auto simp: numlen_of_def)
  have sd: "s = norm_shift (push_bit 31 1) 0 (digits b ! (length (digits b) - 1))" by (simp add: s_def B(3))
  have l: "length (digits b) \<le> Suc (length num)" "length db = length (digits b)" using le bb(2) B(3) by simp_all
  have s: "s < 32" and fit: "unat (last (digits b)) * 2 ^ s < 2 ^ 32"
    using norm_shift_top [of "last (digits b)"] B by (simp_all add: s_def last_conv_nth)
  have la': "length (Shl num da s) = Suc (length num)" using Shl_val(1) [OF s num, of da] ba(2) by simp
  have lb': "length (Shl (digits b) db s) = li_len b" using Shl_val(1) [OF s B(1), of db] bb(2) B(3) fit by simp
  define A where "A = put_digits (Shl num da s) ba"
  have A: "fresh (Suc (length num)) A" "digits A = Shl num da s"
    using fresh_put_digits [OF ba(1) la'] by (simp_all add: A_def)
  define B' where "B' = put_digits (Shl (digits b) db s) bb"
  have B': "fresh (li_len b) B'" "digits B' = Shl (digits b) db s"
    using fresh_put_digits [OF bb(1) lb'] by (simp_all add: B'_def)
  have lens: "li_len (promote h A) = Suc (length num)" "li_len B' = li_len b" "digits (promote h A) = digits A" for h
    using A B' by (simp_all add: fresh_def)
  obtain qs as where dl: "div_loop (Shl (digits b) db s) (Suc (length num) - length (digits b) + 1) (Shl num da s) = (qs, as)"
    by fastforce
  note D = div_digits [OF B(1,2) num ba(2) l(2) l(1), folded sd, OF dl, unfolded B(3) num'(2)]
  have dl': "div_loop (digits B') (li_len (promote h (promote g A)) - li_len B' + 1) (digits (promote h (promote g A))) = (qs, as)" for h
    using dl A B' lens B(3) by simp
  have main: "meets Q (div_finish a b tmp (put_digits (Shr as as s) (promote h (promote g A))) (put_digits qs d)) (div_post Q a b)"
    if h: "Q = no_gc \<Longrightarrow> \<not> h" and d: "fresh (Suc (length num) - li_len b + 1) d" for h d
  proof -
    let ?ra = "put_digits (Shr as as s) (promote h (promote g A))"
    have pp: "promote h (promote g A) = promote (h \<or> g) A" by (simp add: promote_def)
    note R = put_digits_promoted [OF A(1) D(2), of "h \<or> g", folded pp]
    have blk: "meets Q (if li_neg a \<noteq> li_neg b then
        bindM (TruncateZeroDigits ?ra False) (\<lambda>a. bindM (SubAbsolute tmp a False) (\<lambda>r. the_long r ret)) else ret ?ra)
      (\<lambda>r. wf_li r \<and> \<not> li_neg r \<and> li_len r = (if li_neg a \<noteq> li_neg b then li_len b else li_len ?ra)
       \<and> digs_val (digits r) = rem_of a b \<and> (li_neg a \<noteq> li_neg b \<or> Q = no_gc \<longrightarrow> li_newGen r))"
      by (rule meets_rem_block [OF wb B(4) v R(1,2) _ _ _ tmp]) (use R D(4) num h g in \<open>auto simp: Suc_le_eq\<close>)
    show ?thesis
      unfolding div_finish_def
      by (rule meets_div_results [OF wb B(4) v blk refl _ fresh_put_digits(2) [OF d D(1)]])
        (use R num D(3) fresh_put_digits(1) [OF d D(1)] le in \<open>auto simp: Suc_le_eq\<close>)
  qed
  have n: "\<not> li_len (promote g A) < li_len B'" using lens le by simp
  show ?thesis
    unfolding div_rounds_def A_def [symmetric] B'_def [symmetric] if_not_P [OF n] Let_def
    by (rule meets_create_then, unfold prod.case dl', rule main) (simp_all only: lens simp_thms)
qed

lemma meets_ADivModLongInt:
  assumes a: "operand a" and b: "operand b" and v: "0 < digs_val (digits b)"
    and len: "li_neg a \<noteq> li_neg b \<or> li_len b \<le> li_len a + 1"
  shows "meets Q (ADivModLongInt a b) (div_post Q a b)"
  unfolding ADivModLongInt_def Let_def
proof (rule meets_with_temps, rule meets_bind [OF meets_round_operand], goal_cases)
  case (4 x)
  then obtain num tmp where x: "x = (num, tmp)" and n: "wf_li num" "li_len num = numlen_of a b" "digs_val (digits num) = num_of a b"
    and tmp: "li_neg a \<noteq> li_neg b \<Longrightarrow> wf_li tmp \<and> li_len tmp = li_len b \<and> digs_val (digits tmp) = digs_val (digits b) - 1"
    by (cases x) auto
  have "1 \<le> numlen_of a b" using a by (auto simp: operand_def numlen_of_def)
  then have nn: "digits num \<noteq> []" "length (digits num) = numlen_of a b"
    using n by (auto simp flip: length_greater_0_conv)
  show ?case
    unfolding x prod.case
    by (intro meets_create_then, unfold prod.case, intro meets_create_then, unfold prod.case, rule meets_div_rounds)
      (use b v nn n len tmp in \<open>auto simp: fresh_def\<close>)
qed (use a b v in \<open>auto simp: operand_def\<close>)

section \<open>The operators\<close>

abbreviation opposite :: "int \<Rightarrow> int \<Rightarrow> bool" where
  "opposite i j \<equiv> (i < 0) \<noteq> (j < 0)"

text \<open>What coercion makes of two Int values one of which is long.\<close>

definition long_form :: "aint \<Rightarrow> longint \<Rightarrow> bool" where
  "long_form v l \<longleftrightarrow> operand l \<and> li_value l = int_value v \<and> li_len l = ndig v \<and> li_neg l = (int_value v < 0)"

lemma long_form_norm: "norm_int (ALong l) \<Longrightarrow> long_form (ALong l) l"
  using operand_norm [of l] norm_long_neg [of l] by (simp add: long_form_def)

lemma meets_coerce_any:
  assumes "norm_int a" "norm_int b" "is_long a \<or> is_long b"
  shows "meets Q (ACoerce a b) (\<lambda>(l, r). \<exists>la lb. l = ALong la \<and> r = ALong lb \<and> long_form a la \<and> long_form b lb)"
proof (cases a; cases b)
  fix x y assume ab: "a = AShort x" "b = ALong y"
  show ?thesis unfolding ab
    by (rule meets_mono [OF meets_coerce_left])
      (use long_form_norm [of y] assms ab in \<open>auto simp: long_form_def short_val_def\<close>)
next
  fix x y assume ab: "a = ALong x" "b = AShort y"
  show ?thesis unfolding ab
    by (rule meets_mono [OF meets_coerce_right])
      (use long_form_norm [of x] assms ab in \<open>auto simp: long_form_def short_val_def\<close>)
next
  fix x y assume ab: "a = ALong x" "b = ALong y"
  then show ?thesis using long_form_norm [of x] long_form_norm [of y] assms by (auto intro!: meets_ret)
qed (use assms in auto)

lemma DivModInts_coerced:
  assumes "is_long a \<or> is_long b" "int_value b \<noteq> 0"
  shows "DivModInts a b = bindM (ACoerce a b) (\<lambda>(a, b). the_long a (\<lambda>a. the_long b (ADivModLongInt a)))"
  using assms by (cases a; cases b) (auto simp: DivModInts_def)

lemma nonzero_digits: "long_form b l \<Longrightarrow> int_value b \<noteq> 0 \<Longrightarrow> 0 < digs_val (digits l)"
  by (auto simp: long_form_def li_value_def intro: Nat.gr0I split: if_splits)

lemma meets_DivModInts:
  assumes n: "norm_int a" "norm_int b" and nz: "int_value b \<noteq> 0"
    and len: "is_long a \<or> is_long b \<Longrightarrow> opposite (int_value a) (int_value b) \<or> ndig b \<le> ndig a + 1"
  shows "meets Q (DivModInts a b) (\<lambda>(q, md, gc5). (Q = no_gc \<longrightarrow> \<not> gc5) \<and>
    (\<not> (is_long a \<or> is_long b) \<or> (if opposite (int_value a) (int_value b) then Q = no_gc else ndig b \<le> ndig a)
       \<longrightarrow> returns_int (int_value a div int_value b) q) \<and>
    (\<not> (is_long a \<or> is_long b) \<or>
       (if opposite (int_value a) (int_value b)
        then 2 \<le> ndig b \<or> 0 < int_value b \<and> int_value a mod int_value b \<noteq> 0
        else int_value b < 0 \<longrightarrow> Q = no_gc)
       \<longrightarrow> returns_int (int_value a mod int_value b) md))"
    (is "meets Q _ ?P")
proof (cases "is_long a \<or> is_long b")
  case True
  show ?thesis
    unfolding DivModInts_coerced [OF True nz]
  proof (rule meets_bind [OF meets_coerce_any [OF n True]], clarify)
    fix la lb assume l: "long_form a la" "long_form b lb"
    note v = nonzero_digits [OF l(2) nz]
    have "operand la" "operand lb" "li_neg la \<noteq> li_neg lb \<or> li_len lb \<le> li_len la + 1"
      using l len True by (simp_all add: long_form_def)
    note D = meets_ADivModLongInt [OF this(1,2) v this(3), of Q]
    have "rem_of la lb \<noteq> 0 \<longleftrightarrow> int_value a mod int_value b \<noteq> 0"
      using floor_value(2) [OF v, of la] l by (auto simp: long_form_def with_sign_def split: if_splits)
    then show "meets Q (the_long (ALong la) (\<lambda>a. the_long (ALong lb) (ADivModLongInt a))) ?P"
      using l True nz unfolding the_long.simps
      by (intro meets_mono [OF D]) (auto simp: long_form_def quot_ok_def rem_ok_def)
  qed
next
  case False
  then obtain x y where ab: "a = AShort x" "b = AShort y" by (cases a; cases b) auto
  have "y \<noteq> 0" using nz ab by auto
  have "meets Q (AIntDivMod x y) (returns_div (short_val x) (short_val y))"
    using n ab \<open>y \<noteq> 0\<close> by (intro meets_AIntDivMod) simp_all
  then have "meets Q (bindM (AIntDivMod x y) (\<lambda>(q, r). ret (q, AShort r, False))) ?P"
    by (rule meets_bind) (auto intro!: meets_ret simp: returns_div_def ab short_val_def)
  then show ?thesis by (simp add: DivModInts_def ab)
qed

lemma meets_AIntDiv:
  assumes "norm_int a" "norm_int b" "int_value b \<noteq> 0"
    and "\<not> (is_long a \<or> is_long b) \<or> opposite (int_value a) (int_value b) \<or> ndig b \<le> ndig a"
  shows "meets (if opposite (int_value a) (int_value b) then no_gc else any_alloc) (AIntDiv a b)
    (returns_int (int_value a div int_value b))"
  unfolding AIntDiv_def
  by (rule meets_bind [OF meets_DivModInts [OF assms(1-3)]])
    (use assms(4) in \<open>auto intro!: meets_ret split: if_splits\<close>)

text \<open>The remainder by a short integer is short.\<close>

lemma short_remainder:
  assumes "norm_int b" "\<not> is_long b" "int_value b \<noteq> 0" "returns_int (i mod int_value b) v"
  shows "\<not> is_long v"
proof -
  obtain w where b: "b = AShort w" using assms(2) by (cases b) auto
  have j: "- 2305843009213693952 \<le> int_value b" "int_value b < 2305843009213693952"
    using fits_short_val [of w] by (simp_all add: b short_val_def fits_short_def)
  have "- 2305843009213693952 \<le> i mod int_value b \<and> i mod int_value b < 2305843009213693952"
  proof (cases "0 < int_value b")
    case True
    then show ?thesis using j pos_mod_bound [OF True, of i] pos_mod_sign [OF True, of i] by linarith
  next
    case False
    then have "int_value b < 0" using assms(3) by simp
    then show ?thesis using j neg_mod_bound [of "int_value b" i] neg_mod_sign [of "int_value b" i] by linarith
  qed
  then have "fits_short (i mod int_value b)" by (simp add: fits_short_def)
  then show ?thesis using assms(4) by (cases v) (auto simp: returns_int_def)
qed

lemma meets_AMod:
  assumes n: "norm_int a" "norm_int b" "int_value b \<noteq> 0"
    and len: "is_long a \<or> is_long b \<Longrightarrow>
      (if opposite (int_value a) (int_value b)
       then 2 \<le> ndig b \<or> 0 < int_value b \<and> int_value a mod int_value b \<noteq> 0
       else ndig b \<le> ndig a + 1)"
  shows "meets (if is_long b \<or> int_value a < 0 \<and> int_value b < 0 then no_gc else any_alloc) (AMod a b)
    (returns_int (int_value a mod int_value b))" (is "meets ?Q _ ?R")
  unfolding AMod_def
proof (rule meets_bind [OF meets_DivModInts [OF n]], goal_cases)
  case 1
  then show ?case using len by (auto split: if_splits)
next
  case (2 x)
  obtain q md gc where x: "x = (q, md, gc)" by (cases x)
  have gc: "?Q = no_gc \<Longrightarrow> \<not> gc" and md: "?R md" using 2 len by (auto simp: x split: if_splits)
  have "\<not> (gc \<and> is_long md)"
    using gc short_remainder [OF n(2) _ n(3) md] by (cases "is_long b") simp_all
  then show ?case unfolding x prod.case by (simp only: if_False) (rule meets_ret [of ?R, OF md])
qed

end
