(* ===== verification/Long_Pow.thy ===== *)
theory Long_Pow
  imports Long_Div_Ops
begin

text \<open>
  Powers by repeated squaring.  The loop never multiplies two short integers in the hole of
  the overflow test, and once it works on long integers every product is long, so that the
  result is the power for every base.
\<close>

section \<open>Multiplications of the loop\<close>

lemma odd_part: "0 < (x :: nat) \<Longrightarrow> \<exists>a c. x = 2 ^ a * c \<and> odd c"
proof (induction x rule: less_induct)
  case (less x)
  show ?case
  proof (cases "odd x")
    case True
    then have "x = 2 ^ 0 * x \<and> odd x" by simp
    then show ?thesis by blast
  next
    case False
    then obtain y where y: "x = 2 * y" by (auto elim: evenE)
    then obtain a c where "y = 2 ^ a * c" "odd c" using less.IH [of y] less.prems by auto
    then have "x = 2 ^ Suc a * c \<and> odd c" using y by simp
    then show ?thesis by blast
  qed
qed

lemma two_power_dvd:
  fixes x :: nat
  assumes "2 ^ n dvd x ^ k" "0 < k" "0 < x" "k * i < n" shows "2 ^ Suc i dvd x"
proof -
  obtain a c where x: "x = 2 ^ a * c" and c: "odd c" using odd_part [OF assms(3)] by blast
  have "2 ^ n dvd 2 ^ (a * k) * c ^ k" using assms(1) unfolding x by (simp add: power_mult_distrib power_mult)
  moreover have "coprime (2 ^ n) (c ^ k)" using c by simp
  ultimately have "(2 :: nat) ^ n dvd 2 ^ (a * k)" by (simp add: coprime_dvd_mult_left_iff)
  then have "n \<le> a * k" by (simp add: power_dvd_imp_le)
  then have "k * i < k * a" using assms(4) by (metis less_le_trans mult.commute)
  then have "Suc i \<le> a" by simp
  then have "(2 :: nat) ^ Suc i dvd 2 ^ a" by (rule le_imp_power_dvd)
  then show ?thesis unfolding x by (rule dvd_mult2)
qed

text \<open>
  The hole needs a larger factor that is a multiple of 2^29 and not of 2^31.  Fourth powers
  are never that, and a square is only next to its root, where the product is too large.
\<close>

lemma hole_not_2_31: "mul_hole l r \<Longrightarrow> \<not> 2 ^ 31 dvd l"
proof
  assume h: "mul_hole l r" and "2 ^ 31 dvd l"
  then have l: "l = l div 2 ^ 31 * 2 ^ 31" by simp
  have "l * r = l div 2 ^ 31 * r * 2 ^ 31" by (subst l) (simp only: mult_ac)
  also have "\<dots> \<le> 2 ^ 30 * 2 ^ 31" using h by (intro mult_le_mono1) (simp add: mul_hole_def)
  finally show False using h by (simp add: mul_hole_def)
qed

lemma hole_not_fourth: "\<not> mul_hole (x ^ 4) r"
proof
  assume h: "mul_hole (x ^ 4) r"
  then have "0 < x" using hole_pos [OF h] by (auto intro: Nat.gr0I)
  then have "2 ^ Suc 7 dvd x" using h by (intro two_power_dvd [of 29 x 4 7]) (simp_all add: mul_hole_def)
  then have "(2 ^ Suc 7) ^ 4 dvd x ^ 4" by (rule dvd_power_same)
  then have "2 ^ 31 dvd x ^ 4" by (rule dvd_trans [rotated]) (simp flip: power_mult add: le_imp_power_dvd)
  then show False using hole_not_2_31 [OF h] by simp
qed

lemma hole_not_square: "\<not> mul_hole (x ^ 2) x"
proof
  assume h: "mul_hole (x ^ 2) x"
  then have "0 < x" using hole_pos [OF h] by simp
  then have "2 ^ Suc 14 dvd x" using h by (intro two_power_dvd [of 29 x 2 14]) (simp_all add: mul_hole_def)
  then obtain y where y: "x = 2 ^ 15 * y" by (auto elim: dvdE)
  have "2 ^ 61 < x ^ 2 * x" using h by (simp add: mul_hole_def)
  also have "x ^ 2 * x = 2 ^ 45 * y ^ 3" unfolding y by (simp add: power2_eq_square power3_eq_cube)
  finally have "2 ^ 16 < y ^ 3" by simp
  then have "40 < y"
  proof (rule contrapos_pp)
    assume "\<not> 40 < y"
    then have "y ^ 3 \<le> 40 ^ 3" by (intro power_mono) simp_all
    then show "\<not> 2 ^ 16 < y ^ 3" by simp
  qed
  then have "41 ^ 2 \<le> y ^ 2" by (intro power_mono) simp_all
  then have "840 \<le> y ^ 2 div 2" by simp
  have q: "x ^ 2 div 2 ^ 31 = y ^ 2 div 2"
  proof -
    have "x ^ 2 = 2 ^ 30 * y ^ 2" unfolding y by (simp add: power_mult_distrib)
    then have "x ^ 2 div 2 ^ 31 = (2 ^ 30 * y ^ 2) div (2 ^ 30 * 2)" by simp
    also have "\<dots> = y ^ 2 div 2" by (rule div_mult_mult1) simp
    finally show ?thesis .
  qed
  have "840 * (2 ^ 15 * 41) \<le> y ^ 2 div 2 * x"
    using \<open>840 \<le> y ^ 2 div 2\<close> \<open>40 < y\<close> unfolding y by (intro mult_le_mono) simp_all
  then show False using h q by (simp add: mul_hole_def)
qed

section \<open>The loop on long integers\<close>

lemma returns_long: "returns_int i x \<Longrightarrow> \<not> fits_short i \<Longrightarrow> \<exists>l. x = ALong l"
  using fits_short_val by (cases x) (auto simp: returns_int_def short_val_def)

lemma meets_mul_values:
  assumes "operand x" "operand y" "li_value x * li_value y = i" "\<not> fits_short i"
  shows "meets Q (mul_values (ALong x) (ALong y)) (\<lambda>r. \<exists>l. r = ALong l \<and> norm_int r \<and> li_value l = i)"
proof -
  have "meets Q (AMultiplyLongInt x y) (returns_int i)"
    using meets_AMultiplyLongInt [of x y Q] assms by (simp add: operand_def)
  then show ?thesis
    unfolding mul_values_def the_long.simps
    by (rule meets_mono) (use returns_long assms(4) in \<open>fastforce simp: returns_int_def\<close>)
qed

definition pow_big :: "nat \<Rightarrow> int \<Rightarrow> int \<Rightarrow> bool" where
  "pow_big e v b \<longleftrightarrow> 2 \<le> \<bar>v\<bar> \<and> 2 \<le> \<bar>b\<bar> \<and> 2 ^ 61 < \<bar>v * b\<bar> \<and> (e = 0 \<or> 2 ^ 61 \<le> b\<^sup>2)"

lemma not_fits: "2 ^ 61 < \<bar>i\<bar> \<Longrightarrow> \<not> fits_short i" "2 ^ 61 \<le> i \<Longrightarrow> \<not> fits_short i"
  by (auto simp: fits_short_def)

lemma abs_mult_2: "2 \<le> \<bar>c\<bar> \<Longrightarrow> 2 * \<bar>a\<bar> \<le> \<bar>a * (c :: int)\<bar>"
  unfolding abs_mult by (metis abs_ge_zero mult.commute mult_right_mono)

lemma pow_big_square:
  assumes "pow_big e v b" "e \<noteq> 0" shows "pow_big e' v (b\<^sup>2)"
proof -
  have b: "2 \<le> \<bar>b\<bar>" "2 \<le> \<bar>v\<bar>" "2 ^ 61 \<le> b\<^sup>2" using assms by (auto simp: pow_big_def)
  have "2 * \<bar>b\<^sup>2\<bar> \<le> \<bar>b\<^sup>2 * v\<bar>" using b(2) by (rule abs_mult_2)
  moreover have "b\<^sup>2 * 1 \<le> b\<^sup>2 * b\<^sup>2" using b(3) by (intro mult_left_mono) simp_all
  ultimately show ?thesis using b by (simp add: pow_big_def mult.commute power2_eq_square [of "b\<^sup>2"])
qed

lemma pow_big_mult:
  assumes "pow_big e v b" "e \<noteq> 0" shows "pow_big e' (v * b) b"
proof -
  have b: "2 \<le> \<bar>b\<bar>" "2 \<le> \<bar>v\<bar>" "2 ^ 61 \<le> b\<^sup>2" "2 ^ 61 < \<bar>v * b\<bar>" using assms by (auto simp: pow_big_def)
  have "2 * \<bar>v * b\<bar> \<le> \<bar>v * b * b\<bar>" using b(1) by (rule abs_mult_2)
  then show ?thesis using b by (simp add: pow_big_def)
qed

lemma power_even: "even e \<Longrightarrow> (b :: int) ^ e = (b\<^sup>2) ^ (e div 2)"
  by (metis dvd_mult_div_cancel power_mult)

lemma meets_pow_long:
  "norm_int (ALong v) \<Longrightarrow> operand b \<Longrightarrow> pow_big e (li_value v) (li_value b) \<Longrightarrow>
   meets Q (pow_long e (ALong v) (ALong b)) (returns_int (li_value v * li_value b ^ e))"
proof (induction e arbitrary: v b rule: less_induct)
  case (less e)
  consider "e = 0" | "e \<noteq> 0" "even e" | "e \<noteq> 0" "odd e" by blast
  then show ?case
  proof cases
    case 1
    then show ?thesis using less.prems by (subst pow_long.simps) (auto intro!: meets_ret simp: returns_int_def)
  next
    case 2
    have "\<not> fits_short ((li_value b)\<^sup>2)" using less.prems(3) 2 by (intro not_fits) (simp add: pow_big_def)
    note M = meets_mul_values [OF less.prems(2,2) power2_eq_square [symmetric] this]
    have "meets Q (bindM (mul_values (ALong b) (ALong b)) (pow_long (e div 2) (ALong v)))
        (returns_int (li_value v * li_value b ^ e))"
    proof (rule meets_bind [OF M], clarify)
      fix l assume l: "norm_int (ALong l)" "li_value l = (li_value b)\<^sup>2"
      have "pow_big (e div 2) (li_value v) (li_value l)" unfolding l(2) by (rule pow_big_square [OF less.prems(3) 2(1)])
      then have "meets Q (pow_long (e div 2) (ALong v) (ALong l)) (returns_int (li_value v * li_value l ^ (e div 2)))"
        using 2 less.prems operand_norm [OF l(1)] by (intro less.IH) auto
      then show "meets Q (pow_long (e div 2) (ALong v) (ALong l)) (returns_int (li_value v * li_value b ^ e))"
        using l(2) power_even [OF 2(2), of "li_value b"] by simp
    qed
    then show ?thesis using 2 by (subst pow_long.simps) simp
  next
    case 3
    have "\<not> fits_short (li_value v * li_value b)" using less.prems(3) by (intro not_fits(1)) (simp add: pow_big_def)
    note M = meets_mul_values [OF operand_norm [OF less.prems(1)] less.prems(2) refl this]
    have "meets Q (bindM (mul_values (ALong v) (ALong b)) (\<lambda>v. pow_long (e - 1) v (ALong b)))
        (returns_int (li_value v * li_value b ^ e))"
    proof (rule meets_bind [OF M], clarify)
      fix l assume l: "norm_int (ALong l)" "li_value l = li_value v * li_value b"
      have "pow_big (e - 1) (li_value l) (li_value b)" unfolding l(2) by (rule pow_big_mult [OF less.prems(3) 3(1)])
      then have "meets Q (pow_long (e - 1) (ALong l) (ALong b)) (returns_int (li_value l * li_value b ^ (e - 1)))"
        using 3 less.prems l(1) by (intro less.IH) auto
      then show "meets Q (pow_long (e - 1) (ALong l) (ALong b)) (returns_int (li_value v * li_value b ^ e))"
        using l(2) 3(1) by (cases e) (simp_all add: mult.assoc)
    qed
    then show ?thesis using 3 by (subst pow_long.simps) simp
  qed
qed

section \<open>The loop on short integers\<close>

text \<open>
  The value never outgrows the base, except right before the base is squared; the signs and
  the shape of the base keep the products out of the hole.
\<close>

definition pow_size :: "nat \<Rightarrow> int \<Rightarrow> int \<Rightarrow> bool" where
  "pow_size e v b \<longleftrightarrow> (\<bar>v\<bar> \<le> \<bar>b\<bar> \<or> even e \<and> \<bar>v\<bar> \<le> b\<^sup>2) \<and> (\<bar>b\<bar> \<le> 1 \<or> 2 \<le> \<bar>v\<bar>)"

definition pow_sign :: "nat \<Rightarrow> int \<Rightarrow> int \<Rightarrow> bool" where
  "pow_sign e v b \<longleftrightarrow> 0 \<le> v \<and> 0 \<le> b \<or> 0 \<le> v \<and> even e \<or> v = b \<or>
     (v < 0 \<and> (\<exists>s. b = s\<^sup>2 \<and> (even e \<or> \<bar>v\<bar> = \<bar>s\<bar> \<or> (\<exists>r. s = r\<^sup>2))))"

lemma abs_le_square: "\<bar>b\<bar> \<le> (b :: int)\<^sup>2"
proof (cases "b = 0")
  case False
  then have "\<bar>b\<bar> * 1 \<le> \<bar>b\<bar> * \<bar>b\<bar>" by (intro mult_left_mono) simp_all
  then show ?thesis by (simp add: power2_eq_square)
qed simp

lemma pow_size_square: "pow_size e v b \<Longrightarrow> pow_size e' v (b\<^sup>2)"
  using abs_le_square [of b] by (auto simp: pow_size_def abs_square_le_1)

lemma pow_size_mult:
  assumes "pow_size e v b" "odd e" shows "pow_size (e - 1) (v * b) b"
proof -
  have v: "\<bar>v\<bar> \<le> \<bar>b\<bar>" "\<bar>b\<bar> \<le> 1 \<or> 2 \<le> \<bar>v\<bar>" using assms by (auto simp: pow_size_def)
  have "\<bar>v * b\<bar> \<le> \<bar>b\<bar> * \<bar>b\<bar>" unfolding abs_mult using v(1) by (rule mult_right_mono) simp
  then have "\<bar>v * b\<bar> \<le> b\<^sup>2" by (simp add: power2_eq_square)
  moreover have "2 \<le> \<bar>v * b\<bar>" if "\<not> \<bar>b\<bar> \<le> 1"
    using abs_mult_2 [of b v] that v(2) by simp
  ultimately show ?thesis using assms(2) by (auto simp: pow_size_def)
qed

lemma pow_sign_square:
  assumes "pow_sign e v b" shows "pow_sign e' v (b\<^sup>2)"
proof (cases "0 \<le> v")
  case False
  then consider "v = b" | s where "b = s\<^sup>2" using assms by (auto simp: pow_sign_def)
  then show ?thesis
  proof cases
    case 1
    then have "\<exists>t. b\<^sup>2 = t\<^sup>2 \<and> (even e' \<or> \<bar>v\<bar> = \<bar>t\<bar> \<or> (\<exists>r. t = r\<^sup>2))" by (intro exI [of _ b]) simp
    then show ?thesis using False unfolding pow_sign_def not_le by blast
  next
    case 2
    then have "\<exists>t. b\<^sup>2 = t\<^sup>2 \<and> (even e' \<or> \<bar>v\<bar> = \<bar>t\<bar> \<or> (\<exists>r. t = r\<^sup>2))" by (intro exI [of _ b]) auto
    then show ?thesis using False unfolding pow_sign_def not_le by blast
  qed
qed (simp add: pow_sign_def)

lemma pow_sign_mult:
  assumes "pow_sign e v b" "odd e" shows "pow_sign (e - 1) (v * b) b"
proof -
  have "even (e - 1)" using assms(2) by simp
  moreover consider "0 \<le> v * b" | s where "v < 0" "b = s\<^sup>2" "v * b < 0"
    using assms by (fastforce simp: pow_sign_def)
  ultimately show ?thesis by cases (auto simp: pow_sign_def)
qed

lemma nat_abs_square: "nat \<bar>s\<^sup>2\<bar> = (nat \<bar>s\<bar>)\<^sup>2"
proof -
  have "\<bar>s\<^sup>2\<bar> = \<bar>s\<bar>\<^sup>2" by simp
  then show ?thesis by (simp only: nat_power_eq abs_ge_zero)
qed

lemma pow_not_wrong:
  assumes sg: "pow_sign e v b" and sz: "pow_size e v b" and e: "odd e" shows "\<not> mul_wrong v b"
proof
  assume w: "mul_wrong v b"
  have le: "\<bar>v\<bar> \<le> \<bar>b\<bar>" using sz e by (auto simp: pow_size_def)
  have neg: "v * b < 0" and hole: "mul_hole (nat \<bar>b\<bar>) (nat \<bar>v\<bar>)"
    using w le by (simp_all add: mul_wrong_def max_def min_def split: if_splits)
  have "\<not> (0 \<le> v \<and> 0 \<le> b)" "v \<noteq> b" using neg by (auto simp: mult_less_0_iff)
  then obtain s where s: "b = s\<^sup>2" "\<bar>v\<bar> = \<bar>s\<bar> \<or> (\<exists>r. s = r\<^sup>2)" using sg e by (auto simp: pow_sign_def)
  have b: "nat \<bar>b\<bar> = (nat \<bar>s\<bar>)\<^sup>2" using s(1) by (simp only: nat_abs_square)
  show False
  proof (cases "\<bar>v\<bar> = \<bar>s\<bar>")
    case True
    then show False using hole b hole_not_square by simp
  next
    case False
    then obtain r where "s = r\<^sup>2" using s(2) by blast
    then have "nat \<bar>s\<bar> = (nat \<bar>r\<bar>)\<^sup>2" by (simp only: nat_abs_square)
    then have "nat \<bar>b\<bar> = nat \<bar>r\<bar> ^ 4" using b by (simp flip: power_mult)
    then show False using hole hole_not_fourth by simp
  qed
qed

text \<open>The base has become long: the loop goes on with a multiplication.\<close>

lemma meets_base_long:
  assumes sz: "pow_size e (short_val v) (short_val b)" and e: "even e" "e \<noteq> 0"
    and l: "norm_int (ALong l)" "li_value l = (short_val b)\<^sup>2"
  shows "meets Q (bindM (ACreateLongIntFromIntND (AValueToInt v))
      (\<lambda>v. bindM (mul_values v (ALong l)) (\<lambda>v. pow_long (e div 2 - 1) v (ALong l))))
    (returns_int (short_val v * short_val b ^ e))"
proof (rule meets_bind [OF meets_ACreateLongIntFromIntND], clarsimp simp: coerced_def sint_AValueToInt)
  let ?v = "short_val v" and ?b = "short_val b"
  fix lv assume lv: "operand lv" "li_value lv = ?v"
  have "\<not> fits_short (?b\<^sup>2)" using l by simp
  moreover have "0 \<le> ?b\<^sup>2" by simp
  ultimately have big: "2 ^ 61 \<le> ?b\<^sup>2" unfolding fits_short_def by linarith
  have "\<not> \<bar>?b\<bar> \<le> 1" using big by (auto simp: abs_square_le_1 [symmetric])
  then have v2: "2 \<le> \<bar>?v\<bar>" using sz by (auto simp: pow_size_def)
  have pb: "pow_big 1 ?v (?b\<^sup>2)"
    using big v2 abs_mult_2 [OF v2, of "?b\<^sup>2"] mult_left_mono [of 1 "?b\<^sup>2" "?b\<^sup>2"]
    by (simp add: pow_big_def mult.commute power2_eq_square [of "?b\<^sup>2"])
  then have nf: "\<not> fits_short (?v * ?b\<^sup>2)" by (intro not_fits) (simp add: pow_big_def)
  show "meets Q (bindM (mul_values (ALong lv) (ALong l)) (\<lambda>v. pow_long (e div 2 - Suc 0) v (ALong l)))
      (returns_int (?v * ?b ^ e))"
  proof (rule meets_bind [OF meets_mul_values [OF lv(1) operand_norm [OF l(1)] _ nf]], simp add: lv l, clarify)
    fix p assume p: "norm_int (ALong p)" "li_value p = ?v * ?b\<^sup>2"
    have "meets Q (pow_long (e div 2 - 1) (ALong p) (ALong l)) (returns_int (li_value p * li_value l ^ (e div 2 - 1)))"
      by (rule meets_pow_long [OF p(1) operand_norm [OF l(1)]])
        (unfold p(2) l(2), rule pow_big_mult [OF pb], simp)
    moreover have "?v * ?b\<^sup>2 * (?b\<^sup>2) ^ (e div 2 - 1) = ?v * ?b ^ e"
      using e power_even [OF e(1), of ?b] by (cases "e div 2") (auto simp: mult.assoc elim: evenE)
    ultimately show "meets Q (pow_long (e div 2 - Suc 0) (ALong p) (ALong l)) (returns_int (?v * ?b ^ e))"
      by (simp only: p(2) l(2) One_nat_def)
  qed
qed

text \<open>The value has become long: the loop goes on with the base as a long integer.\<close>

lemma meets_value_long:
  assumes sz: "pow_size e (short_val v) (short_val b)" and e: "odd e"
    and l: "norm_int (ALong l)" "li_value l = short_val v * short_val b"
  shows "meets Q (bindM (ACreateLongIntFromIntND (AValueToInt b)) (pow_long (e - 1) (ALong l)))
    (returns_int (short_val v * short_val b ^ e))"
proof (rule meets_bind [OF meets_ACreateLongIntFromIntND], clarsimp simp: coerced_def sint_AValueToInt)
  let ?v = "short_val v" and ?b = "short_val b"
  fix lb assume lb: "operand lb" "li_value lb = ?b"
  have "\<not> fits_short (?v * ?b)" using l by simp
  then have big: "2 ^ 61 \<le> \<bar>?v * ?b\<bar>" unfolding fits_short_def by linarith
  have le: "\<bar>?v\<bar> \<le> \<bar>?b\<bar>" using sz e by (auto simp: pow_size_def)
  have "\<bar>?v * ?b\<bar> \<le> \<bar>?b\<bar> * \<bar>?b\<bar>" unfolding abs_mult using le by (rule mult_right_mono) simp
  then have sq: "\<bar>?v * ?b\<bar> \<le> ?b\<^sup>2" by (simp add: power2_eq_square)
  then have "\<not> \<bar>?b\<bar> \<le> 1" using big by (auto simp: abs_square_le_1 [symmetric])
  then have two: "2 \<le> \<bar>?b\<bar>" "2 \<le> \<bar>?v\<bar>" using sz by (auto simp: pow_size_def)
  have pb: "pow_big (e - 1) (?v * ?b) ?b"
    using abs_mult_2 [OF two(1), of "?v * ?b"] big sq two by (simp add: pow_big_def)
  have "e \<noteq> 0" using e by (rule contrapos_nn) simp
  then have pe: "?v * ?b * ?b ^ (e - 1) = ?v * ?b ^ e" by (cases e) (simp_all add: mult.assoc)
  have "meets Q (pow_long (e - 1) (ALong l) (ALong lb)) (returns_int (li_value l * li_value lb ^ (e - 1)))"
    using l lb pb by (intro meets_pow_long) simp_all
  then show "meets Q (pow_long (e - Suc 0) (ALong l) (ALong lb)) (returns_int (?v * ?b ^ e))"
    using pe by (simp only: l(2) lb(2) One_nat_def)
qed

lemma meets_pow_short:
  assumes "v AND 3 = 0" "b AND 3 = 0" "pow_size e (short_val v) (short_val b)" "pow_sign e (short_val v) (short_val b)"
    and mem: "\<not> Q AllocFail"
  shows "meets Q (pow_short e v b) (returns_int (short_val v * short_val b ^ e))"
  using assms(1-4)
proof (induction e arbitrary: v b rule: less_induct)
  case (less e)
  let ?v = "short_val v" and ?b = "short_val b"
  note sz = less.prems(3) and sg = less.prems(4)
  consider "e = 0" | "e \<noteq> 0" "even e" | "e \<noteq> 0" "odd e" by blast
  then show ?case
  proof cases
    case 1
    then show ?thesis using less.prems
      by (subst pow_short.simps) (auto intro!: meets_ret simp: returns_int_def short_val_def)
  next
    case 2
    have "\<not> mul_wrong ?b ?b" by (simp add: mul_wrong_def not_less)
    note M = meets_AMultiplyShortInt [where Q = Q, OF less.prems(2,2) this mem]
    have short: "meets Q (pow_short (e div 2) v w) (returns_int (?v * ?b ^ e))"
      if "w AND 3 = 0" "short_val w = ?b\<^sup>2" for w
    proof -
      have "meets Q (pow_short (e div 2) v w) (returns_int (?v * short_val w ^ (e div 2)))"
        using 2 less.prems that pow_size_square [OF sz] pow_sign_square [OF sg] by (intro less.IH) simp_all
      then show ?thesis using that(2) power_even [OF 2(2), of ?b] by simp
    qed
    show ?thesis
      using 2 short meets_base_long [OF sz 2(2,1)]
      by (subst pow_short.simps)
        (auto intro!: meets_bind [OF M] simp: returns_int_def short_val_def [symmetric] power2_eq_square split: aint.split)
  next
    case 3
    note M = meets_AMultiplyShortInt [where Q = Q, OF less.prems(1,2) pow_not_wrong [OF sg sz 3(2)] mem]
    have short: "meets Q (pow_short (e - 1) w b) (returns_int (?v * ?b ^ e))"
      if "w AND 3 = 0" "short_val w = ?v * ?b" for w
    proof -
      have "meets Q (pow_short (e - 1) w b) (returns_int (short_val w * ?b ^ (e - 1)))"
        using 3 less.prems that pow_size_mult [OF sz 3(2)] pow_sign_mult [OF sg 3(2)] by (intro less.IH) simp_all
      then show ?thesis using that(2) 3(1) by (cases e) (simp_all add: mult.assoc)
    qed
    show ?thesis
      using 3 short meets_value_long [OF sz 3(2)]
      by (subst pow_short.simps)
        (auto intro!: meets_bind [OF M] simp: returns_int_def short_val_def [symmetric] split: aint.split)
  qed
qed

section \<open>The operator\<close>

lemma meets_pow_int:
  assumes n: "norm_int b" and e: "0 \<le> short_val w" and mem: "is_long b \<or> \<not> Q AllocFail"
  shows "meets Q (APowInt b (AShort w)) (returns_int (int_value b ^ nat (short_val w)))"
proof (cases "short_val w = 0")
  case True
  then have "APowInt b (AShort w) = ret (AShort (AIntToValue 1))" by (simp add: APowInt_def sint_AValueToInt)
  then show ?thesis using True by (auto intro!: meets_ret simp: returns_int_def AIntToValue_def)
next
  case False
  then have e1: "\<not> short_val w \<le> 0" using e by simp
  then obtain k where k: "nat (short_val w) = Suc k" "nat (short_val w - 1) = k" by (cases "nat (short_val w)") auto
  show ?thesis
  proof (cases b)
    case (AShort x)
    have "meets Q (pow_short k x x) (returns_int (short_val x * short_val x ^ k))"
      using n AShort mem by (intro meets_pow_short) (auto simp: pow_size_def pow_sign_def)
    then show ?thesis
      using e1 k AShort by (simp add: APowInt_def sint_AValueToInt Let_def meets_with_temps short_val_def)
  next
    case (ALong x)
    then have "\<not> fits_short (li_value x)" using n by simp
    then have big: "2 ^ 61 \<le> \<bar>li_value x\<bar>" unfolding fits_short_def by linarith
    have "2 ^ 61 * 2 ^ 61 \<le> \<bar>li_value x\<bar> * \<bar>li_value x\<bar>" using big by (intro mult_mono) simp_all
    then have "pow_big k (li_value x) (li_value x)" using big by (simp add: pow_big_def abs_mult power2_eq_square)
    then have "meets Q (pow_long k (ALong x) (ALong x)) (returns_int (li_value x * li_value x ^ k))"
      using n ALong operand_norm [of x] by (intro meets_pow_long) simp_all
    then show ?thesis
      using e1 k ALong by (simp add: APowInt_def sint_AValueToInt Let_def meets_with_temps)
  qed
qed

lemma even_unat: "even (unat (x :: digit)) \<longleftrightarrow> even x"
  using bit_unsigned_iff [where ?'a = nat, of x 0] by (simp add: bit_0)

lemma odd_digits:
  assumes "1 \<le> li_len l" "wf_li l" shows "digits l ! 0 AND 1 = 0 \<longleftrightarrow> even (digs_val (digits l))"
proof -
  obtain x xs where d: "digits l = x # xs" using assms by (cases "digits l") (auto simp flip: length_0_conv)
  have "x AND 1 = 0 \<longleftrightarrow> even x" by (simp add: and_one_eq mod2_eq_if)
  then show ?thesis using even_unat [of x] by (simp add: d)
qed

text \<open>An exponent outside of the short range: only 0, 1 and -1 have a power.\<close>

lemma pow_long_exponent:
  assumes n: "norm_int b" and l: "norm_int (ALong l)"
  shows "APowInt b (ALong l) =
    (if li_value l < 0 then raise ArithmeticError
     else if int_value b = 0 then ret (AShort 0)
     else if int_value b = 1 then ret (AShort 4)
     else if int_value b = - 1 then ret (AShort (if even (li_value l) then 4 else - 4))
     else raise (ValueError []))"
proof -
  have v: "b = AShort (of_int (4 * i)) \<longleftrightarrow> int_value b = i" if "fits_short i" for i
  proof (cases b)
    case (AShort x)
    then have "x = of_int (4 * int_value b)" using n tagged_of_int [of x] by (simp add: short_val_def)
    then show ?thesis using AShort short_of_int [OF that] by (auto simp: AIntToValue_of_int)
  next
    case (ALong x)
    then show ?thesis using n that by auto
  qed
  have c: "b = AShort 0 \<longleftrightarrow> int_value b = 0" "b = AShort 4 \<longleftrightarrow> int_value b = 1" "b = AShort (- 4) \<longleftrightarrow> int_value b = - 1"
    using v [of 0] v [of 1] v [of "- 1"] by (simp_all add: fits_short_def)
  have t: "AIntToValue 1 = 4" "AIntToValue (- 1) = - 4" using AIntToValue_of_int [of 1] AIntToValue_of_int [of "- 1"] by simp_all
  have "digits l ! 0 AND 1 = 0 \<longleftrightarrow> even (li_value l)"
    using odd_digits [of l] l by (auto simp: li_value_def)
  then show ?thesis
    using norm_long_neg [OF l] c by (auto simp: APowInt_def t)
qed

end
