(* ===== verification/Long_Div_Props.thy ===== *)
theory Long_Div_Props
  imports Long_Pow Int_Props
begin

text \<open>
  The properties of division and powers of Int values of any size, with an example for each.
\<close>

section \<open>Division\<close>

text \<open>
  C10: The quotient of two Int values, one of them long, is rounded towards minus infinity and
  normal, if the operands have different signs or the dividend has at least as many digits as
  the divisor.  For operands of different signs this holds in runs without a collection.
\<close>

theorem long_div_correct:
  assumes "norm_int a" "norm_int b" "int_value b \<noteq> 0"
    and "opposite (int_value a) (int_value b) \<or> ndig b \<le> ndig a"
  shows "meets (if opposite (int_value a) (int_value b) then no_gc else any_alloc) (AIntDiv a b)
    (returns_int (int_value a div int_value b))"
  by (rule meets_AIntDiv) (use assms in auto)

theorem long_div_correct_witness:
  "meets no_gc (AIntDiv (long_of True [5, 0, 1]) (short 7)) (returns_int (- (5 + 2 ^ 64) div 7))"
proof -
  have n: "norm_int (long_of True [5, 0, 1])" "int_value (long_of True [5, 0, 1]) = - (5 + 2 ^ 64)"
    using norm_long_of [of "[5, 0, 1]" True] by (simp_all add: with_sign_def fits_short_def)
  show ?thesis using long_div_correct [OF n(1), of "short 7"] n(2) by simp
qed

text \<open>
  C19: The remainder of two Int values has the sign of the divisor and the value of the
  mathematical remainder, if the divisor is at most one digit longer than the dividend, or, for
  operands of different signs, has two digits or more or leaves a positive remainder.  For a long
  divisor and for two negative operands this holds in runs without a collection: the collector does
  not know of the remainder while the quotient is normalised.
\<close>

theorem long_mod_correct:
  assumes "norm_int a" "norm_int b" "int_value b \<noteq> 0"
    and "if opposite (int_value a) (int_value b)
         then 2 \<le> ndig b \<or> 0 < int_value b \<and> int_value a mod int_value b \<noteq> 0
         else ndig b \<le> ndig a + 1"
  shows "meets (if is_long b \<or> int_value a < 0 \<and> int_value b < 0 then no_gc else any_alloc) (AMod a b)
    (returns_int (int_value a mod int_value b))"
  by (rule meets_AMod) (use assms in auto)

theorem long_mod_correct_witness:
  "meets any_alloc (AMod (long_of True [5, 0, 1]) (short 10)) (returns_int (- (5 + 2 ^ 64) mod 10))"
proof -
  have n: "norm_int (long_of True [5, 0, 1])" "int_value (long_of True [5, 0, 1]) = - (5 + 2 ^ 64)"
    using norm_long_of [of "[5, 0, 1]" True] by (simp_all add: with_sign_def fits_short_def)
  show ?thesis using long_mod_correct [OF n(1), of "short 10"] n(2) by simp
qed

lemma fails_with_temps:
  assumes "fails e m" shows "fails e (with_temps n m)"
  unfolding with_temps_def
proof (rule fails_next [OF meets_next_alloc])
  fix x :: "bool \<times> digit list"
  show "fails e (\<lambda>t. case m (t\<lparr>tempStackPtr := tempStackPtr t + n\<rparr>) of
                (r, t') \<Rightarrow> (r, t'\<lparr>tempStackPtr := tempStackPtr t' - n\<rparr>))"
    using assms by (auto simp: fails_def split: prod.splits) (metis (no_types, lifting) athread.select_convs(1) athread.surjective athread.update_convs(2) fst_conv)
qed

lemma fails_create:
  assumes "\<And>gc d. fresh n d \<Longrightarrow> fails e (f (gc, d))" shows "fails e (bindM (CreateLongInt n) f)"
  by (rule fails_next [OF meets_CreateLongInt]) (use assms in auto)

lemma fails_ADivModLongInt:
  assumes "li_neg a = li_neg b" "li_len a + 2 \<le> li_len b"
  shows "fails UndefinedBehaviour (ADivModLongInt a b)"
  unfolding ADivModLongInt_def Let_def
  using assms
  by (auto intro!: fails_with_temps fails_create simp: round_operand_def bind_ret div_rounds_def put_digits_def fresh_def)

text \<open>
  Where the signs agree and the divisor has at least two digits more than the dividend, the
  division works on a quotient of no digits and reads outside of its block.
\<close>

theorem div_longer_divisor:
  assumes "norm_int a" "norm_int b" "\<not> opposite (int_value a) (int_value b)" "ndig a + 2 \<le> ndig b"
  shows "fails UndefinedBehaviour (AIntDiv a b)"
proof -
  have "is_long b" using assms(1,4) by (cases b; cases a) (auto split: if_splits)
  moreover have "int_value b \<noteq> 0"
    using assms(2) \<open>is_long b\<close> by (cases b) (auto simp: fits_short_def)
  ultimately have eq: "DivModInts a b = bindM (ACoerce a b) (\<lambda>(a, b). the_long a (\<lambda>a. the_long b (ADivModLongInt a)))"
    by (intro DivModInts_coerced) simp_all
  have "fails UndefinedBehaviour (DivModInts a b)"
    unfolding eq
    by (rule fails_next [OF meets_coerce_any [OF assms(1,2)]])
      (use \<open>is_long b\<close> assms in \<open>auto intro!: fails_ADivModLongInt simp: long_form_def\<close>)
  then show ?thesis unfolding AIntDiv_def by (rule fails_first)
qed

theorem div_longer_divisor_witness:
  "fails UndefinedBehaviour (AIntDiv (short 1) (long_of False [5, 0, 1]))"
proof -
  have n: "norm_int (long_of False [5, 0, 1])" "int_value (long_of False [5, 0, 1]) = 5 + 2 ^ 64"
    using norm_long_of [of "[5, 0, 1]" False] by (simp_all add: with_sign_def fits_short_def)
  have "ndig (short 1) = 1" "ndig (long_of False [5, 0, 1]) = 3" by (simp_all add: short_val_def long_of_def)
  then show ?thesis using div_longer_divisor [OF _ n(1), of "short 1"] n(2) by simp
qed

text \<open>
  A quotient of one zero digit, and the remainder of a long integer and a negative short one, are
  read together with the left-over contents of their block.
\<close>

theorem div_reads_left_over:
  "fst (AIntDiv (long_of False [6, 0x70000000]) (long_of False [6, 0, 1])
     \<lparr>allocs = replicate 9 (AllocBlock False [7, 7]), tempStackPtr = 0\<rparr>)
   = Inr (AShort (of_int (4 * (7 * 2 ^ 32))))"
  by code_simp

theorem mod_reads_left_over:
  "fst (AMod (long_of False [6, 0, 1]) (short (- 3))
     \<lparr>allocs = replicate 9 (AllocBlock False [7, 7]), tempStackPtr = 0\<rparr>)
   = Inr (AShort (of_int (4 * - (2 + 7 * 2 ^ 32))))
   \<and> (6 + 2 ^ 64) mod (- 3) = (- 2 :: int)"
  by code_simp

text \<open>A collection while the quotient is copied leaves the long remainder dangling.\<close>

theorem mod_lost_in_collection:
  "fst (AMod (long_of False [0, 0x50000000, 1]) (long_of False [6, 0xF0000000])
     \<lparr>allocs = replicate 9 (AllocBlock True []), tempStackPtr = 0\<rparr>)
   = Inl UndefinedBehaviour"
  by code_simp

section \<open>Powers\<close>

text \<open>
  C11: A power of an Int value is the mathematical power in normal form, for a base of either
  sign and size, in a run where no allocation fails if the base is short (for a long base a failed
  allocation raises a memory error); a negative exponent raises an arithmetic error and a long exponent of any base
  but 0, 1 and -1 a value error.
\<close>

theorem pow_correct:
  assumes "norm_int b" "norm_int e"
  shows "if int_value e < 0 then APowInt b e = raise ArithmeticError
    else if is_long e \<and> 1 < \<bar>int_value b\<bar> then APowInt b e = raise (ValueError [])
    else meets (if is_long b then any_alloc else enough_mem) (APowInt b e) (returns_int (int_value b ^ nat (int_value e)))"
proof (cases e)
  case (AShort w)
  then show ?thesis
    using meets_pow_int [OF assms(1), of w "if is_long b then any_alloc else enough_mem"]
    by (auto simp: short_val_def APowInt_def Let_def sint_AValueToInt)
next
  case (ALong l)
  have p: "(- 1 :: int) ^ nat (li_value l) = (if even (li_value l) then 1 else - 1)" if "0 \<le> li_value l"
    using that by (auto simp: even_nat_iff)
  consider "1 < \<bar>int_value b\<bar>" | "int_value b = 0" | "int_value b = 1" | "int_value b = - 1" by linarith
  moreover have "nat (li_value l) \<noteq> 0" if "\<not> li_value l < 0"
    using that assms(2) ALong by (auto simp: fits_short_def)
  ultimately show ?thesis
    using pow_long_exponent [OF assms(1), of l] assms(2) p unfolding ALong
    by cases (auto intro!: meets_ret simp: returns_int_def)
qed

theorem pow_correct_witness:
  "meets enough_mem (APowInt (short (- 3)) (short 101)) (returns_int ((- 3) ^ 101))"
  using pow_correct [of "short (- 3)" "short 101"] by simp

end
