(* ===== verification/Base64.thy ===== *)
theory Base64
  imports Alore_Prelude
begin

text \<open>
  The base64 module (\<^verbatim>\<open>src/src/base64_module.c\<close>).  A string is the list of its character codes
  (below 65536 in a wide string).  A new string starts with left-over memory, which the
  allocation outcome provides.  Lengths are C \<^verbatim>\<open>int\<close>s as in the code: the length of a longer string is
  cut to 32 bits and an overflow is undefined.
\<close>

section \<open>Tables\<close>

definition Base64Alpha :: "nat list" where
  "Base64Alpha = map of_char
     ''ABCDEFGHIJKLMNOPQRSTUVWXYZabcdefghijklmnopqrstuvwxyz0123456789+/''"

definition Base64DecMap :: "int list" where
  "Base64DecMap = [
    -1, -1, -1, -1, -1, -1, -1, -1, -1, -1, -1, -1, -1, -1, -1, -1,
    -1, -1, -1, -1, -1, -1, -1, -1, -1, -1, -1, -1, -1, -1, -1, -1,
    -1, -1, -1, -1, -1, -1, -1, -1, -1, -1, -1, 62, -1, -1, -1, 63,
    52, 53, 54, 55, 56, 57, 58, 59, 60, 61, -1, -1, -1,  0, -1, -1,
    -1,  0,  1,  2,  3,  4,  5,  6,  7,  8,  9, 10, 11, 12, 13, 14,
    15, 16, 17, 18, 19, 20, 21, 22, 23, 24, 25, -1, -1, -1, -1, -1,
    -1, 26, 27, 28, 29, 30, 31, 32, 33, 34, 35, 36, 37, 38, 39, 40,
    41, 42, 43, 44, 45, 46, 47, 48, 49, 50, 51, -1, -1, -1, -1, -1]"

abbreviation PAD :: nat where
  "PAD \<equiv> 61"

section \<open>Encoding\<close>

text \<open>One chunk of up to three bytes; \<open>left\<close> is the number of characters left, this chunk included.\<close>

definition encode_chunk :: "nat \<Rightarrow> nat \<Rightarrow> nat \<Rightarrow> nat \<Rightarrow> nat list" where
  "encode_chunk left b1 b2 b3 =
     [Base64Alpha ! (drop_bit 2 b1),
      Base64Alpha ! (push_bit 4 (b1 AND 3) OR drop_bit 4 b2),
      (if left \<le> 1 then PAD else Base64Alpha ! (push_bit 2 (b2 AND 15) OR drop_bit 6 b3)),
      (if left \<le> 2 then PAD else Base64Alpha ! (b3 AND 63))]"

text \<open>
  A new narrow string holds left-over memory; a store outside of a string, and a negative length, are
  undefined.
\<close>

definition AMakeEmpty :: "int \<Rightarrow> nat list rt" where
  "AMakeEmpty n =
     (if n < 0 then raise UndefinedBehaviour
      else bindM next_alloc
             (\<lambda>(_, junk). ret (take (nat n) (map (\<lambda>d. unat d mod 256) junk @ replicate (nat n) 0))))"

definition put_char :: "nat \<Rightarrow> nat \<Rightarrow> nat list \<Rightarrow> aerror + nat list" where
  "put_char i c s = (if i < length s then Inr (s[i := c]) else Inl UndefinedBehaviour)"

fun put_chars :: "nat \<Rightarrow> nat list \<Rightarrow> nat list \<Rightarrow> aerror + nat list" where
  "put_chars i [] s = Inr s"
| "put_chars i (c # cs) s = (case put_char i c s of Inl e \<Rightarrow> Inl e | Inr s \<Rightarrow> put_chars (i + 1) cs s)"

text \<open>The main loop; a character is cut to a byte by the assignment to \<^verbatim>\<open>unsigned char\<close>.\<close>

fun encode_loop :: "nat \<Rightarrow> nat list \<Rightarrow> nat list \<Rightarrow> aerror + nat list" where
  "encode_loop resInd [] res = Inr res"
| "encode_loop resInd [a] res = put_chars resInd (encode_chunk 1 (a mod 256) 0 0) res"
| "encode_loop resInd [a, b] res = put_chars resInd (encode_chunk 2 (a mod 256) (b mod 256) 0) res"
| "encode_loop resInd (a # b # c # xs) res =
     (case put_chars resInd (encode_chunk (3 + length xs) (a mod 256) (b mod 256) (c mod 256)) res of
        Inl e \<Rightarrow> Inl e
      | Inr res \<Rightarrow> encode_loop (resInd + 4) xs res)"

text \<open>The C quotient by a positive integer.\<close>

definition quot_int :: "int \<Rightarrow> int \<Rightarrow> int" where
  "quot_int x d = (if x < 0 then - (- x div d) else x div d)"

text \<open>The lengths are C \<^verbatim>\<open>int\<close>s; their overflow is undefined.\<close>

definition Base64Encode :: "nat list \<Rightarrow> nat list rt" where
  "Base64Encode s =
     (let srcLen = sint (of_nat (length s) :: 32 word);
          dstLen = quot_int (srcLen + 2) 3 * 4
      in if srcLen + 2 \<ge> 2 ^ 31 \<or> dstLen \<ge> 2 ^ 31 then raise UndefinedBehaviour
         else bindM (AMakeEmpty dstLen)
           (\<lambda>res. case encode_loop 0 (take (nat srcLen) s) res of Inl e \<Rightarrow> raise e | Inr res \<Rightarrow> ret res))"

section \<open>Decoding\<close>

text \<open>The value of a character, and the pad bits of a chunk.\<close>

definition decode_char :: "nat \<Rightarrow> aerror + nat" where
  "decode_char c =
     (let v = (if c < 128 then Base64DecMap ! c else - 1)
      in if v = - 1 then Inl (ValueError ''Non-alphabet input character'') else Inr (nat v))"

definition decode_chunk :: "nat \<Rightarrow> nat \<Rightarrow> nat \<Rightarrow> nat \<Rightarrow> aerror + (nat \<times> nat \<times> nat \<times> nat)" where
  "decode_chunk c0 c1 c2 c3 =
     (case decode_char c0 of Inl e \<Rightarrow> Inl e | Inr i0 \<Rightarrow>
     (case decode_char c1 of Inl e \<Rightarrow> Inl e | Inr i1 \<Rightarrow>
     (case decode_char c2 of Inl e \<Rightarrow> Inl e | Inr i2 \<Rightarrow>
     (case decode_char c3 of Inl e \<Rightarrow> Inl e | Inr i3 \<Rightarrow>
        Inr ((push_bit 2 i0 OR drop_bit 4 i1) mod 256,
             (push_bit 4 (i1 AND 15) OR drop_bit 2 i2) mod 256,
             (push_bit 6 (i2 AND 3) OR i3) mod 256,
             (if c0 = PAD then 1 else 0) + (if c1 = PAD then 2 else 0)
               + (if c2 = PAD then 4 else 0) + (if c3 = PAD then 8 else 0))))))"

fun decode_loop :: "nat \<Rightarrow> nat list \<Rightarrow> nat list \<Rightarrow> aerror + nat list" where
  "decode_loop resInd (c0 # c1 # c2 # c3 # rest) res =
     (case decode_chunk c0 c1 c2 c3 of
        Inl e \<Rightarrow> Inl e
      | Inr (o0, o1, o2, pad) \<Rightarrow>
          (case put_char resInd o0 res of
             Inl e \<Rightarrow> Inl e
           | Inr res \<Rightarrow>
               if resInd + 1 < length res then
                 let res = res[resInd + 1 := o1]
                 in if resInd + 2 < length res then
                      let res = res[resInd + 2 := o2]
                      in if pad \<noteq> 0 then Inl (ValueError ''Padding before input end'')
                         else decode_loop (resInd + 3) rest res
                    else if pad \<noteq> 8 then Inl (ValueError ''Incorrect padding'')
                    else decode_loop (resInd + 3) rest res
               else if pad \<noteq> 12 then Inl (ValueError ''Incorrect padding'')
               else decode_loop (resInd + 3) rest res))"
| "decode_loop resInd _ res = Inr res"

text \<open>
  The exact length of the result; the character before the last is read even in a string of
  one character.
\<close>

definition decoded_len :: "int \<Rightarrow> nat list \<Rightarrow> aerror + int" where
  "decoded_len srcLen s =
     (if srcLen \<le> 0 then Inr (quot_int srcLen 4 * 3)
      else if srcLen = 1 then Inl UndefinedBehaviour
      else Inr (quot_int srcLen 4 * 3 - (if s ! nat (srcLen - 1) = PAD then 1 else 0)
                                      - (if s ! nat (srcLen - 2) = PAD then 1 else 0)))"

definition Base64Decode :: "nat list \<Rightarrow> nat list rt" where
  "Base64Decode s =
     (let srcLen = sint (of_nat (length s) :: 32 word)
      in case decoded_len srcLen s of
           Inl e \<Rightarrow> raise e
         | Inr dstLen \<Rightarrow>
             bindM (AMakeEmpty dstLen) (\<lambda>res.
               case decode_loop 0 (take (nat srcLen) s) res of
                 Inl e \<Rightarrow> raise e
               | Inr res \<Rightarrow>
                   if length s mod 4 \<noteq> 0 then raise (ValueError ''Incorrect padding'') else ret res))"

section \<open>Bit lemmas\<close>

lemma or_add: "y < 2 ^ n \<Longrightarrow> push_bit n x OR y = x * 2 ^ n + (y :: nat)"
proof -
  assume "y < 2 ^ n"
  then have "take_bit n y = y" by (simp add: take_bit_nat_eq_self_iff)
  then have "\<not> bit y k" if "n \<le> k" for k using that by (metis bit_take_bit_iff not_le)
  then have "push_bit n x OR y = push_bit n x + y"
    by (intro disjunctive_add [symmetric]) (auto simp: bit_push_bit_iff)
  then show ?thesis by (simp add: push_bit_eq_mult)
qed

lemma low_bits: "x AND 3 = x mod 4" "x AND 15 = x mod 16" "x AND 63 = x mod (64 :: nat)"
  using take_bit_eq_mask [of 2 x] take_bit_eq_mask [of 4 x] take_bit_eq_mask [of 6 x]
  by (simp_all add: take_bit_eq_mod mask_eq_exp_minus_1)

lemmas chunk_arith = or_add low_bits drop_bit_eq_div

lemma alpha_decode: "k < 64 \<Longrightarrow> decode_char (Base64Alpha ! k) = Inr k \<and> Base64Alpha ! k \<noteq> PAD"
proof -
  have "list_all (\<lambda>k. decode_char (Base64Alpha ! k) = Inr k \<and> Base64Alpha ! k \<noteq> PAD) [0..<64]" by code_simp
  then show "k < 64 \<Longrightarrow> decode_char (Base64Alpha ! k) = Inr k \<and> Base64Alpha ! k \<noteq> PAD"
    by (simp add: list_all_iff)
qed

lemma pad_decode: "decode_char PAD = Inr 0"
  by code_simp

section \<open>Decoding inverts encoding\<close>

lemma sextets:
  assumes "b1 < 256" "b2 < 256" "b3 < (256 :: nat)"
  shows "push_bit 4 (b1 AND 3) OR drop_bit 4 b2 = (b1 mod 4) * 16 + b2 div 16"
    "push_bit 2 (b2 AND 15) OR drop_bit 6 b3 = (b2 mod 16) * 4 + b3 div 64"
  using assms by (simp_all add: chunk_arith div_less_iff_less_mult)

lemma octets:
  assumes "i0 < 64" "i1 < 64" "i2 < 64" "i3 < (64 :: nat)"
  shows "push_bit 2 i0 OR drop_bit 4 i1 = i0 * 4 + i1 div 16"
    "push_bit 4 (i1 AND 15) OR drop_bit 2 i2 = (i1 mod 16) * 16 + i2 div 4"
    "push_bit 6 (i2 AND 3) OR i3 = (i2 mod 4) * 64 + i3"
  using assms by (simp_all add: chunk_arith div_less_iff_less_mult)

lemma decode_chunk_eq:
  assumes "decode_char c0 = Inr i0" "decode_char c1 = Inr i1" "decode_char c2 = Inr i2" "decode_char c3 = Inr i3"
    and "i0 < 64" "i1 < 64" "i2 < 64" "i3 < 64" "c0 \<noteq> PAD" "c1 \<noteq> PAD"
  shows "decode_chunk c0 c1 c2 c3 =
     Inr (i0 * 4 + i1 div 16, (i1 mod 16) * 16 + i2 div 4, (i2 mod 4) * 64 + i3,
          (if c2 = PAD then 4 else 0) + (if c3 = PAD then 8 else 0))"
proof -
  have "i0 * 4 + i1 div 16 < 256" "(i1 mod 16) * 16 + i2 div 4 < 256" "(i2 mod 4) * 64 + i3 < 256"
    using assms by linarith+
  with assms octets [of i0 i1 i2 i3] show ?thesis by (simp add: decode_chunk_def)
qed

lemma rejoin: "y < (n :: nat) \<Longrightarrow> (x * n + y) div n = x \<and> (x * n + y) mod n = y"
  by simp

text \<open>The three shapes of a chunk: full, two bytes and one byte.\<close>

lemma decode_encode_chunk:
  assumes b: "b1 < 256" "b2 < 256" "b3 < 256"
    and enc: "encode_chunk left b1 b2 b3 = [c0, c1, c2, c3]"
  shows "left \<ge> 3 \<Longrightarrow> decode_chunk c0 c1 c2 c3 = Inr (b1, b2, b3, 0)"
    "left = 2 \<Longrightarrow> b3 = 0 \<Longrightarrow> \<exists>x. decode_chunk c0 c1 c2 c3 = Inr (b1, b2, x, 8)"
    "left = 1 \<Longrightarrow> b2 = 0 \<Longrightarrow> \<exists>x y. decode_chunk c0 c1 c2 c3 = Inr (b1, x, y, 12)"
proof -
  define i0 i1 i2 i3 where i: "i0 = b1 div 4" "i1 = (b1 mod 4) * 16 + b2 div 16"
    "i2 = (b2 mod 16) * 4 + b3 div 64" "i3 = b3 mod 64"
  have lt: "i0 < 64" "i1 < 64" "i2 < 64" "i3 < 64" unfolding i using b by linarith+
  note al = alpha_decode [OF lt(1)] alpha_decode [OF lt(2)] alpha_decode [OF lt(3)] alpha_decode [OF lt(4)]
  have c: "c0 = Base64Alpha ! i0" "c1 = Base64Alpha ! i1"
    "c2 = (if left \<le> 1 then PAD else Base64Alpha ! i2)" "c3 = (if left \<le> 2 then PAD else Base64Alpha ! i3)"
    using enc unfolding encode_chunk_def sextets [OF b] unfolding drop_bit_eq_div low_bits i by simp_all
  have o: "i0 * 4 + i1 div 16 = b1" "(i1 mod 16) * 16 + i2 div 4 = b2" "(i2 mod 4) * 64 + i3 = b3"
    unfolding i using rejoin [of "b2 div 16" 16 "b1 mod 4"] rejoin [of "b3 div 64" 4 "b2 mod 16"] b
    by (simp_all add: div_less_iff_less_mult)
  note eq = decode_chunk_eq [OF _ _ _ _ lt(1,2)]
  show "decode_chunk c0 c1 c2 c3 = Inr (b1, b2, b3, 0)" if "left \<ge> 3"
    using eq [of c0 c1 c2 i2 c3 i3] that al lt c o by simp
  show "\<exists>x. decode_chunk c0 c1 c2 c3 = Inr (b1, b2, x, 8)" if "left = 2" "b3 = 0"
    using eq [of c0 c1 c2 i2 c3 0] that al lt c o pad_decode by simp
  show "\<exists>x y. decode_chunk c0 c1 c2 c3 = Inr (b1, x, y, 12)" if "left = 1" "b2 = 0"
    using eq [of c0 c1 c2 0 c3 0] that al lt c o pad_decode by simp
qed

lemma encode_chunk_list: "\<exists>c0 c1 c2 c3. encode_chunk left b1 b2 b3 = [c0, c1, c2, c3]"
  by (simp add: encode_chunk_def)

lemma upd3: "n + 3 \<le> length r \<Longrightarrow>
  take (n + 3) (r[n := x, Suc n := y, Suc (Suc n) := z]) = take n r @ [x, y, z]"
  by (rule nth_equalityI) (auto simp: nth_append nth_list_update nth_Cons less_Suc_eq split: nat.splits)

lemma upd1: "length r = Suc n \<Longrightarrow> r[n := x] = take n r @ [x]"
  by (rule nth_equalityI) (auto simp: nth_append nth_list_update less_Suc_eq)

lemma upd2: "length r = Suc (Suc n) \<Longrightarrow> r[n := x, Suc n := y] = take n r @ [x, y]"
  by (rule nth_equalityI) (auto simp: nth_append nth_list_update nth_Cons less_Suc_eq split: nat.splits)

text \<open>The encoded text of a string.\<close>

fun encoded :: "nat list \<Rightarrow> nat list" where
  "encoded [] = []"
| "encoded [a] = encode_chunk 1 (a mod 256) 0 0"
| "encoded [a, b] = encode_chunk 2 (a mod 256) (b mod 256) 0"
| "encoded (a # b # c # xs) =
     encode_chunk (3 + length xs) (a mod 256) (b mod 256) (c mod 256) @ encoded xs"

lemma decode_encoded:
  assumes "list_all (\<lambda>c. c < 256) s" "length res = n + length s"
  shows "decode_loop n (encoded s) res = Inr (take n res @ s)"
  using assms
proof (induction s arbitrary: n res rule: encoded.induct)
  case 1
  then show ?case by simp
next
  case (2 a)
  obtain c0 c1 c2 c3 where e: "encode_chunk 1 a 0 0 = [c0, c1, c2, c3]" using encode_chunk_list by metis
  obtain x y where "decode_chunk c0 c1 c2 c3 = Inr (a, x, y, 12)"
    using decode_encode_chunk(3) [OF _ _ _ e] 2 by auto
  with 2 e show ?case by (simp add: put_char_def upd1)
next
  case (3 a b)
  obtain c0 c1 c2 c3 where e: "encode_chunk 2 a b 0 = [c0, c1, c2, c3]" using encode_chunk_list by metis
  obtain x where "decode_chunk c0 c1 c2 c3 = Inr (a, b, x, 8)"
    using decode_encode_chunk(2) [OF _ _ _ e] 3 by auto
  with 3 e show ?case by (simp add: put_char_def upd2)
next
  case (4 a b c xs)
  obtain c0 c1 c2 c3 where e: "encode_chunk (3 + length xs) a b c = [c0, c1, c2, c3]"
    using encode_chunk_list by metis
  have d: "decode_chunk c0 c1 c2 c3 = Inr (a, b, c, 0)"
    using decode_encode_chunk(1) [OF _ _ _ e] 4 by auto
  let ?r = "res[n := a, Suc n := b, Suc (Suc n) := c]"
  have "decode_loop (n + 3) (encoded xs) ?r = Inr (take (n + 3) ?r @ xs)"
    using 4 by (intro 4) auto
  moreover have "take (n + 3) ?r = take n res @ [a, b, c]" using 4 by (intro upd3) simp
  ultimately show ?case using 4 e d by (simp add: put_char_def Let_def)
qed

lemma length_encoded: "length (encoded s) = (length s + 2) div 3 * 4"
proof (induction s rule: encoded.induct)
  case (4 a b c xs)
  have "(length (a # b # c # xs) + 2) div 3 = Suc ((length xs + 2) div 3)" by simp
  with 4 show ?case by (simp add: encode_chunk_def)
qed (simp_all add: encode_chunk_def)

lemma nth_from_end:
  "0 < k \<Longrightarrow> k \<le> length ys \<Longrightarrow> (xs @ ys) ! (length (xs @ ys) - k) = ys ! (length ys - k)"
  by (auto simp: nth_append)

lemma encoded_Nil: "encoded s = [] \<longleftrightarrow> s = []"
  by (cases s rule: encoded.cases) (simp_all add: encode_chunk_def)

text \<open>The pad characters at the end tell the length of the last chunk.\<close>

lemma encoded_pads:
  assumes "s \<noteq> []"
  shows "2 \<le> length (encoded s)"
    "encoded s ! (length (encoded s) - 1) = PAD \<longleftrightarrow> length s mod 3 \<noteq> 0"
    "encoded s ! (length (encoded s) - 2) = PAD \<longleftrightarrow> length s mod 3 = 1"
proof -
  have al: "Base64Alpha ! (b AND 63) \<noteq> PAD" for b
    using alpha_decode [of "b mod 64"] by (simp add: low_bits)
  have al2: "Base64Alpha ! (push_bit 2 (b mod 256 AND 15) OR drop_bit 6 (c mod 256)) \<noteq> PAD" for b c
  proof -
    have "(b mod 256 mod 16) * 4 + c mod 256 div 64 < 64" by linarith
    with sextets [of 0 "b mod 256" "c mod 256"] alpha_decode show ?thesis by simp
  qed
  have "2 \<le> length (encoded s) \<and>
    (encoded s ! (length (encoded s) - 1) = PAD \<longleftrightarrow> length s mod 3 \<noteq> 0) \<and>
    (encoded s ! (length (encoded s) - 2) = PAD \<longleftrightarrow> length s mod 3 = 1)"
    using assms
  proof (induction s rule: encoded.induct)
    case (4 a b c xs)
    have m: "length (a # b # c # xs) mod 3 = length xs mod 3"
      using mod_add_self1 [of 3 "length xs"] by (simp add: add.commute)
    show ?case
    proof (cases "xs = []")
      case True
      then show ?thesis using al [of "c mod 256"] al2 [of b c] by (simp add: encode_chunk_def)
    next
      case False
      with 4 have IH: "2 \<le> length (encoded xs)"
        "encoded xs ! (length (encoded xs) - 1) = PAD \<longleftrightarrow> length xs mod 3 \<noteq> 0"
        "encoded xs ! (length (encoded xs) - 2) = PAD \<longleftrightarrow> length xs mod 3 = 1" by auto
      let ?C = "encode_chunk (3 + length xs) (a mod 256) (b mod 256) (c mod 256)" and ?E = "encoded xs"
      have p: "(?C @ ?E) ! (length (?C @ ?E) - 1) = ?E ! (length ?E - 1)"
        "(?C @ ?E) ! (length (?C @ ?E) - 2) = ?E ! (length ?E - 2)"
        using IH(1) by (intro nth_from_end; linarith)+
      have "2 \<le> length (?C @ ?E)" using IH(1) by simp
      then show ?thesis unfolding m encoded.simps(4) p IH(2,3) by blast
    qed
  next
    case (3 a b)
    show ?case using al2 [of b 0] by (simp add: encode_chunk_def)
  qed (simp_all add: encode_chunk_def)
  then show "2 \<le> length (encoded s)"
    "encoded s ! (length (encoded s) - 1) = PAD \<longleftrightarrow> length s mod 3 \<noteq> 0"
    "encoded s ! (length (encoded s) - 2) = PAD \<longleftrightarrow> length s mod 3 = 1" by auto
qed

lemma decoded_len_encode: "decoded_len (int (length (encoded s))) (encoded s) = Inr (int (length s))"
proof (cases "s = []")
  case False
  note p = encoded_pads [OF False]
  have i: "nat (int (length (encoded s)) - 1) = length (encoded s) - 1"
    "nat (int (length (encoded s)) - 2) = length (encoded s) - 2" using p(1) by linarith+
  have q: "quot_int (int (length (encoded s))) 4 = int (length (encoded s) div 4)"
    by (simp add: quot_int_def zdiv_int)
  have l: "\<not> int (length (encoded s)) \<le> 0" "int (length (encoded s)) \<noteq> 1" using p(1) by linarith+
  have "length s mod 3 = 0 \<or> length s mod 3 = 1 \<or> length s mod 3 = 2" by linarith
  moreover have "int ((length s + 2) div 3 * 4 div 4 * 3) =
      int (length s) + (if length s mod 3 = 0 then 0 else 3 - int (length s mod 3))"
    using False by (simp; presburger)
  ultimately show ?thesis
    using p False l unfolding decoded_len_def i q by (auto simp: length_encoded)
qed (simp add: decoded_len_def quot_int_def)

text \<open>The stores of the encoder.\<close>

lemma put_chars_ok:
  "i + length cs \<le> length res \<Longrightarrow> put_chars i cs res = Inr (take i res @ cs @ drop (i + length cs) res)"
proof (induction cs arbitrary: i res)
  case (Cons c cs)
  have "take (i + 1) (res[i := c]) = take i res @ [c]" "drop (i + 1 + length cs) (res[i := c]) = drop (i + 1 + length cs) res"
    using Cons.prems by (simp_all add: take_Suc_conv_app_nth)
  with Cons show ?case by (simp add: put_char_def)
qed simp

lemma length_chunk: "length (encode_chunk left b1 b2 b3) = 4"
  by (simp add: encode_chunk_def)

lemma encode_loop_ok:
  "i + length (encoded s) = length res \<Longrightarrow> encode_loop i s res = Inr (take i res @ encoded s)"
proof (induction i s res rule: encode_loop.induct)
  case (4 i a b c xs res)
  let ?C = "encode_chunk (3 + length xs) (a mod 256) (b mod 256) (c mod 256)"
  have l: "length ?C = 4" by (rule length_chunk)
  let ?r = "take i res @ ?C @ drop (i + 4) res"
  have p: "put_chars i ?C res = Inr ?r" using put_chars_ok [of i ?C res] "4.prems" l by simp
  have "encode_loop (i + 4) xs ?r = Inr (take (i + 4) ?r @ encoded xs)"
    using "4.prems" l by (intro "4.IH" [OF p]) simp
  moreover have "take (i + 4) ?r = take i res @ ?C" using "4.prems" l by simp
  ultimately show ?case by (simp add: p)
qed (simp_all add: put_chars_ok length_chunk)

section \<open>Decoding any input\<close>

text \<open>The loop stays inside the result, and it accepts alphabet and pad characters only.\<close>

definition valid_char :: "nat \<Rightarrow> bool" where
  "valid_char c = (c = PAD \<or> 65 \<le> c \<and> c \<le> 90 \<or> 97 \<le> c \<and> c \<le> 122 \<or> 48 \<le> c \<and> c \<le> 57 \<or> c = 43 \<or> c = 47)"

lemma decode_char_cases:
  "decode_char c = (if valid_char c then Inr (nat (Base64DecMap ! c))
                    else Inl (ValueError ''Non-alphabet input character''))"
proof -
  have "list_all (\<lambda>c. (Base64DecMap ! c = - 1) = (\<not> valid_char c)) [0..<128]" by code_simp
  then have v: "c < 128 \<Longrightarrow> (Base64DecMap ! c = - 1) = (\<not> valid_char c)" unfolding list_all_iff set_upt by simp
  have "valid_char c \<Longrightarrow> c < 128" by (auto simp: valid_char_def)
  with v show ?thesis by (auto simp: decode_char_def Let_def)
qed

lemma decode_chunk_cases:
  "decode_chunk c0 c1 c2 c3 = Inl (ValueError ''Non-alphabet input character'') \<or>
   list_all valid_char [c0, c1, c2, c3] \<and> (\<exists>o0 o1 o2 pad. decode_chunk c0 c1 c2 c3 = Inr (o0, o1, o2, pad))"
  by (simp add: decode_chunk_def decode_char_cases)

lemma decode_loop_safe:
  assumes "n + 3 * (length s div 4) \<le> length res + 2"
  shows "case decode_loop n s res of
      Inl e \<Rightarrow> (\<exists>m. e = ValueError m)
    | Inr r \<Rightarrow> length r = length res \<and> list_all valid_char (take (length s div 4 * 4) s)"
  using assms
proof (induction n s res rule: decode_loop.induct)
  case (1 n c0 c1 c2 c3 rest res)
  have l: "length (c0 # c1 # c2 # c3 # rest) div 4 = Suc (length rest div 4)" by simp
  have n: "n < length res" using "1.prems" unfolding l by simp
  from decode_chunk_cases [of c0 c1 c2 c3] show ?case
  proof (elim disjE conjE exE)
    fix o0 o1 o2 pad assume v: "list_all valid_char [c0, c1, c2, c3]"
      and d: "decode_chunk c0 c1 c2 c3 = Inr (o0, o1, o2, pad)"
    let ?n = "length res" and ?r = "res[n := o0]"
    have tk: "list_all valid_char (take (length (c0 # c1 # c2 # c3 # rest) div 4 * 4) (c0 # c1 # c2 # c3 # rest))
        = list_all valid_char (take (length rest div 4 * 4) rest)"
    proof -
      have "Suc (length rest div 4) * 4 = Suc (Suc (Suc (Suc (length rest div 4 * 4))))" by simp
      with v show ?thesis unfolding l by (simp only: take_Suc_Cons list.pred_inject simp_thms)
    qed
    have b: "n + 3 + 3 * (length rest div 4) \<le> ?n + 2" using "1.prems" unfolding l by simp
    show ?thesis
    proof (cases "n + 1 < ?n")
      case False
      then show ?thesis using "1.IH"(3) [OF d refl refl refl, of ?r] n b unfolding tk
        by (simp add: d put_char_def cong: sum.case_cong)
    next
      case one: True
      show ?thesis
      proof (cases "n + 2 < ?n")
        case True
        then show ?thesis using "1.IH"(1) [OF d refl refl refl, of ?r] one n b unfolding tk
          by (simp add: d put_char_def Let_def cong: sum.case_cong)
      next
        case False
        then show ?thesis using "1.IH"(2) [OF d refl refl refl, of ?r] one n b unfolding tk
          by (simp add: d put_char_def Let_def cong: sum.case_cong)
      qed
    qed
  qed simp
qed simp_all

section \<open>Properties\<close>

lemma sint_len: "n < 2147483648 \<Longrightarrow> sint (of_nat n :: 32 word) = int n"
  by (simp add: signed_of_nat signed_take_bit_int_eq_self)

lemma meets_AMakeEmpty: "meets Q (AMakeEmpty (int n)) (\<lambda>res. length res = n)"
  unfolding AMakeEmpty_def by (auto intro!: meets_bind [OF meets_next_alloc] meets_ret)

lemma meets_Base64Decode:
  assumes "\<And>res. length res = n \<Longrightarrow> decode_loop 0 s res = Inr r"
    and "decoded_len (int (length s)) s = Inr (int n)" "length s mod 4 = 0" "length s < 2147483648"
  shows "meets Q (Base64Decode s) (\<lambda>x. x = r)"
  unfolding Base64Decode_def Let_def sint_len [OF assms(4)] assms(2) sum.case
  by (rule meets_bind [OF meets_AMakeEmpty]) (auto simp: assms)

lemma meets_Base64Encode:
  assumes "(length s + 2) div 3 * 4 < 2147483648"
  shows "meets Q (Base64Encode s) (\<lambda>e. e = encoded s)"
proof -
  have len: "length s < 2147483648" "length s + 2 < 2147483648" using assms by linarith+
  have d: "quot_int (int (length s) + 2) 3 * 4 = int (length (encoded s))"
    by (simp add: quot_int_def length_encoded zdiv_int)
  have ok: "\<not> (int (length s) + 2 \<ge> 2 ^ 31 \<or> int (length (encoded s)) \<ge> 2 ^ 31)"
    using assms len(2) by (simp add: length_encoded)
  show ?thesis
    unfolding Base64Encode_def Let_def sint_len [OF len(1)] d if_not_P [OF ok]
    by (rule meets_bind [OF meets_AMakeEmpty]) (simp add: encode_loop_ok [of 0] meets_ret)
qed

text \<open>
  C16: Decoding inverts encoding: for every string of bytes whose encoded text has a length that fits a
  C \<^verbatim>\<open>int\<close>, Base64Encode followed by Base64Decode returns the string, unless memory runs out, whatever
  memory the new strings are allocated in; in particular no store is outside of a new string.
\<close>

theorem base64_roundtrip:
  assumes "list_all (\<lambda>c. c < 256) s" "(length s + 2) div 3 * 4 < 2 ^ 31"
  shows "meets any_alloc (bindM (Base64Encode s) Base64Decode) (\<lambda>r. r = s)"
proof (rule meets_bind [OF meets_Base64Encode])
  show "(length s + 2) div 3 * 4 < 2147483648" using assms(2) by simp
  fix e assume "e = encoded s"
  then show "meets any_alloc (Base64Decode e) (\<lambda>r. r = s)"
    using decode_encoded [OF assms(1), of _ 0] decoded_len_encode assms(2)
    by (intro meets_Base64Decode [of "length s"]) (simp_all add: length_encoded)
qed

theorem base64_roundtrip_witness:
  "meets any_alloc (bindM (Base64Encode [77, 97, 110, 255]) Base64Decode) (\<lambda>r. r = [77, 97, 110, 255])
   \<and> fst (Base64Encode [77, 97, 110, 255] \<lparr>allocs = [AllocBlock False [1, 2]], tempStackPtr = 0\<rparr>) = Inr (map of_char ''TWFu/w=='')"
  by (rule conjI, rule base64_roundtrip, simp, simp) code_simp

text \<open>From about 1.6 thousand million characters on the length of the encoded text overflows.\<close>

theorem base64_encode_overflow:
  assumes "length s < 2 ^ 31" "2 ^ 31 \<le> (length s + 2) div 3 * 4"
  shows "Base64Encode s = raise UndefinedBehaviour"
proof -
  have "length s < 2147483648" using assms(1) by simp
  moreover have "quot_int (int (length s) + 2) 3 * 4 = int ((length s + 2) div 3 * 4)"
    by (simp add: quot_int_def zdiv_int)
  ultimately show ?thesis using assms(2) by (simp add: Base64Encode_def sint_len)
qed

theorem base64_encode_overflow_witness:
  "Base64Encode (replicate 1610612734 0) = raise UndefinedBehaviour"
  using base64_encode_overflow [of "replicate 1610612734 0"] by (simp only: length_replicate) simp

text \<open>
  Base64Decode is safe on every input of less than 2^31 characters but the ones with fewer than four
  characters: it never writes outside the result, it raises ValueError or runs out of memory, or it
  returns a string of the exact length announced by the padding.  It returns only when the length is a
  multiple of four and every character belongs to the alphabet or is the pad character.
\<close>

theorem base64_decode_safe:
  assumes "s = [] \<or> 4 \<le> length s" "length s < 2 ^ 31" and "Base64Decode s t = (res, t')"
  shows "case res of
      Inl e \<Rightarrow> (\<exists>m. e = ValueError m) \<or> e = MemoryError \<and> AllocFail \<in> set (allocs t)
    | Inr r \<Rightarrow> length s mod 4 = 0 \<and> list_all valid_char s \<and> decoded_len (int (length s)) s = Inr (int (length r))"
proof -
  have sl: "sint (of_nat (length s) :: 32 word) = int (length s)" using assms(2) by (intro sint_len) simp
  obtain n where n: "decoded_len (int (length s)) s = Inr (int n)" "3 * (length s div 4) \<le> n + 2"
  proof (cases "s = []")
    case False
    have d: "1 \<le> length s div 4" using False assms(1) by (simp add: div_greater_zero_iff Suc_le_eq)
    have q: "quot_int (int (length s)) 4 = int (length s div 4)" by (simp add: quot_int_def zdiv_int)
    from False assms(1) d show ?thesis
      by (intro that [of "length s div 4 * 3 - (if s ! nat (int (length s) - 1) = PAD then 1 else 0)
                                         - (if s ! nat (int (length s) - 2) = PAD then 1 else 0)"])
        (auto simp: decoded_len_def q of_nat_diff)
  qed (simp add: decoded_len_def quot_int_def)
  have safe: "case decode_loop 0 s mem of
      Inl e \<Rightarrow> (\<exists>m. e = ValueError m)
    | Inr r \<Rightarrow> length r = n \<and> list_all valid_char (take (length s div 4 * 4) s)" if "length mem = n" for mem
    using decode_loop_safe [of 0 s mem] n(2) unfolding that by simp
  have whole: "length s div 4 * 4 = length s" if "length s mod 4 = 0" using that by auto
  have call: "Base64Decode s = bindM (AMakeEmpty (int n)) (\<lambda>res.
      case decode_loop 0 s res of Inl e \<Rightarrow> raise e
      | Inr res \<Rightarrow> if length s mod 4 \<noteq> 0 then raise (ValueError ''Incorrect padding'') else ret res)"
    by (simp add: Base64Decode_def sl n(1))
  obtain a t1 where mk: "AMakeEmpty (int n) t = (a, t1)" by fastforce
  have ok: "outcome_ok (\<lambda>res. length res = n) t (a, t1)"
    using meetsD [OF meets_AMakeEmpty [of any_alloc n], of t] mk by (simp add: list_all_iff any_alloc_def)
  show ?thesis
  proof (cases a)
    case (Inl e)
    then show ?thesis using ok assms(3) mk by (auto simp: call bindM_def outcome_ok_def)
  next
    case (Inr mem)
    then have "length mem = n" using ok by (simp add: outcome_ok_def)
    from safe [OF this] Inr mk assms(3) n(1) whole show ?thesis
      by (auto simp: call bindM_def raise_def ret_def split: sum.splits if_splits)
  qed
qed

theorem base64_decode_safe_witness:
  "length [84, 87, 69, PAD] mod 4 = 0 \<and> list_all valid_char [84, 87, 69, PAD]
   \<and> decoded_len 4 [84, 87, 69, PAD] = Inr (int (length [77, 97 :: nat]))"
proof -
  let ?t = "\<lparr>allocs = [], tempStackPtr = 0\<rparr>"
  have "Base64Decode [84, 87, 69, PAD] ?t = (Inr [77, 97], ?t)" by code_simp
  from base64_decode_safe [OF _ _ this] show ?thesis by simp
qed

text \<open>
  A string of one character is not handled: the check of the second last character reads
  index \<open>-1\<close>, which is outside the string.  A string of two or three characters that ends in a
  pad character asks for a string of negative length.
\<close>

theorem base64_decode_short_input:
  "fst (Base64Decode [c] t) = Inl UndefinedBehaviour \<and> fst (Base64Decode [c, PAD] t) = Inl UndefinedBehaviour"
proof -
  have "sint (1 :: 32 word) = 1" "sint (2 :: 32 word) = 2" by simp_all
  then show ?thesis
    by (simp add: Base64Decode_def decoded_len_def quot_int_def AMakeEmpty_def bindM_def raise_def)
qed

end
