(* ===== verification/Encodings_Lemmas.thy ===== *)
theory Encodings_Lemmas
  imports Encodings Base64
begin

text \<open>
  The decoders as functions of a stream of bytes: the text that was fed so far falls into complete
  characters and a rest, and the buffer of the object holds the rest.
\<close>

section \<open>Characters of a UTF-8 stream\<close>

lemma skip_bounds: "1 \<le> A_UTF8_SKIP_W ch" "A_UTF8_SKIP_W ch \<le> 3"
  by (simp_all add: A_UTF8_SKIP_W_def)

lemma skip_eq:
  "A_UTF8_SKIP_W ch = 1 \<longleftrightarrow> ch < 0xc2 \<or> 0xff < ch" "A_UTF8_SKIP_W ch = 2 \<longleftrightarrow> 0xc2 \<le> ch \<and> ch < 0xe0"
  "A_UTF8_SKIP_W ch = 3 \<longleftrightarrow> 0xe0 \<le> ch \<and> ch < 0x100"
  by (auto simp: A_UTF8_SKIP_W_def)

lemma skip_byte: "ch < 256 \<Longrightarrow> A_UTF8_SKIP_W ch = A_UTF8_SKIP ch"
  by (simp add: A_UTF8_SKIP_W_def A_UTF8_SKIP_def)

function split_chars :: "nat list \<Rightarrow> nat list list \<times> nat list" where
  "split_chars [] = ([], [])"
| "split_chars (ch # s) =
     (let k = A_UTF8_SKIP_W ch
      in if k \<le> Suc (length s) then (take k (ch # s) # fst (split_chars (drop k (ch # s))), snd (split_chars (drop k (ch # s))))
         else ([], ch # s))"
  by pat_completeness auto
termination
  by (relation "measure length") (use skip_bounds in \<open>auto simp: Suc_le_eq\<close>)

lemma count_loop_split: "count_loop s = length (fst (split_chars s))"
proof (induction s rule: count_loop.induct)
  case (2 ch s)
  let ?k = "A_UTF8_SKIP_W ch"
  show ?case
  proof (cases "?k < Suc (length s)")
    case True
    then show ?thesis using 2 [OF refl True] by (simp add: Let_def)
  next
    case False
    then have "drop ?k (ch # s) = []" by simp
    with False show ?thesis by (cases "?k = Suc (length s)") (simp_all add: Let_def)
  qed
qed simp

text \<open>The code of one character, or none for bytes that are not well formed.\<close>

definition char_code :: "nat list \<Rightarrow> nat option" where
  "char_code u =
     (case u of
        [ch1] \<Rightarrow> if ch1 \<le> 0x7f then Some ch1 else None
      | [ch1, ch2] \<Rightarrow>
          if ch2 < 0x80 \<or> ch2 > 0xbf then None else Some (push_bit 6 (ch1 AND 0x1f) OR (ch2 AND 0x3f))
      | [ch1, ch2, ch3] \<Rightarrow>
          if ch2 < 0x80 \<or> ch2 > 0xbf \<or> ch3 < 0x80 \<or> ch3 > 0xbf \<or> (ch1 = 0xe0 \<and> ch2 < 0xa0) then None
          else Some (push_bit 12 (ch1 AND 0xf) OR push_bit 6 (ch2 AND 0x3f) OR (ch3 AND 0x3f))
      | _ \<Rightarrow> None)"

lemma split_append:
  "split_chars (a @ b) = (fst (split_chars a) @ fst (split_chars (snd (split_chars a) @ b)), snd (split_chars (snd (split_chars a) @ b)))"
proof (induction a rule: split_chars.induct)
  case (2 ch s)
  let ?k = "A_UTF8_SKIP_W ch"
  show ?case
  proof (cases "?k \<le> Suc (length s)")
    case True
    then have "take ?k (ch # s @ b) = take ?k (ch # s)" "drop ?k (ch # s @ b) = drop ?k (ch # s) @ b"
      using take_append [of ?k "ch # s" b] drop_append [of ?k "ch # s" b] by simp_all
    then show ?thesis using 2 [OF refl True] True by (simp add: Let_def)
  qed (simp add: Let_def)
qed simp

lemma split_concat: "concat (fst (split_chars s)) @ snd (split_chars s) = s"
  by (induction s rule: split_chars.induct) (simp_all add: Let_def)

lemma split_rest: "snd (split_chars s) = r \<Longrightarrow> r = [] \<or> length r < A_UTF8_SKIP_W (hd r)"
  by (induction s arbitrary: r rule: split_chars.induct) (auto simp: Let_def split: if_splits)

lemma split_idle: "s \<noteq> [] \<Longrightarrow> length s < A_UTF8_SKIP_W (hd s) \<Longrightarrow> split_chars s = ([], s)"
  by (cases s) (auto simp: Let_def)

section \<open>UTF-8 decoding\<close>

definition pending :: "codec \<Rightarrow> nat list" where
  "pending c = take (enc_buf c ! 0) (drop 1 (enc_buf c))"

text \<open>The invariant of a decoder: its buffer holds the beginning of a character.\<close>

definition utf8_ok :: "codec \<Rightarrow> bool" where
  "utf8_ok c \<longleftrightarrow> length (enc_buf c) = ENC_DATA_SIZE \<and> enc_buf c ! 0 \<le> 2 \<and>
     (enc_buf c ! 0 \<noteq> 0 \<longrightarrow> enc_buf c ! 0 < A_UTF8_SKIP (enc_buf c ! 1)) \<and> (\<forall>b \<in> set (pending c). b < 256)"

lemma ChAt_stream:
  assumes ok: "utf8_ok c" and j: "- int (enc_buf c ! 0) \<le> j" "j < int (length s)"
  shows "ChAt c s j (enc_buf c ! 0) = Inr ((pending c @ s) ! nat (j + int (enc_buf c ! 0)))"
proof -
  let ?u = "enc_buf c ! 0"
  have len: "length (pending c) = ?u" using ok by (simp add: pending_def utf8_ok_def ENC_DATA_SIZE_def)
  show ?thesis
  proof (cases "j < 0")
    case True
    then have lt: "nat (j + int ?u) < ?u" using j by linarith
    have "nat (j + int ?u + 1) = Suc (nat (j + int ?u))" using j by linarith
    moreover have "pending c ! nat (j + int ?u) = enc_buf c ! Suc (nat (j + int ?u))"
      using lt ok by (simp add: pending_def utf8_ok_def ENC_DATA_SIZE_def)
    moreover have "j + int ?u + 1 < int (length (enc_buf c))" using True ok by (simp add: utf8_ok_def ENC_DATA_SIZE_def)
    ultimately show ?thesis using True j lt len by (simp add: ChAt_def item_def nth_append)
  next
    case False
    then have "nat (j + int ?u) = length (pending c) + nat j" using len by linarith
    then show ?thesis using False j by (simp add: ChAt_def item_def nth_append)
  qed
qed

lemma item_stream:
  assumes "utf8_ok c" "0 \<le> j" "j < int (length s)"
  shows "item s j = Inr ((pending c @ s) ! nat (j + int (enc_buf c ! 0)))"
proof -
  have "ChAt c s j (enc_buf c ! 0) = item s j" using assms(2) by (simp add: ChAt_def)
  then show ?thesis using ChAt_stream [OF assms(1) _ assms(3)] assms(2) by simp
qed

lemma take_1_drop: "p < length xs \<Longrightarrow> take 1 (drop p xs) = [xs ! p]"
  "Suc p < length xs \<Longrightarrow> take 2 (drop p xs) = [xs ! p, xs ! Suc p]"
  "Suc (Suc p) < length xs \<Longrightarrow> take 3 (drop p xs) = [xs ! p, xs ! Suc p, xs ! Suc (Suc p)]"
  by (simp_all add: numeral_2_eq_2 numeral_3_eq_3 Cons_nth_drop_Suc [symmetric])

text \<open>One step of the second pass reads one character of the stream.\<close>

lemma utf8_char_stream:
  assumes ok: "utf8_ok c" and S: "S = pending c @ s" and p: "j + int (enc_buf c ! 0) = int p"
    and k: "k = A_UTF8_SKIP_W (S ! p)" and fits: "p + k \<le> length S" and last: "1 \<le> j + int k"
  shows "utf8_char c s (enc_buf c ! 0) j = Inr (char_code (take k (drop p S)), j + int k)"
proof -
  let ?u = "enc_buf c ! 0"
  have len: "length S = ?u + length s" using ok by (simp add: S pending_def utf8_ok_def ENC_DATA_SIZE_def)
  have k1: "1 \<le> k" unfolding k by (rule skip_bounds)
  have jb: "- int ?u \<le> j" "j + int k \<le> int (length s)" using p fits len by linarith+
  have n: "nat (j + int ?u) = p" "nat (j + 1 + int ?u) = Suc p" "nat (j + 2 + int ?u) = Suc (Suc p)" using p by linarith+
  note at = ChAt_stream [OF ok, of _ s, folded S] item_stream [OF ok, of _ s, folded S]
  have c1: "ChAt c s j ?u = Inr (S ! p)" using at(1) [of j] jb k1 n by simp
  have c2: "ChAt c s (j + 1) ?u = Inr (S ! Suc p)" if "k = 3" using at(1) [of "j + 1"] jb that n by simp
  have i2: "item s (j + 1) = Inr (S ! Suc p)" if "k = 2" using at(2) [of "j + 1"] jb last that n by simp
  have i3: "item s (j + 2) = Inr (S ! Suc (Suc p))" if "k = 3" using at(2) [of "j + 2"] jb last that n by simp
  consider "k = 1" | "k = 2" | "k = 3" using skip_bounds [of "S ! p"] k by linarith
  then show ?thesis
  proof cases
    case 1
    then have c: "S ! p < 0xc2 \<or> 0xff < S ! p" unfolding k by (simp only: skip_eq)
    have t: "take k (drop p S) = [S ! p]" unfolding 1 using fits 1 by (intro take_1_drop) simp
    show ?thesis unfolding t unfolding 1 utf8_char_def c1 using c by (elim disjE) (simp_all add: bindE_def char_code_def)
  next
    case 2
    then have c: "0xc2 \<le> S ! p" "S ! p < 0xe0" unfolding k by (simp_all only: skip_eq)
    have t: "take k (drop p S) = [S ! p, S ! Suc p]" unfolding 2 using fits 2 by (intro take_1_drop) simp
    show ?thesis unfolding t unfolding 2 utf8_char_def c1 i2 [OF 2] using c by (simp add: bindE_def char_code_def)
  next
    case 3
    then have c: "0xe0 \<le> S ! p" "S ! p < 0x100" unfolding k by (simp_all only: skip_eq)
    have t: "take k (drop p S) = [S ! p, S ! Suc p, S ! Suc (Suc p)]" unfolding 3 using fits 3 by (intro take_1_drop) simp
    show ?thesis unfolding t unfolding 3 utf8_char_def c1 c2 [OF 3] i3 [OF 3] using c by (simp add: bindE_def char_code_def)
  qed
qed

definition show_char :: "nat list \<Rightarrow> nat" where
  "show_char u = (case char_code u of None \<Rightarrow> 0xfffd | Some ch \<Rightarrow> ch)"

definition refuses :: "codec \<Rightarrow> nat list list \<Rightarrow> bool" where
  "refuses c us \<longleftrightarrow> slot_mode c = MODE_STRICT \<and> (\<exists>u \<in> set us. char_code u = None)"

lemma split_first:
  assumes "split_chars xs = (u # us, r)"
  shows "A_UTF8_SKIP_W (hd xs) \<le> length xs" "u = take (A_UTF8_SKIP_W (hd xs)) xs"
    "split_chars (drop (A_UTF8_SKIP_W (hd xs)) xs) = (us, r)"
  using assms by (cases xs; auto simp: Let_def split: if_splits)+

lemma utf8_loop_stream:
  assumes ok: "utf8_ok c" and S: "S = pending c @ s"
  shows "j + int (enc_buf c ! 0) = int p \<Longrightarrow> p \<le> length S \<Longrightarrow> 0 \<le> j \<or> p = 0 \<Longrightarrow> split_chars (drop p S) = (us, r) \<Longrightarrow>
     utf8_loop c s (enc_buf c ! 0) (length us) j =
       (if refuses c us then Inl DecodeError else Inr (map show_char us, j + int (length (concat us))))"
proof (induction us arbitrary: j p)
  case (Cons u us)
  let ?u = "enc_buf c ! 0"
  have p: "p < length S" using Cons.prems by (cases "p < length S") auto
  let ?k = "A_UTF8_SKIP_W (S ! p)"
  note sp = split_first [OF Cons.prems(4), unfolded hd_drop_conv_nth [OF p] drop_drop]
  have fits: "p + ?k \<le> length S" using sp(1) p by simp
  have last: "1 \<le> j + int ?k"
  proof (cases "0 \<le> j")
    case True
    then show ?thesis using skip_bounds [of "S ! p"] by linarith
  next
    case False
    then have p0: "p = 0" "?u \<noteq> 0" using Cons.prems by auto
    have "0 < length (pending c)" "pending c ! 0 = enc_buf c ! 1"
      using ok p0 by (simp_all add: pending_def utf8_ok_def ENC_DATA_SIZE_def)
    then have "S ! p = enc_buf c ! 1" "enc_buf c ! 1 < 256"
      using ok p0 nth_mem [of 0 "pending c"] by (auto simp: S utf8_ok_def nth_append)
    then have "?u < ?k" using ok p0 by (simp add: utf8_ok_def skip_byte)
    then show ?thesis using Cons.prems(1) p0 by linarith
  qed
  have step: "utf8_char c s ?u j = Inr (char_code u, j + int ?k)"
    using utf8_char_stream [OF ok S Cons.prems(1) refl fits last] sp(2) by simp
  have len: "length u = ?k" using sp(1,2) by simp
  have "utf8_loop c s ?u (length us) (j + int ?k) =
       (if refuses c us then Inl DecodeError else Inr (map show_char us, j + int ?k + int (length (concat us))))"
    using Cons.prems(1) last sp(3) fits by (intro Cons.IH [of _ "p + ?k"]) (simp_all add: add.commute)
  then show ?case
    using step len by (auto simp: bindE_def refuses_def show_char_def add.assoc split: option.splits)
qed (simp add: refuses_def)

lemma save_loop_ok:
  "k + length xs \<le> length buf \<Longrightarrow>
   save_loop xs k buf = Inr (take k buf @ map (\<lambda>b. b mod 256) xs @ drop (k + length xs) buf)"
proof (induction xs arbitrary: k buf)
  case (Cons x xs)
  have "save_loop xs (Suc k) (buf[k := x mod 256]) =
      Inr (take (Suc k) (buf[k := x mod 256]) @ map (\<lambda>b. b mod 256) xs @ drop (Suc k + length xs) (buf[k := x mod 256]))"
    using Cons.prems by (intro Cons.IH) simp
  moreover have "take (Suc k) (buf[k := x mod 256]) = take k buf @ [x mod 256]"
    using Cons.prems by (simp add: take_Suc_conv_app_nth)
  ultimately show ?case using Cons.prems by simp
qed simp

text \<open>The number of characters the first pass counts, and the bytes it leaves.\<close>

definition scan_start :: "codec \<Rightarrow> nat list \<Rightarrow> int \<times> nat \<times> nat" where
  "scan_start c s =
     (if enc_buf c ! 0 \<noteq> 0 then
        let i = int (A_UTF8_SKIP (enc_buf c ! 1)) - int (enc_buf c ! 0)
        in if i \<le> int (length s) then (i, 1, 0) else (i, 0, enc_buf c ! 0)
      else (0, 0, 0))"

lemma pending_length: "utf8_ok c \<Longrightarrow> length (pending c) = enc_buf c ! 0"
  by (simp add: pending_def utf8_ok_def ENC_DATA_SIZE_def)

lemma pending_head:
  assumes "utf8_ok c" "enc_buf c ! 0 \<noteq> 0"
  shows "hd (pending c @ s) = enc_buf c ! 1" "A_UTF8_SKIP_W (enc_buf c ! 1) = A_UTF8_SKIP (enc_buf c ! 1)"
proof -
  have p: "0 < length (pending c)" "pending c ! 0 = enc_buf c ! 1"
    using assms by (simp_all add: pending_def utf8_ok_def ENC_DATA_SIZE_def)
  then show "hd (pending c @ s) = enc_buf c ! 1" by (simp add: hd_append hd_conv_nth)
  have "enc_buf c ! 1 < 256" using p nth_mem [of 0 "pending c"] assms(1) by (auto simp: utf8_ok_def)
  then show "A_UTF8_SKIP_W (enc_buf c ! 1) = A_UTF8_SKIP (enc_buf c ! 1)" by (rule skip_byte)
qed

lemma scan_start_ok:
  assumes ok: "utf8_ok c" and st: "scan_start c s = (i, n, u)" and sp: "split_chars (pending c @ s) = (us, r)"
  shows "0 \<le> i" "(if i < int (length s) then n + count_loop (drop (nat i) s) else n) = length us"
    "if us = [] then u = enc_buf c ! 0 \<and> r = pending c @ s else u = 0 \<and> length r \<le> length s"
proof -
  let ?u = "enc_buf c ! 0" and ?k = "A_UTF8_SKIP (enc_buf c ! 1)"
  note len = pending_length [OF ok]
  have cat: "concat us @ r = pending c @ s" using split_concat [of "pending c @ s"] sp by simp
  consider (none) "?u = 0" | (whole) "?u \<noteq> 0" "?k \<le> ?u + length s" | (part) "?u \<noteq> 0" "?u + length s < ?k" by linarith
  then have "0 \<le> i \<and> (if i < int (length s) then n + count_loop (drop (nat i) s) else n) = length us \<and>
    (if us = [] then u = ?u \<and> r = pending c @ s else u = 0 \<and> length r \<le> length s)"
  proof cases
    case none
    then have p: "pending c = []" using len by simp
    have "i = 0" "n = 0" "u = 0" using st none by (simp_all add: scan_start_def)
    moreover have "count_loop s = length us" using sp p by (simp add: count_loop_split)
    moreover have "length r \<le> length s" using arg_cong [OF cat, of length] p by simp
    ultimately show ?thesis using none cat p by (cases s) auto
  next
    case whole
    let ?S = "pending c @ s"
    have lt: "?u < ?k" using ok whole by (simp add: utf8_ok_def)
    have i: "i = int ?k - int ?u" "n = 1" "u = 0" using st whole by (auto simp: scan_start_def Let_def split: if_splits)
    have S: "?S \<noteq> []" "length ?S = ?u + length s" using len whole by auto
    then obtain ch S' where S': "?S = ch # S'" by (cases ?S) auto
    have ch: "A_UTF8_SKIP_W ch = ?k" using pending_head(1) [OF ok whole(1), of s] pending_head(2) [OF ok whole(1)] S' by simp
    have d: "drop ?k ?S = drop (nat i) s" using len lt i by (simp add: nat_diff_distrib)
    have us: "us = take ?k ?S # fst (split_chars (drop (nat i) s))" "r = snd (split_chars (drop (nat i) s))"
      using sp ch whole(2) S(2) unfolding d [symmetric] S' by (simp_all add: Let_def)
    have "length r \<le> length s"
      using arg_cong [OF split_concat [of "drop (nat i) s"], of length] us by simp
    moreover have "count_loop (drop (nat i) s) = 0" if "\<not> i < int (length s)" using that by simp
    ultimately show ?thesis using us i lt by (auto simp: count_loop_split)
  next
    case part
    have lt: "?u < ?k" using ok part by (simp add: utf8_ok_def)
    have i: "i = int ?k - int ?u" "n = 0" "u = ?u" using st part by (auto simp: scan_start_def Let_def split: if_splits)
    have "split_chars (pending c @ s) = ([], pending c @ s)"
      using pending_head(1) [OF ok part(1), of s] pending_head(2) [OF ok part(1)] part len by (intro split_idle) auto
    then show ?thesis using i sp part lt by auto
  qed
  then show "0 \<le> i" "(if i < int (length s) then n + count_loop (drop (nat i) s) else n) = length us"
    "if us = [] then u = ?u \<and> r = pending c @ s else u = 0 \<and> length r \<le> length s" by blast+
qed

lemma save_loop_buffer:
  assumes "length buf = 8" "take u (drop 1 buf) = a" "u + length xs \<le> 7"
  obtains B where "save_loop xs (1 + u) (buf[0 := n]) = Inr B" "length B = 8" "B ! 0 = n"
    "take (u + length xs) (drop 1 B) = a @ map (\<lambda>b. b mod 256) xs"
proof
  let ?b = "buf[0 := n]" and ?xs = "map (\<lambda>b. b mod 256) xs"
  let ?B = "take (1 + u) ?b @ ?xs @ drop (1 + u + length xs) ?b"
  show "save_loop xs (1 + u) ?b = Inr ?B" using assms by (intro save_loop_ok) simp
  show "length ?B = 8" using assms by simp
  show "?B ! 0 = n" using assms by (cases buf) simp_all
  have "drop 1 (take (1 + u) ?b) = a" using assms by (cases buf) simp_all
  moreover have "length a = u" using assms by auto
  ultimately show "take (u + length xs) (drop 1 ?B) = a @ ?xs" using assms by (cases buf) simp_all
qed

lemma rest_short: "split_chars S = (us, r) \<Longrightarrow> length r \<le> 2"
  using split_rest [of S r] skip_bounds(2) [of "hd r"] by auto

lemma pending_ok:
  assumes "length (enc_buf c) = ENC_DATA_SIZE" "enc_buf c ! 0 = length r" "pending c = map (\<lambda>b. b mod 256) r"
    and "split_chars S = (us, r)"
  shows "utf8_ok c"
proof -
  have r: "length r \<le> 2" "r = [] \<or> length r < A_UTF8_SKIP_W (hd r)"
    using assms(4) rest_short split_rest [of S r] by auto
  have "length r < A_UTF8_SKIP (enc_buf c ! 1)" if "r \<noteq> []"
  proof -
    have lt: "length r < A_UTF8_SKIP_W (hd r)" "0 < length r" using r that by auto
    then have "hd r < 256" by (auto simp: A_UTF8_SKIP_W_def split: if_splits)
    moreover have "enc_buf c ! 1 = pending c ! 0"
      using assms(1,2) that by (simp add: pending_def ENC_DATA_SIZE_def)
    then have "enc_buf c ! 1 = hd r mod 256" using that by (simp add: assms(3) hd_conv_nth)
    ultimately show ?thesis using lt by (simp add: skip_byte)
  qed
  then show ?thesis using assms r by (auto simp: utf8_ok_def)
qed

text \<open>
  The decoder on its stream: it returns the complete characters and keeps the rest, or raises an
  exception in strict mode.
\<close>

lemma Utf8Decode_stream:
  assumes ok: "utf8_ok c" and sp: "split_chars (pending c @ s) = (us, r)"
  obtains c' where
    "Utf8Decode c s = bindM next_alloc (\<lambda>_. if refuses c us then raise DecodeError else ret (map show_char us, c'))"
    "utf8_ok c'" "pending c' = map (\<lambda>b. b mod 256) r" "slot_mode c' = slot_mode c"
proof -
  let ?u = "enc_buf c ! 0" and ?buf = "enc_buf c"
  obtain i n u where st: "scan_start c s = (i, n, u)" by (metis prod_cases3)
  note sc = scan_start_ok [OF ok st sp]
  let ?j = "max (- int ?u + int (length (concat us))) 0"
  have len: "length (pending c) = ?u" "length ?buf = 8" "length r \<le> 2"
    using pending_length [OF ok] ok rest_short [OF sp] by (auto simp: utf8_ok_def ENC_DATA_SIZE_def)
  have cat: "concat us @ r = pending c @ s" using split_concat [of "pending c @ s"] sp by simp
  have lcat: "length (concat us) + length r = ?u + length s" using arg_cong [OF cat, of length] len by simp
  have bytes: "map (\<lambda>b. b mod 256) (pending c) = pending c"
    using ok by (intro map_idI) (auto simp: utf8_ok_def)
  have num: "nat ((int u + int (length s) - ?j) mod 256) = length r"
  proof (cases "us = []")
    case True
    then have "int u + int (length s) - ?j = int (length r)" using sc(3) lcat by simp
    then show ?thesis using len by simp
  next
    case False
    then have "int u + int (length s) - ?j = int (length r)" using sc(3) lcat by simp
    then show ?thesis using len by simp
  qed
  have "\<exists>a. take u (drop 1 ?buf) = a \<and> map (\<lambda>b. b mod 256) r = a @ map (\<lambda>b. b mod 256) (drop (nat ?j) s) \<and>
            length r = u + length (drop (nat ?j) s)"
  proof (cases "us = []")
    case True
    then have "u = ?u" "r = pending c @ s" "nat ?j = 0" using sc(3) by auto
    then show ?thesis using bytes len by (simp add: pending_def)
  next
    case False
    then have u: "u = 0" "length r \<le> length s" using sc(3) by auto
    then have j: "nat ?j = length s - length r" using lcat by simp
    have "r = drop (length (concat us)) (pending c @ s)" using cat by (metis append_eq_conv_conj)
    also have "\<dots> = drop (nat ?j) s"
    proof -
      have "length (concat us) - ?u = length s - length r" "?u \<le> length (concat us)" using lcat u by linarith+
      then show ?thesis using len j by (simp add: drop_append)
    qed
    finally show ?thesis using u j by simp
  qed
  then obtain a where a: "take u (drop 1 ?buf) = a" "map (\<lambda>b. b mod 256) r = a @ map (\<lambda>b. b mod 256) (drop (nat ?j) s)"
    "length r = u + length (drop (nat ?j) s)" by blast
  obtain B where B: "save_loop (drop (nat ?j) s) (1 + u) (?buf[0 := length r]) = Inr B" "length B = 8"
    "B ! 0 = length r" "take (length r) (drop 1 B) = map (\<lambda>b. b mod 256) r"
    using save_loop_buffer [OF len(2) a(1), of "drop (nat ?j) s" "length r"] a(2,3) len(3) by auto
  let ?c' = "c\<lparr>enc_buf := B\<rparr>"
  have p: "pending ?c' = map (\<lambda>b. b mod 256) r" using B by (simp add: pending_def)
  have ok': "utf8_ok ?c'" using pending_ok [OF _ _ p sp] B by (simp add: ENC_DATA_SIZE_def)
  have loop: "utf8_loop c s ?u (length us) (- int ?u) =
      (if refuses c us then Inl DecodeError else Inr (map show_char us, - int ?u + int (length (concat us))))"
    by (rule utf8_loop_stream [OF ok refl, of _ 0]) (use sp in simp_all)
  have "Utf8Decode c s =
     (let (i, n, newU) = scan_start c s
      in if i < 0 then raise UndefinedBehaviour
         else let n = (if i < int (length s) then n + count_loop (drop (nat i) s) else n)
           in bindM next_alloc
                (\<lambda>_. case utf8_loop c s ?u n (- int ?u) of
                       Inl e \<Rightarrow> raise e
                     | Inr (r, j) \<Rightarrow>
                         let j = max j 0; buf = ?buf[0 := nat ((int newU + int (length s) - j) mod 256)]
                         in case save_loop (drop (nat j) s) (1 + newU) buf of
                              Inl e \<Rightarrow> raise e
                            | Inr buf \<Rightarrow> ret (r, c\<lparr>enc_buf := buf\<rparr>)))"
    unfolding Utf8Decode_def scan_start_def Let_def by simp
  also have "\<dots> = bindM next_alloc (\<lambda>_. if refuses c us then raise DecodeError else ret (map show_char us, ?c'))"
    unfolding st prod.case Let_def sc(2) loop using sc(1) num B(1) by (simp cong: if_cong)
  finally show ?thesis using that p ok' by simp
qed

section \<open>UTF-8 encoding\<close>

lemma and_31: "x AND 31 = x mod (32 :: nat)"
  using take_bit_eq_mask [of 5 x] by (simp add: take_bit_eq_mod mask_eq_exp_minus_1)

lemma mark_bits:
  "x < 32 \<Longrightarrow> 0xc0 OR x = 0xc0 + (x :: nat)" "y < 64 \<Longrightarrow> 0x80 OR y = 0x80 + (y :: nat)" "z < 16 \<Longrightarrow> 0xe0 OR z = 0xe0 + (z :: nat)"
  using or_add [of x 6 3] or_add [of y 6 2] or_add [of z 4 14] by (simp_all add: push_bit_eq_mult)

lemma join_bits:
  "y < 64 \<Longrightarrow> push_bit 6 x OR y = 64 * x + (y :: nat)"
  "z < 4096 \<Longrightarrow> push_bit 12 x OR z = 4096 * x + (z :: nat)"
  using or_add [of y 6 x] or_add [of z 12 x] by (simp_all add: mult.commute)

text \<open>The bytes of one character, as arithmetic.\<close>

lemma utf8_enc_char_eq:
  assumes "ch < 65536"
  shows "utf8_enc_char ch =
     (if ch \<le> 0x7f then [ch]
      else if ch \<le> 0x7ff then [0xc0 + ch div 64, 0x80 + ch mod 64]
      else [0xe0 + ch div 4096, 0x80 + ch div 64 mod 64, 0x80 + ch mod 64])"
proof -
  have "ch div 64 < 32" if "ch \<le> 0x7ff" using that by (simp add: div_less_iff_less_mult)
  moreover have "ch div 4096 < 16" using assms by (simp add: div_less_iff_less_mult)
  ultimately show ?thesis
    by (simp add: utf8_enc_char_def drop_bit_eq_div low_bits mark_bits)
qed

lemma utf8_enc_unit:
  assumes "ch < 65536"
  shows "char_code (utf8_enc_char ch) = Some ch" "length (utf8_enc_char ch) = A_UTF8_LEN ch"
    "A_UTF8_SKIP_W (hd (utf8_enc_char ch)) = A_UTF8_LEN ch" "\<forall>b \<in> set (utf8_enc_char ch). b < 256" "utf8_enc_char ch \<noteq> []"
proof -
  note e = utf8_enc_char_eq [OF assms]
  show "length (utf8_enc_char ch) = A_UTF8_LEN ch" "utf8_enc_char ch \<noteq> []" by (simp_all add: e A_UTF8_LEN_def)
  have b: "2 \<le> ch div 64" if "0x7f < ch" using that by simp
  have c: "32 \<le> ch div 64" if "0x7ff < ch" using that by simp
  have d: "ch div 64 < 32" if "ch \<le> 0x7ff" using that by (simp add: div_less_iff_less_mult)
  have f: "ch div 4096 < 16" using assms by (simp add: div_less_iff_less_mult)
  have g: "ch div 4096 = ch div 64 div 64" by (simp add: div_mult2_eq [symmetric])
  show "A_UTF8_SKIP_W (hd (utf8_enc_char ch)) = A_UTF8_LEN ch"
    using b d f by (auto simp: e A_UTF8_LEN_def A_UTF8_SKIP_W_def)
  show "\<forall>b \<in> set (utf8_enc_char ch). b < 256"
  proof -
    have "ch mod 64 < 64" "ch div 64 mod 64 < 64" by simp_all
    then show ?thesis using d f unfolding e by auto
  qed
  consider "ch \<le> 0x7f" | "0x7f < ch" "ch \<le> 0x7ff" | "0x7ff < ch" by linarith
  then show "char_code (utf8_enc_char ch) = Some ch"
  proof cases
    case 2
    then have "64 * ((192 + ch div 64) mod 32) + ch mod 64 = ch" using d by (simp add: mod_add_left_eq [symmetric])
    then show ?thesis using 2 by (simp add: e char_code_def and_31 low_bits join_bits mod_add_left_eq [symmetric])
  next
    case 3
    have "32 \<le> ch div 64 mod 64" if "ch div 64 div 64 = 0" using c 3 that by simp
    moreover have "4096 * (ch div 64 div 64) + (64 * (ch div 64 mod 64) + ch mod 64) = ch"
      using div_mult_mod_eq [of ch 64] div_mult_mod_eq [of "ch div 64" 64] by linarith
    moreover have "64 * (ch div 64 mod 64) + ch mod 64 < 4096"
      using mod_less_divisor [of 64 "ch div 64"] mod_less_divisor [of 64 ch] by linarith
    ultimately show ?thesis using 3 f
      by (auto simp: e char_code_def low_bits join_bits g mod_add_left_eq [symmetric])
  qed (simp add: e char_code_def)
qed

lemma split_encoded:
  assumes "\<forall>ch \<in> set s. ch < 65536"
  shows "split_chars (concat (map utf8_enc_char s)) = (map utf8_enc_char s, [])"
  using assms
proof (induction s)
  case (Cons ch s)
  let ?e = "utf8_enc_char ch" and ?r = "concat (map utf8_enc_char s)"
  have u: "length ?e = A_UTF8_LEN ch" "A_UTF8_SKIP_W (hd ?e) = A_UTF8_LEN ch" "?e \<noteq> []" using utf8_enc_unit Cons.prems by simp_all
  then obtain b bs where e: "?e = b # bs" by (cases ?e) auto
  have "split_chars (b # bs @ ?r) = (?e # fst (split_chars ?r), snd (split_chars ?r))"
    using u(2) unfolding e u(1) [symmetric] by (simp add: Let_def)
  then show ?case using Cons e by simp
qed simp

lemma enc_loop_ok:
  "(\<forall>ch \<in> set s. ch < 65536) \<Longrightarrow> length res = j + sum_list (map A_UTF8_LEN s) \<Longrightarrow>
   enc_loop s j res = Inr (take j res @ concat (map utf8_enc_char s))"
proof (induction s arbitrary: j res)
  case (Cons ch s)
  let ?e = "utf8_enc_char ch"
  note u = utf8_enc_unit [of ch]
  have m: "map (\<lambda>b. b mod 256) ?e = ?e" using u(4) Cons.prems by (intro map_idI) simp
  have "enc_loop s (j + length ?e) (take j res @ ?e @ drop (j + length ?e) res) =
      Inr (take (j + length ?e) (take j res @ ?e @ drop (j + length ?e) res) @ concat (map utf8_enc_char s))"
    using Cons.prems u by (intro Cons.IH) simp_all
  then show ?case using Cons.prems u m by (simp add: Let_def)
qed simp

lemma Utf8Encode_eq:
  assumes "\<forall>ch \<in> set s. ch < 65536"
  shows "Utf8Encode s = bindM next_alloc (\<lambda>_. ret (concat (map utf8_enc_char s)))"
proof -
  have "enc_loop s 0 (junk_bytes (sum_list (map A_UTF8_LEN s)) junk) = Inr (concat (map utf8_enc_char s))" for junk
    using enc_loop_ok [OF assms, of _ 0] by (simp add: junk_bytes_def)
  then show ?thesis by (simp add: Utf8Encode_def Let_def case_prod_beta')
qed

section \<open>UTF-16\<close>

fun pairs :: "bool \<Rightarrow> nat list \<Rightarrow> nat list" where
  "pairs be (b0 # b1 # s) = utf16_unit be b0 b1 # pairs be s"
| "pairs be _ = []"

fun odd_rest :: "nat list \<Rightarrow> nat list" where
  "odd_rest (b0 # b1 # s) = odd_rest s"
| "odd_rest s = s"

lemma odd_rest_drop: "odd_rest s = drop (2 * (length s div 2)) s"
  by (induction s rule: odd_rest.induct) simp_all

lemma pairs_take: "pairs be (take (2 * (length s div 2)) s) = pairs be s"
  by (induction be s rule: pairs.induct) simp_all

lemma pairs_append: "pairs be (a @ b) = pairs be a @ pairs be (odd_rest a @ b)" "odd_rest (a @ b) = odd_rest (odd_rest a @ b)"
  by (induction be a rule: pairs.induct) simp_all

lemma utf16_loop_ok:
  "j + 2 * n \<le> length s \<Longrightarrow> utf16_loop be s n j = Inr (pairs be (take (2 * n) (drop j s)), j + 2 * n)"
proof (induction n arbitrary: j)
  case (Suc n)
  have "drop j s = s ! j # s ! Suc j # drop (j + 2) s"
    using Suc.prems by (simp add: Cons_nth_drop_Suc [symmetric])
  then have "take (2 * Suc n) (drop j s) = s ! j # s ! Suc j # take (2 * n) (drop (j + 2) s)" by simp
  moreover have "utf16_loop be s n (j + 2) = Inr (pairs be (take (2 * n) (drop (j + 2) s)), j + 2 + 2 * n)"
    using Suc.prems by (intro Suc.IH) simp
  moreover have "item s (int j) = Inr (s ! j)" "item s (int j + 1) = Inr (s ! Suc j)"
    using Suc.prems by (simp_all add: item_def nat_add_distrib)
  ultimately show ?case by (simp add: bindE_def)
qed simp

text \<open>The invariant of a UTF-16 decoder, and what one call does to its stream.\<close>

definition utf16_ok :: "codec \<Rightarrow> bool" where
  "utf16_ok c \<longleftrightarrow> length (enc_buf c) = ENC_DATA_SIZE \<and> enc_buf c ! 0 \<le> 1 \<and> (\<forall>b \<in> set (pending c). b < 256)"

definition utf16_rest :: "codec \<Rightarrow> nat list \<Rightarrow> nat list" where
  "utf16_rest c s = (if s = [] then [] else map (\<lambda>b. b mod 256) (odd_rest (pending c @ s)))"

lemma Utf16Decode_stream:
  assumes ok: "utf16_ok c"
  obtains c' where "Utf16Decode c s be = bindM next_alloc (\<lambda>_. ret (pairs be (pending c @ s), c'))"
    "utf16_ok c'" "pending c' = utf16_rest c s"
proof -
  let ?u = "enc_buf c ! 0" and ?buf = "enc_buf c" and ?n = "length s"
  obtain n b1 bs where buf: "?buf = n # b1 # bs" "length bs = 6"
    using ok by (cases ?buf; cases "tl ?buf") (auto simp: utf16_ok_def ENC_DATA_SIZE_def)
  have n: "n = 0 \<or> n = 1" using ok buf by (auto simp: utf16_ok_def)
  have p: "pending c = (if n = 0 then [] else [b1])" using n buf by (auto simp: pending_def)
  define pre where "pre = (if n \<noteq> 0 \<and> s \<noteq> [] then [utf16_unit be b1 (s ! 0)] else [])"
  define j where "j = (if n \<noteq> 0 \<and> s \<noteq> [] then 1 else 0 :: nat)"
  define m where "m = (?n - j) div 2"
  have m: "(?n + n) div 2 - length pre = m" using n by (cases s) (auto simp: m_def pre_def j_def)
  then have m': "(?n + ?u) div 2 - length pre = m" using buf by simp
  have start: "(if ?u \<noteq> 0 \<and> 0 < ?n then ([utf16_unit be (?buf ! 1) (s ! 0)], 1) else ([], 0)) = (pre, j)"
    using buf by (simp add: pre_def j_def)
  have jl: "j \<le> ?n" "j + 2 * m \<le> ?n" by (cases s; simp add: j_def m_def)+
  have all: "pre @ pairs be (take (2 * m) (drop j s)) = pairs be (pending c @ s)"
    using pairs_take [of be "drop j s"] n unfolding m_def pre_def j_def p by (cases s) auto
  have rest: "odd_rest (pending c @ s) = drop (j + 2 * m) s" if "s \<noteq> []"
    using that n odd_rest_drop [of "drop j s"] unfolding m_def j_def p by (cases s) (auto simp: add.commute)
  have le: "?n \<le> j + 2 * m + 1" unfolding m_def by linarith
  let ?left = "int (j + 2 * m) = int ?n - 1"
  have left: "?left \<longleftrightarrow> j + 2 * m < ?n" using le by linarith
  have r: "drop (j + 2 * m) s = (if ?left then [s ! (j + 2 * m)] else [])"
    using le unfolding left by (auto simp: Cons_nth_drop_Suc [symmetric])
  let ?c' = "c\<lparr>enc_buf := (let buf = ?buf[0 := if ?left then 1 else 0] in if ?left then buf[1 := s ! (j + 2 * m) mod 256] else buf)\<rparr>"
  have "Utf16Decode c s be = bindM next_alloc (\<lambda>_. ret (pairs be (pending c @ s), ?c'))"
    unfolding Utf16Decode_def Let_def start prod.case m' utf16_loop_ok [OF jl(2)] sum.case all by (rule refl)
  moreover have pc: "pending ?c' = utf16_rest c s"
  proof (cases "s = []")
    case True
    then show ?thesis using buf by (simp add: pending_def utf16_rest_def)
  next
    case False
    then show ?thesis using rest [OF False] r buf by (simp add: pending_def utf16_rest_def Let_def)
  qed
  moreover have "utf16_ok ?c'" using buf pc by (auto simp: utf16_ok_def utf16_rest_def ENC_DATA_SIZE_def Let_def)
  ultimately show ?thesis using that by blast
qed

end
