(* ===== verification/Encodings_Props.thy ===== *)
theory Encodings_Props
  imports Encodings_Lemmas
begin

text \<open>
  The properties of the Unicode codecs: how a text is cut into pieces does not matter to a decoder,
  and decoding inverts encoding.
\<close>

text \<open>A client feeds the pieces of a text to a decoder and joins what it returns.\<close>

fun decode_all :: "(codec \<Rightarrow> nat list \<Rightarrow> (nat list \<times> codec) rt) \<Rightarrow> codec \<Rightarrow> nat list list \<Rightarrow> (nat list \<times> codec) rt" where
  "decode_all decode c [] = ret ([], c)"
| "decode_all decode c (s # ss) =
     bindM (decode c s) (\<lambda>(r, c). bindM (decode_all decode c ss) (\<lambda>(rs, c). ret (r @ rs, c)))"

text \<open>What initialisation makes of an instance with arbitrary binary data.\<close>

lemma init_codec:
  assumes "length (enc_buf c) = ENC_DATA_SIZE" "st \<noteq> SOther"
  obtains c' where "InitializeCodec c st num = ret c'" "utf8_ok c'" "utf16_ok c'" "pending c' = []"
    "slot_mode c' = (if st = SUnstrict then MODE_UNSTRICT else MODE_STRICT)" "\<forall>n. num = Some n \<longrightarrow> slot_encoding c' = n"
proof -
  obtain n bs where b: "enc_buf c = n # bs" "length bs = 7" using assms(1) by (cases "enc_buf c") (auto simp: ENC_DATA_SIZE_def)
  let ?c = "c\<lparr>slot_mode := if st = SUnstrict then MODE_UNSTRICT else MODE_STRICT\<rparr>"
  let ?c' = "(case num of None \<Rightarrow> ?c | Some n \<Rightarrow> ?c\<lparr>slot_encoding := n\<rparr>)\<lparr>enc_buf := 0 # bs\<rparr>"
  show ?thesis
  proof (rule that [of ?c'])
    show "InitializeCodec c st num = ret ?c'" using assms(2) b by (cases num) (simp_all add: InitializeCodec_def Let_def)
    show "pending ?c' = []" by (simp add: pending_def)
    then show "utf8_ok ?c'" "utf16_ok ?c'" using b by (simp_all add: utf8_ok_def utf16_ok_def ENC_DATA_SIZE_def)
  qed (auto split: option.splits)
qed

section \<open>UTF-8\<close>

lemma bytes_mod: "\<forall>b \<in> set r. b < 256 \<Longrightarrow> map (\<lambda>b. b mod 256) r = (r :: nat list)"
  by (intro map_idI) simp

lemma split_bytes: "split_chars S = (us, r) \<Longrightarrow> \<forall>b \<in> set S. b < 256 \<Longrightarrow> \<forall>b \<in> set r. b < 256"
  using split_concat [of S] by (metis Un_iff set_append snd_conv)

lemma split_pending: assumes "utf8_ok c" shows "split_chars (pending c) = ([], pending c)"
proof (cases "enc_buf c ! 0 = 0")
  case False
  note h = pending_head(1) [OF assms False, of "[]"] pending_head(2) [OF assms False] pending_length [OF assms]
  show ?thesis
  proof (rule split_idle)
    show "pending c \<noteq> []" using h(3) False by auto
    show "length (pending c) < A_UTF8_SKIP_W (hd (pending c))" using h assms False by (simp add: utf8_ok_def)
  qed
qed (use pending_length [OF assms] in simp)

text \<open>One piece of a stream of bytes.\<close>

lemma utf8_piece:
  assumes ok: "utf8_ok c" and sp: "split_chars (pending c @ s @ rest) = (us, r)" and b: "\<forall>b \<in> set s. b < 256"
  obtains us1 us2 c1 where
    "Utf8Decode c s = bindM next_alloc (\<lambda>_. if refuses c us1 then raise DecodeError else ret (map show_char us1, c1))"
    "utf8_ok c1" "slot_mode c1 = slot_mode c" "us = us1 @ us2" "split_chars (pending c1 @ rest) = (us2, r)"
proof -
  obtain us1 r1 where s1: "split_chars (pending c @ s) = (us1, r1)" by fastforce
  obtain c1 where c1: "Utf8Decode c s = bindM next_alloc (\<lambda>_. if refuses c us1 then raise DecodeError else ret (map show_char us1, c1))"
    "utf8_ok c1" "pending c1 = map (\<lambda>b. b mod 256) r1" "slot_mode c1 = slot_mode c"
    using Utf8Decode_stream [OF ok s1] .
  have "\<forall>b \<in> set (pending c @ s). b < 256" using ok b by (auto simp: utf8_ok_def)
  then have "pending c1 = r1" using c1(3) bytes_mod split_bytes [OF s1] by simp
  then show ?thesis using that c1 split_append [of "pending c @ s" rest] s1 sp by auto
qed

lemma split_nonempty: "[] \<notin> set (fst (split_chars s))"
  by (induction s rule: split_chars.induct) (use skip_bounds(1) in \<open>auto simp: Let_def Suc_le_eq\<close>)

lemma length_concat_ge: "[] \<notin> set us \<Longrightarrow> length us \<le> length (concat us)"
proof (induction us)
  case (Cons u us)
  then show ?case by (cases u) auto
qed simp

lemma decode_all_utf8:
  assumes "utf8_ok c" "split_chars (pending c @ concat ss) = (us, r)" "\<forall>b \<in> set (concat ss). b < 256" "\<not> refuses c us"
  shows "meets Q (decode_all Utf8Decode c ss) (\<lambda>(t, c'). t = map show_char us \<and> utf8_ok c' \<and> pending c' = r)"
  using assms
proof (induction ss arbitrary: c us)
  case Nil
  have "us = []" "r = pending c" using Nil(2) split_pending [OF Nil(1)] by simp_all
  then show ?case using Nil by auto
next
  case (Cons s ss)
  have b: "\<forall>b \<in> set s. b < 256" "split_chars (pending c @ s @ concat ss) = (us, r)" using Cons.prems(2,3) by auto
  obtain us1 us2 c1 where c1: "Utf8Decode c s = bindM next_alloc (\<lambda>_. if refuses c us1 then raise DecodeError else ret (map show_char us1, c1))"
    "utf8_ok c1" "slot_mode c1 = slot_mode c" and us: "us = us1 @ us2" "split_chars (pending c1 @ concat ss) = (us2, r)"
    by (rule utf8_piece [OF Cons.prems(1) b(2,1)])
  have nr: "\<not> refuses c us1" "\<not> refuses c1 us2" using Cons.prems(4) us(1) c1(3) by (auto simp: refuses_def)
  have A: "meets Q (Utf8Decode c s) (\<lambda>x. x = (map show_char us1, c1))"
    unfolding c1(1) using nr(1) by (auto intro: meets_bind [OF meets_next_alloc])
  have "meets Q (decode_all Utf8Decode c1 ss) (\<lambda>(t, c'). t = map show_char us2 \<and> utf8_ok c' \<and> pending c' = r)"
    using Cons.prems(3) by (intro Cons.IH c1(2) us(2) nr(2)) simp
  then have B: "meets Q (bindM (decode_all Utf8Decode c1 ss) (\<lambda>(rs, c). ret (map show_char us1 @ rs, c)))
               (\<lambda>(t, c'). t = map show_char us \<and> utf8_ok c' \<and> pending c' = r)"
    unfolding us(1) by (rule meets_bind) auto
  show ?case unfolding decode_all.simps by (rule meets_bind [OF A]) (use B in simp)
qed

lemma decode_all_utf8_error:
  assumes "utf8_ok c" "split_chars (pending c @ concat ss) = (us, r)" "\<forall>b \<in> set (concat ss). b < 256" "refuses c us"
  shows "fails DecodeError (decode_all Utf8Decode c ss)"
  using assms
proof (induction ss arbitrary: c us)
  case Nil
  then show ?case using split_pending [OF Nil(1)] by (simp add: refuses_def)
next
  case (Cons s ss)
  have b: "\<forall>b \<in> set s. b < 256" "split_chars (pending c @ s @ concat ss) = (us, r)" using Cons.prems(2,3) by auto
  obtain us1 us2 c1 where c1: "Utf8Decode c s = bindM next_alloc (\<lambda>_. if refuses c us1 then raise DecodeError else ret (map show_char us1, c1))"
    "utf8_ok c1" "slot_mode c1 = slot_mode c" and us: "us = us1 @ us2" "split_chars (pending c1 @ concat ss) = (us2, r)"
    by (rule utf8_piece [OF Cons.prems(1) b(2,1)])
  show ?case
  proof (cases "refuses c us1")
    case True
    then have "fails DecodeError (Utf8Decode c s)" unfolding c1(1) by (auto intro: fails_next [OF meets_next_alloc])
    then show ?thesis unfolding decode_all.simps by (rule fails_first)
  next
    case False
    then have "refuses c1 us2" using Cons.prems(4) us(1) c1(3) by (auto simp: refuses_def)
    then have "fails DecodeError (decode_all Utf8Decode c1 ss)" using Cons.prems(3) by (intro Cons.IH [OF c1(2) us(2)]) simp_all
    moreover have "meets any_alloc (Utf8Decode c s) (\<lambda>x. x = (map show_char us1, c1))"
      unfolding c1(1) using False by (auto intro: meets_bind [OF meets_next_alloc])
    ultimately show ?thesis unfolding decode_all.simps
      by (intro fails_next [where P = "\<lambda>x. x = (map show_char us1, c1)"]) (auto intro: fails_first)
  qed
qed

lemma utf8_pieces_lemma:
  assumes "length (enc_buf c) = ENC_DATA_SIZE" and "st \<noteq> SOther" and "\<forall>b \<in> set (concat ss). b < 256"
    and "split_chars (concat ss) = (us, r)"
  shows "if st \<noteq> SUnstrict \<and> (\<exists>u \<in> set us. char_code u = None)
         then fails DecodeError (bindM (InitializeCodec c st None) (\<lambda>c. decode_all Utf8Decode c ss))
         else meets any_alloc (bindM (InitializeCodec c st None) (\<lambda>c. decode_all Utf8Decode c ss))
                (\<lambda>(t, c). t = map show_char us \<and> pending c = r)"
proof -
  obtain c' where c': "InitializeCodec c st None = ret c'" "utf8_ok c'" "pending c' = []"
    "slot_mode c' = (if st = SUnstrict then MODE_UNSTRICT else MODE_STRICT)"
    using init_codec [OF assms(1,2), of None] by metis
  have r: "refuses c' us \<longleftrightarrow> st \<noteq> SUnstrict \<and> (\<exists>u \<in> set us. char_code u = None)"
    using c'(4) by (auto simp: refuses_def MODE_STRICT_def MODE_UNSTRICT_def)
  have sp: "split_chars (pending c' @ concat ss) = (us, r)" using assms(4) c'(3) by simp
  show ?thesis
    using decode_all_utf8_error [OF c'(2) sp assms(3)] decode_all_utf8 [OF c'(2) sp assms(3), of any_alloc] r
    unfolding c'(1) bind_ret by (auto elim: meets_mono)
qed

text \<open>
  C12: A UTF-8 decoder does not depend on how its input is cut into pieces.  Feeding a new decoder
  the pieces of a byte string returns the characters of the whole string, with the replacement
  character for malformed ones, and keeps an incomplete character at the end; in strict mode it
  raises DecodeError when one of the characters is malformed.
\<close>

theorem utf8_pieces:
  assumes "length (enc_buf c) = ENC_DATA_SIZE" and "st \<noteq> SOther" and "\<forall>b \<in> set (concat ss). b < 256"
    and "split_chars (concat ss) = (us, r)"
  shows "if st \<noteq> SUnstrict \<and> (\<exists>u \<in> set us. char_code u = None)
         then fails DecodeError (bindM (InitializeCodec c st None) (\<lambda>c. decode_all Utf8Decode c ss))
         else meets any_alloc (bindM (InitializeCodec c st None) (\<lambda>c. decode_all Utf8Decode c ss))
                (\<lambda>(t, c). t = map show_char us \<and> pending c = r)"
  by (rule utf8_pieces_lemma [OF assms])

theorem utf8_pieces_witness:
  "meets any_alloc (bindM (InitializeCodec \<lparr>slot_mode = 7, slot_encoding = 0, enc_buf = [9, 8, 7, 6, 5, 4, 3, 2]\<rparr> SUnstrict None)
       (\<lambda>c. decode_all Utf8Decode c [[0x41, 0xe2], [0x82], [], [0xac, 0x80, 0xc3]]))
     (\<lambda>(t, c). t = [0x41, 0x20ac, 0xfffd] \<and> pending c = [0xc3])"
proof -
  have "split_chars (concat [[0x41, 0xe2], [0x82], [], [0xac, 0x80, 0xc3]]) = ([[0x41], [0xe2, 0x82, 0xac], [0x80]], [0xc3])"
    by (simp add: Let_def A_UTF8_SKIP_W_def)
  moreover have "map show_char [[0x41], [0xe2, 0x82, 0xac], [0x80]] = [0x41, 0x20ac, 0xfffd]"
    by (simp add: show_char_def char_code_def)
  ultimately show ?thesis
    using utf8_pieces [of "\<lparr>slot_mode = 7, slot_encoding = 0, enc_buf = [9, 8, 7, 6, 5, 4, 3, 2]\<rparr>" SUnstrict
        "[[0x41, 0xe2], [0x82], [], [0xac, 0x80, 0xc3]]"]
    by (simp add: ENC_DATA_SIZE_def)
qed

text \<open>
  C33: Decoding inverts UTF-8 encoding, in pieces of any size and in both modes: whatever pieces the
  encoded string is cut into, the decoder returns the original string, and nothing is left over.
\<close>

theorem utf8_roundtrip:
  assumes "\<forall>ch \<in> set s. ch < 65536" and "length (enc_buf c) = ENC_DATA_SIZE" and "st \<noteq> SOther"
  shows "meets any_alloc (Utf8Encode s)
           (\<lambda>bs. \<forall>ss. concat ss = bs \<longrightarrow>
              meets any_alloc (bindM (InitializeCodec c st None) (\<lambda>c. decode_all Utf8Decode c ss))
                (\<lambda>(t, c). t = s \<and> pending c = []))"
proof -
  let ?us = "map utf8_enc_char s"
  have code: "char_code u = Some ch" if "u = utf8_enc_char ch" "ch \<in> set s" for u ch using that utf8_enc_unit(1) assms(1) by simp
  have A: "map show_char ?us = s" unfolding map_map by (rule map_idI) (simp add: show_char_def code [OF refl])
  have B: "\<not> (st \<noteq> SUnstrict \<and> (\<exists>u \<in> set ?us. char_code u = None))" using code by auto
  have C: "\<forall>b \<in> set (concat ?us). b < 256" using utf8_enc_unit(4) assms(1) by auto
  have "meets any_alloc (bindM (InitializeCodec c st None) (\<lambda>c. decode_all Utf8Decode c ss))
                (\<lambda>(t, c). t = s \<and> pending c = [])" if ss: "concat ss = concat ?us" for ss
    using utf8_pieces_lemma [OF assms(2,3), of ss ?us "[]", unfolded ss, OF C split_encoded [OF assms(1)]]
    unfolding if_not_P [OF B] A .
  then show ?thesis unfolding Utf8Encode_eq [OF assms(1)] by (auto intro!: meets_bind [OF meets_next_alloc] meets_ret)
qed

theorem utf8_roundtrip_witness:
  "meets any_alloc (Utf8Encode [0x48, 0xe4, 0x20ac])
     (\<lambda>bs. \<forall>ss. concat ss = bs \<longrightarrow>
        meets any_alloc (bindM (InitializeCodec \<lparr>slot_mode = 0, slot_encoding = 0, enc_buf = [1, 2, 3, 4, 5, 6, 7, 8]\<rparr> SDefault None)
            (\<lambda>c. decode_all Utf8Decode c ss))
          (\<lambda>(t, c). t = [0x48, 0xe4, 0x20ac] \<and> pending c = []))"
  by (rule utf8_roundtrip) (simp_all add: ENC_DATA_SIZE_def)

text \<open>
  C35: A UTF-8 decoder never reads or writes outside its input and its buffer, whatever characters
  it is fed, wide ones included: every call returns, raises DecodeError in strict mode or runs out
  of memory, and the buffer again holds the beginning of one character.
\<close>

theorem utf8_decode_bounds:
  assumes "utf8_ok c"
  shows "case fst (Utf8Decode c s t) of
           Inr (r, c') \<Rightarrow> utf8_ok c' \<and> length r \<le> length (pending c) + length s
         | Inl e \<Rightarrow> e = DecodeError \<and> slot_mode c = MODE_STRICT \<or> e = MemoryError \<and> AllocFail \<in> set (allocs t)"
proof -
  obtain us r where sp: "split_chars (pending c @ s) = (us, r)" by fastforce
  obtain c' where c': "Utf8Decode c s = bindM next_alloc (\<lambda>_. if refuses c us then raise DecodeError else ret (map show_char us, c'))"
    "utf8_ok c'"
    using Utf8Decode_stream [OF assms sp] by metis
  have "length (concat us) \<le> length (pending c) + length s"
    using arg_cong [OF split_concat [of "pending c @ s"], of length] sp by simp
  moreover have "length us \<le> length (concat us)" using split_nonempty [of "pending c @ s"] sp by (simp add: length_concat_ge)
  ultimately show ?thesis
    using c'(2) unfolding c'(1)
    by (auto simp: bindM_def next_alloc_def raise_def ret_def refuses_def split: list.splits alloc.splits)
qed

definition half_char :: codec where
  "half_char = \<lparr>slot_mode = MODE_STRICT, slot_encoding = 0, enc_buf = [1, 0xc3, 0, 0, 0, 0, 0, 0]\<rparr>"

theorem utf8_decode_bounds_witness:
  "case fst (Utf8Decode half_char [0x1234] \<lparr>allocs = [], tempStackPtr = 0\<rparr>) of
     Inr (r, c') \<Rightarrow> utf8_ok c' \<and> length r \<le> length (pending half_char) + length [0x1234 :: nat]
   | Inl e \<Rightarrow> e = DecodeError \<and> slot_mode half_char = MODE_STRICT
              \<or> e = MemoryError \<and> AllocFail \<in> set (allocs \<lparr>allocs = [], tempStackPtr = 0\<rparr>)"
  by (rule utf8_decode_bounds) (simp add: half_char_def utf8_ok_def pending_def ENC_DATA_SIZE_def A_UTF8_SKIP_def)

section \<open>UTF-16\<close>

lemma decode_all_utf16:
  assumes "utf16_ok c" "\<forall>b \<in> set (concat ss). b < 256" "[] \<notin> set ss"
  shows "meets Q (decode_all (\<lambda>c s. Utf16Decode c s be) c ss)
           (\<lambda>(t, c'). t = pairs be (pending c @ concat ss) \<and> pending c' = odd_rest (pending c @ concat ss))"
  using assms
proof (induction ss arbitrary: c)
  case Nil
  have "pairs be (pending c) = [] \<and> odd_rest (pending c) = pending c"
  proof -
    have "length (pending c) \<le> 1" using Nil(1) by (auto simp: utf16_ok_def pending_def min_def)
    then show ?thesis by (cases "pending c"; cases "tl (pending c)") auto
  qed
  then show ?case by auto
next
  case (Cons s ss)
  obtain c1 where c1: "Utf16Decode c s be = bindM next_alloc (\<lambda>_. ret (pairs be (pending c @ s), c1))"
    "utf16_ok c1" "pending c1 = utf16_rest c s"
    using Utf16Decode_stream [OF Cons.prems(1)] .
  have "\<forall>b \<in> set (pending c @ s). b < 256" using Cons.prems(1,2) by (auto simp: utf16_ok_def)
  moreover have "set (odd_rest S) \<subseteq> set S" for S by (simp add: odd_rest_drop set_drop_subset)
  ultimately have "map (\<lambda>b. b mod 256) (odd_rest (pending c @ s)) = odd_rest (pending c @ s)"
    by (intro map_idI) (meson mod_less subsetD)
  then have p1: "pending c1 = odd_rest (pending c @ s)" using c1(3) Cons.prems(3) by (auto simp: utf16_rest_def)
  have A: "meets Q (Utf16Decode c s be) (\<lambda>x. x = (pairs be (pending c @ s), c1))"
    unfolding c1(1) by (auto intro: meets_bind [OF meets_next_alloc])
  have "meets Q (decode_all (\<lambda>c s. Utf16Decode c s be) c1 ss)
          (\<lambda>(t, c'). t = pairs be (pending c1 @ concat ss) \<and> pending c' = odd_rest (pending c1 @ concat ss))"
    using Cons.prems by (intro Cons.IH c1(2)) auto
  then have B: "meets Q (bindM (decode_all (\<lambda>c s. Utf16Decode c s be) c1 ss) (\<lambda>(rs, c2). ret (pairs be (pending c @ s) @ rs, c2)))
          (\<lambda>(t, c'). t = pairs be (pending c @ concat (s # ss)) \<and> pending c' = odd_rest (pending c @ concat (s # ss)))"
    using pairs_append(1) [of be "pending c @ s" "concat ss"] pairs_append(2) [of "pending c @ s" "concat ss"] p1 by (auto elim!: meets_bind)
  show ?case unfolding decode_all.simps by (rule meets_bind [OF A]) (use B in simp)
qed

lemma utf16_unit_join:
  assumes "ch < 65536"
  shows "utf16_unit False (ch AND 0xff) (drop_bit 8 ch) = ch" "utf16_unit True (drop_bit 8 ch) (ch AND 0xff) = ch"
proof -
  have a: "ch AND 0xff = ch mod 256" using take_bit_eq_mask [of 8 ch] by (simp add: take_bit_eq_mod mask_eq_exp_minus_1)
  have "push_bit 8 (ch div 256) OR ch mod 256 = ch" using or_add [of "ch mod 256" 8 "ch div 256"] by simp
  moreover have "ch mod 256 OR push_bit 8 (ch div 256) = push_bit 8 (ch div 256) OR ch mod 256" by (rule or.commute)
  ultimately show "utf16_unit False (ch AND 0xff) (drop_bit 8 ch) = ch" "utf16_unit True (drop_bit 8 ch) (ch AND 0xff) = ch"
    using assms by (simp_all add: utf16_unit_def a drop_bit_eq_div)
qed

definition utf16_bytes :: "bool \<Rightarrow> nat list \<Rightarrow> nat list" where
  "utf16_bytes be s = concat (map (\<lambda>ch. if be then [drop_bit 8 ch, ch AND 0xff] else [ch AND 0xff, drop_bit 8 ch]) s)"

lemma utf16_bytes_ok:
  assumes "\<forall>ch \<in> set s. ch < 65536"
  shows "pairs be (utf16_bytes be s) = s" "odd_rest (utf16_bytes be s) = []" "\<forall>b \<in> set (utf16_bytes be s). b < 256"
proof -
  show "pairs be (utf16_bytes be s) = s" "odd_rest (utf16_bytes be s) = []"
    using assms by (cases be; induction s; simp add: utf16_bytes_def utf16_unit_join)+
  have "ch AND 0xff < 256" "ch < 65536 \<Longrightarrow> drop_bit 8 ch < 256" for ch :: nat
    using take_bit_eq_mask [of 8 ch] by (simp_all add: take_bit_eq_mod mask_eq_exp_minus_1 drop_bit_eq_div div_less_iff_less_mult)
  then show "\<forall>b \<in> set (utf16_bytes be s). b < 256" using assms by (auto simp: utf16_bytes_def)
qed

text \<open>
  Decoding inverts UTF-16 encoding in both byte orders, in pieces of any size but zero: whatever
  nonempty pieces the encoded string is cut into, the decoder returns the original string, and
  nothing is left over.
\<close>

theorem utf16_roundtrip:
  assumes "\<forall>ch \<in> set s. ch < 65536" and "length (enc_buf c) = ENC_DATA_SIZE" and "st \<noteq> SOther"
  shows "meets any_alloc (if be then Utf16BeEncode s else Utf16LeEncode s)
           (\<lambda>bs. \<forall>ss. concat ss = bs \<and> [] \<notin> set ss \<longrightarrow>
              meets any_alloc (bindM (InitializeCodec c st None) (\<lambda>c. decode_all (\<lambda>c s. Utf16Decode c s be) c ss))
                (\<lambda>(t, c). t = s \<and> pending c = []))"
proof -
  note b = utf16_bytes_ok [OF assms(1), of be]
  obtain c' where c': "InitializeCodec c st None = ret c'" "utf16_ok c'" "pending c' = []"
    using init_codec [OF assms(2,3), of None] by metis
  have "meets any_alloc (bindM (InitializeCodec c st None) (\<lambda>c. decode_all (\<lambda>c s. Utf16Decode c s be) c ss))
          (\<lambda>(t, c). t = s \<and> pending c = [])" if "concat ss = utf16_bytes be s" "[] \<notin> set ss" for ss
    using decode_all_utf16 [OF c'(2), of ss any_alloc be] b that c'(3) unfolding c'(1) bind_ret by simp
  moreover have "(if be then Utf16BeEncode s else Utf16LeEncode s) = bindM next_alloc (\<lambda>_. ret (utf16_bytes be s))"
    by (simp add: Utf16BeEncode_def Utf16LeEncode_def utf16_bytes_def)
  ultimately show ?thesis by (auto intro!: meets_bind [OF meets_next_alloc] meets_ret)
qed

theorem utf16_roundtrip_witness:
  "meets any_alloc (if True then Utf16BeEncode [0x20ac, 0xd800] else Utf16LeEncode [0x20ac, 0xd800])
     (\<lambda>bs. \<forall>ss. concat ss = bs \<and> [] \<notin> set ss \<longrightarrow>
        meets any_alloc (bindM (InitializeCodec \<lparr>slot_mode = 0, slot_encoding = 0, enc_buf = [1, 2, 3, 4, 5, 6, 7, 8]\<rparr> SStrict None)
            (\<lambda>c. decode_all (\<lambda>c s. Utf16Decode c s True) c ss))
          (\<lambda>(t, c). t = [0x20ac, 0xd800] \<and> pending c = []))"
  by (rule utf16_roundtrip) (simp_all add: ENC_DATA_SIZE_def)

text \<open>An empty piece makes a UTF-16 decoder forget the byte it holds.\<close>

lemma utf16_empty_piece:
  assumes "utf16_ok c"
  shows "\<exists>c'. Utf16Decode c [] be = bindM next_alloc (\<lambda>_. ret ([], c')) \<and> pending c' = []"
proof -
  obtain c' where c': "Utf16Decode c [] be = bindM next_alloc (\<lambda>_. ret (pairs be (pending c @ []), c'))" "pending c' = utf16_rest c []"
    using Utf16Decode_stream [OF assms] by metis
  have "length (pending c) \<le> 1" using assms by (auto simp: utf16_ok_def pending_def min_def)
  then have "pairs be (pending c @ []) = []" by (cases "pending c"; cases "tl (pending c)") auto
  then show ?thesis using c' by (auto simp: utf16_rest_def)
qed

end
