(* ===== verification/Eight_Bit.thy ===== *)
theory Eight_Bit
  imports Encodings Codec_Tables
begin

text \<open>
  The 8-bit codecs of the encodings module (\<^verbatim>\<open>src/src/encodings_module.c\<close>).  The description of an
  encoding is expanded, on first use, to a table from codes to Unicode and a hash table back; the
  hash table has 256 slots, probed one after the other, and a slot with the source 0 is free.
\<close>

section \<open>Realized codecs\<close>

definition REVERSE_MAP_SIZE :: nat where
  "REVERSE_MAP_SIZE = 256"

definition HASH :: "nat \<Rightarrow> nat" where
  "HASH n = n * 3"

record codec_info =
  cmap :: "nat list"
  reverseMap :: "(nat \<times> nat) list"

text \<open>
  The first loop: \<open>acc\<close> has the entries written so far.  Reading behind the description and
  writing behind the table are undefined.
\<close>

definition map_put :: "int \<Rightarrow> nat list \<Rightarrow> aerror + nat list" where
  "map_put v acc = (if length acc < 128 then Inr (acc @ [nat (v mod 65536)]) else Inl UndefinedBehaviour)"

fun map_run :: "nat \<Rightarrow> (nat \<Rightarrow> int \<Rightarrow> int) \<Rightarrow> int \<Rightarrow> nat list \<Rightarrow> aerror + nat list" where
  "map_run 0 f prev acc = Inr acc"
| "map_run (Suc n) f prev acc = bindE (map_put (f (length acc) (prev + 1)) acc) (map_run n f (prev + 1))"

fun realize_loop :: "nat list \<Rightarrow> int \<Rightarrow> nat list \<Rightarrow> aerror + nat list" where
  "realize_loop [] prev acc = Inl UndefinedBehaviour"
| "realize_loop (d # ds) prev acc =
     (if d = 255 then Inr acc
      else if d < 128 then
        let prev = prev + (int d - 63) in bindE (map_put prev acc) (realize_loop ds prev)
      else
        case ds of
          [] \<Rightarrow> Inl UndefinedBehaviour
        | n # ds \<Rightarrow>
            if d < 252 then
              let prev = int (push_bit 8 (d - 128) OR n) in bindE (map_put prev acc) (realize_loop ds prev)
            else if d = 252 then
              bindE (map_run n (\<lambda>_ p. p) prev acc) (realize_loop ds (prev + int n))
            else if d = 253 then
              bindE (map_run n (\<lambda>j _. int j + 128) prev acc) (realize_loop ds prev)
            else
              bindE (map_run n (\<lambda>_ _. 0xfffd) prev acc) (realize_loop ds prev))"

text \<open>Probing from slot \<open>j\<close> to the first slot whose source stops the search.\<close>

fun rprobe :: "nat \<Rightarrow> (nat \<Rightarrow> bool) \<Rightarrow> (nat \<times> nat) list \<Rightarrow> nat \<Rightarrow> aerror + nat" where
  "rprobe 0 stop rm j = Inl NonTermination"
| "rprobe (Suc n) stop rm j =
     (if stop (fst (rm ! j)) then Inr j else rprobe n stop rm ((j + 1) mod REVERSE_MAP_SIZE))"

text \<open>The second loop enters the codes; \<open>i\<close> is the index of the first entry of the list.\<close>

fun reverse_loop :: "nat \<Rightarrow> nat list \<Rightarrow> (nat \<times> nat) list \<Rightarrow> aerror + (nat \<times> nat) list" where
  "reverse_loop i [] rm = Inr rm"
| "reverse_loop i (ch # m) rm =
     (if ch \<noteq> 0xfffd then
        bindE (rprobe REVERSE_MAP_SIZE (\<lambda>src. src = 0) rm (HASH ch mod REVERSE_MAP_SIZE))
          (\<lambda>j. reverse_loop (Suc i) m (rm[j := (ch, i + 128)]))
      else reverse_loop (Suc i) m rm)"

type_synonym codecs = "codec_info option list"

type_synonym 'a codec_op = "codecs \<Rightarrow> athread \<Rightarrow> (aerror + 'a) \<times> codecs \<times> athread"

text \<open>The new tables hold left-over memory; the loop that clears the hash table leaves the targets.\<close>

definition RealizeCodec :: "nat \<Rightarrow> unit codec_op" where
  "RealizeCodec codec cs t =
     (case next_alloc t of
        (Inl e, t) \<Rightarrow> (Inl e, cs, t)
      | (Inr (_, junk), t) \<Rightarrow>
          if codec < length ACodecInfo then
            (case bindE (realize_loop (ACodecInfo ! codec) (- 1) [])
                    (\<lambda>m. let m = m @ drop (length m) (take 128 (map (\<lambda>d. unat d mod 65536) junk @ replicate 128 0))
                         in bindE (reverse_loop 0 m (replicate REVERSE_MAP_SIZE (0, 0)))
                              (\<lambda>rm. Inr \<lparr>cmap = m, reverseMap = rm\<rparr>)) of
               Inl e \<Rightarrow> (Inl e, cs, t)
             | Inr info \<Rightarrow> (Inr (), cs[codec := Some info], t))
          else (Inl UndefinedBehaviour, cs, t))"

text \<open>Realize the codec if it is uninitialized.\<close>

definition with_codec :: "nat \<Rightarrow> (codec_info \<Rightarrow> 'a codec_op) \<Rightarrow> 'a codec_op" where
  "with_codec codec f cs t =
     (case (if cs ! codec = None then RealizeCodec codec cs t else (Inr (), cs, t)) of
        (Inl e, cs, t) \<Rightarrow> (Inl e, cs, t)
      | (Inr _, cs, t) \<Rightarrow>
          (case cs ! codec of None \<Rightarrow> (Inl UndefinedBehaviour, cs, t) | Some info \<Rightarrow> f info cs t))"

fun encode8_loop :: "codec_info \<Rightarrow> bool \<Rightarrow> nat list \<Rightarrow> aerror + nat list" where
  "encode8_loop info strict [] = Inr []"
| "encode8_loop info strict (ch # s) =
     bindE (if ch \<le> 0x7f then Inr ch
            else bindE (rprobe REVERSE_MAP_SIZE (\<lambda>src. src = ch \<or> src = 0) (reverseMap info) (HASH ch mod REVERSE_MAP_SIZE))
              (\<lambda>j. if fst (reverseMap info ! j) \<noteq> 0 then Inr (snd (reverseMap info ! j) mod 256)
                   else if strict then Inl EncodeError else Inr 0x3f))
       (\<lambda>b. bindE (encode8_loop info strict s) (\<lambda>bs. Inr (b # bs)))"

definition EightBitCodecEncode :: "codec \<Rightarrow> nat list \<Rightarrow> nat list codec_op" where
  "EightBitCodecEncode c s =
     with_codec (slot_encoding c) (\<lambda>info cs t.
       case next_alloc t of
         (Inl e, t) \<Rightarrow> (Inl e, cs, t)
       | (Inr _, t) \<Rightarrow> (encode8_loop info (slot_mode c = MODE_STRICT) s, cs, t))"

fun decode8_loop :: "codec_info \<Rightarrow> bool \<Rightarrow> nat list \<Rightarrow> aerror + nat list" where
  "decode8_loop info strict [] = Inr []"
| "decode8_loop info strict (ch # s) =
     bindE (if ch \<le> 0x7f then Inr ch
            else if ch \<le> 0xff \<and> cmap info ! (ch - 128) \<noteq> 0xfffd then Inr (cmap info ! (ch - 128))
            else if strict then Inl DecodeError else Inr 0xfffd)
       (\<lambda>b. bindE (decode8_loop info strict s) (\<lambda>bs. Inr (b # bs)))"

definition EightBitCodecDecode :: "codec \<Rightarrow> nat list \<Rightarrow> nat list codec_op" where
  "EightBitCodecDecode c s =
     with_codec (slot_encoding c) (\<lambda>info cs t.
       case next_alloc t of
         (Inl e, t) \<Rightarrow> (Inl e, cs, t)
       | (Inr _, t) \<Rightarrow> (decode8_loop info (slot_mode c = MODE_STRICT) s, cs, t))"

end
