(* ===== verification/Eight_Bit_Lemmas.thy ===== *)
theory Eight_Bit_Lemmas
  imports Eight_Bit
begin

text \<open>
  The tables of a realized 8-bit codec: the hash table finds exactly the entered characters, every
  description that the program has expands to a complete table without duplicates, and the loops
  of the codec follow the table.
\<close>

section \<open>The hash table\<close>

definition key_at :: "(nat \<times> nat) list \<Rightarrow> nat \<Rightarrow> nat \<Rightarrow> nat" where
  "key_at rm h i = fst (rm ! ((h + i) mod REVERSE_MAP_SIZE))"

lemma size_pos: "0 < REVERSE_MAP_SIZE"
  by (simp add: REVERSE_MAP_SIZE_def)

lemma rprobe_finds:
  assumes "stop (key_at rm h n)" "\<forall>i < n. \<not> stop (key_at rm h i)" "n < fuel" "h < REVERSE_MAP_SIZE"
  shows "rprobe fuel stop rm h = Inr ((h + n) mod REVERSE_MAP_SIZE)"
  using assms
proof (induction n arbitrary: fuel h)
  case 0
  then show ?case by (cases fuel) (simp_all add: key_at_def)
next
  case (Suc n)
  then obtain f where f: "fuel = Suc f" by (cases fuel) auto
  let ?h = "(h + 1) mod REVERSE_MAP_SIZE"
  have k: "key_at rm ?h i = key_at rm h (Suc i)" for i by (simp add: key_at_def mod_simps)
  have "\<not> stop (fst (rm ! h))" using Suc.prems(2,4) by (auto simp: key_at_def dest: spec [of _ 0])
  moreover have "rprobe f stop rm ?h = Inr ((?h + n) mod REVERSE_MAP_SIZE)"
    using Suc.prems f by (intro Suc.IH) (simp_all only: k Suc_less_eq mod_less_divisor [OF size_pos], auto)
  ultimately show ?case using f by (simp add: mod_simps)
qed

text \<open>The table holds the entries \<open>es\<close>: each is found, and no other slot is taken.\<close>

definition rm_holds :: "(nat \<times> nat) list \<Rightarrow> (nat \<times> nat) list \<Rightarrow> bool" where
  "rm_holds rm es \<longleftrightarrow> length rm = REVERSE_MAP_SIZE \<and> length (filter (\<lambda>e. fst e \<noteq> 0) rm) \<le> length es \<and>
     (\<forall>e \<in> set rm. fst e \<noteq> 0 \<longrightarrow> e \<in> set es) \<and>
     (\<forall>(k, d) \<in> set es. k \<noteq> 0 \<and> (\<exists>n < REVERSE_MAP_SIZE. rm ! ((HASH k + n) mod REVERSE_MAP_SIZE) = (k, d) \<and>
        (\<forall>i < n. key_at rm (HASH k) i \<noteq> 0 \<and> key_at rm (HASH k) i \<noteq> k)))"

lemma rm_holds_entry:
  assumes "rm_holds rm es" "(k, d) \<in> set es"
  obtains n where "k \<noteq> 0" "n < REVERSE_MAP_SIZE" "rm ! ((HASH k + n) mod REVERSE_MAP_SIZE) = (k, d)"
    "\<forall>i < n. key_at rm (HASH k) i \<noteq> 0 \<and> key_at rm (HASH k) i \<noteq> k"
  using assms unfolding rm_holds_def by blast

lemma rm_holds_key:
  assumes "rm_holds rm es" "key_at rm h i \<noteq> 0" shows "key_at rm h i \<in> fst ` set es"
proof -
  have "rm ! ((h + i) mod REVERSE_MAP_SIZE) \<in> set rm" using assms(1) size_pos by (simp add: rm_holds_def)
  then have "rm ! ((h + i) mod REVERSE_MAP_SIZE) \<in> set es" using assms unfolding rm_holds_def key_at_def by blast
  then show ?thesis unfolding key_at_def by (rule imageI)
qed

lemma free_rslot:
  assumes "length rm = REVERSE_MAP_SIZE" "length (filter (\<lambda>e. fst e \<noteq> 0) rm) < REVERSE_MAP_SIZE"
  obtains n where "n < REVERSE_MAP_SIZE" "key_at rm h n = 0" "\<forall>i < n. key_at rm h i \<noteq> 0"
proof -
  have "\<exists>e \<in> set rm. fst e = 0"
  proof (rule ccontr)
    assume "\<not> ?thesis"
    then have "filter (\<lambda>e. fst e \<noteq> 0) rm = rm" by (intro filter_True) auto
    then show False using assms by simp
  qed
  then obtain j where j: "j < REVERSE_MAP_SIZE" "fst (rm ! j) = 0" using assms(1) by (auto simp: in_set_conv_nth)
  let ?n = "(j + (REVERSE_MAP_SIZE - h mod REVERSE_MAP_SIZE)) mod REVERSE_MAP_SIZE"
  have "(h + ?n) mod REVERSE_MAP_SIZE = (h mod REVERSE_MAP_SIZE + (j + (REVERSE_MAP_SIZE - h mod REVERSE_MAP_SIZE))) mod REVERSE_MAP_SIZE"
    by (simp add: mod_simps)
  also have "h mod REVERSE_MAP_SIZE + (j + (REVERSE_MAP_SIZE - h mod REVERSE_MAP_SIZE)) = j + REVERSE_MAP_SIZE"
    using mod_less_divisor [of REVERSE_MAP_SIZE h] by (simp add: REVERSE_MAP_SIZE_def)
  finally have "key_at rm h ?n = 0" using j by (simp add: key_at_def)
  then obtain n where n: "key_at rm h n = 0" "\<forall>i < n. key_at rm h i \<noteq> 0" "n \<le> ?n"
    using exists_least_iff [of "\<lambda>n. key_at rm h n = 0"] by (metis linorder_not_le)
  have "n < REVERSE_MAP_SIZE" using n(3) mod_less_divisor [OF size_pos] by (rule le_less_trans)
  then show ?thesis using that n(1,2) by simp
qed

lemma rprobe_hash:
  assumes "stop (key_at rm h n)" "\<forall>i < n. \<not> stop (key_at rm h i)" "n < REVERSE_MAP_SIZE"
  shows "rprobe REVERSE_MAP_SIZE stop rm (h mod REVERSE_MAP_SIZE) = Inr ((h + n) mod REVERSE_MAP_SIZE)"
proof -
  have k: "key_at rm (h mod REVERSE_MAP_SIZE) i = key_at rm h i" for i by (simp add: key_at_def mod_add_left_eq)
  show ?thesis
    using rprobe_finds [of stop rm "h mod REVERSE_MAP_SIZE" n REVERSE_MAP_SIZE] assms size_pos
    unfolding k mod_add_left_eq by simp
qed

lemma filter_update_le: "length (filter P (xs[j := e])) \<le> Suc (length (filter P xs))"
  by (induction xs arbitrary: j) (auto split: nat.splits)

lemma rm_holds_insert:
  assumes h: "rm_holds rm es" and few: "length es < REVERSE_MAP_SIZE" and k: "k \<noteq> 0" "k \<notin> fst ` set es"
  obtains j where "rprobe REVERSE_MAP_SIZE (\<lambda>src. src = 0) rm (HASH k mod REVERSE_MAP_SIZE) = Inr j"
    "rm_holds (rm[j := (k, d)]) ((k, d) # es)"
proof -
  have len: "length rm = REVERSE_MAP_SIZE" and num: "length (filter (\<lambda>e. fst e \<noteq> 0) rm) \<le> length es"
    using h by (auto simp: rm_holds_def)
  obtain n where n: "n < REVERSE_MAP_SIZE" "key_at rm (HASH k) n = 0" "\<forall>i < n. key_at rm (HASH k) i \<noteq> 0"
    by (rule free_rslot [OF len le_less_trans [OF num few]])
  let ?j = "(HASH k + n) mod REVERSE_MAP_SIZE" and ?rm = "rm[(HASH k + n) mod REVERSE_MAP_SIZE := (k, d)]"
  have j: "?j < length rm" using len size_pos by simp
  have free: "fst (rm ! ?j) = 0" using n(2) by (simp add: key_at_def)
  have probe: "rprobe REVERSE_MAP_SIZE (\<lambda>src. src = 0) rm (HASH k mod REVERSE_MAP_SIZE) = Inr ?j"
    using n by (intro rprobe_hash) simp_all
  have old: "key_at ?rm h i = key_at rm h i" if "key_at rm h i \<noteq> 0" for h i
    using that free j by (cases "(h + i) mod REVERSE_MAP_SIZE = ?j") (auto simp: key_at_def)
  have "rm_holds ?rm ((k, d) # es)"
    unfolding rm_holds_def
  proof (intro conjI ballI)
    show "length ?rm = REVERSE_MAP_SIZE" using len by simp
    show "length (filter (\<lambda>e. fst e \<noteq> 0) ?rm) \<le> length ((k, d) # es)"
      unfolding length_Cons using filter_update_le [of "\<lambda>e. fst e \<noteq> 0" rm ?j "(k, d)"] num by (meson Suc_le_mono le_trans)
  next
    fix e assume "e \<in> set ?rm"
    then have "e = (k, d) \<or> e \<in> set rm" using set_update_subset_insert [of rm ?j "(k, d)"] by blast
    moreover have "fst e \<noteq> 0 \<longrightarrow> e \<in> set es" if "e \<in> set rm" using h that unfolding rm_holds_def by blast
    ultimately show "fst e \<noteq> 0 \<longrightarrow> e \<in> set ((k, d) # es)" by auto
  next
    fix e assume e: "e \<in> set ((k, d) # es)"
    show "case e of (k, d) \<Rightarrow> k \<noteq> 0 \<and> (\<exists>n < REVERSE_MAP_SIZE. ?rm ! ((HASH k + n) mod REVERSE_MAP_SIZE) = (k, d) \<and>
        (\<forall>i < n. key_at ?rm (HASH k) i \<noteq> 0 \<and> key_at ?rm (HASH k) i \<noteq> k))"
    proof (cases "e = (k, d)")
      case True
      have "key_at rm (HASH k) i \<noteq> k" if "i < n" for i
        using rm_holds_key [OF h, of "HASH k" i] n(3) that k(2) by metis
      then have "\<forall>i < n. key_at ?rm (HASH k) i \<noteq> 0 \<and> key_at ?rm (HASH k) i \<noteq> k" using old n(3) by simp
      moreover have "?rm ! ?j = (k, d)" using j by simp
      ultimately show ?thesis using True n(1) k(1) unfolding True prod.case by blast
    next
      case False
      then obtain k' d' where e': "e = (k', d')" "(k', d') \<in> set es" using e by (cases e) auto
      then obtain m where m: "k' \<noteq> 0" "m < REVERSE_MAP_SIZE" "rm ! ((HASH k' + m) mod REVERSE_MAP_SIZE) = (k', d')"
        "\<forall>i < m. key_at rm (HASH k') i \<noteq> 0 \<and> key_at rm (HASH k') i \<noteq> k'" using rm_holds_entry [OF h] by metis
      have "(HASH k' + m) mod REVERSE_MAP_SIZE \<noteq> ?j" using m(1,3) free by auto
      then have "?rm ! ((HASH k' + m) mod REVERSE_MAP_SIZE) = (k', d')" using m(3) by simp
      moreover have "\<forall>i < m. key_at ?rm (HASH k') i \<noteq> 0 \<and> key_at ?rm (HASH k') i \<noteq> k'" using old m(4) by simp
      ultimately show ?thesis using m(1,2) unfolding e'(1) prod.case by blast
    qed
  qed
  then show ?thesis using that probe by blast
qed

text \<open>A search for a key finds its entry, and nothing for a key that was not entered.\<close>

lemma rm_holds_find:
  assumes h: "rm_holds rm es" and few: "length es < REVERSE_MAP_SIZE" and k: "k \<noteq> 0"
  obtains j where "rprobe REVERSE_MAP_SIZE (\<lambda>src. src = k \<or> src = 0) rm (HASH k mod REVERSE_MAP_SIZE) = Inr j"
    "if k \<in> fst ` set es then rm ! j \<in> set es \<and> fst (rm ! j) = k else fst (rm ! j) = 0"
proof -
  have len: "length rm = REVERSE_MAP_SIZE" and num: "length (filter (\<lambda>e. fst e \<noteq> 0) rm) \<le> length es"
    using h by (auto simp: rm_holds_def)
  have probe: "rprobe REVERSE_MAP_SIZE (\<lambda>src. src = k \<or> src = 0) rm (HASH k mod REVERSE_MAP_SIZE) = Inr ((HASH k + n) mod REVERSE_MAP_SIZE)"
    if "n < REVERSE_MAP_SIZE" "key_at rm (HASH k) n = k \<or> key_at rm (HASH k) n = 0"
      "\<forall>i < n. key_at rm (HASH k) i \<noteq> k \<and> key_at rm (HASH k) i \<noteq> 0" for n
    using that by (intro rprobe_hash) simp_all
  show ?thesis
  proof (cases "k \<in> fst ` set es")
    case True
    then obtain d where d: "(k, d) \<in> set es" by force
    then obtain n where n: "n < REVERSE_MAP_SIZE" "rm ! ((HASH k + n) mod REVERSE_MAP_SIZE) = (k, d)"
        "\<forall>i < n. key_at rm (HASH k) i \<noteq> 0 \<and> key_at rm (HASH k) i \<noteq> k" using rm_holds_entry [OF h] by metis
    then show ?thesis using that probe [of n] True d by (simp add: key_at_def)
  next
    case False
    obtain n where n: "n < REVERSE_MAP_SIZE" "key_at rm (HASH k) n = 0" "\<forall>i < n. key_at rm (HASH k) i \<noteq> 0"
      by (rule free_rslot [OF len le_less_trans [OF num few]])
    have "key_at rm (HASH k) i \<noteq> k" for i using rm_holds_key [OF h, of "HASH k" i] k False by metis
    then show ?thesis using that probe [of n] n False by (simp add: key_at_def)
  qed
qed

section \<open>Realization\<close>

definition good_map :: "nat list \<Rightarrow> bool" where
  "good_map m \<longleftrightarrow> length m = 128 \<and> list_all (\<lambda>ch. 128 \<le> ch) m \<and> distinct (filter (\<lambda>ch. ch \<noteq> 0xfffd) m)"

definition realized :: "nat list \<Rightarrow> bool" where
  "realized data = (case realize_loop data (- 1) [] of Inl _ \<Rightarrow> False | Inr m \<Rightarrow> good_map m)"

text \<open>
  To evaluate the descriptions: the entries without an accumulator, and merging of ascending
  runs, which finds duplicates.
\<close>

fun gen_run :: "nat \<Rightarrow> (nat \<Rightarrow> int \<Rightarrow> int) \<Rightarrow> int \<Rightarrow> nat \<Rightarrow> nat list" where
  "gen_run 0 f prev j = []"
| "gen_run (Suc n) f prev j = nat (f j (prev + 1) mod 65536) # gen_run n f (prev + 1) (Suc j)"

fun gen :: "nat list \<Rightarrow> int \<Rightarrow> nat \<Rightarrow> nat list option" where
  "gen [] prev j = None"
| "gen (d # ds) prev j =
     (if d = 255 then Some []
      else if d < 128 then
        let prev = prev + (int d - 63)
        in if j < 128 then map_option ((#) (nat (prev mod 65536))) (gen ds prev (j + 1)) else None
      else
        case ds of
          [] \<Rightarrow> None
        | n # ds \<Rightarrow>
            if d < 252 then
              let prev = int (push_bit 8 (d - 128) OR n)
              in if j < 128 then map_option ((#) (nat (prev mod 65536))) (gen ds prev (j + 1)) else None
            else if j + n \<le> 128 then
              if d = 252 then map_option ((@) (gen_run n (\<lambda>_ p. p) prev j)) (gen ds (prev + int n) (j + n))
              else if d = 253 then map_option ((@) (gen_run n (\<lambda>j _. int j + 128) prev j)) (gen ds prev (j + n))
              else map_option ((@) (gen_run n (\<lambda>_ _. 0xfffd) prev j)) (gen ds prev (j + n))
            else None)"

lemma map_run_gen: "length acc + n \<le> 128 \<Longrightarrow> map_run n f prev acc = Inr (acc @ gen_run n f prev (length acc))"
  by (induction n f prev acc rule: map_run.induct) (simp_all add: map_put_def bindE_def)

lemma length_gen_run [simp]: "length (gen_run n f prev j) = n"
  by (induction n f prev j rule: gen_run.induct) simp_all

lemma realize_gen: "gen ds prev (length acc) = Some m \<Longrightarrow> realize_loop ds prev acc = Inr (acc @ m)"
proof (induction ds prev acc arbitrary: m rule: realize_loop.induct)
  case (2 d ds prev acc)
  then show ?case
    by (auto simp: map_put_def bindE_def map_run_gen Let_def split: if_splits list.splits)
qed simp

fun merge :: "nat list \<Rightarrow> nat list \<Rightarrow> nat list option" where
  "merge [] ys = Some ys"
| "merge (x # xs) [] = Some (x # xs)"
| "merge (x # xs) (y # ys) =
     (if x < y then map_option ((#) x) (merge xs (y # ys))
      else if y < x then map_option ((#) y) (merge (x # xs) ys) else None)"

fun runs :: "nat list \<Rightarrow> nat list list" where
  "runs [] = []"
| "runs [x] = [[x]]"
| "runs (x # y # ys) =
     (if x < y then (case runs (y # ys) of [] \<Rightarrow> [[x]] | r # rs \<Rightarrow> (x # r) # rs) else [x] # runs (y # ys))"

fun merge_pairs :: "nat list list \<Rightarrow> nat list list option" where
  "merge_pairs (xs # ys # zss) =
     (case merge xs ys of None \<Rightarrow> None | Some m \<Rightarrow> map_option ((#) m) (merge_pairs zss))"
| "merge_pairs xss = Some xss"

text \<open>Eight rounds of merging leave one list of at most 256 runs.\<close>

fun no_dups :: "nat \<Rightarrow> nat list list \<Rightarrow> bool" where
  "no_dups 0 xss = (length xss \<le> 1)"
| "no_dups (Suc n) xss = (length xss \<le> 1 \<or> (case merge_pairs xss of None \<Rightarrow> False | Some yss \<Rightarrow> no_dups n yss))"

lemma merge_ok:
  "merge xs ys = Some zs \<Longrightarrow> sorted_wrt (<) xs \<Longrightarrow> sorted_wrt (<) ys \<Longrightarrow> sorted_wrt (<) zs \<and> mset zs = mset xs + mset ys"
proof (induction xs ys arbitrary: zs rule: merge.induct)
  case (3 x xs y ys)
  consider (left) m where "x < y" "merge xs (y # ys) = Some m" "zs = x # m"
    | (right) m where "y < x" "merge (x # xs) ys = Some m" "zs = y # m"
    using "3.prems"(1) by (auto split: if_splits)
  then show ?case
  proof cases
    case left
    then have m: "sorted_wrt (<) m" "mset m = mset xs + mset (y # ys)" using "3.IH"(1) "3.prems" by auto
    have "set m = set xs \<union> set (y # ys)" using m(2) by (metis set_mset_mset set_mset_union)
    then show ?thesis using left m "3.prems" by auto
  next
    case right
    then have m: "sorted_wrt (<) m" "mset m = mset (x # xs) + mset ys" using "3.IH"(2) "3.prems" by auto
    have "set m = set (x # xs) \<union> set ys" using m(2) by (metis set_mset_mset set_mset_union)
    then show ?thesis using right m "3.prems" by auto
  qed
qed auto

lemma runs_ok: "concat (runs xs) = xs \<and> (\<forall>r \<in> set (runs xs). r \<noteq> [] \<and> sorted_wrt (<) r)"
proof (induction xs rule: runs.induct)
  case (3 x y ys)
  show ?case
  proof (cases "runs (y # ys)")
    case (Cons r rs)
    then have r: "concat (r # rs) = y # ys" "r \<noteq> []" "sorted_wrt (<) r" using "3.IH" by (cases "x < y"; auto)+
    then obtain r' where "r = y # r'" by (cases r) auto
    then show ?thesis using "3.IH" r Cons by (auto split: if_splits)
  qed (use "3.IH" in \<open>auto split: if_splits\<close>)
qed auto

lemma merge_pairs_ok:
  "merge_pairs xss = Some yss \<Longrightarrow> list_all (sorted_wrt (<)) xss \<Longrightarrow>
   list_all (sorted_wrt (<)) yss \<and> mset (concat yss) = mset (concat xss)"
proof (induction xss arbitrary: yss rule: merge_pairs.induct)
  case (1 xs ys zss)
  then obtain m us where "merge xs ys = Some m" "merge_pairs zss = Some us" "yss = m # us"
    by (auto split: option.splits)
  then show ?case using 1 merge_ok by auto
qed auto

lemma one_run: "length xss \<le> 1 \<Longrightarrow> list_all (sorted_wrt (<)) xss \<Longrightarrow> distinct (concat xss)" for xss :: "nat list list"
  by (cases xss) (auto simp: strict_sorted_iff)

lemma no_dups_distinct: "no_dups n xss \<Longrightarrow> list_all (sorted_wrt (<)) xss \<Longrightarrow> distinct (concat xss)"
proof (induction n arbitrary: xss)
  case (Suc n)
  show ?case
  proof (cases "length xss \<le> 1")
    case False
    then obtain yss where y: "merge_pairs xss = Some yss" "no_dups n yss" using Suc.prems(1) by (auto split: option.splits)
    then have "distinct (concat yss)" "mset (concat yss) = mset (concat xss)" using merge_pairs_ok Suc by blast+
    then show ?thesis by (metis mset_eq_imp_distinct_iff)
  qed (use Suc.prems one_run in blast)
qed (simp add: one_run)

definition checked :: "nat list \<Rightarrow> bool" where
  "checked data = (case gen data (- 1) 0 of None \<Rightarrow> False
     | Some m \<Rightarrow> length m = 128 \<and> list_all (\<lambda>ch. 128 \<le> ch) m \<and> no_dups 8 (runs (filter (\<lambda>ch. ch \<noteq> 0xfffd) m)))"

lemma checked_realized: assumes "checked data" shows "realized data"
proof -
  obtain m where m: "gen data (- 1) (length ([] :: nat list)) = Some m" "length m = 128" "list_all (\<lambda>ch. 128 \<le> ch) m"
    "no_dups 8 (runs (filter (\<lambda>ch. ch \<noteq> 0xfffd) m))"
    using assms by (auto simp: checked_def split: option.splits)
  have "distinct (filter (\<lambda>ch. ch \<noteq> 0xfffd) m)"
    using no_dups_distinct [OF m(4)] runs_ok [of "filter (\<lambda>ch. ch \<noteq> 0xfffd) m"] by (simp add: list_all_iff)
  with realize_gen [OF m(1)] m(2,3) show ?thesis by (simp add: realized_def good_map_def)
qed

lemma numeral_eq_Suc_8: "no_dups 8 = no_dups (Suc (Suc (Suc (Suc (Suc (Suc (Suc (Suc 0))))))))"
  by (simp add: eval_nat_numeral)

lemma gen_run_eval: "gen_run n f prev j = (if n = 0 then [] else nat (f j (prev + 1) mod 65536) # gen_run (n - 1) f (prev + 1) (Suc j))"
  by (cases n) simp_all

lemma checked_1: "checked Iso8859_2" "checked Iso8859_3" "checked Iso8859_4" "checked Iso8859_5"
  by (simp_all add: codec_tables checked_def gen_run_eval Let_def numeral_eq_Suc_8 del: gen_run.simps)

lemma checked_2: "checked Iso8859_6" "checked Iso8859_7" "checked Iso8859_8" "checked Iso8859_9"
  by (simp_all add: codec_tables checked_def gen_run_eval Let_def numeral_eq_Suc_8 del: gen_run.simps)

lemma checked_3: "checked Iso8859_10" "checked Iso8859_11" "checked Iso8859_13" "checked Iso8859_14"
  by (simp_all add: codec_tables checked_def gen_run_eval Let_def numeral_eq_Suc_8 del: gen_run.simps)

lemma checked_4: "checked Iso8859_15" "checked Iso8859_16" "checked Ascii" "checked Cp437"
  by (simp_all add: codec_tables checked_def gen_run_eval Let_def numeral_eq_Suc_8 del: gen_run.simps)

lemma checked_5: "checked Cp850" "checked Windows1250" "checked Windows1251" "checked Windows1252"
  by (simp_all add: codec_tables checked_def gen_run_eval Let_def numeral_eq_Suc_8 del: gen_run.simps)

lemma checked_6: "checked Koi8R" "checked Koi8U"
  by (simp_all add: codec_tables checked_def gen_run_eval Let_def numeral_eq_Suc_8 del: gen_run.simps)

lemma all_realized: assumes "i < length ACodecInfo" shows "realized (ACodecInfo ! i)"
proof -
  have "list_all checked ACodecInfo"
    by (simp add: ACodecInfo_def checked_1 checked_2 checked_3 checked_4 checked_5 checked_6)
  then show ?thesis using assms checked_realized by (simp add: list_all_length)
qed

text \<open>The entries of the hash table, and what a realized codec is.\<close>

definition entries :: "nat \<Rightarrow> nat list \<Rightarrow> (nat \<times> nat) set" where
  "entries i m = {(m ! k, i + k + 128) | k. k < length m \<and> m ! k \<noteq> 0xfffd}"

lemma entries_Nil: "entries i [] = {}"
  by (simp add: entries_def)

lemma entries_Cons: "entries i (ch # m) = (if ch = 0xfffd then {} else {(ch, i + 128)}) \<union> entries (Suc i) m"
proof -
  have "{(f k, g k) | k. k < Suc n \<and> P k} = (if P 0 then {(f 0, g 0)} else {}) \<union> {(f (Suc k), g (Suc k)) | k. k < n \<and> P (Suc k)}"
    for f g :: "nat \<Rightarrow> nat" and n P
  proof -
    have "k < Suc n \<longleftrightarrow> k = 0 \<or> (\<exists>k'. k = Suc k' \<and> k' < n)" for k by (cases k) auto
    then show ?thesis by auto
  qed
  from this [of "(!) (ch # m)" "\<lambda>k. i + k + 128" "length m" "\<lambda>k. (ch # m) ! k \<noteq> 0xfffd"] show ?thesis
    by (simp add: entries_def)
qed

lemma entries_keys: "fst ` entries i m = set (filter (\<lambda>ch. ch \<noteq> 0xfffd) m)"
  by (induction m arbitrary: i) (auto simp: entries_Nil entries_Cons)

lemma distinct_filter_nth:
  assumes "distinct (filter P m)" "j < length m" "k < length m" "m ! j = m ! k" "P (m ! k)" shows "j = k"
  using assms
proof (induction m arbitrary: j k)
  case (Cons x m)
  have IH: "j' = k'" if "j' < length m" "k' < length m" "m ! j' = m ! k'" "P (m ! k')" for j' k'
    using that Cons.prems(1) by (intro Cons.IH) (auto split: if_splits)
  have notin: "x \<noteq> m ! k'" if "k' < length m" "P x" for k' using that Cons.prems(1) by (auto dest: nth_mem)
  show ?case using Cons.prems IH notin by (cases j; cases k) (auto split: if_splits)
qed simp

lemma reverse_loop_ok:
  assumes "rm_holds rm es" "length es + length m < REVERSE_MAP_SIZE" "0 \<notin> set m"
    "distinct (filter (\<lambda>ch. ch \<noteq> 0xfffd) m)" "fst ` set es \<inter> set (filter (\<lambda>ch. ch \<noteq> 0xfffd) m) = {}"
  shows "\<exists>rm' es'. reverse_loop i m rm = Inr rm' \<and> rm_holds rm' es' \<and> set es' = set es \<union> entries i m \<and> length es' < REVERSE_MAP_SIZE"
  using assms
proof (induction m arbitrary: i rm es)
  case Nil
  then show ?case by (auto simp: entries_Nil)
next
  case (Cons ch m)
  show ?case
  proof (cases "ch = 0xfffd")
    case True
    then show ?thesis using Cons.IH [OF Cons.prems(1), of "Suc i"] Cons.prems by (auto simp: entries_Cons)
  next
    case False
    have k: "ch \<noteq> 0" "ch \<notin> fst ` set es" "length es < REVERSE_MAP_SIZE" using Cons.prems False by auto
    obtain j where j: "rprobe REVERSE_MAP_SIZE (\<lambda>src. src = 0) rm (HASH ch mod REVERSE_MAP_SIZE) = Inr j"
      "rm_holds (rm[j := (ch, i + 128)]) ((ch, i + 128) # es)"
      by (rule rm_holds_insert [OF Cons.prems(1) k(3,1,2)])
    have "\<exists>rm' es'. reverse_loop (Suc i) m (rm[j := (ch, i + 128)]) = Inr rm' \<and> rm_holds rm' es' \<and>
        set es' = set ((ch, i + 128) # es) \<union> entries (Suc i) m \<and> length es' < REVERSE_MAP_SIZE"
      using Cons.prems False by (intro Cons.IH [OF j(2)]) auto
    then show ?thesis using j(1) False by (auto simp: bindE_def entries_Cons)
  qed
qed

definition info_ok :: "nat \<Rightarrow> codec_info \<Rightarrow> bool" where
  "info_ok codec info \<longleftrightarrow> realize_loop (ACodecInfo ! codec) (- 1) [] = Inr (cmap info) \<and> good_map (cmap info) \<and>
     (\<exists>es. rm_holds (reverseMap info) es \<and> set es = entries 0 (cmap info) \<and> length es < REVERSE_MAP_SIZE)"

definition codecs_ok :: "codecs \<Rightarrow> bool" where
  "codecs_ok cs \<longleftrightarrow> length cs = length ACodecInfo \<and>
     (\<forall>i < length cs. \<forall>info. cs ! i = Some info \<longrightarrow> info_ok i info)"

lemma RealizeCodec_ok:
  assumes cs: "codecs_ok cs" and i: "i < length cs"
  shows "case RealizeCodec i cs t of
           (Inl e, cs', t') \<Rightarrow> e = MemoryError \<and> AllocFail \<in> set (allocs t) \<and> cs' = cs \<and> set (allocs t') \<subseteq> set (allocs t)
         | (Inr _, cs', t') \<Rightarrow> codecs_ok cs' \<and> (\<exists>info. cs' ! i = Some info) \<and> set (allocs t') \<subseteq> set (allocs t)"
proof -
  have i': "i < length ACodecInfo" using cs i by (simp add: codecs_ok_def)
  obtain m where m: "realize_loop (ACodecInfo ! i) (- 1) [] = Inr m" "good_map m"
    using all_realized [OF i'] by (auto simp: realized_def split: sum.splits)
  have "rm_holds (replicate REVERSE_MAP_SIZE (0, 0)) []" by (simp add: rm_holds_def)
  moreover have "0 \<notin> set m" "length m = 128" "distinct (filter (\<lambda>ch. ch \<noteq> 0xfffd) m)" using m(2) by (auto simp: good_map_def list_all_iff)
  ultimately obtain rm es where rm: "reverse_loop 0 m (replicate REVERSE_MAP_SIZE (0, 0)) = Inr rm" "rm_holds rm es"
    "set es = entries 0 m" "length es < REVERSE_MAP_SIZE"
    using reverse_loop_ok [of "replicate REVERSE_MAP_SIZE (0, 0)" "[]" m 0] by (auto simp: REVERSE_MAP_SIZE_def)
  let ?info = "\<lparr>cmap = m, reverseMap = rm\<rparr>"
  have ok: "codecs_ok (cs[i := Some ?info])"
    using cs i m rm by (auto simp: codecs_ok_def info_ok_def nth_list_update)
  have "drop 128 (take 128 (map (\<lambda>d. unat d mod 65536) junk @ replicate 128 0)) = []" for junk :: "digit list" by simp
  then show ?thesis
    using ok i i' m rm(1) \<open>length m = 128\<close>
    by (auto simp: RealizeCodec_def next_alloc_def bindE_def Let_def split: list.splits alloc.splits)
qed

section \<open>Encoding and decoding\<close>

text \<open>The characters of a table: the direct mapping below 128, and its entries.\<close>

definition table_char :: "nat list \<Rightarrow> nat \<Rightarrow> nat \<Rightarrow> bool" where
  "table_char m b ch \<longleftrightarrow> (if b \<le> 0x7f then ch = b else b \<le> 0xff \<and> ch = m ! (b - 128) \<and> ch \<noteq> 0xfffd)"

lemma decode8_iff:
  "decode8_loop info True s = Inr w \<longleftrightarrow> list_all2 (table_char (cmap info)) s w"
proof (induction s arbitrary: w)
  case (Cons b s)
  let ?c = "if b \<le> 0x7f then Inr b
            else if b \<le> 0xff \<and> cmap info ! (b - 128) \<noteq> 0xfffd then Inr (cmap info ! (b - 128))
            else if True then Inl DecodeError else Inr 0xfffd"
  have c: "?c = Inr ch \<longleftrightarrow> table_char (cmap info) b ch" for ch by (auto simp: table_char_def)
  have "decode8_loop info True (b # s) = Inr w \<longleftrightarrow> (\<exists>ch t. ?c = Inr ch \<and> decode8_loop info True s = Inr t \<and> w = ch # t)"
    unfolding decode8_loop.simps by (cases ?c; cases "decode8_loop info True s") (auto simp only: bindE_def sum.case)
  then show ?case unfolding c Cons.IH by (auto simp: list_all2_Cons1)
qed auto

lemma encode8_char:
  assumes ok: "info_ok i info"
  shows "(if ch \<le> 0x7f then Inr ch
          else bindE (rprobe REVERSE_MAP_SIZE (\<lambda>src. src = ch \<or> src = 0) (reverseMap info) (HASH ch mod REVERSE_MAP_SIZE))
            (\<lambda>j. if fst (reverseMap info ! j) \<noteq> 0 then Inr (snd (reverseMap info ! j) mod 256)
                 else if True then Inl EncodeError else Inr 0x3f)) = Inr b \<longleftrightarrow> table_char (cmap info) b ch"
proof (cases "ch \<le> 0x7f")
  case True
  have "128 \<le> cmap info ! k" if "k < 128" for k using ok that by (auto simp: info_ok_def good_map_def list_all_length)
  then have "128 \<le> cmap info ! (b - 128)" if "b \<le> 0xff" "\<not> b \<le> 0x7f" using that by simp
  then show ?thesis using True by (auto simp: table_char_def)
next
  case False
  let ?m = "cmap info" and ?rm = "reverseMap info"
  obtain es where es: "rm_holds ?rm es" "set es = entries 0 ?m" "length es < REVERSE_MAP_SIZE" and m: "good_map ?m"
    using ok by (auto simp: info_ok_def)
  have "ch \<noteq> 0" using False by simp
  then obtain j where j: "rprobe REVERSE_MAP_SIZE (\<lambda>src. src = ch \<or> src = 0) ?rm (HASH ch mod REVERSE_MAP_SIZE) = Inr j"
    "if ch \<in> fst ` set es then ?rm ! j \<in> set es \<and> fst (?rm ! j) = ch else fst (?rm ! j) = 0"
    by (rule rm_holds_find [OF es(1,3)])
  have iff: "table_char ?m b ch \<longleftrightarrow> (ch, b) \<in> entries 0 ?m"
  proof -
    have "b \<le> 0x7f \<Longrightarrow> ch \<noteq> b" using False by simp
    then have "table_char ?m b ch \<longleftrightarrow> (\<exists>k < 128. b = k + 128 \<and> ch = ?m ! k \<and> ch \<noteq> 0xfffd)"
      by (auto simp: table_char_def intro!: exI [of _ "b - 128"])
    then show ?thesis using m by (auto simp: entries_def good_map_def)
  qed
  have inj: "b1 = b2" if "(ch, b1) \<in> entries 0 ?m" "(ch, b2) \<in> entries 0 ?m" for b1 b2
    using that m by (auto simp: entries_def good_map_def dest: distinct_filter_nth)
  show ?thesis
  proof (cases "ch \<in> fst ` set es")
    case True
    then have e: "?rm ! j \<in> entries 0 ?m" "fst (?rm ! j) = ch" using j(2) es(2) by auto
    then have "(ch, snd (?rm ! j)) \<in> entries 0 ?m" by (metis prod.collapse)
    moreover from this have "snd (?rm ! j) < 256" using m by (auto simp: entries_def good_map_def)
    ultimately show ?thesis using j(1) e(2) \<open>ch \<noteq> 0\<close> False inj by (auto simp: iff bindE_def)
  next
    case no: False
    then have "(ch, b) \<notin> entries 0 ?m" using es(2) by force
    then show ?thesis using j no False by (simp add: iff bindE_def)
  qed
qed

lemma encode8_iff:
  assumes "info_ok i info"
  shows "encode8_loop info True w = Inr s \<longleftrightarrow> list_all2 (table_char (cmap info)) s w"
proof (induction w arbitrary: s)
  case (Cons ch w)
  let ?c = "if ch \<le> 0x7f then Inr ch
          else bindE (rprobe REVERSE_MAP_SIZE (\<lambda>src. src = ch \<or> src = 0) (reverseMap info) (HASH ch mod REVERSE_MAP_SIZE))
            (\<lambda>j. if fst (reverseMap info ! j) \<noteq> 0 then Inr (snd (reverseMap info ! j) mod 256)
                 else if True then Inl EncodeError else Inr 0x3f)"
  have "encode8_loop info True (ch # w) = Inr s \<longleftrightarrow> (\<exists>b bs. ?c = Inr b \<and> encode8_loop info True w = Inr bs \<and> s = b # bs)"
    unfolding encode8_loop.simps by (cases ?c; cases "encode8_loop info True w") (auto simp only: bindE_def sum.case)
  also have "\<dots> \<longleftrightarrow> (\<exists>b bs. table_char (cmap info) b ch \<and> list_all2 (table_char (cmap info)) bs w \<and> s = b # bs)"
    by (simp only: encode8_char [OF assms] Cons.IH)
  finally show ?case by (auto simp: list_all2_Cons2)
qed auto

end
