(* ===== verification/Eight_Bit_Props.thy ===== *)
theory Eight_Bit_Props
  imports Eight_Bit_Lemmas
begin

text \<open>The property of the 8-bit codecs: encoding and decoding are inverse.\<close>

lemma decode8_error: "decode8_loop info True s = Inl e \<Longrightarrow> e = DecodeError"
proof (induction s)
  case (Cons b s)
  then show ?case by (cases "decode8_loop info True s") (auto simp: bindE_def split: if_splits)
qed simp

lemma encode8_error:
  assumes ok: "info_ok i info" shows "encode8_loop info True w = Inl e \<Longrightarrow> e = EncodeError"
proof (induction w)
  case (Cons ch w)
  obtain es where es: "rm_holds (reverseMap info) es" "length es < REVERSE_MAP_SIZE" using ok by (auto simp: info_ok_def)
  have "\<exists>j. rprobe REVERSE_MAP_SIZE (\<lambda>src. src = ch \<or> src = 0) (reverseMap info) (HASH ch mod REVERSE_MAP_SIZE) = Inr j" if "ch \<noteq> 0"
    using rm_holds_find [OF es that] by metis
  then show ?case using Cons by (cases "encode8_loop info True w") (auto simp: bindE_def split: if_splits)
qed simp

text \<open>A codec that is used is realized first, unless memory runs out.\<close>

lemma with_codec_cases:
  assumes cs: "codecs_ok cs" and i: "i < length cs"
  obtains (memory) cs' t' where "with_codec i f cs t = (Inl MemoryError, cs', t')" "codecs_ok cs'" "AllocFail \<in> set (allocs t)"
  | (ready) info cs' t' where "with_codec i f cs t = f info cs' t'" "codecs_ok cs'" "info_ok i info" "set (allocs t') \<subseteq> set (allocs t)"
proof (cases "cs ! i")
  case None
  obtain r cs' t' where r: "RealizeCodec i cs t = (r, cs', t')" by (metis prod_cases3)
  note ok = RealizeCodec_ok [OF cs i, of t, unfolded r prod.case]
  have wc: "with_codec i f cs t = (case (r, cs', t') of (Inl e, cs, t) \<Rightarrow> (Inl e, cs, t)
      | (Inr _, cs, t) \<Rightarrow> (case cs ! i of None \<Rightarrow> (Inl UndefinedBehaviour, cs, t) | Some info \<Rightarrow> f info cs t))"
    using None r by (simp add: with_codec_def)
  show ?thesis
  proof (cases r)
    case (Inl e)
    then show ?thesis using ok wc cs memory by simp
  next
    case (Inr u)
    then obtain info where "codecs_ok cs'" "cs' ! i = Some info" "set (allocs t') \<subseteq> set (allocs t)" using ok by auto
    moreover from this have "info_ok i info" using cs i by (auto simp: codecs_ok_def)
    ultimately show ?thesis using ready wc Inr by simp
  qed
next
  case (Some info)
  then have "info_ok i info" using cs i by (simp add: codecs_ok_def)
  with Some ready cs show ?thesis by (simp add: with_codec_def)
qed

definition table_of :: "nat \<Rightarrow> nat list" where
  "table_of i = (case realize_loop (ACodecInfo ! i) (- 1) [] of Inl _ \<Rightarrow> [] | Inr m \<Rightarrow> m)"

lemma next_alloc_cases:
  obtains (fail) t' where "next_alloc t = (Inl MemoryError, t')" "AllocFail \<in> set (allocs t)"
  | (block) x t' where "next_alloc t = (Inr x, t')"
  by (cases "allocs t"; cases "hd (allocs t)") (auto simp: next_alloc_def)

text \<open>A call in strict mode: what it returns is related to its argument by the table of the codec.\<close>

lemma strict_call:
  assumes cs: "codecs_ok cs" "slot_encoding c < length cs" and m: "slot_mode c = MODE_STRICT"
  shows "codecs_ok (fst (snd (EightBitCodecDecode c s cs t)))" "codecs_ok (fst (snd (EightBitCodecEncode c w cs t)))"
    "fst (EightBitCodecDecode c s cs t) = Inl MemoryError \<and> AllocFail \<in> set (allocs t) \<or>
     (\<forall>w. fst (EightBitCodecDecode c s cs t) = Inr w \<longleftrightarrow> list_all2 (table_char (table_of (slot_encoding c))) s w) \<and>
     (\<forall>e. fst (EightBitCodecDecode c s cs t) = Inl e \<longrightarrow> e = DecodeError)"
    "fst (EightBitCodecEncode c w cs t) = Inl MemoryError \<and> AllocFail \<in> set (allocs t) \<or>
     (\<forall>s. fst (EightBitCodecEncode c w cs t) = Inr s \<longleftrightarrow> list_all2 (table_char (table_of (slot_encoding c))) s w) \<and>
     (\<forall>e. fst (EightBitCodecEncode c w cs t) = Inl e \<longrightarrow> e = EncodeError)"
proof -
  let ?i = "slot_encoding c"
  let ?d = "\<lambda>info cs t. case next_alloc t of (Inl e, t) \<Rightarrow> (Inl e, cs, t) | (Inr _, t) \<Rightarrow> (decode8_loop info True s, cs, t)"
  let ?e = "\<lambda>info cs t. case next_alloc t of (Inl e, t) \<Rightarrow> (Inl e, cs, t) | (Inr _, t) \<Rightarrow> (encode8_loop info True w, cs, t)"
  have tab: "cmap info = table_of ?i" if "info_ok ?i info" for info using that by (simp add: info_ok_def table_of_def)
  have d: "EightBitCodecDecode c s cs t = with_codec ?i ?d cs t" and e: "EightBitCodecEncode c w cs t = with_codec ?i ?e cs t"
    unfolding EightBitCodecDecode_def EightBitCodecEncode_def eqTrueI [OF m] by (rule refl)+
  show "codecs_ok (fst (snd (EightBitCodecDecode c s cs t)))"
    unfolding d by (rule with_codec_cases [OF cs, of ?d t]) (auto split: prod.splits sum.splits)
  show "codecs_ok (fst (snd (EightBitCodecEncode c w cs t)))"
    unfolding e by (rule with_codec_cases [OF cs, of ?e t]) (auto split: prod.splits sum.splits)
  show "fst (EightBitCodecDecode c s cs t) = Inl MemoryError \<and> AllocFail \<in> set (allocs t) \<or>
     (\<forall>w. fst (EightBitCodecDecode c s cs t) = Inr w \<longleftrightarrow> list_all2 (table_char (table_of ?i)) s w) \<and>
     (\<forall>e. fst (EightBitCodecDecode c s cs t) = Inl e \<longrightarrow> e = DecodeError)"
  proof (cases rule: with_codec_cases [OF cs, of ?d t, case_names memory ready])
    case (ready info cs' t')
    then show ?thesis unfolding d
      by (cases t' rule: next_alloc_cases) (auto simp: decode8_iff tab dest: decode8_error)
  qed (simp add: d)
  show "fst (EightBitCodecEncode c w cs t) = Inl MemoryError \<and> AllocFail \<in> set (allocs t) \<or>
     (\<forall>s. fst (EightBitCodecEncode c w cs t) = Inr s \<longleftrightarrow> list_all2 (table_char (table_of ?i)) s w) \<and>
     (\<forall>e. fst (EightBitCodecEncode c w cs t) = Inl e \<longrightarrow> e = EncodeError)"
  proof (cases rule: with_codec_cases [OF cs, of ?e t, case_names memory ready])
    case (ready info cs' t')
    then show ?thesis unfolding e
      by (cases t' rule: next_alloc_cases) (auto simp: encode8_iff tab dest: encode8_error)
  qed (simp add: e)
qed

text \<open>
  C34: Every 8-bit codec of the program is a bijection between the byte strings it decodes and the
  strings it encodes: in strict mode, decoding a string and encoding the result gives the string
  back, and the other way round, whichever codecs were realized before.  A call that does not
  return raises DecodeError or EncodeError, or runs out of memory.
\<close>

theorem eight_bit_roundtrip:
  assumes "codecs_ok cs" and "slot_encoding c < length cs" and "slot_mode c = MODE_STRICT"
  shows "(case EightBitCodecDecode c s cs t of
            (Inr w, cs', t') \<Rightarrow> codecs_ok cs' \<and>
              fst (EightBitCodecEncode c w cs' u) \<in> {Inr s} \<union> (if AllocFail \<in> set (allocs u) then {Inl MemoryError} else {})
          | (Inl e, cs', t') \<Rightarrow> codecs_ok cs' \<and> (e = DecodeError \<or> e = MemoryError \<and> AllocFail \<in> set (allocs t))) \<and>
         (case EightBitCodecEncode c s cs t of
            (Inr b, cs', t') \<Rightarrow> codecs_ok cs' \<and>
              fst (EightBitCodecDecode c b cs' u) \<in> {Inr s} \<union> (if AllocFail \<in> set (allocs u) then {Inl MemoryError} else {})
          | (Inl e, cs', t') \<Rightarrow> codecs_ok cs' \<and> (e = EncodeError \<or> e = MemoryError \<and> AllocFail \<in> set (allocs t)))"
proof -
  note len = assms(2)
  have keep: "slot_encoding c < length cs'" if "codecs_ok cs'" for cs' using that assms by (simp add: codecs_ok_def)
  note call = strict_call [OF assms(1,2,3)]
  obtain r cs1 t1 where d: "EightBitCodecDecode c s cs t = (r, cs1, t1)" by (metis prod_cases3)
  obtain q cs2 t2 where e: "EightBitCodecEncode c s cs t = (q, cs2, t2)" by (metis prod_cases3)
  have ok: "codecs_ok cs1" "codecs_ok cs2" using call(1) [of s t] call(2) [of s t] d e by simp_all
  note next1 = strict_call(4) [OF ok(1) keep [OF ok(1)] assms(3)]
  note next2 = strict_call(3) [OF ok(2) keep [OF ok(2)] assms(3)]
  have "codecs_ok cs1 \<and> (case r of Inr w \<Rightarrow>
              fst (EightBitCodecEncode c w cs1 u) \<in> {Inr s} \<union> (if AllocFail \<in> set (allocs u) then {Inl MemoryError} else {})
          | Inl e \<Rightarrow> e = DecodeError \<or> e = MemoryError \<and> AllocFail \<in> set (allocs t))"
    using ok(1) call(3) [of s t] next1 [of _ u] d by (cases r) auto
  moreover have "codecs_ok cs2 \<and> (case q of Inr b \<Rightarrow>
              fst (EightBitCodecDecode c b cs2 u) \<in> {Inr s} \<union> (if AllocFail \<in> set (allocs u) then {Inl MemoryError} else {})
          | Inl e \<Rightarrow> e = EncodeError \<or> e = MemoryError \<and> AllocFail \<in> set (allocs t))"
    using ok(2) call(4) [of s t] next2 [of _ u] e by (cases q) auto
  ultimately show ?thesis unfolding d e by (auto split: sum.splits)
qed

text \<open>At start-up no codec is realized.\<close>

lemma codecs_ok_start: "codecs_ok (replicate 22 None)"
  by (simp add: codecs_ok_def ACodecInfo_def)

definition latin9 :: codec where
  "latin9 = \<lparr>slot_mode = MODE_STRICT, slot_encoding = 12, enc_buf = replicate 8 0\<rparr>"

theorem eight_bit_roundtrip_witness:
  "case EightBitCodecDecode latin9 [0x41, 0xa4] (replicate 22 None) \<lparr>allocs = [], tempStackPtr = 0\<rparr> of
     (Inr w, cs', t') \<Rightarrow> codecs_ok cs' \<and>
       fst (EightBitCodecEncode latin9 w cs' \<lparr>allocs = [], tempStackPtr = 0\<rparr>) \<in> {Inr [0x41, 0xa4]} \<union>
         (if AllocFail \<in> set (allocs \<lparr>allocs = [], tempStackPtr = 0\<rparr>) then {Inl MemoryError} else {})
   | (Inl e, cs', t') \<Rightarrow> codecs_ok cs' \<and> (e = DecodeError \<or>
       e = MemoryError \<and> AllocFail \<in> set (allocs \<lparr>allocs = [], tempStackPtr = 0\<rparr>))"
  by (rule eight_bit_roundtrip [OF codecs_ok_start, THEN conjunct1]) (simp_all add: latin9_def)

end
