(* ===== verification/Hash_Set.thy ===== *)
theory Hash_Set
  imports Map_Refine
begin

text \<open>
  The Set class of \<^verbatim>\<open>src/src/set_module.c\<close>.  A set object has the layout of a map object whose
  value cells all hold zero, and its code repeats the code of the Map class, so that the model
  shares the table operations; the value cells have the type \<open>unit\<close>.
\<close>

section \<open>Operations\<close>

type_synonym 'k aset = "('k, unit) amap"

definition SetInitialize :: "'k aset rt" where
  "SetInitialize = AMapInitialize ()"

definition ResizeSet :: "('k \<Rightarrow> ('k, unit, aerror option) map_op) \<Rightarrow> ('k, unit, unit) map_op" where
  "ResizeSet add = ResizeMap ''Set size overflow'' () (\<lambda>x _. add x)"

text \<open>Add and the resize operation call each other; the first argument bounds the nesting.\<close>

fun SetAdd_depth :: "nat \<Rightarrow> 'k keyops \<Rightarrow> 'k \<Rightarrow> ('k, unit, aerror option) map_op" where
  "SetAdd_depth 0 K obj = Map_set_body K (\<lambda>s t. (Inl NonTermination, s, t)) obj ()"
| "SetAdd_depth (Suc d) K obj = Map_set_body K (ResizeSet (SetAdd_depth d K)) obj ()"

definition SetAdd :: "'k keyops \<Rightarrow> 'k \<Rightarrow> ('k, unit, aerror option) map_op" where
  "SetAdd K obj = SetAdd_depth 1 K obj"

definition Set_in :: "'k keyops \<Rightarrow> 'k \<Rightarrow> 'k aset \<Rightarrow> aerror + bool" where
  "Set_in K obj s =
     (case find_slot K obj s of
        Failed e \<Rightarrow> Inl e
      | Returned e \<Rightarrow> Inl e
      | Found _ \<Rightarrow> Inr True
      | Free _ \<Rightarrow> Inr False)"

definition SetLength :: "'k aset \<Rightarrow> int" where
  "SetLength s = MAP_LEN s - MAP_NUM_REMOVED s"

definition SetRemove :: "'k keyops \<Rightarrow> 'k \<Rightarrow> ('k, unit, unit) map_op" where
  "SetRemove K obj s t =
     (case find_slot K obj s of
        Failed e \<Rightarrow> (Inl e, s, t)
      | Returned e \<Rightarrow> (Inl e, s, t)
      | Found i \<Rightarrow>
          then_op (set_cell i (RemovedMarker, ()))
            (\<lambda>_ s t. (Inr (), s\<lparr>MAP_NUM_REMOVED := MAP_NUM_REMOVED s + 1\<rparr>, t)) s t
      | Free _ \<Rightarrow> (Inr (), s, t))"

text \<open>
  The constructor with an array argument, or with an iterable whose iterator yields items
  and perhaps an exception.  The result of add is not looked at.
\<close>

fun SetCreate_loop :: "'k keyops \<Rightarrow> (aerror + 'k) list \<Rightarrow> ('k, unit, unit) map_op" where
  "SetCreate_loop K [] s t = (Inr (), s, t)"
| "SetCreate_loop K (Inl e # xs) s t = (Inl e, s, t)"
| "SetCreate_loop K (Inr x # xs) s t = then_op (SetAdd K x) (\<lambda>_. SetCreate_loop K xs) s t"

definition SetCreate :: "'k keyops \<Rightarrow> (aerror + 'k) list option \<Rightarrow> 'k aset rt" where
  "SetCreate K items =
     bindM SetInitialize
       (\<lambda>s t. case items of
                None \<Rightarrow> (Inr s, t)
              | Some xs \<Rightarrow> (case SetCreate_loop K xs s t of
                             (Inl e, _, t) \<Rightarrow> (Inl e, t) | (Inr _, s, t) \<Rightarrow> (Inr s, t)))"

text \<open>The copy: an error returned by add ends it.\<close>

fun SetCopy_loop :: "'k keyops \<Rightarrow> ('k slot \<times> unit) list \<Rightarrow> ('k, unit, unit) map_op" where
  "SetCopy_loop K [] s t = (Inr (), s, t)"
| "SetCopy_loop K ((Key x, _) # cs) s t =
     then_op (SetAdd K x) (\<lambda>r s t. case r of Some e \<Rightarrow> (Inl e, s, t) | None \<Rightarrow> SetCopy_loop K cs s t) s t"
| "SetCopy_loop K (_ # cs) s t = SetCopy_loop K cs s t"

definition SetCopy :: "'k keyops \<Rightarrow> 'k aset \<Rightarrow> 'k aset rt" where
  "SetCopy K s =
     bindM (SetCreate K None)
       (\<lambda>new t. if nat (MAP_SIZE s) > length (MAP_A s) then (Inl UndefinedBehaviour, t)
                else case SetCopy_loop K (take (nat (MAP_SIZE s)) (MAP_A s)) new t of
                       (Inl e, _, t) \<Rightarrow> (Inl e, t) | (Inr _, new, t) \<Rightarrow> (Inr new, t))"

section \<open>Iteration\<close>

definition SetIter :: "'k aset \<Rightarrow> ('k, unit) map_iter" where
  "SetIter s = AMapIter s"

definition SetIterHasNext :: "('k, unit) map_iter \<Rightarrow> bool \<times> ('k, unit) map_iter" where
  "SetIterHasNext it =
     (let i = iter_skip (ITER_A it) (ITER_LEN it) (ITER_I it)
      in (i + 1 < ITER_LEN it, it\<lparr>ITER_I := i\<rparr>))"

text \<open>\<^verbatim>\<open>next\<close> calls itself after skipping markers; the first argument bounds the nesting.\<close>

fun SetIterNext_depth :: "nat \<Rightarrow> ('k, unit) map_iter \<Rightarrow> (aerror + 'k) \<times> ('k, unit) map_iter" where
  "SetIterNext_depth 0 it = (Inl NonTermination, it)"
| "SetIterNext_depth (Suc d) it =
     (if ITER_I it + 1 < ITER_LEN it then
        (case fst (ITER_A it ! (ITER_I it div 2)) of
           Key k \<Rightarrow> (Inr k, it\<lparr>ITER_I := ITER_I it + 2\<rparr>)
         | _ \<Rightarrow> SetIterNext_depth d (snd (SetIterHasNext it)))
      else (Inl (ValueError ''No items left''), it))"

definition SetIterNext :: "('k, unit) map_iter \<Rightarrow> (aerror + 'k) \<times> ('k, unit) map_iter" where
  "SetIterNext = SetIterNext_depth 2"

text \<open>The items an iteration by \<^verbatim>\<open>ANext\<close> gets, at most \<open>n\<close> of them.\<close>

fun set_items :: "nat \<Rightarrow> ('k, unit) map_iter \<Rightarrow> 'k list" where
  "set_items 0 it = []"
| "set_items (Suc n) it =
     (case SetIterHasNext it of
        (False, it) \<Rightarrow> []
      | (True, it) \<Rightarrow> (case SetIterNext it of (Inr k, it) \<Rightarrow> k # set_items n it | (Inl _, _) \<Rightarrow> []))"

section \<open>Equality and hash value\<close>

fun Set_eq_loop :: "'k keyops \<Rightarrow> 'k aset \<Rightarrow> 'k list \<Rightarrow> aerror + bool" where
  "Set_eq_loop K s [] = Inr True"
| "Set_eq_loop K s (x # xs) =
     (case Set_in K x s of
        Inl e \<Rightarrow> Inl e
      | Inr False \<Rightarrow> Inr False
      | Inr True \<Rightarrow> Set_eq_loop K s xs)"

text \<open>Equality with another value: None stands for a value that is not a set.\<close>

definition Set_eq :: "'k keyops \<Rightarrow> 'k aset \<Rightarrow> 'k aset option \<Rightarrow> aerror + bool" where
  "Set_eq K s other =
     (case other of
        None \<Rightarrow> Inr False
      | Some obj \<Rightarrow>
          if SetLength obj \<noteq> SetLength s then Inr False
          else Set_eq_loop K s (set_items (Suc (length (MAP_A obj))) (SetIter obj)))"

fun Set_hash_loop :: "'k keyops \<Rightarrow> ('k slot \<times> unit) list \<Rightarrow> 64 word \<Rightarrow> aerror + 64 word" where
  "Set_hash_loop K [] hash = Inr hash"
| "Set_hash_loop K ((Key x, _) # cs) hash =
     (case khash K x of
        Inl e \<Rightarrow> Inl e
      | Inr h \<Rightarrow>
          (case HashToInt h of
             Inl e \<Rightarrow> Inl e
           | Inr i \<Rightarrow> Set_hash_loop K cs (hash XOR (i * (32768 + 512 + 32 + 1)))))"
| "Set_hash_loop K (_ # cs) hash = Set_hash_loop K cs hash"

text \<open>The final conversion takes a C int.\<close>

definition Set_hash :: "'k keyops \<Rightarrow> 'k aset \<Rightarrow> aerror + aint" where
  "Set_hash K s =
     (if nat (MAP_SIZE s) > length (MAP_A s) then Inl UndefinedBehaviour
      else case Set_hash_loop K (take (nat (MAP_SIZE s)) (MAP_A s)) 0 of
             Inl e \<Rightarrow> Inl e
           | Inr hash \<Rightarrow> Inr (AMakeInt (ucast hash)))"

section \<open>Sets refine finite sets\<close>

lemma SetAdd_depth_map: "SetAdd_depth d K obj = Map_set_depth d ''Set size overflow'' () K obj ()"
proof (induction d arbitrary: obj)
  case (Suc d)
  have "(\<lambda>x _. SetAdd_depth d K x) = Map_set_depth d ''Set size overflow'' () K"
    using Suc.IH by (auto simp: fun_eq_iff)
  then show ?case by (simp add: ResizeSet_def)
qed simp

lemma Set_in_map: "Set_in K obj s = AMapHasKey K obj s"
  by (simp add: Set_in_def AMapHasKey_def)

lemma SetRemove_map:
  "SetRemove K obj s t =
     (case AMapRemove K obj s t of (r, s', t') \<Rightarrow>
        (case find_slot K obj s of Free _ \<Rightarrow> Inr () | _ \<Rightarrow> r, s', t'))"
  by (auto simp: SetRemove_def AMapRemove_def split: probe_result.splits prod.splits)

datatype 'k set_cmd = CallAdd 'k | CallRemove 'k | CallIn 'k | CallLength

fun set_key :: "'k set_cmd \<Rightarrow> 'k option" where
  "set_key (CallAdd k) = Some k"
| "set_key (CallRemove k) = Some k"
| "set_key (CallIn k) = Some k"
| "set_key CallLength = None"

fun set_call :: "'k keyops \<Rightarrow> 'k set_cmd \<Rightarrow> 'k aset \<Rightarrow> athread \<Rightarrow> unit reply \<times> 'k aset \<times> athread" where
  "set_call K (CallAdd k) s t =
     (case SetAdd K k s t of (r, s, t) \<Rightarrow> (Done (method_result r), s, t))"
| "set_call K (CallRemove k) s t = (case SetRemove K k s t of (r, s, t) \<Rightarrow> (Done r, s, t))"
| "set_call K (CallIn k) s t = (Truth (Set_in K k s), s, t)"
| "set_call K CallLength s t = (Count (SetLength s), s, t)"

fun set_calls :: "'k keyops \<Rightarrow> 'k set_cmd list \<Rightarrow> 'k aset \<Rightarrow> athread \<Rightarrow> unit reply list" where
  "set_calls K [] s t = []"
| "set_calls K (c # cs) s t = (case set_call K c s t of (r, s, t) \<Rightarrow> r # set_calls K cs s t)"

text \<open>The same calls on a set of key identities.\<close>

fun spec_set_call :: "('k \<Rightarrow> 'i) \<Rightarrow> 'k set_cmd \<Rightarrow> 'i set \<Rightarrow> unit reply \<times> 'i set" where
  "spec_set_call kid (CallAdd k) S = (Done (Inr ()), insert (kid k) S)"
| "spec_set_call kid (CallRemove k) S = (Done (Inr ()), S - {kid k})"
| "spec_set_call kid (CallIn k) S = (Truth (Inr (kid k \<in> S)), S)"
| "spec_set_call kid CallLength S = (Count (int (card S)), S)"

fun spec_set_calls :: "('k \<Rightarrow> 'i) \<Rightarrow> 'k set_cmd list \<Rightarrow> 'i set \<Rightarrow> unit reply list" where
  "spec_set_calls kid [] S = []"
| "spec_set_calls kid (c # cs) S = (case spec_set_call kid c S of (r, S) \<Rightarrow> r # spec_set_calls kid cs S)"

context key_contract
begin

lemma set_call_simulates:
  assumes sim: "simulates K valid kid n s M" and n: "n < 134217728" and t: "mem_ok t"
    and key: "\<And>k. set_key c = Some k \<Longrightarrow> valid k"
  obtains r s' t' M' where "set_call K c s t = (r, s', t')" "spec_set_call kid c (dom M) = (r, dom M')"
    "simulates K valid kid (Suc n) s' M'" "mem_ok t'"
proof -
  obtain b where inv: "map_inv K valid kid b s" and M: "tab_map kid (MAP_A s) = M"
    using sim by (auto simp: simulates_def)
  note sim' = simulates_Suc [OF sim]
  show thesis
  proof (cases c)
    case (CallAdd k)
    then obtain s' t' where "SetAdd K k s t = (Inr None, s', t')" "mem_ok t'"
        "simulates K valid kid (Suc n) s' (M(kid k \<mapsto> ()))"
      using set_simulates [OF sim n t key, of k "''Set size overflow''" "()" "()"]
      by (auto simp: SetAdd_def SetAdd_depth_map)
    with CallAdd show thesis
      using that [of "Done (Inr ())" s' t' "M(kid k \<mapsto> ())"] by (simp add: method_result_def)
  next
    case (CallRemove k)
    then have k: "valid k" using key by simp
    obtain s' t' where r: "AMapRemove K k s t = (if M (kid k) = None then Inl KeyError else Inr (), s', t')"
        "mem_ok t'" "simulates K valid kid n s' (M(kid k := None))"
      using remove_simulates [OF sim t k] by blast
    have "SetRemove K k s t = (Inr (), s', t')"
      using r AMapHasKey_map [OF k inv] M
      by (auto simp: SetRemove_map AMapHasKey_def dom_def split: probe_result.splits if_splits)
    with CallRemove r show thesis
      using that [of "Done (Inr ())" s' t' "M(kid k := None)"] simulates_Suc [of n s'] by simp
  next
    case (CallIn k)
    with that [of _ s t M] sim' t key M AMapHasKey_map [OF _ inv] show thesis by (simp add: Set_in_map)
  next
    case CallLength
    with that [of _ s t M] sim' t M length_card [OF inv] show thesis
      by (simp add: SetLength_def AMapLength_def MapLen_def)
  qed
qed

lemma set_calls_simulate:
  assumes "simulates K valid kid n s M" "n + length cs \<le> 134217728" "mem_ok t"
    and "\<And>c k. c \<in> set cs \<Longrightarrow> set_key c = Some k \<Longrightarrow> valid k"
  shows "set_calls K cs s t = spec_set_calls kid cs (dom M)"
  using assms
proof (induction cs arbitrary: n s M t)
  case (Cons c cs)
  obtain r s' t' M' where s: "set_call K c s t = (r, s', t')" "spec_set_call kid c (dom M) = (r, dom M')"
    "simulates K valid kid (Suc n) s' M'" "mem_ok t'"
    by (rule set_call_simulates [OF Cons.prems(1), of t c])
      (use that Cons.prems(2,3) Cons.prems(4) [of c] in auto)
  then have "set_calls K cs s' t' = spec_set_calls kid cs (dom M')" using Cons.prems by (intro Cons.IH) auto
  with s show ?case by simp
qed simp

end

section \<open>Iteration yields the items\<close>

lemma SetIterNext_key:
  assumes "a ! j = (Key k, v)" "j < length a"
  shows "SetIterNext \<lparr>ITER_I = 2 * j, ITER_LEN = 2 * length a, ITER_A = a\<rparr> =
     (Inr k, \<lparr>ITER_I = 2 * Suc j, ITER_LEN = 2 * length a, ITER_A = a\<rparr>)"
proof -
  have e: "SetIterNext = SetIterNext_depth (Suc 1)" by (simp add: SetIterNext_def numeral_2_eq_2 fun_eq_iff)
  show ?thesis unfolding e using assms by simp
qed

lemma set_items_entries:
  assumes "j \<le> length a" "length (entries (drop j a)) < n"
  shows "set_items n \<lparr>ITER_I = 2 * j, ITER_LEN = 2 * length a, ITER_A = a\<rparr> = map fst (entries (drop j a))"
  using assms
proof (induction n arbitrary: j)
  case (Suc n)
  let ?it = "\<lambda>j. \<lparr>ITER_I = 2 * j, ITER_LEN = 2 * length a, ITER_A = a\<rparr>"
  obtain j' where s: "iter_skip a (2 * length a) (2 * j) = 2 * j'" and
    c: "if j' < length a then \<exists>k v. a ! j' = (Key k, v) \<and> entries (drop j a) = (k, v) # entries (drop (Suc j') a)
      else j' = length a \<and> entries (drop j a) = []"
    using iter_skip_entries [OF Suc.prems(1)] by blast
  have h: "SetIterHasNext (?it j) = (j' < length a, ?it j')" using s by (auto simp: SetIterHasNext_def Let_def)
  show ?case
  proof (cases "j' < length a")
    case True
    then obtain k v where kv: "a ! j' = (Key k, v)" "entries (drop j a) = (k, v) # entries (drop (Suc j') a)"
      using c by auto
    have "set_items n (?it (Suc j')) = map fst (entries (drop (Suc j') a))"
      using Suc.prems kv True by (intro Suc.IH) auto
    with h True kv SetIterNext_key [OF kv(1) True] show ?thesis by simp
  next
    case False
    with c h show ?thesis by simp
  qed
qed simp

lemma length_entries_le: "length (entries a) \<le> length a"
  using length_entries [of a] used_le [of a] by linarith

lemma set_items_all:
  "set_items (Suc (length (MAP_A s))) (SetIter s) = map fst (entries (MAP_A s))"
  using set_items_entries [of 0 "MAP_A s" "Suc (length (MAP_A s))"] length_entries_le [of "MAP_A s"]
  by (simp add: SetIter_def AMapIter_def)

section \<open>Equality and hash value\<close>

text \<open>The set of key identities an object holds.\<close>

definition set_of :: "('k \<Rightarrow> 'i) \<Rightarrow> 'k aset \<Rightarrow> 'i set" where
  "set_of kid s = set (ids kid (MAP_A s))"

text \<open>What one item contributes to the hash value.\<close>

definition item_hash :: "'k keyops \<Rightarrow> 'k \<Rightarrow> 64 word" where
  "item_hash K k =
     (case khash K k of
        Inl _ \<Rightarrow> 0
      | Inr h \<Rightarrow> (case HashToInt h of Inl _ \<Rightarrow> 0 | Inr i \<Rightarrow> i * (32768 + 512 + 32 + 1)))"

lemma fold_xor_mset:
  assumes "mset xs = mset ys"
  shows "fold (\<lambda>x h. h XOR f x) xs (z :: 64 word) = fold (\<lambda>x h. h XOR f x) ys z"
proof -
  have "f x XOR (f y XOR h) = f y XOR (f x XOR h)" for x y and h :: "64 word" by (simp add: xor.left_commute)
  then show ?thesis
    using assms by (intro fold_permuted_eq [where P = "\<lambda>_. True"]) (auto simp: xor.assoc xor.commute xor.left_commute)
qed

context key_contract
begin

lemma valid_entries:
  assumes "map_inv K valid kid b s" "k \<in> fst ` set (entries (MAP_A s))" shows "valid k"
proof -
  obtain v where "(Key k, v) \<in> set (MAP_A s)" using assms(2) by (force simp: entries_iff)
  then show ?thesis
    using assms(1) by (metis fst_conv in_set_conv_nth map_inv_def map_wf_def tab_ok_def)
qed

lemma Set_hash_loop_fold:
  assumes "\<And>k. k \<in> fst ` set (entries cs) \<Longrightarrow> valid k"
  shows "Set_hash_loop K cs h = Inr (fold (\<lambda>k h. h XOR item_hash K k) (map fst (entries cs)) h)"
  using assms
proof (induction cs arbitrary: h)
  case (Cons c cs)
  obtain x u where c: "c = (x, u)" by (cases c)
  show ?case
  proof (cases x)
    case (Key k)
    then have "valid k" using Cons.prems c by simp
    then obtain w where w: "khash K k = Inr (HInt w)" using hash_int by blast
    moreover obtain i where "HashToInt (HInt w) = Inr i" using HashToInt_HInt by blast
    ultimately show ?thesis using Cons c Key by (simp add: item_hash_def)
  qed (use Cons c in auto)
qed simp

text \<open>A list of valid keys is determined up to order by the identities, as far as hashes go.\<close>

lemma item_hash_mset:
  assumes "mset (map kid xs) = mset (map kid ys)" "\<And>k. k \<in> set xs \<union> set ys \<Longrightarrow> valid k"
  shows "mset (map (item_hash K) xs) = mset (map (item_hash K) ys)"
proof -
  define G where "G i = item_hash K (SOME k. valid k \<and> kid k = i)" for i
  have G: "item_hash K k = G (kid k)" if "valid k" for k
  proof -
    have "valid (SOME k'. valid k' \<and> kid k' = kid k) \<and> kid (SOME k'. valid k' \<and> kid k' = kid k) = kid k"
      by (rule someI_ex) (use that in blast)
    then have "khash K k = khash K (SOME k'. valid k' \<and> kid k' = kid k)"
      using that by (intro hash_respects) auto
    then show ?thesis by (simp add: G_def item_hash_def)
  qed
  have "map (item_hash K) xs = map G (map kid xs)" "map (item_hash K) ys = map G (map kid ys)"
    using G assms(2) by auto
  then show ?thesis using assms(1) by (metis mset_map)
qed

lemma set_inv_facts:
  assumes "map_inv K valid kid b s"
  shows "distinct (ids kid (MAP_A s))" "length (MAP_A s) = nat (MAP_SIZE s)"
    "SetLength s = int (card (set_of kid s))"
proof -
  show d: "distinct (ids kid (MAP_A s))" "length (MAP_A s) = nat (MAP_SIZE s)"
    using assms by (auto simp: map_inv_def map_wf_def tab_ok_def nat_power_eq)
  show "SetLength s = int (card (set_of kid s))"
    using length_card [OF assms] by (simp add: SetLength_def AMapLength_def MapLen_def dom_tab_map set_of_def)
qed

lemma Set_hash_respects:
  assumes a: "map_inv K valid kid b s" and b: "map_inv K valid kid b' s'" and eq: "set_of kid s = set_of kid s'"
  shows "Set_hash K s = Set_hash K s' \<and> (\<exists>h. Set_hash K s = Inr h)"
proof -
  let ?ks = "map fst (entries (MAP_A s))" and ?ks' = "map fst (entries (MAP_A s'))"
  have ids: "ids kid (MAP_A r) = map kid (map fst (entries (MAP_A r)))" for r
    by (simp add: ids_def case_prod_unfold)
  have "mset (map kid ?ks) = mset (map kid ?ks')"
    using set_inv_facts(1) [OF a] set_inv_facts(1) [OF b] eq
    unfolding set_of_def ids by (simp only: set_eq_iff_mset_eq_distinct)
  then have "mset (map (item_hash K) ?ks) = mset (map (item_hash K) ?ks')"
    using valid_entries [OF a] valid_entries [OF b] by (intro item_hash_mset) auto
  from fold_xor_mset [OF this, of "\<lambda>x. x" 0]
  have f: "fold (\<lambda>k h. h XOR item_hash K k) ?ks 0 = fold (\<lambda>k h. h XOR item_hash K k) ?ks' (0 :: 64 word)"
    by (simp add: fold_map comp_def)
  have l: "Set_hash_loop K (MAP_A s) 0 = Inr (fold (\<lambda>k h. h XOR item_hash K k) ?ks 0)"
    "Set_hash_loop K (MAP_A s') 0 = Inr (fold (\<lambda>k h. h XOR item_hash K k) ?ks' 0)"
    using valid_entries [OF a] valid_entries [OF b] by (simp_all add: Set_hash_loop_fold)
  show ?thesis
    using set_inv_facts(2) [OF a] set_inv_facts(2) [OF b] by (simp add: Set_hash_def l f)
qed

lemma Set_eq_loop_map:
  assumes "map_inv K valid kid b s" "\<And>k. k \<in> set xs \<Longrightarrow> valid k"
  shows "Set_eq_loop K s xs = Inr (kid ` set xs \<subseteq> set_of kid s)"
  using assms(2)
proof (induction xs)
  case (Cons x xs)
  then show ?case
    using AMapHasKey_map [OF _ assms(1), of x]
    by (cases "kid x \<in> set_of kid s") (simp_all add: Set_in_map dom_tab_map set_of_def)
qed simp

lemma Set_eq_map:
  assumes a: "map_inv K valid kid b s" and b: "map_inv K valid kid b' s'"
  shows "Set_eq K s (Some s') = Inr (set_of kid s = set_of kid s')"
proof -
  have set_of: "kid ` set (map fst (entries (MAP_A s'))) = set_of kid s'"
    by (force simp: set_of_def ids_def)
  have fin: "finite (set_of kid s)" "finite (set_of kid s')" by (simp_all add: set_of_def)
  have "Set_eq_loop K s (set_items (Suc (length (MAP_A s'))) (SetIter s')) = Inr (set_of kid s' \<subseteq> set_of kid s)"
    unfolding set_items_all set_of [symmetric]
    using valid_entries [OF b] by (intro Set_eq_loop_map [OF a]) auto
  then show ?thesis
    using set_inv_facts(3) [OF a] set_inv_facts(3) [OF b] fin
    by (auto simp: Set_eq_def dest: card_subset_eq)
qed

lemma SetCreate_loop_ok:
  assumes "simulates K valid kid n s M" "n + length xs \<le> 134217728" "mem_ok t" "\<And>x. x \<in> set xs \<Longrightarrow> valid x"
  shows "\<exists>s' t' M'. SetCreate_loop K (map Inr xs) s t = (Inr (), s', t') \<and> mem_ok t' \<and>
     simulates K valid kid (n + length xs) s' M' \<and> dom M' = dom M \<union> kid ` set xs"
  using assms
proof (induction xs arbitrary: n s t M)
  case (Cons x xs)
  obtain s1 t1 where s1: "SetAdd K x s t = (Inr None, s1, t1)" "mem_ok t1"
      "simulates K valid kid (Suc n) s1 (M(kid x \<mapsto> ()))"
    using set_simulates [OF Cons.prems(1) _ Cons.prems(3), of x "''Set size overflow''" "()" "()"] Cons.prems(2,4)
    by (auto simp: SetAdd_def SetAdd_depth_map)
  obtain s' t' M' where "SetCreate_loop K (map Inr xs) s1 t1 = (Inr (), s', t')" "mem_ok t'"
      "simulates K valid kid (Suc n + length xs) s' M'" "dom M' = dom (M(kid x \<mapsto> ())) \<union> kid ` set xs"
    using Cons.IH [OF s1(3) _ s1(2)] Cons.prems(2,4) by fastforce
  with s1 show ?case by (intro exI [of _ s'] exI [of _ t'] exI [of _ M']) (auto simp: then_op_def)
qed auto

text \<open>Copying is adding the items one by one.\<close>

lemma SetCopy_loop_create:
  assumes "SetCreate_loop K (map Inr (map fst (entries cs))) s t = (Inr (), s', t')"
    and "simulates K valid kid n s M" "n + length (entries cs) \<le> 134217728" "mem_ok t"
    and "\<And>x. x \<in> fst ` set (entries cs) \<Longrightarrow> valid x"
  shows "SetCopy_loop K cs s t = (Inr (), s', t')"
  using assms
proof (induction cs arbitrary: n s t M)
  case (Cons c cs)
  obtain x u where c: "c = (x, u)" by (cases c)
  show ?case
  proof (cases x)
    case (Key k)
    obtain s1 t1 where s1: "SetAdd K k s t = (Inr None, s1, t1)" "mem_ok t1"
        "simulates K valid kid (Suc n) s1 (M(kid k \<mapsto> ()))"
      using set_simulates [OF Cons.prems(2) _ Cons.prems(4), of k "''Set size overflow''" "()" "()"]
        Cons.prems(3,5) c Key by (auto simp: SetAdd_def SetAdd_depth_map)
    then have "SetCreate_loop K (map Inr (map fst (entries cs))) s1 t1 = (Inr (), s', t')"
      using Cons.prems(1) c Key by (simp add: then_op_def)
    then have "SetCopy_loop K cs s1 t1 = (Inr (), s', t')"
      using s1 Cons.prems(3,5) c Key by (intro Cons.IH) auto
    with s1 c Key show ?thesis by (simp add: then_op_def)
  next
    case EmptyMarker
    with Cons c show ?thesis by simp
  next
    case RemovedMarker
    with Cons c show ?thesis by simp
  qed
qed simp

lemma simulates_set: "simulates K valid kid n s M \<Longrightarrow> (\<exists>b. map_inv K valid kid b s) \<and> set_of kid s = dom M"
  by (metis simulates_def set_of_def dom_tab_map)

lemma SetInitialize_ok:
  assumes "mem_ok t"
  shows "\<exists>(s :: 'k aset) t'. SetInitialize t = (Inr s, t') \<and> mem_ok t' \<and> simulates K valid kid 0 s Map.empty"
proof -
  obtain r t' where "next_alloc t = (Inr r, t')" "mem_ok t'" using next_alloc_ok [OF assms] by blast
  then obtain s :: "'k aset" where "SetInitialize t = (Inr s, t')"
    by (simp add: SetInitialize_def AMapInitialize_def bindM_def ret_def)
  moreover from this have "simulates K valid kid 0 s Map.empty"
    unfolding SetInitialize_def by (rule initial_simulates)
  ultimately show ?thesis using \<open>mem_ok t'\<close> by blast
qed

lemma SetCreate_ok:
  assumes "mem_ok t" "length xs \<le> 134217728" "\<And>x. x \<in> set xs \<Longrightarrow> valid x"
  shows "\<exists>s t' b. SetCreate K (Some (map Inr xs)) t = (Inr s, t') \<and> map_inv K valid kid b s \<and>
     set_of kid s = kid ` set xs"
proof -
  obtain s0 :: "'k aset" and t0 where i: "SetInitialize t = (Inr s0, t0)" "mem_ok t0" "simulates K valid kid 0 s0 Map.empty"
    using SetInitialize_ok [OF assms(1)] by blast
  obtain s t' M where "SetCreate_loop K (map Inr xs) s0 t0 = (Inr (), s, t')"
      "simulates K valid kid (0 + length xs) s M" "dom M = dom Map.empty \<union> kid ` set xs"
    using SetCreate_loop_ok [OF i(3) _ i(2)] assms(2,3) by fastforce
  with i show ?thesis using simulates_set [of "0 + length xs" s M] by (auto simp: SetCreate_def bindM_def)
qed

lemma SetCopy_ok:
  assumes inv: "map_inv K valid kid b s" and t: "mem_ok t" and n: "card (set_of kid s) \<le> 134217728"
  shows "\<exists>s' t' b'. SetCopy K s t = (Inr s', t') \<and> map_inv K valid kid b' s' \<and> set_of kid s' = set_of kid s"
proof -
  let ?xs = "map fst (entries (MAP_A s))"
  note f = set_inv_facts [OF inv]
  have len: "length ?xs \<le> 134217728"
    using n f(1) distinct_card [OF f(1)] by (simp add: set_of_def ids_def)
  have v: "\<And>x. x \<in> set ?xs \<Longrightarrow> valid x" using valid_entries [OF inv] by simp
  have img: "kid ` set ?xs = set_of kid s" by (force simp: set_of_def ids_def)
  obtain s0 :: "'k aset" and t0 where i: "SetInitialize t = (Inr s0, t0)" "mem_ok t0" "simulates K valid kid 0 s0 Map.empty"
    using SetInitialize_ok [OF t] by blast
  obtain s' t' M where c: "SetCreate_loop K (map Inr ?xs) s0 t0 = (Inr (), s', t')"
      "simulates K valid kid (0 + length ?xs) s' M" "dom M = dom Map.empty \<union> kid ` set ?xs"
    using SetCreate_loop_ok [OF i(3) _ i(2), of ?xs] len v by auto
  have "SetCopy_loop K (MAP_A s) s0 t0 = (Inr (), s', t')"
    using SetCopy_loop_create [OF c(1) i(3) _ i(2)] len v by auto
  then show ?thesis
    using i c f(2) img simulates_set [OF c(2)] by (auto simp: SetCopy_def SetCreate_def bindM_def)
qed

end

section \<open>Properties\<close>

text \<open>
  C6: Every sequence of up to 2^27 calls of add, remove, the membership test and length on a
  new set replies as the same calls on a finite set would; removing an item that is not in
  the set is no error.
\<close>

theorem set_calls_refine:
  assumes "key_contract K valid kid"
    and "SetCreate K None t = (Inr s, t')" "mem_ok t" "length cs \<le> 134217728"
    and "\<forall>c \<in> set cs. \<forall>k. set_key c = Some k \<longrightarrow> valid k"
  shows "set_calls K cs s t' = spec_set_calls kid cs {}"
proof -
  obtain s0 t0 where "SetInitialize t = (Inr s0, t0)" "mem_ok t0" "simulates K valid kid 0 s0 Map.empty"
    using key_contract.SetInitialize_ok [OF assms(1,3)] by blast
  moreover from this have "s = s0" "t' = t0" using assms(2) by (auto simp: SetCreate_def bindM_def)
  ultimately show ?thesis
    using assms(4,5) key_contract.set_calls_simulate [OF assms(1), of 0 s0 Map.empty cs t0] by auto
qed

theorem set_calls_refine_witness:
  "\<exists>s t'. SetCreate int_keys None \<lparr>allocs = [], tempStackPtr = 0\<rparr> = (Inr s, t') \<and>
     set_calls int_keys [CallAdd (short 7), CallAdd (short 7), CallRemove (short 8), CallIn (short 7), CallLength] s t'
     = [Done (Inr ()), Done (Inr ()), Done (Inr ()), Truth (Inr True), Count 1]"
proof -
  let ?t = "\<lparr>allocs = [], tempStackPtr = 0\<rparr> :: athread"
  obtain s t' where i: "SetCreate int_keys None ?t = (Inr s, t')"
    by (simp add: SetCreate_def SetInitialize_def AMapInitialize_def bindM_def next_alloc_def ret_def)
  let ?cs = "[CallAdd (short 7), CallAdd (short 7), CallRemove (short 8), CallIn (short 7), CallLength]"
  have "mem_ok ?t" by (simp add: mem_ok_def)
  then have "set_calls int_keys ?cs s t' = spec_set_calls int_value ?cs {}"
    by (rule set_calls_refine [OF int_keys.key_contract_axioms i]) simp_all
  then show ?thesis using i by simp
qed

text \<open>
  A set built from a list of items holds exactly these items, and a copy of a set is
  equal to it and has the same hash value.
\<close>

theorem set_create_copy:
  assumes "key_contract K valid kid" "mem_ok t" "mem_ok t2" "length xs \<le> 134217728" "\<forall>x \<in> set xs. valid x"
  shows "\<exists>s t' c t3. SetCreate K (Some (map Inr xs)) t = (Inr s, t') \<and> set_of kid s = kid ` set xs \<and>
    SetCopy K s t2 = (Inr c, t3) \<and> Set_eq K s (Some c) = Inr True \<and> Set_hash K c = Set_hash K s"
proof -
  obtain s t' b where s: "SetCreate K (Some (map Inr xs)) t = (Inr s, t')" "map_inv K valid kid b s"
      "set_of kid s = kid ` set xs"
    using key_contract.SetCreate_ok [OF assms(1,2,4)] assms(5) by blast
  have "card (set_of kid s) \<le> card (set xs)" unfolding s(3) by (rule card_image_le) simp
  then have "card (set_of kid s) \<le> 134217728" using card_length [of xs] assms(4) by linarith
  then obtain c t3 b' where c: "SetCopy K s t2 = (Inr c, t3)" "map_inv K valid kid b' c" "set_of kid c = set_of kid s"
    using key_contract.SetCopy_ok [OF assms(1) s(2) assms(3)] by blast
  moreover have "Set_eq K s (Some c) = Inr True"
    using key_contract.Set_eq_map [OF assms(1) s(2) c(2)] c(3) by simp
  moreover have "Set_hash K c = Set_hash K s"
    using key_contract.Set_hash_respects [OF assms(1) c(2) s(2) c(3)] by simp
  ultimately show ?thesis using s by blast
qed

theorem set_create_copy_witness:
  "\<exists>s t' c t3. SetCreate int_keys (Some (map Inr [short 1, short 2])) \<lparr>allocs = [], tempStackPtr = 0\<rparr> = (Inr s, t') \<and>
     set_of int_value s = {1, 2} \<and> SetCopy int_keys s \<lparr>allocs = [], tempStackPtr = 0\<rparr> = (Inr c, t3) \<and>
     Set_eq int_keys s (Some c) = Inr True \<and> Set_hash int_keys c = Set_hash int_keys s"
proof -
  have "mem_ok \<lparr>allocs = [], tempStackPtr = 0\<rparr>" by (simp add: mem_ok_def)
  moreover have "int_value ` set [short 1, short 2] = {1, 2}" by simp
  ultimately show ?thesis
    using set_create_copy [OF int_keys.key_contract_axioms, of "\<lparr>allocs = [], tempStackPtr = 0\<rparr>"
        "\<lparr>allocs = [], tempStackPtr = 0\<rparr>" "[short 1, short 2]"] by simp
qed

text \<open>
  Two sets compare equal exactly when they hold the same items, and equal sets have equal
  hash values whatever the order of their slots.
\<close>

theorem set_eq_hash:
  assumes "key_contract K valid kid" "map_inv K valid kid b s" "map_inv K valid kid b' s'"
  shows "Set_eq K s (Some s') = Inr (set_of kid s = set_of kid s') \<and>
    (set_of kid s = set_of kid s' \<longrightarrow> Set_hash K s = Set_hash K s')"
  using key_contract.Set_eq_map [OF assms] key_contract.Set_hash_respects [OF assms] by blast

text \<open>Two items with the same hash index, added in either order, fill the slots differently.\<close>

definition two_items :: "aint \<Rightarrow> aint \<Rightarrow> aint aset" where
  "two_items x y = \<lparr>MAP_A = [(EmptyMarker, ()), (Key x, ()), (Key y, ()), (EmptyMarker, ())],
     MAP_LEN = 2, MAP_SIZE = 4, MAP_NUM_REMOVED = 0\<rparr>"

lemma two_items_inv:
  assumes "hash_index int_keys x 2 = 1" "hash_index int_keys y 2 = 1" "norm_int x" "norm_int y"
    "int_value x \<noteq> int_value y"
  shows "map_inv int_keys norm_int int_value 2 (two_items x y)"
proof -
  let ?A = "MAP_A (two_items x y)"
  have "reaches 2 ?A 1 1" unfolding reaches_def by (rule exI [of _ 0]) (simp add: orbit_def)
  moreover have "reaches 2 ?A 1 2"
    unfolding reaches_def by (rule exI [of _ 1]) (simp add: orbit_def nexti_def two_items_def)
  moreover have "j = 1 \<and> k = x \<or> j = 2 \<and> k = y" if "j < 4" "fst (?A ! j) = Key k" for j k
    using that by (auto simp: two_items_def less_Suc_eq numeral_eq_Suc nth_Cons split: nat.splits)
  ultimately have "tab_ok int_keys norm_int int_value 2 ?A"
    using assms by (fastforce simp: tab_ok_def ids_def two_items_def)
  then show ?thesis by (simp add: map_inv_def map_wf_def two_items_def used_def removed_def)
qed

theorem set_eq_hash_witness:
  "Set_eq int_keys (two_items (short 1) (short 5)) (Some (two_items (short 5) (short 1))) = Inr True \<and>
   Set_hash int_keys (two_items (short 1) (short 5)) = Set_hash int_keys (two_items (short 5) (short 1))"
proof -
  have h: "hash_index int_keys (short 1) 2 = 1" "hash_index int_keys (short 5) 2 = 1"
    by (simp_all add: hash_index_def int_keys_def AValueToInt_def AIntToValue_def)
  have a: "map_inv int_keys norm_int int_value 2 (two_items (short 1) (short 5))"
    by (rule two_items_inv [OF h]) simp_all
  have b: "map_inv int_keys norm_int int_value 2 (two_items (short 5) (short 1))"
    by (rule two_items_inv [OF h(2) h(1)]) simp_all
  have "set_of int_value (two_items (short 1) (short 5)) = set_of int_value (two_items (short 5) (short 1))"
    by (auto simp: set_of_def ids_def two_items_def)
  then show ?thesis using set_eq_hash [OF int_keys.key_contract_axioms a b] by (simp only: simp_thms)
qed

end
