(* ===== verification/Sym_Table.thy ===== *)
theory Sym_Table
  imports Alore_Prelude
begin

text \<open>
  The symbol table (\<^verbatim>\<open>src/src/symtable.c\<close>): identifiers are interned in chained hash buckets.
  The model keeps the pointers: a symbol is a node of a store, its address the index in the
  store, and a chain is followed through the \<^verbatim>\<open>next\<close> fields.  The code casts a slot of the table
  to a symbol because \<^verbatim>\<open>next\<close> is the first field; \<open>link\<close> names the two places such a pointer can
  be at.  Loops over a chain have as much fuel as there are symbols.
\<close>

section \<open>State\<close>

record symbol =
  nxt :: "nat option"
  info :: nat
  len :: nat
  type :: nat
  str :: "8 word list"

datatype link = Slot nat | NextOf nat

text \<open>\<open>cmem\<close> holds the outcomes of the allocations to come; when it runs out they succeed.\<close>

record symtab =
  ASym :: "nat option list"
  ASymSize :: nat
  NumSyms :: nat
  syms :: "symbol list"
  cmem :: "bool list"

definition TT_ID :: nat where
  "TT_ID = 2"

definition SYMBOL_TABLE_INITIAL_SIZE :: nat where
  "SYMBOL_TABLE_INITIAL_SIZE = 512"

definition try_alloc :: "symtab \<Rightarrow> bool \<times> symtab" where
  "try_alloc st = (case cmem st of [] \<Rightarrow> (True, st) | b # bs \<Rightarrow> (b, st\<lparr>cmem := bs\<rparr>))"

definition get_next :: "symtab \<Rightarrow> link \<Rightarrow> aerror + nat option" where
  "get_next st l =
     (case l of
        Slot i \<Rightarrow> if i < length (ASym st) then Inr (ASym st ! i) else Inl UndefinedBehaviour
      | NextOf p \<Rightarrow> if p < length (syms st) then Inr (nxt (syms st ! p)) else Inl UndefinedBehaviour)"

definition set_next :: "link \<Rightarrow> nat option \<Rightarrow> symtab \<Rightarrow> symtab" where
  "set_next l v st =
     (case l of
        Slot i \<Rightarrow> st\<lparr>ASym := (ASym st)[i := v]\<rparr>
      | NextOf p \<Rightarrow> st\<lparr>syms := (syms st)[p := (syms st ! p)\<lparr>nxt := v\<rparr>]\<rparr>)"

section \<open>Hash values\<close>

text \<open>
  Characters are signed in a \<^verbatim>\<open>char\<close> and are extended to an unsigned 32-bit word by the sum.
\<close>

definition hash_step :: "32 word \<Rightarrow> 8 word \<Rightarrow> 32 word" where
  "hash_step h c = h + (h * 32 + scast c)"

definition id_hash :: "8 word list \<Rightarrow> 32 word" where
  "id_hash cs = foldl hash_step 0 cs"

definition AGetSymbolHashValue :: "symbol \<Rightarrow> 32 word" where
  "AGetSymbolHashValue s =
     foldl hash_step (scast (str s ! 0)) (take (len s - 1) (drop 1 (str s)))"

section \<open>Searching\<close>

fun find_loop :: "nat \<Rightarrow> symtab \<Rightarrow> 8 word list \<Rightarrow> nat option \<Rightarrow> aerror + nat option" where
  "find_loop _ _ _ None = Inr None"
| "find_loop 0 _ _ (Some _) = Inl NonTermination"
| "find_loop (Suc n) st cs (Some p) =
     (if p < length (syms st) then
        let s = syms st ! p
        in if len s = length cs \<and> take (length cs) (str s) = cs then Inr (Some p)
           else find_loop n st cs (nxt s)
      else Inl UndefinedBehaviour)"

definition bucket :: "symtab \<Rightarrow> 32 word \<Rightarrow> nat" where
  "bucket st h = unat (h AND of_nat (ASymSize st))"

definition AFindSymbol :: "8 word list \<Rightarrow> symtab \<Rightarrow> aerror + nat option" where
  "AFindSymbol cs st =
     (case get_next st (Slot (bucket st (id_hash cs))) of
        Inl e \<Rightarrow> Inl e
      | Inr p \<Rightarrow> find_loop (length (syms st)) st cs p)"

section \<open>Growing\<close>

definition AllocSymbolTable :: "nat \<Rightarrow> symtab \<Rightarrow> nat option list option \<times> symtab" where
  "AllocSymbolTable n st =
     (case try_alloc st of
        (False, st) \<Rightarrow> (None, st)
      | (True, st) \<Rightarrow> (Some (replicate n None), st))"

text \<open>The symbols of one chain that have the new bit set are moved to the end of another.\<close>

fun split_chain :: "nat \<Rightarrow> nat \<Rightarrow> link \<Rightarrow> link \<Rightarrow> symtab \<Rightarrow> aerror + symtab" where
  "split_chain n grow oldSym newSym st =
     (case get_next st oldSym of
        Inl e \<Rightarrow> Inl e
      | Inr None \<Rightarrow> Inr st
      | Inr (Some p) \<Rightarrow>
          (case n of
             0 \<Rightarrow> Inl NonTermination
           | Suc n \<Rightarrow>
               if p < length (syms st) then
                 if AGetSymbolHashValue (syms st ! p) AND of_nat grow \<noteq> 0 then
                   let st = set_next newSym (Some p) st;
                       st = set_next oldSym (nxt (syms st ! p)) st;
                       st = set_next (NextOf p) None st
                   in split_chain n grow oldSym (NextOf p) st
                 else split_chain n grow (NextOf p) newSym st
               else Inl UndefinedBehaviour))"

fun grow_loop :: "nat \<Rightarrow> nat list \<Rightarrow> symtab \<Rightarrow> aerror + symtab" where
  "grow_loop grow [] st = Inr st"
| "grow_loop grow (i # is) st =
     (case split_chain (length (syms st)) grow (Slot i) (Slot (i + grow)) (set_next (Slot (i + grow)) None st) of
        Inl e \<Rightarrow> Inl e
      | Inr st \<Rightarrow> grow_loop grow is st)"

text \<open>The size of the table is a C \<^verbatim>\<open>int\<close>: at \<open>2^31 - 1\<close> the sum that doubles it overflows.\<close>

definition GrowSymbolTable :: "symtab \<Rightarrow> aerror + (bool \<times> symtab)" where
  "GrowSymbolTable st =
     (let grow = ASymSize st + 1
      in if grow \<ge> 2 ^ 31 then Inl UndefinedBehaviour
         else (case AllocSymbolTable (2 * grow) st of
             (None, st) \<Rightarrow> Inr (False, st)
           | (Some table, st) \<Rightarrow>
               (case grow_loop grow [0..<grow]
                       (st\<lparr>ASym := take (ASymSize st + 1) (ASym st) @ drop (ASymSize st + 1) table,
                           ASymSize := ASymSize st + grow\<rparr>) of
                  Inl e \<Rightarrow> Inl e
                | Inr st \<Rightarrow> Inr (True, st))))"

declare split_chain.simps [simp del]

section \<open>Adding\<close>

fun last_link :: "nat \<Rightarrow> symtab \<Rightarrow> link \<Rightarrow> aerror + link" where
  "last_link n st l =
     (case get_next st l of
        Inl e \<Rightarrow> Inl e
      | Inr None \<Rightarrow> Inr l
      | Inr (Some p) \<Rightarrow> (case n of 0 \<Rightarrow> Inl NonTermination | Suc n \<Rightarrow> last_link n st (NextOf p)))"

declare last_link.simps [simp del]

text \<open>The new symbol is linked at the end of its chain.\<close>

definition append_symbol :: "32 word \<Rightarrow> 8 word list \<Rightarrow> symtab \<Rightarrow> aerror + (nat option \<times> symtab)" where
  "append_symbol hashValue cs st =
     (case last_link (length (syms st)) st (Slot (bucket st hashValue)) of
        Inl e \<Rightarrow> Inl e
      | Inr l \<Rightarrow>
          (case try_alloc st of
             (False, st) \<Rightarrow> Inr (None, set_next l None st)
           | (True, st) \<Rightarrow>
               let p = length (syms st);
                   st = set_next l (Some p) st
               in Inr (Some p, st\<lparr>syms := syms st @
                    [\<lparr>nxt = None, info = p, len = length cs, type = TT_ID, str = cs @ [0]\<rparr>]\<rparr>)))"

definition AAddSymbol :: "32 word \<Rightarrow> 8 word list \<Rightarrow> symtab \<Rightarrow> aerror + (nat option \<times> symtab)" where
  "AAddSymbol hashValue cs st =
     (let st' = st\<lparr>NumSyms := NumSyms st + 1\<rparr>
      in if NumSyms st = ASymSize st then
           (case GrowSymbolTable st' of
              Inl e \<Rightarrow> Inl e
            | Inr (False, st) \<Rightarrow> Inr (None, st)
            | Inr (True, st) \<Rightarrow> append_symbol hashValue cs st)
         else append_symbol hashValue cs st')"

definition AGetSymbol :: "8 word list \<Rightarrow> symtab \<Rightarrow> aerror + (nat option \<times> symtab)" where
  "AGetSymbol cs st =
     (case AFindSymbol cs st of
        Inl e \<Rightarrow> Inl e
      | Inr (Some p) \<Rightarrow> Inr (Some p, st)
      | Inr None \<Rightarrow> AAddSymbol (id_hash cs) cs st)"

text \<open>The table before the predefined words are added.\<close>

definition InitialTable :: "symtab \<Rightarrow> symtab option" where
  "InitialTable st =
     (case AllocSymbolTable SYMBOL_TABLE_INITIAL_SIZE st of
        (None, _) \<Rightarrow> None
      | (Some table, st) \<Rightarrow>
          Some (st\<lparr>ASym := table, ASymSize := SYMBOL_TABLE_INITIAL_SIZE - 1, NumSyms := 0\<rparr>))"

section \<open>Links and chains\<close>

text \<open>What a link holds, and the chain of symbols that starts there.\<close>

definition nx :: "symtab \<Rightarrow> link \<Rightarrow> nat option" where
  "nx st l = (case l of Slot i \<Rightarrow> ASym st ! i | NextOf p \<Rightarrow> nxt (syms st ! p))"

definition valid :: "symtab \<Rightarrow> link \<Rightarrow> bool" where
  "valid st l = (case l of Slot i \<Rightarrow> i < length (ASym st) | NextOf p \<Rightarrow> p < length (syms st))"

fun seg :: "symtab \<Rightarrow> link \<Rightarrow> nat list \<Rightarrow> bool" where
  "seg st l [] = (nx st l = None)"
| "seg st l (p # ps) = (nx st l = Some p \<and> p < length (syms st) \<and> seg st (NextOf p) ps)"

text \<open>Everything but the links: \<open>st'\<close> differs from \<open>st\<close> in the links of \<open>L\<close> at most.\<close>

definition payload :: "symtab \<Rightarrow> (nat \<times> nat \<times> nat \<times> 8 word list) list" where
  "payload st = map (\<lambda>s. (info s, len s, type s, str s)) (syms st)"

definition same_but :: "link set \<Rightarrow> symtab \<Rightarrow> symtab \<Rightarrow> bool" where
  "same_but L st st' \<longleftrightarrow>
     payload st' = payload st \<and> length (ASym st') = length (ASym st) \<and> ASymSize st' = ASymSize st \<and>
     NumSyms st' = NumSyms st \<and> cmem st' = cmem st \<and> (\<forall>l. l \<notin> L \<longrightarrow> nx st' l = nx st l)"

lemma get_next_nx [simp]: "valid st l \<Longrightarrow> get_next st l = Inr (nx st l)"
  by (cases l) (simp_all add: get_next_def valid_def nx_def)

lemma nx_set_next [simp]: "valid st l \<Longrightarrow> nx (set_next l v st) l' = (if l' = l then v else nx st l')"
  by (cases l; cases l') (auto simp: valid_def nx_def set_next_def nth_list_update)

lemma valid_set_next [simp]: "valid (set_next l v st) l' = valid st l'"
  by (cases l; cases l') (auto simp: valid_def set_next_def)

lemma length_syms_set_next [simp]: "length (syms (set_next l v st)) = length (syms st)"
  by (cases l) (auto simp: set_next_def)

lemma payload_set_next [simp]: "payload (set_next l v st) = payload st"
proof (cases l)
  case (NextOf p)
  then show ?thesis
    by (cases "p < length (syms st)") (simp_all add: payload_def set_next_def map_update list_update_same_conv list_update_beyond)
qed (simp add: payload_def set_next_def)

lemma payload_length: "payload st' = payload st \<Longrightarrow> length (syms st') = length (syms st)"
  unfolding payload_def by (rule map_eq_imp_length_eq)

lemma same_but_set_next: "valid st l \<Longrightarrow> same_but {l} st (set_next l v st)"
  by (simp add: same_but_def) (cases l; simp add: set_next_def)

lemma same_but_trans: "same_but L st st' \<Longrightarrow> same_but L' st' st'' \<Longrightarrow> same_but (L \<union> L') st st''"
  by (simp add: same_but_def)

lemma same_but_mono: "same_but L st st' \<Longrightarrow> L \<subseteq> L' \<Longrightarrow> same_but L' st st'"
  unfolding same_but_def by blast

lemma same_but_refl [simp]: "same_but L st st"
  by (simp add: same_but_def)

lemma same_but_nx: "same_but L st st' \<Longrightarrow> l \<notin> L \<Longrightarrow> nx st' l = nx st l"
  by (simp add: same_but_def)

lemma same_but_length: "same_but L st st' \<Longrightarrow> length (syms st') = length (syms st)"
  unfolding same_but_def by (blast intro: payload_length)

lemma same_but_valid: "same_but L st st' \<Longrightarrow> valid st' l = valid st l"
  using same_but_length by (cases l) (auto simp: valid_def same_but_def)

lemma seg_cong:
  "(\<And>l'. l' \<in> insert l (NextOf ` set ps) \<Longrightarrow> nx st' l' = nx st l') \<Longrightarrow> length (syms st') = length (syms st) \<Longrightarrow>
   seg st' l ps = seg st l ps"
  by (induction ps arbitrary: l) auto

lemma seg_mono:
  "seg st l ps \<Longrightarrow> (\<And>l'. l' \<in> insert l (NextOf ` set ps) \<Longrightarrow> nx st' l' = nx st l') \<Longrightarrow>
   length (syms st) \<le> length (syms st') \<Longrightarrow> seg st' l ps"
  by (induction ps arbitrary: l) auto

lemma seg_frame:
  "same_but L st st' \<Longrightarrow> insert l (NextOf ` set ps) \<inter> L = {} \<Longrightarrow> seg st' l ps = seg st l ps"
  by (rule seg_cong) (auto simp: same_but_length intro: same_but_nx)

lemma seg_set_next:
  "valid st l' \<Longrightarrow> l' \<noteq> l \<Longrightarrow> l' \<notin> NextOf ` set ps \<Longrightarrow> seg (set_next l' v st) l ps = seg st l ps"
  by (rule seg_frame [OF same_but_set_next]) auto

lemma seg_range: "seg st l ps \<Longrightarrow> set ps \<subseteq> {..<length (syms st)}"
  by (induction ps arbitrary: l) auto

text \<open>The hash value of a stored symbol is part of what the links leave alone.\<close>

definition sym_hash :: "symtab \<Rightarrow> nat \<Rightarrow> 32 word" where
  "sym_hash st p = AGetSymbolHashValue (syms st ! p)"

lemma sym_hash_payload: "payload st' = payload st \<Longrightarrow> p < length (syms st) \<Longrightarrow> sym_hash st' p = sym_hash st p"
proof -
  assume e: "payload st' = payload st" and p: "p < length (syms st)"
  have "payload st' ! p = payload st ! p" and "p < length (syms st')" using e p payload_length [OF e] by auto
  with p show ?thesis by (simp add: sym_hash_def AGetSymbolHashValue_def payload_def)
qed

section \<open>Splitting chains\<close>

abbreviation moves :: "symtab \<Rightarrow> nat \<Rightarrow> nat \<Rightarrow> bool" where
  "moves st grow p \<equiv> sym_hash st p AND of_nat grow \<noteq> 0"

lemma split_chain_ok:
  assumes "seg st old xs" "nx st new = None" "distinct xs" "length xs \<le> n"
    and "valid st old" "valid st new" "old \<noteq> new" "old \<notin> NextOf ` set xs" "new \<notin> NextOf ` set xs"
  shows "\<exists>st'. split_chain n grow old new st = Inr st' \<and>
    seg st' old (filter (\<lambda>p. \<not> moves st grow p) xs) \<and> seg st' new (filter (moves st grow) xs) \<and>
    same_but (insert old (insert new (NextOf ` set xs))) st st'"
  using assms
proof (induction xs arbitrary: st old new n)
  case Nil
  then show ?case by (subst split_chain.simps) simp
next
  case (Cons p xs)
  obtain m where n: "n = Suc m" and m: "length xs \<le> m" using Cons.prems(4) by (cases n) auto
  have p: "p < length (syms st)" "nx st old = Some p" "seg st (NextOf p) xs" using Cons.prems(1) by auto
  have ph: "nx st (NextOf p) = nxt (syms st ! p)" by (simp add: nx_def)
  have vp: "valid st (NextOf p)" using p by (simp add: valid_def)
  have np: "old \<noteq> NextOf p" "new \<noteq> NextOf p" "p \<notin> set xs" using Cons.prems by auto
  have eqs: "filter (\<lambda>q. P (sym_hash st' q)) xs = filter (\<lambda>q. P (sym_hash st q)) xs"
    if "payload st' = payload st" for st' P
    using sym_hash_payload [OF that] seg_range [OF p(3)] by (intro filter_cong) auto
  show ?case
  proof (cases "moves st grow p")
    case True
    let ?s1 = "set_next new (Some p) st"
    let ?s2 = "set_next old (nxt (syms ?s1 ! p)) ?s1"
    let ?s3 = "set_next (NextOf p) None ?s2"
    have nxp: "nxt (syms ?s1 ! p) = nx st (NextOf p)"
      using nx_set_next [OF Cons.prems(6), of "Some p" "NextOf p"] np by (simp add: nx_def)
    have sb: "same_but {new, old, NextOf p} st ?s3"
      using same_but_trans [OF same_but_trans [OF same_but_set_next same_but_set_next] same_but_set_next] vp Cons.prems
      by (simp add: insert_commute)
    have nx3: "nx ?s3 old = nx st (NextOf p)" "nx ?s3 new = Some p" "nx ?s3 (NextOf p) = None"
      using np vp Cons.prems by (simp_all add: nxp)
    have "seg ?s3 old xs"
    proof (cases xs)
      case Nil
      with p nx3 show ?thesis by simp
    next
      case (Cons q qs)
      with p nx3 Cons.prems np show ?thesis using seg_frame [OF sb, of "NextOf q" qs] by (auto simp del: payload_set_next)
    qed
    then obtain st' where st': "split_chain m grow old (NextOf p) ?s3 = Inr st'"
      "seg st' old (filter (\<lambda>q. \<not> moves ?s3 grow q) xs)" "seg st' (NextOf p) (filter (moves ?s3 grow) xs)"
      "same_but (insert old (insert (NextOf p) (NextOf ` set xs))) ?s3 st'"
      using Cons.IH [of ?s3 old "NextOf p" m] nx3 np vp m Cons.prems by auto
    have "nx st' new = Some p" using same_but_nx [OF st'(4), of new] nx3 Cons.prems by auto
    moreover have "split_chain n grow old new st = Inr st'"
      using True p Cons.prems st'(1) by (subst split_chain.simps) (simp add: n Let_def sym_hash_def)
    moreover have "same_but (insert old (insert new (NextOf ` set (p # xs)))) st st'"
      by (rule same_but_mono [OF same_but_trans [OF sb st'(4)]]) auto
    ultimately show ?thesis
      using True p st'(2,3) same_but_length [OF st'(4)]
        eqs [of ?s3 "\<lambda>h. h AND of_nat grow \<noteq> 0"] eqs [of ?s3 "\<lambda>h. h AND of_nat grow = 0"]
      by auto
  next
    case False
    then obtain st' where st': "split_chain m grow (NextOf p) new st = Inr st'"
      "seg st' (NextOf p) (filter (\<lambda>q. \<not> moves st grow q) xs)" "seg st' new (filter (moves st grow) xs)"
      "same_but (insert (NextOf p) (insert new (NextOf ` set xs))) st st'"
      using Cons.IH [of st "NextOf p" new m] p np vp m Cons.prems by auto
    have "nx st' old = Some p" using same_but_nx [OF st'(4), of old] p Cons.prems np by auto
    moreover have "split_chain n grow old new st = Inr st'"
      using False p Cons.prems st'(1) by (subst split_chain.simps) (simp add: n sym_hash_def)
    moreover have "same_but (insert old (insert new (NextOf ` set (p # xs)))) st st'"
      by (rule same_but_mono [OF st'(4)]) auto
    ultimately show ?thesis using False p st'(2,3) same_but_length [OF st'(4)] by auto
  qed
qed

text \<open>All the chains, one after the other.\<close>

definition links_of :: "nat \<Rightarrow> (nat \<Rightarrow> nat list) \<Rightarrow> nat \<Rightarrow> link set" where
  "links_of grow C i = {Slot i, Slot (i + grow)} \<union> NextOf ` set (C i)"

lemma filter_moves_payload:
  assumes "payload st' = payload st" "set xs \<subseteq> {..<length (syms st)}"
  shows "filter (moves st' grow) xs = filter (moves st grow) xs"
    "filter (\<lambda>p. \<not> moves st' grow p) xs = filter (\<lambda>p. \<not> moves st grow p) xs"
  using sym_hash_payload [OF assms(1)] assms(2) by (auto intro!: filter_cong)

lemma grow_loop_ok:
  assumes "\<forall>i \<in> set js. i < grow \<and> seg st (Slot i) (C i) \<and> distinct (C i) \<and> length (C i) \<le> length (syms st)"
    and "distinct js" "length (ASym st) = 2 * grow"
    and "\<forall>i \<in> set js. \<forall>j \<in> set js. i \<noteq> j \<longrightarrow> set (C i) \<inter> set (C j) = {}"
  shows "\<exists>st'. grow_loop grow js st = Inr st' \<and> same_but (\<Union>i \<in> set js. links_of grow C i) st st' \<and>
    (\<forall>i \<in> set js. seg st' (Slot i) (filter (\<lambda>p. \<not> moves st grow p) (C i)) \<and>
                  seg st' (Slot (i + grow)) (filter (moves st grow) (C i)))"
  using assms
proof (induction js arbitrary: st)
  case Nil
  then show ?case by simp
next
  case (Cons i js)
  let ?new = "Slot (i + grow)" and ?s1 = "set_next (Slot (i + grow)) None st"
  have i: "i < grow" "seg st (Slot i) (C i)" "distinct (C i)" "length (C i) \<le> length (syms st)"
    and v: "valid st ?new" "valid st (Slot i)" using Cons.prems by (auto simp: valid_def)
  have s1: "seg ?s1 (Slot i) (C i)" using i v by (simp add: seg_set_next image_iff)
  obtain s2 where s2: "split_chain (length (syms st)) grow (Slot i) ?new ?s1 = Inr s2"
      "seg s2 (Slot i) (filter (\<lambda>p. \<not> moves ?s1 grow p) (C i))" "seg s2 ?new (filter (moves ?s1 grow) (C i))"
      "same_but (insert (Slot i) (insert ?new (NextOf ` set (C i)))) ?s1 s2"
    using split_chain_ok [OF s1, of ?new "length (syms st)" grow] i v by auto
  have sb: "same_but (links_of grow C i) st s2"
    by (rule same_but_mono [OF same_but_trans [OF same_but_set_next [OF v(1)] s2(4)]]) (auto simp: links_of_def)
  then have pl: "payload s2 = payload st" "length (syms s2) = length (syms st)" "length (ASym s2) = length (ASym st)"
    using same_but_length by (auto simp: same_but_def)
  have rng: "set (C j) \<subseteq> {..<length (syms st)}" if "j \<in> set (i # js)" for j
    using Cons.prems(1) that seg_range by blast
  have apart: "insert l (NextOf ` set (C j)) \<inter> links_of grow C i = {}"
    if "j \<in> set js" "l = Slot j \<or> l = Slot (j + grow)" for j l
  proof -
    have "j \<noteq> i" "j < grow" "set (C i) \<inter> set (C j) = {}" using Cons.prems that by auto
    with i that(2) show ?thesis by (auto simp: links_of_def)
  qed
  have "\<forall>j \<in> set js. j < grow \<and> seg s2 (Slot j) (C j) \<and> distinct (C j) \<and> length (C j) \<le> length (syms s2)"
    using Cons.prems(1) seg_frame [OF sb apart] pl by simp
  with Cons.IH [of s2] Cons.prems pl obtain st' where st': "grow_loop grow js s2 = Inr st'"
      "same_but (\<Union>i \<in> set js. links_of grow C i) s2 st'"
      "\<forall>i \<in> set js. seg st' (Slot i) (filter (\<lambda>p. \<not> moves s2 grow p) (C i)) \<and>
                  seg st' (Slot (i + grow)) (filter (moves s2 grow) (C i))" by auto
  have sep: "insert l (NextOf ` set (C i)) \<inter> (\<Union>i \<in> set js. links_of grow C i) = {}"
    if "l = Slot i \<or> l = ?new" for l
  proof -
    have "insert l (NextOf ` set (C i)) \<inter> links_of grow C j = {}" if "j \<in> set js" for j
    proof -
      have "j \<noteq> i" "j < grow" "set (C i) \<inter> set (C j) = {}" using Cons.prems that by auto
      with i \<open>l = Slot i \<or> l = ?new\<close> show ?thesis by (auto simp: links_of_def)
    qed
    then show ?thesis by blast
  qed
  have keep: "seg st' l (filter P (C i))" if "l = Slot i \<or> l = ?new" "seg s2 l (filter P (C i))" for l P
  proof -
    have "insert l (NextOf ` set (filter P (C i))) \<inter> (\<Union>i \<in> set js. links_of grow C i) = {}"
      using sep [OF that(1)] by auto
    with seg_frame [OF st'(2)] that(2) show ?thesis by blast
  qed
  have "same_but (\<Union>i \<in> set (i # js). links_of grow C i) st st'"
    by (rule same_but_mono [OF same_but_trans [OF sb st'(2)]]) auto
  moreover have "grow_loop grow (i # js) st = Inr st'" using s2(1) st'(1) by simp
  moreover have "seg st' (Slot i) (filter (\<lambda>p. \<not> moves st grow p) (C i))"
    "seg st' ?new (filter (moves st grow) (C i))"
    using keep s2(2,3) filter_moves_payload [of ?s1 st "C i"] rng by auto
  moreover have "\<forall>j \<in> set js. seg st' (Slot j) (filter (\<lambda>p. \<not> moves st grow p) (C j)) \<and>
                  seg st' (Slot (j + grow)) (filter (moves st grow) (C j))"
    using st'(3) filter_moves_payload [OF pl(1) rng] by simp
  ultimately show ?case by auto
qed

section \<open>The invariant\<close>

definition wf_sym :: "symbol \<Rightarrow> bool" where
  "wf_sym s \<longleftrightarrow> drop (len s) (str s) = [0]"

definition names :: "symtab \<Rightarrow> 8 word list list" where
  "names st = map (\<lambda>s. take (len s) (str s)) (syms st)"

text \<open>\<open>C i\<close> is the chain of slot \<open>i\<close>, and the table has \<open>2^k\<close> slots.\<close>

definition sym_rep :: "nat \<Rightarrow> (nat \<Rightarrow> nat list) \<Rightarrow> symtab \<Rightarrow> bool" where
  "sym_rep k C st \<longleftrightarrow>
     k \<le> 31 \<and> length (ASym st) = 2 ^ k \<and> ASymSize st = 2 ^ k - 1 \<and>
     (\<forall>i < 2 ^ k. seg st (Slot i) (C i) \<and> distinct (C i)) \<and>
     (\<forall>i < 2 ^ k. \<forall>p \<in> set (C i). unat (sym_hash st p) mod 2 ^ k = i) \<and>
     (\<forall>p < length (syms st). p \<in> set (C (unat (sym_hash st p) mod 2 ^ k))) \<and>
     list_all wf_sym (syms st) \<and> distinct (names st)"

definition sym_inv :: "symtab \<Rightarrow> bool" where
  "sym_inv st \<longleftrightarrow> (\<exists>k C. sym_rep k C st)"

lemma bucket_mod: "sym_rep k C st \<Longrightarrow> bucket st h = unat h mod 2 ^ k"
proof -
  assume r: "sym_rep k C st"
  then have "ASymSize st = mask k" by (simp add: sym_rep_def mask_eq_exp_minus_1)
  then have "of_nat (ASymSize st) = (mask k :: 32 word)" by (simp only: of_nat_mask_eq)
  then have "bucket st h = take_bit k (unat h)"
    by (simp only: bucket_def take_bit_eq_mask [symmetric] unsigned_take_bit_eq)
  then show ?thesis by (simp add: take_bit_eq_mod)
qed

lemma new_bit: "k < 31 \<Longrightarrow>
  unat (h :: 32 word) mod 2 ^ Suc k = unat h mod 2 ^ k + (if h AND of_nat (2 ^ k) \<noteq> 0 then 2 ^ k else 0)"
proof -
  assume k: "k < 31"
  have "h AND of_nat (2 ^ k) \<noteq> 0 \<longleftrightarrow> bit h k" by (simp add: bit_iff_and_push_bit_not_eq_0 push_bit_of_1)
  also have "\<dots> \<longleftrightarrow> bit (unat h) k" using k by (simp add: bit_unsigned_iff)
  finally show ?thesis
    using take_bit_Suc_from_most [of k "unat h"] by (simp add: take_bit_eq_mod)
qed

lemma sym_hash_name: "wf_sym s \<Longrightarrow> AGetSymbolHashValue s = id_hash (take (len s) (str s))"
proof -
  assume w: "wf_sym s"
  define cs where "cs = take (len s) (str s)"
  have c: "str s = cs @ [0]" using w append_take_drop_id [of "len s" "str s"] by (simp add: wf_sym_def cs_def)
  moreover have "length (drop (len s) (str s)) = 1" using w by (simp add: wf_sym_def)
  ultimately have l: "len s = length cs" by (simp add: cs_def)
  show ?thesis
  proof (cases cs)
    case Nil
    with c l show ?thesis by (simp add: AGetSymbolHashValue_def id_hash_def)
  next
    case (Cons a as)
    with c l show ?thesis by (simp add: AGetSymbolHashValue_def id_hash_def hash_step_def)
  qed
qed

lemma sym_repD:
  assumes "sym_rep k C st"
  shows "k \<le> 31" "length (ASym st) = 2 ^ k" "ASymSize st = 2 ^ k - 1" "list_all wf_sym (syms st)" "distinct (names st)"
    "i < 2 ^ k \<Longrightarrow> seg st (Slot i) (C i)" "i < 2 ^ k \<Longrightarrow> distinct (C i)"
    "i < 2 ^ k \<Longrightarrow> p \<in> set (C i) \<Longrightarrow> unat (sym_hash st p) mod 2 ^ k = i"
    "p < length (syms st) \<Longrightarrow> p \<in> set (C (unat (sym_hash st p) mod 2 ^ k))"
  using assms unfolding sym_rep_def by blast+

lemma chain_short: "sym_rep k C st \<Longrightarrow> i < 2 ^ k \<Longrightarrow> length (C i) \<le> length (syms st)"
proof -
  assume "sym_rep k C st" "i < 2 ^ k"
  then have "set (C i) \<subseteq> {..<length (syms st)}" "distinct (C i)"
    using seg_range sym_repD(6,7) by blast+
  then show ?thesis
    using card_mono [of "{..<length (syms st)}" "set (C i)"] by (simp add: distinct_card)
qed

lemma name_hash: "sym_rep k C st \<Longrightarrow> p < length (syms st) \<Longrightarrow> sym_hash st p = id_hash (names st ! p)"
  using sym_repD(4) by (simp add: sym_hash_def names_def sym_hash_name list_all_length)

section \<open>Growing keeps the symbols\<close>

lemma payload_names: "payload st' = payload st \<Longrightarrow> names st' = names st"
proof -
  have "names s = map (\<lambda>(i, l, t, n). take l n) (payload s)" for s by (simp add: names_def payload_def)
  then show "payload st' = payload st \<Longrightarrow> names st' = names st" by metis
qed

lemma payload_wf: "payload st' = payload st \<Longrightarrow> list_all wf_sym (syms st') = list_all wf_sym (syms st)"
proof -
  have "list_all wf_sym (syms s) = list_all (\<lambda>(i, l, t, n). drop l n = [0]) (payload s)" for s
    by (simp add: payload_def list_all_iff wf_sym_def)
  then show "payload st' = payload st \<Longrightarrow> list_all wf_sym (syms st') = list_all wf_sym (syms st)" by metis
qed

definition split_chains :: "nat \<Rightarrow> symtab \<Rightarrow> (nat \<Rightarrow> nat list) \<Rightarrow> nat \<Rightarrow> nat list" where
  "split_chains g st C i =
     (if i < g then filter (\<lambda>p. \<not> moves st g p) (C i) else filter (moves st g) (C (i - g)))"

lemma grown_rep:
  assumes r: "sym_rep k C st" and k: "k < 31"
    and pl: "payload st' = payload st" "length (ASym st') = 2 ^ Suc k" "ASymSize st' = 2 ^ Suc k - 1"
    and sg: "\<And>i. i < 2 ^ k \<Longrightarrow> seg st' (Slot i) (filter (\<lambda>p. \<not> moves st (2 ^ k) p) (C i))"
      "\<And>i. i < 2 ^ k \<Longrightarrow> seg st' (Slot (i + 2 ^ k)) (filter (moves st (2 ^ k)) (C i))"
  shows "sym_rep (Suc k) (split_chains (2 ^ k) st C) st'"
  unfolding sym_rep_def
proof (intro conjI allI impI ballI)
  note D = sym_repD [OF r]
  have h: "sym_hash st' p = sym_hash st p" if "p < length (syms st)" for p
    using sym_hash_payload [OF pl(1) that] .
  note len = payload_length [OF pl(1)]
  show "Suc k \<le> 31" "length (ASym st') = 2 ^ Suc k" "ASymSize st' = 2 ^ Suc k - 1"
    "list_all wf_sym (syms st')" "distinct (names st')"
    using k pl D payload_wf [OF pl(1)] payload_names [OF pl(1)] by auto
  fix i :: nat assume i: "i < 2 ^ Suc k"
  let ?i = "if i < 2 ^ k then i else i - 2 ^ k"
  have i': "?i < 2 ^ k" using i by auto
  show "seg st' (Slot i) (split_chains (2 ^ k) st C i)"
    using sg(1) [of i] sg(2) [of "i - 2 ^ k"] i' by (simp add: split_chains_def split: if_splits)
  show "distinct (split_chains (2 ^ k) st C i)" using D(7) i' by (simp add: split_chains_def split: if_splits)
  fix p assume p: "p \<in> set (split_chains (2 ^ k) st C i)"
  then have "p \<in> set (C ?i)" and m: "moves st (2 ^ k) p \<longleftrightarrow> \<not> i < 2 ^ k" by (auto simp: split_chains_def split: if_splits)
  then have "unat (sym_hash st p) mod 2 ^ k = ?i" "p < length (syms st)"
    using D(8) i' seg_range [OF D(6) [OF i']] by auto
  then show "unat (sym_hash st' p) mod 2 ^ Suc k = i" using new_bit [OF k, of "sym_hash st p"] m h by auto
next
  note D = sym_repD [OF r]
  fix p assume "p < length (syms st')"
  then have p: "p < length (syms st)" using payload_length [OF pl(1)] by simp
  then have "sym_hash st' p = sym_hash st p" using sym_hash_payload [OF pl(1)] by simp
  moreover have "unat (sym_hash st p) mod 2 ^ k < 2 ^ k" by simp
  ultimately show "p \<in> set (split_chains (2 ^ k) st C (unat (sym_hash st' p) mod 2 ^ Suc k))"
    using new_bit [OF k, of "sym_hash st p"] D(9) [OF p] by (simp add: split_chains_def)
qed

lemma try_alloc_cases:
  obtains bs where "try_alloc st = (True, st\<lparr>cmem := bs\<rparr>)" "set bs \<subseteq> set (cmem st)"
  | bs where "try_alloc st = (False, st\<lparr>cmem := bs\<rparr>)" "set bs \<subseteq> set (cmem st)" "False \<in> set (cmem st)"
proof (cases "cmem st")
  case Nil
  then have "try_alloc st = (True, st\<lparr>cmem := []\<rparr>)" by (simp add: try_alloc_def)
  then show ?thesis by (rule that(1)) simp
next
  case (Cons b bs)
  then show ?thesis using that by (cases b) (auto simp: try_alloc_def)
qed

lemma sym_rep_cmem: "sym_rep k C (st\<lparr>cmem := bs\<rparr>) = sym_rep k C st"
proof -
  have "nx (st\<lparr>cmem := bs\<rparr>) = nx st" by (auto simp: nx_def split: link.splits)
  then have "seg (st\<lparr>cmem := bs\<rparr>) l ps = seg st l ps" for l ps by (intro seg_cong) simp_all
  then show ?thesis by (simp add: sym_rep_def sym_hash_def names_def)
qed

lemma sym_rep_NumSyms: "sym_rep k C (st\<lparr>NumSyms := n\<rparr>) = sym_rep k C st"
proof -
  have "nx (st\<lparr>NumSyms := n\<rparr>) = nx st" by (auto simp: nx_def split: link.splits)
  then have "seg (st\<lparr>NumSyms := n\<rparr>) l ps = seg st l ps" for l ps by (intro seg_cong) simp_all
  then show ?thesis by (simp add: sym_rep_def sym_hash_def names_def)
qed

lemma GrowSymbolTable_ok:
  assumes r: "sym_rep k C st" and k: "k < 31"
  obtains (Grown) st' where "GrowSymbolTable st = Inr (True, st')" "sym_rep (Suc k) (split_chains (2 ^ k) st C) st'"
      "payload st' = payload st" "NumSyms st' = NumSyms st" "set (cmem st') \<subseteq> set (cmem st)"
  | (Failed) bs where "GrowSymbolTable st = Inr (False, st\<lparr>cmem := bs\<rparr>)"
      "set bs \<subseteq> set (cmem st)" "False \<in> set (cmem st)"
proof -
  note D = sym_repD [OF r]
  let ?g = "2 ^ k :: nat"
  have g: "ASymSize st + 1 = ?g" using D(3) by simp
  have "(2 :: nat) ^ k \<le> 2 ^ 30" using k by (intro power_increasing) simp_all
  then have small: "\<not> ?g \<ge> 2 ^ 31" by simp
  show ?thesis
  proof (cases rule: try_alloc_cases [of st])
    case (2 bs)
    then show ?thesis
      using g small by (intro Failed [of bs]) (simp_all add: GrowSymbolTable_def AllocSymbolTable_def Let_def)
  next
    case (1 bs)
    let ?s1 = "st\<lparr>cmem := bs, ASym := take ?g (ASym st) @ drop ?g (replicate (2 * ?g) None),
                 ASymSize := ASymSize st + ?g\<rparr>"
    have seg1: "seg ?s1 (Slot i) (C i)" if "i < ?g" for i
    proof -
      have "nx ?s1 l = nx st l" if "l \<in> insert (Slot i) (NextOf ` set (C i))" for l
        using that \<open>i < ?g\<close> D(2) by (auto simp: nx_def nth_append)
      then show ?thesis using D(6) [OF that] by (subst seg_cong) simp_all
    qed
    have disj: "set (C i) \<inter> set (C j) = {}" if "i < ?g" "j < ?g" "i \<noteq> j" for i j
      using D(8) that by blast
    have all: "\<forall>i \<in> set [0..<?g]. i < ?g \<and> seg ?s1 (Slot i) (C i) \<and> distinct (C i) \<and> length (C i) \<le> length (syms ?s1)"
      using seg1 D(7) chain_short [OF r] by simp
    have "length (ASym ?s1) = 2 * ?g" using D(2) by simp
    with grow_loop_ok [OF all] disj obtain st' where st': "grow_loop ?g [0..<?g] ?s1 = Inr st'"
        "same_but (\<Union>i \<in> set [0..<?g]. links_of ?g C i) ?s1 st'"
        "\<forall>i \<in> set [0..<?g]. seg st' (Slot i) (filter (\<lambda>p. \<not> moves ?s1 ?g p) (C i)) \<and>
                  seg st' (Slot (i + ?g)) (filter (moves ?s1 ?g) (C i))" by auto
    have mv: "sym_hash ?s1 p = sym_hash st p" for p by (simp add: sym_hash_def)
    have pl: "payload st' = payload st" "length (ASym st') = 2 ^ Suc k" "ASymSize st' = 2 ^ Suc k - 1"
      "NumSyms st' = NumSyms st" "cmem st' = bs"
      using st'(2) D(2,3) by (simp_all add: same_but_def payload_def)
    have "sym_rep (Suc k) (split_chains ?g st C) st'"
      using st'(3) unfolding mv by (intro grown_rep [OF r k pl(1,2,3)]) simp_all
    moreover have "GrowSymbolTable st = Inr (True, st')"
      using 1 g small st'(1) by (simp add: GrowSymbolTable_def AllocSymbolTable_def Let_def)
    ultimately show ?thesis using 1 pl by (intro Grown [of st']) simp_all
  qed
qed

section \<open>Searching\<close>

text \<open>The specification: symbols are numbered in the order in which they were added.\<close>

definition lookup_name :: "'a list \<Rightarrow> 'a \<Rightarrow> nat option" where
  "lookup_name ns x = List.find (\<lambda>p. ns ! p = x) [0..<length ns]"

lemma lookup_name_Some: "distinct ns \<Longrightarrow> lookup_name ns x = Some p \<longleftrightarrow> p < length ns \<and> ns ! p = x"
  by (auto simp: lookup_name_def find_Some_iff nth_eq_iff_index_eq)

lemma lookup_name_None: "lookup_name ns x = None \<longleftrightarrow> x \<notin> set ns"
  by (auto simp: lookup_name_def find_None_iff in_set_conv_nth)

lemma find_loop_ok:
  assumes "seg st l ps" "length ps \<le> n" "list_all wf_sym (syms st)"
  shows "find_loop n st cs (nx st l) = Inr (List.find (\<lambda>p. names st ! p = cs) ps)"
  using assms
proof (induction ps arbitrary: l n)
  case (Cons p ps)
  obtain m where n: "n = Suc m" using Cons.prems(2) by (cases n) auto
  have p: "p < length (syms st)" "nx st l = Some p" "seg st (NextOf p) ps" using Cons.prems by auto
  have "length (drop (len (syms st ! p)) (str (syms st ! p))) = 1"
    using p Cons.prems(3) by (simp add: list_all_length wf_sym_def)
  then have "(len (syms st ! p) = length cs \<and> take (length cs) (str (syms st ! p)) = cs) = (names st ! p = cs)"
    using p by (auto simp: names_def)
  moreover have "nxt (syms st ! p) = nx st (NextOf p)" by (simp add: nx_def)
  ultimately show ?case using Cons.IH [of "NextOf p" m] Cons.prems p by (simp add: n Let_def)
qed simp

lemma AFindSymbol_ok:
  assumes r: "sym_rep k C st"
  shows "AFindSymbol cs st = Inr (lookup_name (names st) cs)"
proof -
  note D = sym_repD [OF r]
  let ?b = "unat (id_hash cs) mod 2 ^ k" and ?P = "\<lambda>p. names st ! p = cs"
  have b: "?b < 2 ^ k" "valid st (Slot ?b)" using D(2) by (simp_all add: valid_def)
  have rng: "p < length (names st)" if "p \<in> set (C ?b)" for p
    using seg_range [OF D(6) [OF b(1)]] that by (auto simp: names_def)
  have "List.find ?P (C ?b) = lookup_name (names st) cs"
  proof (cases "List.find ?P (C ?b)")
    case None
    have "cs \<notin> set (names st)"
    proof
      assume "cs \<in> set (names st)"
      then obtain p where p: "p < length (syms st)" "names st ! p = cs" by (auto simp: in_set_conv_nth names_def)
      then have "p \<in> set (C ?b)" using D(9) name_hash [OF r] by metis
      with None p show False by (simp add: find_None_iff)
    qed
    with None show ?thesis by (metis lookup_name_None)
  next
    case (Some p)
    then have "p \<in> set (C ?b)" "names st ! p = cs" by (auto simp: find_Some_iff)
    with Some rng D(5) show ?thesis by (metis lookup_name_Some)
  qed
  with b find_loop_ok [OF D(6) [OF b(1)] chain_short [OF r b(1)] D(4)] show ?thesis
    by (simp add: AFindSymbol_def bucket_mod [OF r])
qed

section \<open>Adding\<close>

fun end_link :: "link \<Rightarrow> nat list \<Rightarrow> link" where
  "end_link l [] = l"
| "end_link l (p # ps) = end_link (NextOf p) ps"

lemma end_link_in: "end_link l ps \<in> insert l (NextOf ` set ps)"
proof (induction ps arbitrary: l)
  case (Cons p ps)
  show ?case using Cons.IH [of "NextOf p"] by auto
qed simp

lemma last_link_ok:
  "seg st l ps \<Longrightarrow> valid st l \<Longrightarrow> length ps \<le> n \<Longrightarrow>
   last_link n st l = Inr (end_link l ps) \<and> valid st (end_link l ps) \<and> nx st (end_link l ps) = None"
proof (induction ps arbitrary: l n)
  case Nil
  then show ?case by (subst last_link.simps) simp
next
  case (Cons p ps)
  obtain m where "n = Suc m" using Cons.prems(3) by (cases n) auto
  with Cons.IH [of "NextOf p" m] Cons.prems show ?case by (subst last_link.simps) (simp add: valid_def)
qed

lemma seg_snoc:
  assumes "seg st l ps" "distinct ps" "l \<notin> NextOf ` set ps" "length (syms st) \<le> length (syms st')"
    and "\<And>l'. l' \<in> insert l (NextOf ` set ps) \<Longrightarrow> l' \<noteq> end_link l ps \<Longrightarrow> nx st' l' = nx st l'"
    and "nx st' (end_link l ps) = Some p" "nx st' (NextOf p) = None" "p < length (syms st')"
  shows "seg st' l (ps @ [p])"
  using assms
proof (induction ps arbitrary: l)
  case (Cons q ps)
  have "end_link (NextOf q) ps \<noteq> l" using end_link_in [of "NextOf q" ps] Cons.prems(3) by auto
  then have "nx st' l = nx st l" using Cons.prems(5) [of l] by simp
  moreover have "seg st' (NextOf q) (ps @ [p])" using Cons.prems by (intro Cons.IH) auto
  ultimately show ?case using Cons.prems(1,4) by simp
qed simp

definition add_sym :: "link \<Rightarrow> 8 word list \<Rightarrow> symtab \<Rightarrow> symtab" where
  "add_sym l cs st =
     (let st' = set_next l (Some (length (syms st))) st
      in st'\<lparr>syms := syms st' @ [\<lparr>nxt = None, info = length (syms st), len = length cs, type = TT_ID, str = cs @ [0]\<rparr>]\<rparr>)"

lemma add_sym_facts:
  assumes v: "valid st l"
  shows "length (syms (add_sym l cs st)) = Suc (length (syms st))"
    "payload (add_sym l cs st) = payload st @ [(length (syms st), length cs, TT_ID, cs @ [0])]"
    "ASymSize (add_sym l cs st) = ASymSize st" "length (ASym (add_sym l cs st)) = length (ASym st)"
    "nx (add_sym l cs st) l = Some (length (syms st))" "nx (add_sym l cs st) (NextOf (length (syms st))) = None"
    "valid st l' \<Longrightarrow> l' \<noteq> l \<Longrightarrow> nx (add_sym l cs st) l' = nx st l'"
proof -
  let ?s = "set_next l (Some (length (syms st))) st"
  have e: "add_sym l cs st = ?s\<lparr>syms := syms ?s @ [\<lparr>nxt = None, info = length (syms st), len = length cs,
      type = TT_ID, str = cs @ [0]\<rparr>]\<rparr>" (is "_ = ?a") by (simp add: add_sym_def Let_def)
  have n: "nx ?a l' = nx ?s l'" if "valid st l'" for l'
    using that length_syms_set_next [of l "Some (length (syms st))" st]
    by (cases l') (simp_all add: nx_def valid_def nth_append)
  show "length (syms (add_sym l cs st)) = Suc (length (syms st))" unfolding e by simp
  show "payload (add_sym l cs st) = payload st @ [(length (syms st), length cs, TT_ID, cs @ [0])]"
    using payload_set_next [of l "Some (length (syms st))" st] unfolding e payload_def by simp
  show "ASymSize (add_sym l cs st) = ASymSize st" "length (ASym (add_sym l cs st)) = length (ASym st)"
    using same_but_set_next [OF v, of "Some (length (syms st))"] unfolding e same_but_def by simp_all
  show "nx (add_sym l cs st) l = Some (length (syms st))" unfolding e n [OF v] using v by simp
  show "valid st l' \<Longrightarrow> l' \<noteq> l \<Longrightarrow> nx (add_sym l cs st) l' = nx st l'" unfolding e using v n by simp
  have "syms ?a ! length (syms ?s) = \<lparr>nxt = None, info = length (syms st), len = length cs,
      type = TT_ID, str = cs @ [0]\<rparr>" by (simp del: length_syms_set_next)
  then show "nx (add_sym l cs st) (NextOf (length (syms st))) = None" unfolding e nx_def by simp
qed

lemma add_sym_rep:
  assumes r: "sym_rep k C st" and cs: "cs \<notin> set (names st)"
  defines "b \<equiv> unat (id_hash cs) mod 2 ^ k"
  shows "sym_rep k (C(b := C b @ [length (syms st)])) (add_sym (end_link (Slot b) (C b)) cs st)"
    "names (add_sym (end_link (Slot b) (C b)) cs st) = names st @ [cs]"
proof -
  note D = sym_repD [OF r]
  let ?l = "end_link (Slot b) (C b)" and ?n = "length (syms st)"
  let ?st = "add_sym ?l cs st"
  have b: "b < 2 ^ k" "valid st (Slot b)" using D(2) by (simp_all add: b_def valid_def)
  have v: "valid st ?l" using last_link_ok [OF D(6) [OF b(1)] b(2)] by blast
  note A = add_sym_facts [OF v, where cs = cs]
  have vl: "valid st l" if "l \<in> insert (Slot i) (NextOf ` set (C i))" "i < 2 ^ k" for l i
    using that seg_range [OF D(6) [OF that(2)]] D(2) by (auto simp: valid_def)
  have pn: "payload ?st = payload st @ [(?n, length cs, TT_ID, cs @ [0])]" by (rule A)
  have nm: "names s = map (\<lambda>(i, l, t, n). take l n) (payload s)" for s by (simp add: names_def payload_def)
  show names: "names ?st = names st @ [cs]" unfolding nm pn by simp
  have wf: "list_all wf_sym (syms s) = list_all (\<lambda>(i, l, t, n). drop l n = [0]) (payload s)" for s
    by (simp add: payload_def list_all_iff wf_sym_def)
  have wf': "list_all wf_sym (syms ?st)" using D(4) unfolding wf pn by simp
  have len: "length (names s) = length (syms s)" for s by (simp add: names_def)
  have h: "sym_hash ?st p = id_hash (names ?st ! p)" if "p < length (syms ?st)" for p
    using wf' that by (simp add: sym_hash_def names_def sym_hash_name list_all_length)
  have h_old: "sym_hash ?st p = sym_hash st p" if "p < ?n" for p
    using that h [of p] name_hash [OF r that] A(1) unfolding names by (simp add: nth_append len)
  have h_new: "sym_hash ?st ?n = id_hash cs" using h [of ?n] A(1) unfolding names by (simp add: nth_append len)
  have other: "?l \<notin> insert (Slot i) (NextOf ` set (C i))" if "i < 2 ^ k" "i \<noteq> b" for i
  proof -
    have "set (C i) \<inter> set (C b) = {}" using D(8) that b by blast
    with end_link_in [of "Slot b" "C b"] that show ?thesis by auto
  qed
  have old: "seg ?st (Slot i) (C i)" if i: "i < 2 ^ k" "i \<noteq> b" for i
  proof -
    have "nx ?st l = nx st l" if "l \<in> insert (Slot i) (NextOf ` set (C i))" for l
      using A(7) [OF vl [OF that i(1)]] other [OF i] that by blast
    from seg_mono [OF D(6) [OF i(1)] this] show ?thesis using A(1) by simp
  qed
  have new: "seg ?st (Slot b) (C b @ [?n])"
  proof (rule seg_snoc [OF D(6) [OF b(1)] D(7) [OF b(1)]])
    show "nx ?st l' = nx st l'" if "l' \<in> insert (Slot b) (NextOf ` set (C b))" "l' \<noteq> ?l" for l'
      using A(7) [OF vl [OF that(1) b(1)] that(2)] .
  qed (use A in auto)
  show "sym_rep k (C(b := C b @ [?n])) ?st"
    unfolding sym_rep_def
  proof (intro conjI allI impI ballI)
    show "k \<le> 31" "length (ASym ?st) = 2 ^ k" "ASymSize ?st = 2 ^ k - 1" "list_all wf_sym (syms ?st)"
      "distinct (names ?st)" using D A wf' cs names by auto
    fix i :: nat assume i: "i < 2 ^ k"
    show "seg ?st (Slot i) ((C(b := C b @ [?n])) i)" using old new i by simp
    show "distinct ((C(b := C b @ [?n])) i)" using D(7) i seg_range [OF D(6) [OF i]] by auto
    fix p assume "p \<in> set ((C(b := C b @ [?n])) i)"
    then have "p \<in> set (C i) \<and> p < ?n \<or> p = ?n \<and> i = b"
      using seg_range [OF D(6) [OF i]] by (auto split: if_splits)
    then show "unat (sym_hash ?st p) mod 2 ^ k = i" using D(8) [OF i, of p] h_old h_new b_def by auto
  next
    fix p assume "p < length (syms ?st)"
    then have "p < ?n \<or> p = ?n" using A(1) by auto
    then show "p \<in> set ((C(b := C b @ [?n])) (unat (sym_hash ?st p) mod 2 ^ k))"
      using D(9) [of p] h_old h_new b_def by auto
  qed
qed

definition step_ok :: "8 word list \<Rightarrow> symtab \<Rightarrow> nat option \<times> symtab \<Rightarrow> bool" where
  "step_ok cs st r \<longleftrightarrow>
     sym_inv (snd r) \<and> set (cmem (snd r)) \<subseteq> set (cmem st) \<and> NumSyms (snd r) \<le> NumSyms st + 1 \<and>
     (case fst r of
        Some p \<Rightarrow> p = length (names st) \<and> names (snd r) = names st @ [cs]
      | None \<Rightarrow> names (snd r) = names st \<and> False \<in> set (cmem st))"

lemma append_symbol_ok:
  assumes r: "sym_rep k C st" and cs: "cs \<notin> set (names st)"
  shows "\<exists>r. append_symbol (id_hash cs) cs st = Inr r \<and> step_ok cs st r \<and> NumSyms (snd r) = NumSyms st
    \<and> ASymSize (snd r) = ASymSize st"
proof -
  note D = sym_repD [OF r]
  let ?b = "unat (id_hash cs) mod 2 ^ k" and ?n = "length (syms st)"
  let ?l = "end_link (Slot ?b) (C ?b)"
  have b: "?b < 2 ^ k" "valid st (Slot ?b)" using D(2) by (simp_all add: valid_def)
  have ll: "last_link (length (syms st)) st (Slot ?b) = Inr ?l" "valid st ?l" "nx st ?l = None"
    using last_link_ok [OF D(6) [OF b(1)] b(2) chain_short [OF r b(1)]] by auto
  show ?thesis
  proof (cases rule: try_alloc_cases [of st])
    case (1 bs)
    let ?st = "add_sym ?l cs (st\<lparr>cmem := bs\<rparr>)"
    have e: "append_symbol (id_hash cs) cs st = Inr (Some ?n, ?st)"
      using ll 1 by (simp add: append_symbol_def bucket_mod [OF r] add_sym_def Let_def)
    have nm: "names (st\<lparr>cmem := bs\<rparr>) = names st" "length (syms (st\<lparr>cmem := bs\<rparr>)) = ?n" by (simp_all add: names_def)
    have "sym_inv ?st" "names ?st = names st @ [cs]"
      using add_sym_rep [of k C "st\<lparr>cmem := bs\<rparr>" cs] r cs nm unfolding sym_inv_def sym_rep_cmem by auto
    moreover have "cmem ?st = bs" "NumSyms ?st = NumSyms st" "ASymSize ?st = ASymSize st"
      by (simp_all add: add_sym_def Let_def set_next_def split: link.splits)
    moreover have "length (names st) = ?n" by (simp add: names_def)
    ultimately show ?thesis using e 1(2) by (simp add: step_ok_def)
  next
    case (2 bs)
    let ?s = "st\<lparr>cmem := bs\<rparr>"
    have n: "nx ?s ?l = None" using ll(3) by (simp add: nx_def split: link.splits)
    have same: "set_next ?l None ?s = ?s"
    proof (cases ?l)
      case (Slot i)
      with n list_update_id [of "ASym st" i] show ?thesis by (simp add: set_next_def nx_def)
    next
      case (NextOf p)
      with n have "(syms ?s ! p)\<lparr>nxt := None\<rparr> = syms ?s ! p" by (simp add: nx_def)
      with NextOf show ?thesis by (simp add: set_next_def)
    qed
    have "append_symbol (id_hash cs) cs st = Inr (None, ?s)"
      using ll 2 same by (simp add: append_symbol_def bucket_mod [OF r])
    moreover have "sym_inv ?s" using r sym_rep_cmem unfolding sym_inv_def by blast
    ultimately show ?thesis using 2 by (simp add: step_ok_def names_def)
  qed
qed

lemma AAddSymbol_ok:
  assumes inv: "sym_inv st" and cs: "cs \<notin> set (names st)" and n: "NumSyms st < 2 ^ 30"
  shows "\<exists>r. AAddSymbol (id_hash cs) cs st = Inr r \<and> step_ok cs st r"
proof -
  obtain k C where "sym_rep k C st" using inv by (auto simp: sym_inv_def)
  then have r: "sym_rep k C (st\<lparr>NumSyms := NumSyms st + 1\<rparr>)" (is "sym_rep k C ?s") by (simp only: sym_rep_NumSyms)
  have nm: "names ?s = names st" "cmem ?s = cmem st" by (simp_all add: names_def)
  show ?thesis
  proof (cases "NumSyms st = ASymSize st")
    case False
    from append_symbol_ok [OF r, of cs] cs nm obtain x where
      "append_symbol (id_hash cs) cs ?s = Inr x" "step_ok cs ?s x" "NumSyms (snd x) = NumSyms st + 1" by auto
    with False nm show ?thesis by (auto simp: AAddSymbol_def step_ok_def split: option.splits)
  next
    case True
    have k: "k < 31"
    proof (rule ccontr)
      assume "\<not> k < 31"
      then have "k = 31" using sym_repD(1) [OF r] by simp
      then show False using sym_repD(3) [OF r] True n by simp
    qed
    show ?thesis
    proof (cases rule: GrowSymbolTable_ok [OF r k])
      case Grown: (1 st')
      have "names st' = names st" using payload_names [OF Grown(3)] nm by simp
      with append_symbol_ok [OF Grown(2), of cs] cs obtain x where
        "append_symbol (id_hash cs) cs st' = Inr x" "step_ok cs st' x" "NumSyms (snd x) = NumSyms st'" by auto
      with Grown True \<open>names st' = names st\<close> show ?thesis
        by (auto simp: AAddSymbol_def step_ok_def split: option.splits)
    next
      case Failed: (2 bs)
      have "sym_inv (?s\<lparr>cmem := bs\<rparr>)" using r sym_rep_cmem unfolding sym_inv_def by blast
      with Failed True nm show ?thesis by (simp add: AAddSymbol_def step_ok_def names_def)
    qed
  qed
qed

section \<open>Properties\<close>

lemma initial_rep: "InitialTable st0 = Some st \<Longrightarrow> syms st0 = [] \<Longrightarrow>
  sym_inv st \<and> names st = [] \<and> NumSyms st = 0 \<and> set (cmem st) \<subseteq> set (cmem st0)"
proof -
  assume i: "InitialTable st0 = Some st" "syms st0 = []"
  obtain bs where st: "st = st0\<lparr>cmem := bs, ASym := replicate 512 None, ASymSize := 511, NumSyms := 0\<rparr>"
      "set bs \<subseteq> set (cmem st0)"
    using i by (cases rule: try_alloc_cases [of st0])
      (auto simp: InitialTable_def AllocSymbolTable_def SYMBOL_TABLE_INITIAL_SIZE_def)
  have "sym_rep 9 (\<lambda>_. []) st" using i(2) unfolding st by (simp add: sym_rep_def nx_def names_def)
  then show ?thesis using st i(2) unfolding sym_inv_def by (auto simp: names_def)
qed

text \<open>
  Looking up or creating a symbol keeps the table well formed, at every size of the table
  and whichever allocation fails.  A name that is in the table gives the symbol it was added as
  and changes nothing; another name gets the next symbol, or the call reports a failure, which
  only happens when an allocation failed, and the table holds the same symbols as before.
\<close>

theorem get_symbol_step:
  assumes "sym_inv st" "NumSyms st < 2 ^ 30"
  shows "\<exists>r st'. AGetSymbol cs st = Inr (r, st') \<and> sym_inv st' \<and>
    (case lookup_name (names st) cs of
       Some p \<Rightarrow> r = Some p \<and> st' = st
     | None \<Rightarrow> r = Some (length (names st)) \<and> names st' = names st @ [cs] \<or>
               r = None \<and> names st' = names st \<and> False \<in> set (cmem st))"
proof -
  obtain k C where r: "sym_rep k C st" using assms by (auto simp: sym_inv_def)
  show ?thesis
  proof (cases "lookup_name (names st) cs")
    case None
    then obtain x where x: "AAddSymbol (id_hash cs) cs st = Inr x" "step_ok cs st x"
      using AAddSymbol_ok [OF assms(1) _ assms(2), of cs] by (auto simp: lookup_name_None)
    with None show ?thesis
      by (intro exI [of _ "fst x"] exI [of _ "snd x"])
        (auto simp: AGetSymbol_def AFindSymbol_ok [OF r] step_ok_def split: option.splits)
  qed (use assms in \<open>simp add: AGetSymbol_def AFindSymbol_ok [OF r]\<close>)
qed

theorem get_symbol_step_witness:
  "\<exists>st'. AGetSymbol [105, 102] \<lparr>ASym = [None], ASymSize = 0, NumSyms = 0, syms = [], cmem = [True, True]\<rparr> = Inr (Some 0, st') \<and>
    sym_inv st' \<and> names st' = [[105, 102]]"
proof -
  let ?st = "\<lparr>ASym = [None], ASymSize = 0, NumSyms = 0, syms = [], cmem = [True, True]\<rparr>"
  have "sym_rep 0 (\<lambda>_. []) ?st" by (simp add: sym_rep_def nx_def names_def)
  then have "sym_inv ?st" unfolding sym_inv_def by blast
  from get_symbol_step [OF this, of "[105, 102]"] show ?thesis by (simp add: names_def lookup_name_def)
qed

text \<open>A run of the tokenizer or of the module loader asks for one symbol after another.\<close>

fun get_symbols :: "8 word list list \<Rightarrow> symtab \<Rightarrow> aerror + (nat option list \<times> symtab)" where
  "get_symbols [] st = Inr ([], st)"
| "get_symbols (cs # css) st =
     (case AGetSymbol cs st of
        Inl e \<Rightarrow> Inl e
      | Inr (r, st) \<Rightarrow> (case get_symbols css st of Inl e \<Rightarrow> Inl e | Inr (rs, st) \<Rightarrow> Inr (r # rs, st)))"

lemma get_symbol_total:
  assumes "sym_inv st" "NumSyms st < 2 ^ 30" "False \<notin> set (cmem st)"
  shows "\<exists>p st'. AGetSymbol cs st = Inr (Some p, st') \<and> sym_inv st' \<and> NumSyms st' \<le> NumSyms st + 1 \<and>
    False \<notin> set (cmem st') \<and> set (names st') = insert cs (set (names st)) \<and> p < length (names st') \<and>
    names st' ! p = cs \<and> (\<exists>zs. names st' = names st @ zs)"
proof -
  obtain k C where r: "sym_rep k C st" using assms by (auto simp: sym_inv_def)
  show ?thesis
  proof (cases "lookup_name (names st) cs")
    case None
    then have cs: "cs \<notin> set (names st)" by (simp add: lookup_name_None)
    from AAddSymbol_ok [OF assms(1) cs assms(2)] obtain x where
      x: "AAddSymbol (id_hash cs) cs st = Inr x" "step_ok cs st x" by blast
    obtain a st' where "x = (a, st')" by fastforce
    with x None cs assms show ?thesis
      by (auto simp: AGetSymbol_def AFindSymbol_ok [OF r] step_ok_def nth_append split: option.splits)
  next
    case (Some p)
    moreover have "distinct (names st)" by (rule sym_repD(5) [OF r])
    ultimately have p: "p < length (names st)" "names st ! p = cs" by (simp_all add: lookup_name_Some)
    moreover have "cs \<in> set (names st)" using p nth_mem by blast
    ultimately show ?thesis using assms Some by (simp add: AGetSymbol_def AFindSymbol_ok [OF r] insert_absorb)
  qed
qed

lemma get_symbols_ok:
  assumes "sym_inv st" "NumSyms st + length css < 2 ^ 30" "False \<notin> set (cmem st)"
  shows "\<exists>ps st'. get_symbols css st = Inr (map Some ps, st') \<and> sym_inv st' \<and> length ps = length css \<and>
    set (names st') = set css \<union> set (names st) \<and> (\<exists>zs. names st' = names st @ zs) \<and>
    (\<forall>i < length css. ps ! i < length (names st') \<and> names st' ! (ps ! i) = css ! i)"
  using assms
proof (induction css arbitrary: st)
  case Nil
  then show ?case by simp
next
  case (Cons cs css)
  from get_symbol_total [of st cs] Cons.prems obtain p s1 where s1:
    "AGetSymbol cs st = Inr (Some p, s1)" "sym_inv s1" "NumSyms s1 \<le> NumSyms st + 1" "False \<notin> set (cmem s1)"
    "set (names s1) = insert cs (set (names st))" "p < length (names s1)" "names s1 ! p = cs" "\<exists>zs. names s1 = names st @ zs"
    by auto
  from Cons.IH [of s1] s1(2,3,4) Cons.prems(2) obtain ps st' where st':
    "get_symbols css s1 = Inr (map Some ps, st')" "sym_inv st'" "length ps = length css"
    "set (names st') = set css \<union> set (names s1)" "\<exists>zs. names st' = names s1 @ zs"
    "\<forall>i < length css. ps ! i < length (names st') \<and> names st' ! (ps ! i) = css ! i" by auto
  have "p < length (names st') \<and> names st' ! p = cs" using st'(5) s1(6,7) by (auto simp: nth_append)
  with st'(6) have "\<forall>i < length (cs # css). (p # ps) ! i < length (names st') \<and> names st' ! ((p # ps) ! i) = (cs # css) ! i"
    by (simp add: nth_Cons split: nat.splits)
  moreover have "get_symbols (cs # css) st = Inr (map Some (p # ps), st')" using s1(1) st'(1) by simp
  moreover have "\<exists>zs. names st' = names st @ zs" using st'(5) s1(8) by auto
  moreover have "set (names st') = set (cs # css) \<union> set (names st)" using st'(4) s1(5) by simp
  moreover have "length (p # ps) = length (cs # css)" using st'(3) by simp
  ultimately show ?case using st'(2) by blast
qed

text \<open>
  C4: Symbols are interned.  Starting from the initial table, any sequence of requests without a
  failed allocation returns one symbol per request; two requests return the same symbol exactly
  when they have the same name.  Afterwards a search finds every requested name as the symbol
  returned for it, and no other name, whatever growth the table went through.
\<close>

theorem symbols_interned:
  assumes "InitialTable st0 = Some st" "syms st0 = []" "False \<notin> set (cmem st0)" "length css < 2 ^ 30"
  shows "\<exists>ps st'. get_symbols css st = Inr (map Some ps, st') \<and> length ps = length css \<and>
    (\<forall>i < length css. \<forall>j < length css. ps ! i = ps ! j \<longleftrightarrow> css ! i = css ! j) \<and>
    (\<forall>i < length css. AFindSymbol (css ! i) st' = Inr (Some (ps ! i))) \<and>
    (\<forall>cs. cs \<notin> set css \<longrightarrow> AFindSymbol cs st' = Inr None)"
proof -
  note i = initial_rep [OF assms(1,2)]
  from get_symbols_ok [of st css] i assms(3,4) obtain ps st' where st':
    "get_symbols css st = Inr (map Some ps, st')" "sym_inv st'" "length ps = length css"
    "set (names st') = set css"
    "\<forall>i < length css. ps ! i < length (names st') \<and> names st' ! (ps ! i) = css ! i" by auto
  then obtain k C where r: "sym_rep k C st'" by (auto simp: sym_inv_def)
  have d: "distinct (names st')" by (rule sym_repD(5) [OF r])
  have "ps ! i = ps ! j \<longleftrightarrow> css ! i = css ! j" if "i < length css" "j < length css" for i j
    using that st'(5) d by (metis nth_eq_iff_index_eq)
  moreover have "AFindSymbol (css ! i) st' = Inr (Some (ps ! i))" if "i < length css" for i
    using that st'(5) lookup_name_Some [OF d, of "css ! i" "ps ! i"] by (simp add: AFindSymbol_ok [OF r])
  moreover have "AFindSymbol cs st' = Inr None" if "cs \<notin> set css" for cs
    using that st'(4) lookup_name_None [of "names st'" cs] by (simp add: AFindSymbol_ok [OF r])
  ultimately show ?thesis using st'(1,3) by blast
qed

theorem symbols_interned_witness:
  "\<exists>st ps st'. InitialTable \<lparr>ASym = [], ASymSize = 0, NumSyms = 0, syms = [], cmem = []\<rparr> = Some st \<and>
    get_symbols [[105, 102], [105], [105, 102]] st = Inr (map Some ps, st') \<and> ps ! 0 = ps ! 2 \<and> ps ! 0 \<noteq> ps ! 1"
proof -
  let ?s0 = "\<lparr>ASym = [], ASymSize = 0, NumSyms = 0, syms = [], cmem = []\<rparr>"
  obtain st where st: "InitialTable ?s0 = Some st"
    by (simp add: InitialTable_def AllocSymbolTable_def try_alloc_def)
  from symbols_interned [OF st, of "[[105, 102], [105], [105, 102]]"] obtain ps st' where
    g: "get_symbols [[105, 102], [105], [105, 102]] st = Inr (map Some ps, st')"
      "\<forall>i < 3. \<forall>j < 3. ps ! i = ps ! j \<longleftrightarrow> [[105, 102], [105], [105, 102]] ! i = [[105, 102], [105], [105, 102 :: 8 word]] ! j"
    by auto
  have "ps ! 0 = ps ! 2" "ps ! 0 \<noteq> ps ! 1" using g(2) [rule_format, of 0 2] g(2) [rule_format, of 0 1] by simp_all
  with st g(1) show ?thesis by blast
qed

text \<open>
  The count of symbols is incremented before the table grows.  When the growth fails the
  count is past the size, the test for growth is never true again, and from then on the table
  keeps its size whatever is added.
\<close>

theorem failed_growth_is_final:
  assumes inv: "sym_inv st" and n: "NumSyms st = ASymSize st" and a: "cmem st = False # bs"
    and small: "ASymSize st < 2 ^ 30" and hash: "cs \<notin> set (names st)"
  shows "\<exists>st1. AAddSymbol (id_hash cs) cs st = Inr (None, st1) \<and> ASymSize st1 < NumSyms st1 \<and>
    (\<forall>st2 ds. sym_inv st2 \<and> ASymSize st2 < NumSyms st2 \<and> ds \<notin> set (names st2) \<longrightarrow>
       (\<exists>r st3. AAddSymbol (id_hash ds) ds st2 = Inr (r, st3) \<and>
          ASymSize st3 = ASymSize st2 \<and> ASymSize st3 < NumSyms st3))"
proof -
  let ?s = "st\<lparr>NumSyms := NumSyms st + 1\<rparr>"
  have "GrowSymbolTable ?s = Inr (False, ?s\<lparr>cmem := bs\<rparr>)"
    using a small by (simp add: GrowSymbolTable_def AllocSymbolTable_def try_alloc_def Let_def)
  then have "AAddSymbol (id_hash cs) cs st = Inr (None, ?s\<lparr>cmem := bs\<rparr>)" using n by (simp add: AAddSymbol_def)
  moreover have "\<exists>r st3. AAddSymbol (id_hash ds) ds st2 = Inr (r, st3) \<and>
          ASymSize st3 = ASymSize st2 \<and> ASymSize st3 < NumSyms st3"
    if i: "sym_inv st2" and l: "ASymSize st2 < NumSyms st2" and d: "ds \<notin> set (names st2)" for st2 ds
  proof -
    let ?t = "st2\<lparr>NumSyms := NumSyms st2 + 1\<rparr>"
    obtain k C where "sym_rep k C st2" using i by (auto simp: sym_inv_def)
    then have r: "sym_rep k C ?t" by (simp only: sym_rep_NumSyms)
    have "ds \<notin> set (names ?t)" using d by (simp add: names_def)
    from append_symbol_ok [OF r this] obtain x where
      "append_symbol (id_hash ds) ds ?t = Inr x" "NumSyms (snd x) = NumSyms ?t" "ASymSize (snd x) = ASymSize ?t" by blast
    with l show ?thesis
      by (intro exI [of _ "fst x"] exI [of _ "snd x"]) (simp add: AAddSymbol_def)
  qed
  ultimately show ?thesis using n by auto
qed

theorem failed_growth_is_final_witness:
  "\<exists>st1. AAddSymbol (id_hash [105]) [105] \<lparr>ASym = [None], ASymSize = 0, NumSyms = 0, syms = [], cmem = [False]\<rparr>
     = Inr (None, st1) \<and> ASymSize st1 < NumSyms st1"
proof -
  let ?st = "\<lparr>ASym = [None], ASymSize = 0, NumSyms = 0, syms = [], cmem = [False]\<rparr>"
  have "sym_rep 0 (\<lambda>_. []) ?st" by (simp add: sym_rep_def nx_def names_def)
  then have "sym_inv ?st" unfolding sym_inv_def by blast
  from failed_growth_is_final [OF this, of "[]" "[105]"] show ?thesis by (auto simp: names_def)
qed

end
