(* ===== verification/Hash_Value.thy ===== *)
theory Hash_Value
  imports Long_Int
begin

text \<open>
  Identity based hash values (\<^verbatim>\<open>src/src/std_hashvalue.c\<close>): the value that \<^verbatim>\<open>std::Hash\<close> returns for
  an object without a \<^verbatim>\<open>_hash\<close> method.  Objects move from the nursery to the old generation
  when the collector runs, so hash values are kept in two tables that map addresses to values,
  one for each generation.  A static allocation may run the collector first; the outcomes of
  the allocations to come, with the new address of each nursery object that is alive, are part
  of the state, as is the object the caller holds (\<open>root\<close>), which the collector updates.  Sizes and
  counts, C \<^verbatim>\<open>int\<close>s in the code, are assumed to stay below 2^31.
\<close>

section \<open>State\<close>

record hnode =
  node_ptr :: nat
  hashValue :: avalue

record htable =
  buckets :: "hnode list list"
  tsize :: nat
  num :: nat

datatype static_outcome = StaticFail | StaticBlock | StaticMoved "nat \<Rightarrow> nat option"

record idhash =
  HashValueCounter :: "64 word"
  NewGenTable :: htable
  OldGenTable :: htable
  HashFreeList :: nat
  nursery :: "nat \<times> nat"
  root :: nat
  outcomes :: "static_outcome list"

definition INITIAL_HASH_MAPPING_TABLE_SIZE :: nat where
  "INITIAL_HASH_MAPPING_TABLE_SIZE = 128"

definition HASH_NODE_BUCKET_SIZE :: nat where
  "HASH_NODE_BUCKET_SIZE = 64"

definition AIsInNursery :: "idhash \<Rightarrow> nat \<Rightarrow> bool" where
  "AIsInNursery st p = (fst (nursery st) \<le> p \<and> p < snd (nursery st))"

definition PtrHashValue :: "nat \<Rightarrow> nat" where
  "PtrHashValue p = drop_bit 3 p"

definition bucket_of :: "nat \<Rightarrow> nat \<Rightarrow> nat" where
  "bucket_of n p = PtrHashValue p AND (n - 1)"

section \<open>Tables\<close>

fun chain_find :: "nat \<Rightarrow> hnode list \<Rightarrow> avalue option" where
  "chain_find a [] = None"
| "chain_find a (n # ns) = (if node_ptr n = a then Some (hashValue n) else chain_find a ns)"

definition GetHashMapping :: "htable \<Rightarrow> nat \<Rightarrow> avalue option" where
  "GetHashMapping t a = chain_find a (buckets t ! bucket_of (tsize t) a)"

text \<open>Link a node at the head of its chain.\<close>

definition push_node :: "nat \<Rightarrow> hnode list list \<Rightarrow> hnode \<Rightarrow> hnode list list" where
  "push_node n bs x = bs[bucket_of n (node_ptr x) := x # bs ! bucket_of n (node_ptr x)]"

definition rehash_table :: "htable \<Rightarrow> htable" where
  "rehash_table t =
     (let newSize = tsize t * 2
      in t\<lparr>buckets := foldl (foldl (push_node newSize)) (replicate newSize []) (buckets t), tsize := newSize\<rparr>)"

section \<open>Collection\<close>

text \<open>
  The nodes of the nursery move to the old generation, with their new address.  The nodes of
  dead objects are not linked anywhere.
\<close>

definition move_node :: "(nat \<Rightarrow> nat option) \<Rightarrow> nat \<Rightarrow> hnode list list \<Rightarrow> hnode \<Rightarrow> hnode list list" where
  "move_node fwd n bs x =
     (case fwd (node_ptr x) of
        None \<Rightarrow> bs
      | Some oldAddress \<Rightarrow> push_node n bs (x\<lparr>node_ptr := oldAddress\<rparr>))"

definition AMoveNewGenHashMappingsToOldGen :: "(nat \<Rightarrow> nat option) \<Rightarrow> idhash \<Rightarrow> idhash" where
  "AMoveNewGenHashMappingsToOldGen fwd st =
     (let nt = NewGenTable st; ot = OldGenTable st
      in st\<lparr>NewGenTable := nt\<lparr>buckets := map (\<lambda>_. []) (buckets nt), num := 0\<rparr>,
            OldGenTable := ot\<lparr>buckets := foldl (foldl (move_node fwd (tsize ot))) (buckets ot) (buckets nt),
                              num := num ot + num nt\<rparr>\<rparr>)"

definition ASweepOldGenHashMappings :: "(nat \<Rightarrow> bool) \<Rightarrow> idhash \<Rightarrow> idhash" where
  "ASweepOldGenHashMappings marked st =
     (let t = OldGenTable st; dead = filter (\<lambda>n. \<not> marked (node_ptr n)) (concat (buckets t))
      in st\<lparr>OldGenTable := t\<lparr>buckets := map (filter (\<lambda>n. marked (node_ptr n))) (buckets t)\<rparr>,
            HashFreeList := HashFreeList st + length dead\<rparr>)"

text \<open>A static allocation, and what the collector does to the caller's object.\<close>

definition move_root :: "(nat \<Rightarrow> nat option) \<Rightarrow> idhash \<Rightarrow> idhash" where
  "move_root fwd st =
     (if AIsInNursery st (root st) then st\<lparr>root := (case fwd (root st) of None \<Rightarrow> root st | Some a \<Rightarrow> a)\<rparr> else st)"

definition AAllocStatic :: "idhash \<Rightarrow> bool \<times> idhash" where
  "AAllocStatic st =
     (case outcomes st of
        [] \<Rightarrow> (True, st)
      | StaticFail # os \<Rightarrow> (False, st\<lparr>outcomes := os\<rparr>)
      | StaticBlock # os \<Rightarrow> (True, st\<lparr>outcomes := os\<rparr>)
      | StaticMoved fwd # os \<Rightarrow>
          (True, move_root fwd (AMoveNewGenHashMappingsToOldGen fwd (st\<lparr>outcomes := os\<rparr>))))"

section \<open>Hash values\<close>

text \<open>A node from the free list, which is refilled first when it is empty.\<close>

definition take_node :: "nat \<Rightarrow> idhash \<Rightarrow> hnode \<times> idhash" where
  "take_node p st =
     (\<lparr>node_ptr = p, hashValue = AIntToValue (HashValueCounter st)\<rparr>,
      st\<lparr>HashFreeList := HashFreeList st - 1, HashValueCounter := HashValueCounter st + 1\<rparr>)"

definition AllocNode :: "nat \<Rightarrow> idhash \<Rightarrow> hnode option \<times> idhash" where
  "AllocNode p st =
     (if HashFreeList st \<noteq> 0 then (case take_node p st of (n, st) \<Rightarrow> (Some n, st))
      else (case AAllocStatic st of
              (False, st) \<Rightarrow> (None, st)
            | (True, st) \<Rightarrow>
                (case take_node p (st\<lparr>HashFreeList := HashFreeList st + HASH_NODE_BUCKET_SIZE\<rparr>) of
                   (n, st) \<Rightarrow> (Some n, st))))"

definition FreeNode :: "idhash \<Rightarrow> idhash" where
  "FreeNode st = st\<lparr>HashFreeList := HashFreeList st + 1\<rparr>"

text \<open>\<open>young\<close> tells which of the two tables the pointer \<^verbatim>\<open>table\<close> refers to.\<close>

definition the_table :: "bool \<Rightarrow> idhash \<Rightarrow> htable" where
  "the_table young st = (if young then NewGenTable st else OldGenTable st)"

definition set_table :: "bool \<Rightarrow> htable \<Rightarrow> idhash \<Rightarrow> idhash" where
  "set_table young t st = (if young then st\<lparr>NewGenTable := t\<rparr> else st\<lparr>OldGenTable := t\<rparr>)"

definition GrowHashTable :: "bool \<Rightarrow> idhash \<Rightarrow> bool \<times> idhash" where
  "GrowHashTable young st =
     (case AAllocStatic st of
        (False, st) \<Rightarrow> (False, st)
      | (True, st) \<Rightarrow> (True, set_table young (rehash_table (the_table young st)) st))"

text \<open>The table grows when it has more nodes than chains.\<close>

definition grow_if_full :: "bool \<Rightarrow> idhash \<Rightarrow> bool \<times> idhash" where
  "grow_if_full young st =
     (if num (the_table young st) > tsize (the_table young st) then GrowHashTable young st else (True, st))"

definition insert_node :: "bool \<Rightarrow> hnode \<Rightarrow> idhash \<Rightarrow> idhash" where
  "insert_node young n st =
     (let t = the_table young st
      in set_table young (t\<lparr>buckets := push_node (tsize t) (buckets t) n, num := num t + 1\<rparr>) st)"

text \<open>
  The hash value of the caller's object.  The call starts over when the object moved; an
  object of the old generation does not move, so two rounds are enough.
\<close>

fun GetIdHash_rounds :: "nat \<Rightarrow> idhash \<Rightarrow> (aerror + avalue) \<times> idhash" where
  "GetIdHash_rounds 0 st = (Inl NonTermination, st)"
| "GetIdHash_rounds (Suc rounds) st =
     (let p = root st; young = AIsInNursery st p
      in case GetHashMapping (the_table young st) p of
           Some h \<Rightarrow> (Inr h, st)
         | None \<Rightarrow>
             (case AllocNode p st of
                (None, st) \<Rightarrow> (Inl MemoryError, st)
              | (Some n, st) \<Rightarrow>
                  (case grow_if_full young st of
                     (False, st) \<Rightarrow> (Inl MemoryError, FreeNode st)
                   | (True, st) \<Rightarrow>
                       if p \<noteq> root st then GetIdHash_rounds rounds (FreeNode st)
                       else (Inr (hashValue n), insert_node young n st))))"

definition AGetIdHashValue :: "idhash \<Rightarrow> (aerror + avalue) \<times> idhash" where
  "AGetIdHashValue st = GetIdHash_rounds 2 st"

section \<open>Initialisation\<close>

text \<open>The result of the allocation is not checked: a null pointer is written through.\<close>

definition InitializeTable :: "idhash \<Rightarrow> aerror + (htable \<times> idhash)" where
  "InitializeTable st =
     (case AAllocStatic st of
        (False, _) \<Rightarrow> Inl UndefinedBehaviour
      | (True, st) \<Rightarrow>
          Inr (\<lparr>buckets = replicate INITIAL_HASH_MAPPING_TABLE_SIZE [], tsize = INITIAL_HASH_MAPPING_TABLE_SIZE,
                num = 0\<rparr>, st))"

definition AInitializeHashValueMapping :: "idhash \<Rightarrow> aerror + idhash" where
  "AInitializeHashValueMapping st =
     (case InitializeTable (st\<lparr>HashValueCounter := 1\<rparr>) of
        Inl e \<Rightarrow> Inl e
      | Inr (nt, st) \<Rightarrow>
          (case InitializeTable (st\<lparr>NewGenTable := nt\<rparr>) of
             Inl e \<Rightarrow> Inl e
           | Inr (ot, st) \<Rightarrow> Inr (st\<lparr>OldGenTable := ot\<rparr>)))"

section \<open>Tables hold their nodes in the right chain\<close>

definition nodes :: "htable \<Rightarrow> hnode list" where
  "nodes t = concat (buckets t)"

definition good_buckets :: "nat \<Rightarrow> hnode list list \<Rightarrow> bool" where
  "good_buckets n bs \<longleftrightarrow>
     (\<exists>k. n = 2 ^ k) \<and> length bs = n \<and> (\<forall>i < n. \<forall>x \<in> set (bs ! i). bucket_of n (node_ptr x) = i)"

definition tab_ok :: "htable \<Rightarrow> bool" where
  "tab_ok t \<longleftrightarrow> good_buckets (tsize t) (buckets t) \<and> distinct (map node_ptr (nodes t))"

lemma bucket_of_less: "good_buckets n bs \<Longrightarrow> bucket_of n p < length bs"
proof -
  assume "good_buckets n bs"
  then obtain k where k: "n = 2 ^ k" "length bs = n" by (auto simp: good_buckets_def)
  have "bucket_of n p = take_bit k (PtrHashValue p)"
    by (simp add: bucket_of_def k take_bit_eq_mask mask_eq_exp_minus_1)
  with k show ?thesis by simp
qed

lemma chain_find_iff:
  "distinct (map node_ptr ns) \<Longrightarrow>
   chain_find a ns = Some h \<longleftrightarrow> (\<exists>x \<in> set ns. node_ptr x = a \<and> hashValue x = h)"
proof (induction ns)
  case (Cons x ns)
  show ?case
  proof (cases "node_ptr x = a")
    case True
    then have "\<forall>y \<in> set ns. node_ptr y \<noteq> a" using Cons.prems by (auto simp: image_iff)
    with True show ?thesis by auto
  qed (use Cons in auto)
qed simp

lemma distinct_chain: "distinct (map f (concat bs)) \<Longrightarrow> i < length bs \<Longrightarrow> distinct (map f (bs ! i))"
proof (induction bs arbitrary: i)
  case (Cons b bs)
  then show ?case by (cases i) auto
qed simp

lemma GetHashMapping_iff:
  assumes "tab_ok t"
  shows "GetHashMapping t a = Some h \<longleftrightarrow> (\<exists>x \<in> set (nodes t). node_ptr x = a \<and> hashValue x = h)"
proof -
  let ?i = "bucket_of (tsize t) a"
  have g: "good_buckets (tsize t) (buckets t)" and d: "distinct (map node_ptr (concat (buckets t)))"
    using assms by (simp_all add: tab_ok_def nodes_def)
  have i: "?i < length (buckets t)" by (rule bucket_of_less [OF g])
  have "(\<exists>x \<in> set (buckets t ! ?i). node_ptr x = a \<and> hashValue x = h) \<longleftrightarrow>
      (\<exists>x \<in> set (nodes t). node_ptr x = a \<and> hashValue x = h)"
    using i g by (fastforce simp: nodes_def good_buckets_def in_set_conv_nth [of _ "buckets t"])
  then show ?thesis
    using chain_find_iff [OF distinct_chain [OF d i], of a h] by (simp add: GetHashMapping_def)
qed

section \<open>Linking nodes\<close>

lemma distinct_map_mset: "mset xs = mset ys \<Longrightarrow> distinct (map f xs) = distinct (map f ys)"
  by (intro mset_eq_imp_distinct_iff) simp

lemma mset_concat_update:
  "i < length bs \<Longrightarrow> mset (concat (bs[i := x # bs ! i])) = add_mset x (mset (concat bs))"
proof (induction bs arbitrary: i)
  case (Cons b bs)
  then show ?case by (cases i) auto
qed simp

lemma push_node_ok:
  assumes "good_buckets n bs"
  shows "good_buckets n (push_node n bs x)" "mset (concat (push_node n bs x)) = add_mset x (mset (concat bs))"
  using assms bucket_of_less [OF assms, of "node_ptr x"]
  by (auto simp: push_node_def good_buckets_def mset_concat_update nth_list_update)

lemma foldl_push_ok:
  assumes "good_buckets n bs"
  shows "good_buckets n (foldl (push_node n) bs xs)"
    "mset (concat (foldl (push_node n) bs xs)) = mset (concat bs) + mset xs"
  using assms by (induction xs arbitrary: bs) (simp_all add: push_node_ok)

lemma foldl_concat: "foldl (foldl f) a xss = foldl f a (concat xss)"
  by (induction xss arbitrary: a) simp_all

fun moved :: "(nat \<Rightarrow> nat option) \<Rightarrow> hnode list \<Rightarrow> hnode list" where
  "moved fwd [] = []"
| "moved fwd (x # xs) =
     (case fwd (node_ptr x) of None \<Rightarrow> moved fwd xs | Some a \<Rightarrow> x\<lparr>node_ptr := a\<rparr> # moved fwd xs)"

lemma foldl_move: "foldl (move_node fwd n) bs xs = foldl (push_node n) bs (moved fwd xs)"
  by (induction xs arbitrary: bs) (simp_all add: move_node_def split: option.splits)

lemma set_moved: "set (moved fwd xs) = {x\<lparr>node_ptr := a\<rparr> | x a. x \<in> set xs \<and> fwd (node_ptr x) = Some a}"
  by (induction xs) (auto split: option.splits)

lemma distinct_moved_hash: "distinct (map hashValue xs) \<Longrightarrow> distinct (map hashValue (moved fwd xs))"
proof (induction xs)
  case (Cons x xs)
  have "set (map hashValue (moved fwd xs)) \<subseteq> set (map hashValue xs)" by (auto simp: set_moved)
  with Cons show ?case by (auto split: option.splits)
qed simp

lemma distinct_moved_ptr:
  assumes "distinct (map node_ptr xs)" "inj_on fwd {a \<in> node_ptr ` set xs. fwd a \<noteq> None}"
  shows "distinct (map node_ptr (moved fwd xs))"
  using assms
proof (induction xs)
  case (Cons x xs)
  have "a \<notin> set (map node_ptr (moved fwd xs))" if a: "fwd (node_ptr x) = Some a" for a
  proof
    assume "a \<in> set (map node_ptr (moved fwd xs))"
    then obtain y where y: "y \<in> set xs" "fwd (node_ptr y) = Some a" by (auto simp: set_moved)
    then have "node_ptr x = node_ptr y" using a by (intro inj_onD [OF Cons.prems(2)]) auto
    with y(1) Cons.prems(1) show False by simp
  qed
  moreover have "inj_on fwd {a \<in> node_ptr ` set xs. fwd a \<noteq> None}"
    by (rule inj_on_subset [OF Cons.prems(2)]) auto
  then have "distinct (map node_ptr (moved fwd xs))" using Cons.prems(1) by (intro Cons.IH) auto
  ultimately show ?case by (auto split: option.splits)
qed simp

lemma rehash_table_ok:
  assumes "tab_ok t" shows "tab_ok (rehash_table t)" "mset (nodes (rehash_table t)) = mset (nodes t)"
proof -
  let ?n = "tsize t * 2"
  obtain k where "tsize t = 2 ^ k" using assms by (auto simp: tab_ok_def good_buckets_def)
  then have "\<exists>k. ?n = 2 ^ k" by (intro exI [of _ "Suc k"]) simp
  then have "good_buckets ?n (replicate ?n [])" by (auto simp: good_buckets_def)
  from foldl_push_ok [OF this, of "nodes t"]
  have *: "good_buckets ?n (buckets (rehash_table t))" "mset (nodes (rehash_table t)) = mset (nodes t)"
    by (simp_all add: rehash_table_def Let_def foldl_concat nodes_def)
  then have "mset (map node_ptr (nodes (rehash_table t))) = mset (map node_ptr (nodes t))" by simp
  then have "distinct (map node_ptr (nodes (rehash_table t)))"
    using assms mset_eq_imp_distinct_iff by (metis tab_ok_def)
  with * show "tab_ok (rehash_table t)" "mset (nodes (rehash_table t)) = mset (nodes t)"
    by (simp_all add: tab_ok_def rehash_table_def Let_def)
qed

section \<open>The invariant\<close>

definition all_nodes :: "idhash \<Rightarrow> hnode list" where
  "all_nodes st = nodes (NewGenTable st) @ nodes (OldGenTable st)"

text \<open>The values in use are below \<open>c\<close>.\<close>

definition hv_ok :: "nat \<Rightarrow> idhash \<Rightarrow> bool" where
  "hv_ok c st \<longleftrightarrow>
     tab_ok (NewGenTable st) \<and> tab_ok (OldGenTable st) \<and>
     (\<forall>x \<in> set (nodes (NewGenTable st)). AIsInNursery st (node_ptr x)) \<and>
     (\<forall>x \<in> set (nodes (OldGenTable st)). \<not> AIsInNursery st (node_ptr x)) \<and>
     distinct (map hashValue (all_nodes st)) \<and>
     (\<forall>x \<in> set (all_nodes st). \<exists>d < c. hashValue x = AIntToValue (of_nat d))"

definition hv_inv :: "idhash \<Rightarrow> bool" where
  "hv_inv st = hv_ok (unat (HashValueCounter st)) st"

text \<open>The hash value on record for the object at an address.\<close>

definition id_map :: "idhash \<Rightarrow> nat \<Rightarrow> avalue option" where
  "id_map st a = GetHashMapping (the_table (AIsInNursery st a) st) a"

text \<open>
  What the collector promises about the collections to come: different objects get different
  addresses, and a new address is outside the nursery and not in use.
\<close>

fun gc_contract :: "(nat \<Rightarrow> bool) \<Rightarrow> nat set \<Rightarrow> static_outcome list \<Rightarrow> bool" where
  "gc_contract young used [] = True"
| "gc_contract young used (StaticMoved fwd # os) =
     (inj_on fwd {a. young a \<and> fwd a \<noteq> None} \<and> (\<forall>a b. fwd a = Some b \<longrightarrow> \<not> young b \<and> b \<notin> used) \<and>
      gc_contract young (used \<union> ran fwd) os)"
| "gc_contract young used (_ # os) = gc_contract young used os"

definition collector_ok :: "idhash \<Rightarrow> bool" where
  "collector_ok st \<longleftrightarrow>
     gc_contract (AIsInNursery st) (insert (root st) (node_ptr ` set (nodes (OldGenTable st)))) (outcomes st) \<and>
     (AIsInNursery st (root st) \<longrightarrow> (\<forall>fwd. StaticMoved fwd \<in> set (outcomes st) \<longrightarrow> fwd (root st) \<noteq> None))"

lemma gc_contract_mono: "gc_contract young used os \<Longrightarrow> used' \<subseteq> used \<Longrightarrow> gc_contract young used' os"
proof (induction young used os arbitrary: used' rule: gc_contract.induct)
  case (2 young used fwd os)
  from 2(1) [of "used' \<union> ran fwd"] 2(2,3) show ?case by auto
qed auto

lemma id_map_iff:
  assumes "hv_ok c st"
  shows "id_map st a = Some h \<longleftrightarrow> (\<exists>x \<in> set (all_nodes st). node_ptr x = a \<and> hashValue x = h)"
  using assms GetHashMapping_iff [of "NewGenTable st" a h] GetHashMapping_iff [of "OldGenTable st" a h]
  by (auto simp: id_map_def the_table_def hv_ok_def all_nodes_def)

lemma id_map_inj: "hv_ok c st \<Longrightarrow> id_map st a = Some h \<Longrightarrow> id_map st b = Some h \<Longrightarrow> a = b"
  by (auto simp: id_map_iff hv_ok_def distinct_map dest: inj_onD)

lemma AIntToValue_inj:
  assumes "c < 2 ^ 62" "d < 2 ^ 62" "AIntToValue (of_nat c) = AIntToValue (of_nat d)" shows "c = d"
proof -
  have u: "unat (AIntToValue (of_nat c)) = 4 * c" if "c < 2 ^ 62" for c
  proof -
    have "AIntToValue (of_nat c) = of_nat (4 * c)" by (simp add: AIntToValue_def push_bit_eq_mult)
    moreover have "take_bit 64 (4 * c) = 4 * c" using that by (intro take_bit_nat_eq_self) simp
    ultimately show ?thesis by (simp only: unsigned_of_nat) simp
  qed
  have "4 * c = 4 * d" using u [OF assms(1)] u [OF assms(2)] unfolding assms(3) by (rule trans [OF sym])
  then show ?thesis by simp
qed

section \<open>Collections keep hash values\<close>

text \<open>\<open>\<mu>\<close> tells where each object is after a call, if it is alive.\<close>

definition tracks :: "(nat \<Rightarrow> nat option) \<Rightarrow> idhash \<Rightarrow> idhash \<Rightarrow> bool" where
  "tracks \<mu> st st' \<longleftrightarrow>
     nursery st' = nursery st \<and> \<mu> (root st) = Some (root st') \<and>
     set (outcomes st') \<subseteq> set (outcomes st) \<and>
     (\<forall>a. \<mu> a = Some a \<or> AIsInNursery st a \<and> (\<exists>fwd. StaticMoved fwd \<in> set (outcomes st) \<and> \<mu> a = fwd a)) \<and>
     (\<forall>a b. \<mu> a = Some b \<longrightarrow> b = a \<or> \<not> AIsInNursery st b) \<and>
     (\<forall>a h b. id_map st a = Some h \<and> \<mu> a = Some b \<longrightarrow> id_map st' b = Some h)"

lemma nursery_cong: "nursery st' = nursery st \<Longrightarrow> AIsInNursery st' = AIsInNursery st"
  by (rule ext) (simp add: AIsInNursery_def)

lemma tracksD:
  assumes "tracks \<mu> st st'"
  shows "nursery st' = nursery st" "\<mu> (root st) = Some (root st')" "set (outcomes st') \<subseteq> set (outcomes st)"
    "\<not> AIsInNursery st a \<Longrightarrow> \<mu> a = Some a"
    "\<mu> a = Some a \<or> AIsInNursery st a \<and> (\<exists>fwd. StaticMoved fwd \<in> set (outcomes st) \<and> \<mu> a = fwd a)"
    "\<mu> a = Some b \<Longrightarrow> b = a \<or> \<not> AIsInNursery st b"
    "id_map st a = Some h \<Longrightarrow> \<mu> a = Some b \<Longrightarrow> id_map st' b = Some h"
  using assms unfolding tracks_def by blast+

lemma tracks_refl: "tracks Some st st"
  by (simp add: tracks_def)

lemma tracks_trans:
  assumes m: "tracks \<mu> s1 s2" and n: "tracks \<nu> s2 s3"
  shows "tracks (\<lambda>a. case \<mu> a of None \<Rightarrow> None | Some b \<Rightarrow> \<nu> b) s1 s3"
proof -
  note M = tracksD [OF m] and N = tracksD [OF n]
  have y: "AIsInNursery s2 = AIsInNursery s1" using M(1) by (rule nursery_cong)
  let ?k = "\<lambda>a. case \<mu> a of None \<Rightarrow> None | Some b \<Rightarrow> \<nu> b"
  have "?k a = Some a \<or> AIsInNursery s1 a \<and> (\<exists>fwd. StaticMoved fwd \<in> set (outcomes s1) \<and> ?k a = fwd a)" for a
  proof (cases "\<mu> a = Some a")
    case True
    with N(5) [of a] M(3) show ?thesis unfolding y by auto
  next
    case False
    with M(5) [of a] obtain fwd where f: "AIsInNursery s1 a" "StaticMoved fwd \<in> set (outcomes s1)" "\<mu> a = fwd a" by blast
    moreover have "?k a = \<mu> a" using M(6) [of a] N(4) False unfolding y by (cases "\<mu> a") auto
    ultimately show ?thesis by auto
  qed
  moreover have mid: "\<exists>c. \<mu> a = Some c \<and> \<nu> c = Some b" if "?k a = Some b" for a b
    using that by (cases "\<mu> a") auto
  then have "b = a \<or> \<not> AIsInNursery s1 b" if "?k a = Some b" for a b
    using that M(6) N(6) unfolding y by blast
  moreover have "id_map s3 b = Some h" if "id_map s1 a = Some h" and "?k a = Some b" for a b h
    using mid [OF that(2)] M(7) [OF that(1)] N(7) by blast
  moreover have "nursery s3 = nursery s1" "?k (root s1) = Some (root s3)" "set (outcomes s3) \<subseteq> set (outcomes s1)"
    using M(1,2,3) N(1,2,3) by auto
  ultimately show ?thesis unfolding tracks_def by blast
qed

lemma concat_Nils: "concat (map (\<lambda>_. []) xs) = []"
  by (induction xs) simp_all

lemma move_tables:
  assumes inv: "hv_ok c st" and inj: "inj_on fwd {a. AIsInNursery st a \<and> fwd a \<noteq> None}"
    and fresh: "\<forall>a b. fwd a = Some b \<longrightarrow> \<not> AIsInNursery st b \<and> b \<notin> node_ptr ` set (nodes (OldGenTable st))"
  defines "st' \<equiv> AMoveNewGenHashMappingsToOldGen fwd st"
  shows "hv_ok c st'"
    "mset (nodes (OldGenTable st')) = mset (nodes (OldGenTable st)) + mset (moved fwd (nodes (NewGenTable st)))"
    "id_map st a = Some h \<Longrightarrow> (if AIsInNursery st a then fwd a else Some a) = Some b \<Longrightarrow> id_map st' b = Some h"
proof -
  let ?N = "nodes (NewGenTable st)" and ?O = "nodes (OldGenTable st)" and ?M = "moved fwd (nodes (NewGenTable st))"
  have H: "tab_ok (NewGenTable st)" "tab_ok (OldGenTable st)" "\<forall>x \<in> set ?N. AIsInNursery st (node_ptr x)"
    "\<forall>x \<in> set ?O. \<not> AIsInNursery st (node_ptr x)" "distinct (map hashValue (?N @ ?O))"
    "\<forall>x \<in> set (?N @ ?O). \<exists>d < c. hashValue x = AIntToValue (of_nat d)"
    using inv unfolding hv_ok_def all_nodes_def by blast+
  have y: "AIsInNursery st' = AIsInNursery st" by (rule nursery_cong) (simp add: st'_def AMoveNewGenHashMappingsToOldGen_def Let_def)
  have new: "nodes (NewGenTable st') = []" "tab_ok (NewGenTable st')"
    using H(1) by (auto simp: st'_def AMoveNewGenHashMappingsToOldGen_def Let_def nodes_def tab_ok_def good_buckets_def concat_Nils)
  have "good_buckets (tsize (OldGenTable st)) (buckets (OldGenTable st))" using H(2) by (simp add: tab_ok_def)
  from foldl_push_ok [OF this, of ?M]
  have old: "good_buckets (tsize (OldGenTable st')) (buckets (OldGenTable st'))"
    and ms: "mset (nodes (OldGenTable st')) = mset ?O + mset ?M"
    by (simp_all add: st'_def AMoveNewGenHashMappingsToOldGen_def Let_def foldl_concat foldl_move nodes_def)
  show "mset (nodes (OldGenTable st')) = mset ?O + mset ?M" by (rule ms)
  from ms have st: "set (nodes (OldGenTable st')) = set ?O \<union> set ?M" by (metis set_mset_mset set_mset_union)
  have "mset (nodes (OldGenTable st')) = mset (?O @ ?M)" using ms by simp
  note perm = distinct_map_mset [OF this]
  have ptrs: "node_ptr x \<notin> node_ptr ` set ?O \<and> \<not> AIsInNursery st (node_ptr x)" if xM: "x \<in> set ?M" for x
  proof -
    obtain a where "fwd a = Some (node_ptr x)" using xM by (auto simp: set_moved)
    with fresh show ?thesis by blast
  qed
  have "inj_on fwd {a \<in> node_ptr ` set ?N. fwd a \<noteq> None}" by (rule inj_on_subset [OF inj]) (use H(3) in auto)
  then have "distinct (map node_ptr ?M)" using H(1) by (intro distinct_moved_ptr) (simp_all add: tab_ok_def)
  moreover have "node_ptr ` set ?O \<inter> node_ptr ` set ?M = {}"
  proof (rule equals0I)
    fix a assume "a \<in> node_ptr ` set ?O \<inter> node_ptr ` set ?M"
    then have a: "a \<in> node_ptr ` set ?O" "a \<in> node_ptr ` set ?M" by blast+
    from a(2) obtain x where x: "a = node_ptr x" "x \<in> set ?M" by (rule imageE)
    from ptrs [OF x(2)] a(1) show False unfolding x(1) by simp
  qed
  ultimately have "distinct (map node_ptr (?O @ ?M))" using H(2) by (simp add: tab_ok_def)
  with old have tab: "tab_ok (OldGenTable st')" unfolding tab_ok_def perm by blast
  have sub: "hashValue ` set ?M \<subseteq> hashValue ` set ?N" by (auto simp: set_moved)
  have "distinct (map hashValue (?O @ ?M))" using H(5) distinct_moved_hash [of ?N fwd] sub by auto
  then have dh: "distinct (map hashValue (all_nodes st'))" unfolding all_nodes_def new append_Nil perm .
  have cnt: "\<forall>x \<in> set (all_nodes st'). \<exists>d < c. hashValue x = AIntToValue (of_nat d)"
  proof
    fix x assume "x \<in> set (all_nodes st')"
    then have "hashValue x \<in> hashValue ` set (?N @ ?O)" using st sub new by (auto simp: all_nodes_def)
    then show "\<exists>d < c. hashValue x = AIntToValue (of_nat d)" using H(6) by auto
  qed
  show inv': "hv_ok c st'"
    unfolding hv_ok_def y using new tab dh cnt st H(4) ptrs by auto
  show "id_map st' b = Some h" if q: "id_map st a = Some h" "(if AIsInNursery st a then fwd a else Some a) = Some b"
  proof -
    obtain x where x: "x \<in> set ?N \<or> x \<in> set ?O" "node_ptr x = a" "hashValue x = h"
      using q(1) id_map_iff [OF inv] by (auto simp: all_nodes_def)
    have "\<exists>z \<in> set (nodes (OldGenTable st')). node_ptr z = b \<and> hashValue z = h"
    proof (cases "x \<in> set ?N")
      case True
      then have "fwd (node_ptr x) = Some b" using that(2) H(3) x by auto
      with True x have "x\<lparr>node_ptr := b\<rparr> \<in> set ?M" by (auto simp: set_moved)
      then show ?thesis using st x by (intro bexI [of _ "x\<lparr>node_ptr := b\<rparr>"]) auto
    next
      case False
      with x H(4) that(2) st show ?thesis by auto
    qed
    then show ?thesis unfolding id_map_iff [OF inv'] all_nodes_def by auto
  qed
qed

lemma hv_ok_cong:
  assumes "NewGenTable st' = NewGenTable st" "OldGenTable st' = OldGenTable st" "nursery st' = nursery st"
  shows "hv_ok c st' = hv_ok c st" "id_map st' = id_map st"
  using assms nursery_cong [OF assms(3)]
  by (auto simp: hv_ok_def all_nodes_def id_map_def the_table_def)

lemma hv_ok_mono: "hv_ok c st \<Longrightarrow> c \<le> d \<Longrightarrow> hv_ok d st"
  unfolding hv_ok_def by (meson order_less_le_trans)

text \<open>An allocation, with or without a collection.\<close>

definition alloc_ok :: "nat \<Rightarrow> idhash \<Rightarrow> idhash \<Rightarrow> bool" where
  "alloc_ok c st st' \<longleftrightarrow>
     hv_ok c st' \<and> collector_ok st' \<and> (\<exists>\<mu>. tracks \<mu> st st') \<and> HashValueCounter st' = HashValueCounter st \<and>
     (id_map st (root st) = None \<longrightarrow> id_map st' (root st') = None)"

lemma collector_ok_drop:
  assumes "collector_ok st" "outcomes st = x # os" "\<forall>f. x \<noteq> StaticMoved f"
  shows "collector_ok (st\<lparr>outcomes := os\<rparr>)"
proof -
  have "AIsInNursery (st\<lparr>outcomes := os\<rparr>) = AIsInNursery st" by (rule nursery_cong) simp
  with assms show ?thesis by (cases x) (auto simp: collector_ok_def)
qed

lemma alloc_ok_drop:
  assumes "hv_ok c st" "collector_ok st" "outcomes st = x # os" "\<forall>f. x \<noteq> StaticMoved f"
  shows "alloc_ok c st (st\<lparr>outcomes := os\<rparr>)"
proof -
  let ?s = "st\<lparr>outcomes := os\<rparr>"
  have c: "hv_ok c ?s = hv_ok c st" "id_map ?s = id_map st" by (rule hv_ok_cong; simp)+
  have "tracks Some st ?s" using assms(3) c by (auto simp: tracks_def)
  then show ?thesis using assms collector_ok_drop [OF assms(2,3,4)] c by (auto simp: alloc_ok_def)
qed

lemma alloc_ok_move:
  assumes inv: "hv_ok c st" and col: "collector_ok st" and o: "outcomes st = StaticMoved fwd # os"
  shows "alloc_ok c st (move_root fwd (AMoveNewGenHashMappingsToOldGen fwd (st\<lparr>outcomes := os\<rparr>)))"
proof -
  let ?s = "st\<lparr>outcomes := os\<rparr>" and ?y = "AIsInNursery st" and ?O = "node_ptr ` set (nodes (OldGenTable st))"
  let ?m = "AMoveNewGenHashMappingsToOldGen fwd ?s" and ?r = "root st"
  let ?st = "move_root fwd ?m" and ?\<mu> = "\<lambda>a. if AIsInNursery st a then fwd a else Some a"
  have c: "hv_ok c ?s" "id_map ?s = id_map st" "AIsInNursery ?s = ?y"
    using inv hv_ok_cong [of ?s st] nursery_cong [of ?s st] by simp_all
  have G: "inj_on fwd {a. ?y a \<and> fwd a \<noteq> None}" "\<And>a b. fwd a = Some b \<Longrightarrow> \<not> ?y b \<and> b \<noteq> ?r \<and> b \<notin> ?O"
    "gc_contract ?y (insert ?r ?O \<union> ran fwd) os" "?y ?r \<Longrightarrow> fwd ?r \<noteq> None"
    "\<And>f. ?y ?r \<Longrightarrow> StaticMoved f \<in> set os \<Longrightarrow> f ?r \<noteq> None"
    using col unfolding collector_ok_def o by auto
  note M = move_tables [of c ?s fwd, unfolded c(3)]
  have M1: "hv_ok c ?m" using M(1) c(1) G(1,2) by simp
  have M2: "mset (nodes (OldGenTable ?m)) = mset (nodes (OldGenTable st)) + mset (moved fwd (nodes (NewGenTable st)))"
    using M(2) c(1) G(1,2) by simp
  have M3: "id_map ?m b = Some h" if "id_map st a = Some h" "?\<mu> a = Some b" for a b h
    using M(3) [of a h b] c(1,2) G(1,2) that by simp
  have nt: "nursery ?m = nursery st" "nursery ?st = nursery st" "root ?m = ?r" "outcomes ?st = os"
      "HashValueCounter ?st = HashValueCounter st" "OldGenTable ?st = OldGenTable ?m" "NewGenTable ?st = NewGenTable ?m"
    by (simp_all add: move_root_def AMoveNewGenHashMappingsToOldGen_def Let_def)
  have y: "AIsInNursery ?m = ?y" "AIsInNursery ?st = ?y" using nt by (auto intro: nursery_cong)
  have root: "root ?st = (if ?y ?r then the (fwd ?r) else ?r)"
    using G(4) by (auto simp: move_root_def y nt split: option.splits)
  have rmu: "?\<mu> ?r = Some (root ?st)" using root G(4) by auto
  have same: "hv_ok c ?st" "id_map ?st = id_map ?m" using M1 nt hv_ok_cong [of ?st ?m] by simp_all
  have ptrs: "node_ptr ` set (nodes (OldGenTable ?st)) \<subseteq> ?O \<union> ran fwd"
  proof -
    have "set (nodes (OldGenTable ?m)) = set (nodes (OldGenTable st)) \<union> set (moved fwd (nodes (NewGenTable st)))"
      using M2 by (metis set_mset_mset set_mset_union)
    then show ?thesis unfolding nt by (auto simp: set_moved ran_def)
  qed
  have "root ?st \<in> insert ?r (ran fwd)" "\<not> ?y (root ?st)"
    using root G(2,4) by (auto simp: ran_def)
  with ptrs G(3) have "collector_ok ?st"
    unfolding collector_ok_def y nt by (auto intro: gc_contract_mono)
  moreover have "tracks ?\<mu> st ?st"
    unfolding tracks_def using nt rmu o G(2) M3 same(2) by auto
  moreover have "id_map ?st (root ?st) = None" if none: "id_map st ?r = None"
  proof (rule ccontr)
    assume "id_map ?st (root ?st) \<noteq> None"
    then obtain h where "id_map ?m (root ?st) = Some h" using same(2) by auto
    then obtain x where x: "x \<in> set (all_nodes ?m)" "node_ptr x = root ?st" using id_map_iff [OF M1] by blast
    have "nodes (NewGenTable ?m) = []" by (simp add: AMoveNewGenHashMappingsToOldGen_def Let_def nodes_def concat_Nils)
    with x M2 have "x \<in> set (nodes (OldGenTable st)) \<or> x \<in> set (moved fwd (nodes (NewGenTable st)))"
      unfolding all_nodes_def by (metis Un_iff append_Nil set_mset_mset set_mset_union)
    then obtain z where z: "z \<in> set (all_nodes st)" "node_ptr z = ?r"
    proof (elim disjE)
      assume old: "x \<in> set (nodes (OldGenTable st))"
      have "root ?st = ?r"
      proof (cases "?y ?r")
        case True
        then have "fwd ?r = Some (root ?st)" using root G(4) by auto
        from G(2) [OF this] old x(2) show ?thesis by (metis imageI)
      qed (simp add: root)
      with old x(2) show ?thesis by (intro that [of x]) (auto simp: all_nodes_def)
    next
      assume "x \<in> set (moved fwd (nodes (NewGenTable st)))"
      then obtain z where z: "z \<in> set (nodes (NewGenTable st))" "fwd (node_ptr z) = Some (root ?st)"
        using x(2) by (auto simp: set_moved)
      have "?y ?r" using G(2) [OF z(2)] root by auto
      then have "fwd ?r = Some (root ?st)" using root G(4) by auto
      moreover have "?y (node_ptr z)" using z(1) inv by (simp add: hv_ok_def)
      ultimately have "node_ptr z = ?r" using z(2) \<open>?y ?r\<close> by (intro inj_onD [OF G(1)]) auto
      with z(1) show ?thesis by (intro that [of z]) (auto simp: all_nodes_def)
    qed
    then show False using none id_map_iff [OF inv, of ?r "hashValue z"] by auto
  qed
  ultimately show ?thesis using same nt unfolding alloc_ok_def by blast
qed

lemma AAllocStatic_ok:
  assumes "hv_ok c st" "collector_ok st" "AAllocStatic st = (b, st')"
  shows "alloc_ok c st st'" "b \<or> StaticFail \<in> set (outcomes st)"
proof -
  have "alloc_ok c st st' \<and> (b \<or> StaticFail \<in> set (outcomes st))"
  proof (cases "outcomes st")
    case Nil
    with assms show ?thesis by (auto simp: AAllocStatic_def alloc_ok_def intro!: exI [of _ Some] tracks_refl)
  next
    case (Cons x os)
    with assms alloc_ok_drop [OF assms(1,2) Cons] alloc_ok_move [OF assms(1,2), of _ os] show ?thesis
      by (cases x) (auto simp: AAllocStatic_def)
  qed
  then show "alloc_ok c st st'" "b \<or> StaticFail \<in> set (outcomes st)" by blast+
qed

lemma alloc_ok_trans: "alloc_ok c s1 s2 \<Longrightarrow> alloc_ok d s2 s3 \<Longrightarrow> alloc_ok d s1 s3"
  unfolding alloc_ok_def using tracks_trans by metis

lemma alloc_ok_outcomes: "alloc_ok c s1 s2 \<Longrightarrow> set (outcomes s2) \<subseteq> set (outcomes s1)"
  unfolding alloc_ok_def tracks_def by blast

text \<open>The free list and the counter do not matter to the tables.\<close>

lemma alloc_ok_cong:
  assumes "NewGenTable s' = NewGenTable s" "OldGenTable s' = OldGenTable s" "nursery s' = nursery s"
    "root s' = root s" "outcomes s' = outcomes s"
  shows "hv_ok c s' = hv_ok c s" "collector_ok s' = collector_ok s" "tracks \<mu> st s' = tracks \<mu> st s"
    "tracks \<mu> s' st = tracks \<mu> s st" "id_map s' = id_map s"
  using hv_ok_cong [OF assms(1,2,3)] nursery_cong [OF assms(3)] assms
  by (simp_all add: collector_ok_def tracks_def)

lemma grow_table_ok:
  assumes ok: "hv_ok c st" "collector_ok st"
  shows "alloc_ok c st (set_table young (rehash_table (the_table young st)) st)"
proof -
  let ?st = "set_table young (rehash_table (the_table young st)) st"
  have t: "tab_ok (NewGenTable st)" "tab_ok (OldGenTable st)" using ok by (simp_all add: hv_ok_def)
  have "tab_ok (NewGenTable ?st)" "tab_ok (OldGenTable ?st)"
    "mset (nodes (NewGenTable ?st)) = mset (nodes (NewGenTable st))"
    "mset (nodes (OldGenTable ?st)) = mset (nodes (OldGenTable st))"
    using t rehash_table_ok by (auto simp: set_table_def the_table_def)
  moreover from this(3,4) have s: "set (nodes (NewGenTable ?st)) = set (nodes (NewGenTable st))"
    "set (nodes (OldGenTable ?st)) = set (nodes (OldGenTable st))" by (metis set_mset_mset)+
  moreover have fields: "nursery ?st = nursery st" "root ?st = root st" "outcomes ?st = outcomes st"
      "HashValueCounter ?st = HashValueCounter st" by (simp_all add: set_table_def)
  moreover have y: "AIsInNursery ?st = AIsInNursery st" using fields(1) by (rule nursery_cong)
  moreover have "mset (map hashValue (all_nodes ?st)) = mset (map hashValue (all_nodes st))"
    using calculation(3,4) by (simp add: all_nodes_def)
  then have "distinct (map hashValue (all_nodes ?st))"
    using ok(1) mset_eq_imp_distinct_iff unfolding hv_ok_def by blast
  ultimately have inv: "hv_ok c ?st" using ok(1) unfolding hv_ok_def by (auto simp: all_nodes_def)
  have im: "id_map ?st a = id_map st a" for a
  proof -
    have "id_map ?st a = Some h \<longleftrightarrow> id_map st a = Some h" for h
      unfolding id_map_iff [OF inv] id_map_iff [OF ok(1)] using s by (simp add: all_nodes_def)
    then show ?thesis by (metis option.exhaust)
  qed
  have "tracks Some st ?st" using fields im by (simp add: tracks_def)
  moreover have "collector_ok ?st" using ok(2) fields s y by (simp add: collector_ok_def)
  ultimately show ?thesis using inv im fields by (auto simp: alloc_ok_def)
qed

lemma grow_if_full_ok:
  assumes "hv_ok c st" "collector_ok st" "grow_if_full young st = (b, st')"
  shows "alloc_ok c st st'" "b \<or> StaticFail \<in> set (outcomes st)"
proof -
  have refl: "alloc_ok c st st" using assms tracks_refl by (auto simp: alloc_ok_def)
  obtain b1 s1 where a: "AAllocStatic st = (b1, s1)" by fastforce
  note A = AAllocStatic_ok [OF assms(1,2) a]
  have g: "alloc_ok c st (set_table young (rehash_table (the_table young s1)) s1)"
    using A(1) by (intro alloc_ok_trans [OF A(1)] grow_table_ok) (simp_all add: alloc_ok_def)
  show "alloc_ok c st st'" "b \<or> StaticFail \<in> set (outcomes st)"
    using assms(3) refl A g a by (auto simp: grow_if_full_def GrowHashTable_def split: if_splits bool.splits)
qed

lemma AllocNode_ok:
  assumes "hv_ok c st" "collector_ok st" "AllocNode p st = (r, st')" "unat (HashValueCounter st) = c" "c < 2 ^ 62"
  shows "hv_ok c st' \<and> collector_ok st' \<and> (\<exists>\<mu>. tracks \<mu> st st') \<and>
    (id_map st (root st) = None \<longrightarrow> id_map st' (root st') = None) \<and>
    (case r of
       Some n \<Rightarrow> node_ptr n = p \<and> hashValue n = AIntToValue (of_nat c) \<and> unat (HashValueCounter st') = Suc c
     | None \<Rightarrow> StaticFail \<in> set (outcomes st) \<and> unat (HashValueCounter st') = c)"
proof -
  have cnt: "unat (HashValueCounter s + 1) = Suc c" "AIntToValue (HashValueCounter s) = AIntToValue (of_nat c)"
    if "HashValueCounter s = HashValueCounter st" for s :: idhash
  proof -
    have "1 + HashValueCounter st \<noteq> 0"
    proof
      assume "1 + HashValueCounter st = 0"
      then have "HashValueCounter st = - 1" by (simp add: eq_neg_iff_add_eq_0 add.commute)
      then show False using assms(4,5) by (simp add: unsigned_minus_1_eq_mask mask_eq_exp_minus_1)
    qed
    then show "unat (HashValueCounter s + 1) = Suc c" using that assms(4) unatSuc [of "HashValueCounter st"] by (simp add: add.commute)
    show "AIntToValue (HashValueCounter s) = AIntToValue (of_nat c)"
      unfolding that assms(4) [symmetric] by simp
  qed
  have refl: "alloc_ok c st st" using assms tracks_refl by (auto simp: alloc_ok_def)
  obtain b1 s1 where a: "AAllocStatic st = (b1, s1)" by fastforce
  note A = AAllocStatic_ok [OF assms(1,2) a]
  note tn = take_node_def
  show ?thesis
  proof (cases "HashFreeList st \<noteq> 0")
    case True
    with assms(3) have e: "r = Some (fst (take_node p st))" "st' = snd (take_node p st)" by (auto simp: AllocNode_def split: prod.splits)
    have "NewGenTable st' = NewGenTable st" "OldGenTable st' = OldGenTable st" "nursery st' = nursery st"
      "root st' = root st" "outcomes st' = outcomes st" unfolding e tn by simp_all
    note K = this alloc_ok_cong [OF this]
    have "hv_ok c st'" "collector_ok st'" "\<exists>\<mu>. tracks \<mu> st st'" using refl unfolding K alloc_ok_def by blast+
    moreover have "id_map st' (root st') = id_map st (root st)" by (simp only: K)
    ultimately show ?thesis using cnt [of st] unfolding e tn by simp
  next
    case False
    show ?thesis
    proof (cases b1)
      case True
      let ?s = "s1\<lparr>HashFreeList := HashFreeList s1 + HASH_NODE_BUCKET_SIZE\<rparr>"
      from True assms(3) False a have e: "r = Some (fst (take_node p ?s))" "st' = snd (take_node p ?s)"
        by (auto simp: AllocNode_def split: prod.splits)
      have "NewGenTable st' = NewGenTable s1" "OldGenTable st' = OldGenTable s1" "nursery st' = nursery s1"
        "root st' = root s1" "outcomes st' = outcomes s1" unfolding e tn by simp_all
      note K = this alloc_ok_cong [OF this]
      have "hv_ok c st'" "collector_ok st'" "\<exists>\<mu>. tracks \<mu> st st'" using A(1) unfolding K alloc_ok_def by blast+
      moreover have "id_map st' (root st') = id_map s1 (root s1)" by (simp only: K)
      moreover have "HashValueCounter s1 = HashValueCounter st" "id_map st (root st) = None \<longrightarrow> id_map s1 (root s1) = None"
        using A(1) unfolding alloc_ok_def by blast+
      ultimately show ?thesis using cnt [of s1] unfolding e tn by simp
    next
      case False
      with assms(3,4) \<open>\<not> HashFreeList st \<noteq> 0\<close> a A show ?thesis by (auto simp: AllocNode_def alloc_ok_def)
    qed
  qed
qed

section \<open>The hash value of an object\<close>

lemma insert_node_ok:
  assumes ok: "hv_ok c st" "collector_ok st" "c < 2 ^ 62" and none: "id_map st (root st) = None"
    and n: "node_ptr n = root st" "hashValue n = AIntToValue (of_nat c)"
  defines "st' \<equiv> insert_node (AIsInNursery st (root st)) n st"
  shows "hv_ok (Suc c) st'" "collector_ok st'" "tracks Some st st'" "id_map st' (root st') = Some (hashValue n)"
proof -
  let ?y = "AIsInNursery st (root st)"
  let ?t = "the_table ?y st" and ?t' = "the_table ?y st'"
  have t: "tab_ok (NewGenTable st)" "tab_ok (OldGenTable st)" using ok(1) by (simp_all add: hv_ok_def)
  then have g: "good_buckets (tsize ?t) (buckets ?t)" "distinct (map node_ptr (nodes ?t))"
    by (simp_all add: the_table_def tab_ok_def)
  have fields: "nursery st' = nursery st" "root st' = root st" "outcomes st' = outcomes st"
      "the_table (\<not> ?y) st' = the_table (\<not> ?y) st"
      "buckets ?t' = push_node (tsize ?t) (buckets ?t) n" "tsize ?t' = tsize ?t"
    by (simp_all add: st'_def insert_node_def set_table_def the_table_def Let_def)
  have y: "AIsInNursery st' = AIsInNursery st" using fields(1) by (rule nursery_cong)
  have ms: "mset (nodes ?t') = add_mset n (mset (nodes ?t))"
    using push_node_ok(2) [OF g(1)] fields(5) by (simp add: nodes_def)
  then have st: "set (nodes ?t') = insert n (set (nodes ?t))" by (metis set_mset_add_mset_insert set_mset_mset)
  have all: "mset (all_nodes s) = mset (nodes (the_table ?y s)) + mset (nodes (the_table (\<not> ?y) s))" for s
    by (simp add: all_nodes_def the_table_def)
  have msa: "mset (all_nodes st') = add_mset n (mset (all_nodes st))" unfolding all fields ms by simp
  then have sta: "set (all_nodes st') = insert n (set (all_nodes st))" by (metis set_mset_add_mset_insert set_mset_mset)
  have np: "root st \<notin> node_ptr ` set (all_nodes st)"
  proof
    assume "root st \<in> node_ptr ` set (all_nodes st)"
    then obtain x where "x \<in> set (all_nodes st)" "node_ptr x = root st" by auto
    then show False using id_map_iff [OF ok(1), of "root st" "hashValue x"] none by auto
  qed
  have sub: "set (nodes ?t) \<subseteq> set (all_nodes st)" by (auto simp: all_nodes_def the_table_def)
  have "distinct (map node_ptr (n # nodes ?t))" using g(2) np n(1) sub by auto
  then have "tab_ok ?t'"
    using distinct_map_mset [of "nodes ?t'" "n # nodes ?t" node_ptr] ms push_node_ok(1) [OF g(1), of n] fields(5,6)
    by (simp add: tab_ok_def)
  moreover have "tab_ok (the_table (\<not> ?y) st')" using t unfolding fields by (simp add: the_table_def)
  ultimately have tabs: "tab_ok (NewGenTable st')" "tab_ok (OldGenTable st')" by (auto simp: the_table_def split: if_splits)
  have nh: "hashValue n \<notin> hashValue ` set (all_nodes st)"
  proof
    assume "hashValue n \<in> hashValue ` set (all_nodes st)"
    then obtain d where "d < c" "AIntToValue (of_nat c) = AIntToValue (of_nat d)"
      using ok(1) n(2) unfolding hv_ok_def by force
    then show False using AIntToValue_inj [of c d] ok(3) by simp
  qed
  have "distinct (map hashValue (n # all_nodes st))" using ok(1) nh by (simp add: hv_ok_def)
  then have dh: "distinct (map hashValue (all_nodes st'))"
    using distinct_map_mset [of "all_nodes st'" "n # all_nodes st" hashValue] msa by simp
  have inN: "\<forall>x \<in> set (nodes (NewGenTable st')). AIsInNursery st (node_ptr x)"
    "\<forall>x \<in> set (nodes (OldGenTable st')). \<not> AIsInNursery st (node_ptr x)"
    using ok(1) st n(1) fields(4) unfolding hv_ok_def by (cases ?y; auto simp: the_table_def)+
  show inv: "hv_ok (Suc c) st'"
    unfolding hv_ok_def y
  proof (intro conjI tabs inN dh ballI)
    fix x assume "x \<in> set (all_nodes st')"
    then show "\<exists>d < Suc c. hashValue x = AIntToValue (of_nat d)"
      using sta n(2) ok(1) unfolding hv_ok_def by (metis insert_iff less_Suc_eq)
  qed
  show "id_map st' (root st') = Some (hashValue n)" using id_map_iff [OF inv] sta n(1) fields(2) by auto
  have im: "id_map st' a = Some h" if "id_map st a = Some h" for a h
    using that id_map_iff [OF inv] id_map_iff [OF ok(1)] sta by auto
  show "tracks Some st st'" using fields im by (simp add: tracks_def)
  have "node_ptr ` set (nodes (OldGenTable st')) \<subseteq> insert (root st) (node_ptr ` set (nodes (OldGenTable st)))"
    using st n(1) fields(4) by (cases ?y) (auto simp: the_table_def)
  then have "insert (root st) (node_ptr ` set (nodes (OldGenTable st'))) \<subseteq> insert (root st) (node_ptr ` set (nodes (OldGenTable st)))" by auto
  with ok(2) gc_contract_mono show "collector_ok st'" unfolding collector_ok_def y fields by blast
qed

lemma rounds_ok:
  assumes "hv_ok (unat (HashValueCounter st)) st" "collector_ok st"
    and "unat (HashValueCounter st) + rounds < 2 ^ 62" "rounds \<ge> 2 \<or> rounds = 1 \<and> \<not> AIsInNursery st (root st)"
  shows "\<exists>r st' \<mu>. GetIdHash_rounds rounds st = (r, st') \<and> hv_inv st' \<and> collector_ok st' \<and> tracks \<mu> st st' \<and>
    (case r of Inr h \<Rightarrow> id_map st' (root st') = Some h
             | Inl e \<Rightarrow> e = MemoryError \<and> StaticFail \<in> set (outcomes st))"
  using assms
proof (induction rounds arbitrary: st)
  case 0
  then show ?case by simp
next
  case (Suc k)
  let ?c = "unat (HashValueCounter st)" and ?p = "root st"
  let ?y = "AIsInNursery st (root st)"
  show ?case
  proof (cases "GetHashMapping (the_table ?y st) ?p")
    case (Some h)
    then have "GetIdHash_rounds (Suc k) st = (Inr h, st)" by (simp add: Let_def)
    moreover have "id_map st ?p = Some h" using Some by (simp add: id_map_def)
    ultimately show ?thesis using Suc.prems tracks_refl [of st] unfolding hv_inv_def by auto
  next
    case None
    then have none: "id_map st ?p = None" by (simp add: id_map_def)
    obtain r1 s1 where a: "AllocNode ?p st = (r1, s1)" by fastforce
    have "?c < 2 ^ 62" using Suc.prems(3) by simp
    from AllocNode_ok [OF Suc.prems(1,2) a refl this] obtain m1 where s1: "hv_ok ?c s1" "collector_ok s1"
        "tracks m1 st s1" "id_map s1 (root s1) = None"
        "case r1 of Some n \<Rightarrow> node_ptr n = ?p \<and> hashValue n = AIntToValue (of_nat ?c) \<and> unat (HashValueCounter s1) = Suc ?c
                  | None \<Rightarrow> StaticFail \<in> set (outcomes st) \<and> unat (HashValueCounter s1) = ?c"
      using none by blast
    show ?thesis
    proof (cases r1)
      case r1: None
      then have "GetIdHash_rounds (Suc k) st = (Inl MemoryError, s1)" using None a by (simp add: Let_def)
      then show ?thesis using s1 r1 by (auto simp: hv_inv_def)
    next
      case (Some n)
      with s1 have n: "node_ptr n = ?p" "hashValue n = AIntToValue (of_nat ?c)" "unat (HashValueCounter s1) = Suc ?c" by auto
      obtain b s2 where g: "grow_if_full ?y s1 = (b, s2)" by fastforce
      note G = grow_if_full_ok [OF s1(1,2) g]
      then obtain m2 where s2: "hv_ok ?c s2" "collector_ok s2" "tracks m2 s1 s2" "id_map s2 (root s2) = None"
        "HashValueCounter s2 = HashValueCounter s1" using s1(4) unfolding alloc_ok_def by blast
      obtain m where m: "tracks m st s2" using tracks_trans [OF s1(3) s2(3)] by blast
      have out: "set (outcomes s1) \<subseteq> set (outcomes st)" "set (outcomes s2) \<subseteq> set (outcomes st)"
        using tracksD(3) [OF s1(3)] tracksD(3) [OF m] by auto
      have cnt: "unat (HashValueCounter s2) = Suc ?c" using n(3) s2(5) by simp
      have y2: "AIsInNursery s2 = AIsInNursery st" using tracksD(1) [OF m] by (rule nursery_cong)
      let ?f = "FreeNode s2"
      have "NewGenTable ?f = NewGenTable s2" "OldGenTable ?f = OldGenTable s2" "nursery ?f = nursery s2"
        "root ?f = root s2" "outcomes ?f = outcomes s2" by (simp_all add: FreeNode_def)
      note F = this alloc_ok_cong [OF this]
      have fc: "HashValueCounter ?f = HashValueCounter s2" by (simp add: FreeNode_def)
      have fin: "hv_ok (Suc ?c) s2" by (rule hv_ok_mono [OF s2(1)]) simp
      have ftr: "hv_ok (Suc ?c) ?f" "collector_ok ?f" "tracks m st ?f" using fin s2(2) m F by simp_all
      show ?thesis
      proof (cases b)
        case False
        then have "GetIdHash_rounds (Suc k) st = (Inl MemoryError, ?f)" using None a Some g by (simp add: Let_def)
        moreover have "hv_inv ?f" unfolding hv_inv_def fc cnt by (rule ftr)
        moreover have "StaticFail \<in> set (outcomes st)" using G(2) False out by auto
        ultimately show ?thesis using ftr by auto
      next
        case True
        show ?thesis
        proof (cases "?p = root s2")
          case False
          have "\<not> AIsInNursery st (root s2)" "AIsInNursery st ?p"
            using tracksD(2) [OF m] tracksD(4) [OF m, of ?p] tracksD(6) [OF m, of ?p "root s2"] False by auto
          then have old: "\<not> AIsInNursery ?f (root ?f)" and k: "k \<ge> 1"
            using Suc.prems(4) y2 nursery_cong [OF F(3)] F(4) by auto
          have i1: "hv_ok (unat (HashValueCounter ?f)) ?f" using ftr(1) unfolding fc cnt .
          have i2: "unat (HashValueCounter ?f) + k < 2 ^ 62" using Suc.prems(3) fc cnt by simp
          have i3: "2 \<le> k \<or> k = 1 \<and> \<not> AIsInNursery ?f (root ?f)" using old k by auto
          from Suc.IH [OF i1 ftr(2) i2 i3] obtain r st' m' where
              i: "GetIdHash_rounds k ?f = (r, st')" "hv_inv st'" "collector_ok st'" "tracks m' ?f st'"
                "case r of Inr h \<Rightarrow> id_map st' (root st') = Some h
                         | Inl e \<Rightarrow> e = MemoryError \<and> StaticFail \<in> set (outcomes ?f)" by blast
          have "GetIdHash_rounds (Suc k) st = (r, st')" using None a Some g True False i(1) by (simp add: Let_def)
          moreover have "case r of Inr h \<Rightarrow> id_map st' (root st') = Some h
                         | Inl e \<Rightarrow> e = MemoryError \<and> StaticFail \<in> set (outcomes st)"
            using i(5) out F(5) by (auto split: sum.splits)
          ultimately show ?thesis using i(2,3) tracks_trans [OF ftr(3) i(4)] by blast
        next
          case same: True
          let ?i = "insert_node ?y n s2"
          have "AIsInNursery s2 (root s2) = ?y" using y2 same by simp
          then have e: "insert_node (AIsInNursery s2 (root s2)) n s2 = ?i" by simp
          note I = insert_node_ok [OF s2(1,2) \<open>?c < 2 ^ 62\<close> s2(4) _ n(2), unfolded e]
          have n1: "node_ptr n = root s2" using n(1) same by simp
          have "GetIdHash_rounds (Suc k) st = (Inr (hashValue n), ?i)" using None a Some g True same by (simp add: Let_def)
          moreover have "HashValueCounter ?i = HashValueCounter s2" by (simp add: insert_node_def set_table_def Let_def)
          then have "hv_inv ?i" using I(1) [OF n1] cnt by (simp add: hv_inv_def)
          ultimately show ?thesis using I(2,3,4) [OF n1] tracks_trans [OF m I(3) [OF n1]] by auto
        qed
      qed
    qed
  qed
qed

section \<open>Properties\<close>

text \<open>
  C5: The identity hash of an object.  In a state where the tables are well formed and for any
  collections that keep the collector's contract, the call raises a memory error in a run where
  an allocation failed, or it returns the value on record for the object, which the object
  keeps for good: every object that had a value before the call and is alive has the same
  value after it, at the address it moved to.  The value of an object without one is new, and
  no two objects have the same value.
\<close>

theorem id_hash_stable:
  assumes "hv_inv st" "collector_ok st" "unat (HashValueCounter st) < 2 ^ 62 - 2"
  shows "\<exists>r st' \<mu>. AGetIdHashValue st = (r, st') \<and> hv_inv st' \<and> tracks \<mu> st st' \<and>
    (\<forall>a h b. id_map st a = Some h \<and> \<mu> a = Some b \<longrightarrow> id_map st' b = Some h) \<and>
    (\<forall>a b h. id_map st' a = Some h \<and> id_map st' b = Some h \<longrightarrow> a = b) \<and>
    (case r of
       Inr h \<Rightarrow> id_map st' (root st') = Some h \<and> (\<forall>h'. id_map st (root st) = Some h' \<longrightarrow> h = h')
     | Inl e \<Rightarrow> e = MemoryError \<and> StaticFail \<in> set (outcomes st))"
proof -
  from rounds_ok [of st 2] assms obtain r st' \<mu> where r: "AGetIdHashValue st = (r, st')" "hv_inv st'"
      "tracks \<mu> st st'"
      "case r of Inr h \<Rightarrow> id_map st' (root st') = Some h | Inl e \<Rightarrow> e = MemoryError \<and> StaticFail \<in> set (outcomes st)"
    by (auto simp: AGetIdHashValue_def hv_inv_def)
  have "id_map st (root st) = Some h' \<Longrightarrow> id_map st' (root st') = Some h'" for h'
    using tracksD(7) [OF r(3), of "root st" h' "root st'"] tracksD(2) [OF r(3)] by simp
  then have "case r of
       Inr h \<Rightarrow> id_map st' (root st') = Some h \<and> (\<forall>h'. id_map st (root st) = Some h' \<longrightarrow> h = h')
     | Inl e \<Rightarrow> e = MemoryError \<and> StaticFail \<in> set (outcomes st)"
    using r(4) by (auto split: sum.splits)
  then show ?thesis
    using r(1,2,3) tracksD(7) [OF r(3)] id_map_inj [OF r(2) [unfolded hv_inv_def]] by blast
qed

text \<open>The state after initialisation, with an object at address 64 and a nursery below 1000.\<close>

definition fresh_hashes :: "static_outcome list \<Rightarrow> idhash" where
  "fresh_hashes os =
     (let t = \<lparr>buckets = replicate 128 [], tsize = 128, num = 0\<rparr>
      in \<lparr>HashValueCounter = 1, NewGenTable = t, OldGenTable = t, HashFreeList = 0, nursery = (0, 1000),
          root = 64, outcomes = os\<rparr>)"

lemma fresh_hashes_inv: "hv_inv (fresh_hashes os)"
proof -
  have "nodes \<lparr>buckets = replicate 128 [], tsize = 128, num = 0\<rparr> = []" by (simp add: nodes_def)
  moreover have "\<exists>k. (128 :: nat) = 2 ^ k" by (rule exI [of _ 7]) simp
  then have "tab_ok \<lparr>buckets = replicate 128 [], tsize = 128, num = 0\<rparr>"
    by (simp add: tab_ok_def good_buckets_def nodes_def)
  ultimately show ?thesis by (simp add: hv_inv_def hv_ok_def fresh_hashes_def Let_def all_nodes_def)
qed

theorem id_hash_stable_witness:
  "\<exists>h st' \<mu>. AGetIdHashValue (fresh_hashes [StaticMoved (\<lambda>a. Some (a + 1000))]) = (Inr h, st') \<and>
     id_map st' (root st') = Some h \<and> tracks \<mu> (fresh_hashes [StaticMoved (\<lambda>a. Some (a + 1000))]) st'"
proof -
  let ?st = "fresh_hashes [StaticMoved (\<lambda>a. Some (a + 1000))]"
  have "collector_ok ?st"
    by (auto simp: collector_ok_def fresh_hashes_def Let_def AIsInNursery_def nodes_def inj_on_def)
  moreover have "unat (HashValueCounter ?st) < 2 ^ 62 - 2" "StaticFail \<notin> set (outcomes ?st)"
    by (simp_all add: fresh_hashes_def Let_def)
  ultimately obtain r st' \<mu> where r: "AGetIdHashValue ?st = (r, st')" "tracks \<mu> ?st st'"
      "case r of Inr h \<Rightarrow> id_map st' (root st') = Some h \<and> (\<forall>h'. id_map ?st (root ?st) = Some h' \<longrightarrow> h = h')
        | Inl e \<Rightarrow> e = MemoryError \<and> StaticFail \<in> set (outcomes ?st)" and f: "StaticFail \<notin> set (outcomes ?st)"
    using id_hash_stable [OF fresh_hashes_inv, of "[StaticMoved (\<lambda>a. Some (a + 1000))]"] by blast
  then show ?thesis by (cases r) auto
qed

text \<open>
  Removing the values of dead objects keeps the tables well formed and the value of every
  object that is marked or young.  The number of nodes of the table is not decreased, so that
  it counts the removed nodes as well.
\<close>

theorem sweep_keeps_live:
  assumes "hv_inv st"
  shows "hv_inv (ASweepOldGenHashMappings marked st) \<and>
    (\<forall>a. id_map (ASweepOldGenHashMappings marked st) a = (if AIsInNursery st a \<or> marked a then id_map st a else None)) \<and>
    num (OldGenTable (ASweepOldGenHashMappings marked st)) = num (OldGenTable st)"
proof -
  let ?st = "ASweepOldGenHashMappings marked st" and ?O = "nodes (OldGenTable st)"
  let ?P = "\<lambda>n. marked (node_ptr n)" and ?c = "unat (HashValueCounter st)"
  have ok: "hv_ok ?c st" using assms by (simp add: hv_inv_def)
  have f: "NewGenTable ?st = NewGenTable st" "nursery ?st = nursery st" "HashValueCounter ?st = HashValueCounter st"
    "buckets (OldGenTable ?st) = map (filter ?P) (buckets (OldGenTable st))" "tsize (OldGenTable ?st) = tsize (OldGenTable st)"
    by (simp_all add: ASweepOldGenHashMappings_def Let_def)
  have y: "AIsInNursery ?st = AIsInNursery st" using f(2) by (rule nursery_cong)
  have o: "nodes (OldGenTable ?st) = filter ?P ?O" by (simp add: nodes_def f filter_concat)
  have "tab_ok (OldGenTable ?st)"
    using ok o f(4,5) by (auto simp: hv_ok_def tab_ok_def good_buckets_def distinct_map_filter)
  moreover have "distinct (map hashValue (all_nodes ?st))"
    using ok by (auto simp: hv_ok_def all_nodes_def f o distinct_map_filter)
  ultimately have ok': "hv_ok ?c ?st"
    using ok unfolding hv_ok_def y f(1) by (auto simp: all_nodes_def f o)
  then have "hv_inv ?st" by (simp add: hv_inv_def f)
  moreover have im: "id_map ?st a = Some h \<longleftrightarrow> id_map st a = Some h \<and> (AIsInNursery st a \<or> marked a)" for a h
    unfolding id_map_iff [OF ok'] id_map_iff [OF ok] using ok unfolding hv_ok_def
    by (auto simp: all_nodes_def f o)
  have "id_map ?st a = (if AIsInNursery st a \<or> marked a then id_map st a else None)" for a
  proof (cases "AIsInNursery st a \<or> marked a")
    case True
    then have "id_map ?st a = Some h \<longleftrightarrow> id_map st a = Some h" for h using im by blast
    with True show ?thesis by (metis option.exhaust)
  next
    case False
    then have "id_map ?st a \<noteq> Some h" for h using im by blast
    with False show ?thesis by (cases "id_map ?st a") auto
  qed
  moreover have "num (OldGenTable ?st) = num (OldGenTable st)" by (simp add: ASweepOldGenHashMappings_def Let_def)
  ultimately show ?thesis by blast
qed

theorem sweep_keeps_live_witness:
  "id_map (ASweepOldGenHashMappings (\<lambda>_. False) (fresh_hashes [])) 64 = id_map (fresh_hashes []) 64"
  using sweep_keeps_live [OF fresh_hashes_inv, of "\<lambda>_. False" "[]"] by (simp add: fresh_hashes_def AIsInNursery_def Let_def)

text \<open>
  Initialisation gives empty, well formed tables; when the first allocation fails it writes
  through a null pointer.
\<close>

theorem id_hash_init:
  "(outcomes st = [] \<longrightarrow> (\<exists>st'. AInitializeHashValueMapping st = Inr st' \<and> hv_inv st' \<and> id_map st' = Map.empty)) \<and>
   (outcomes st = StaticFail # os \<longrightarrow> AInitializeHashValueMapping st = Inl UndefinedBehaviour)"
proof (intro conjI impI)
  let ?t = "\<lparr>buckets = replicate 128 [], tsize = 128, num = 0\<rparr>"
  let ?st = "st\<lparr>HashValueCounter := 1, NewGenTable := ?t, OldGenTable := ?t\<rparr>"
  have "nodes ?t = []" by (simp add: nodes_def)
  moreover have "\<exists>k. (128 :: nat) = 2 ^ k" by (rule exI [of _ 7]) simp
  then have "tab_ok ?t" by (simp add: tab_ok_def good_buckets_def nodes_def)
  ultimately have i: "hv_inv ?st" by (simp add: hv_inv_def hv_ok_def all_nodes_def)
  have "id_map ?st a = None" for a
    using id_map_iff [OF i [unfolded hv_inv_def], of a] by (cases "id_map ?st a") (auto simp: all_nodes_def nodes_def)
  then have "id_map ?st = Map.empty" by auto
  with i show "\<exists>st'. AInitializeHashValueMapping st = Inr st' \<and> hv_inv st' \<and> id_map st' = Map.empty"
    if that: "outcomes st = []"
    using that by (intro exI [of _ ?st])
      (simp add: AInitializeHashValueMapping_def InitializeTable_def AAllocStatic_def INITIAL_HASH_MAPPING_TABLE_SIZE_def)
  show "AInitializeHashValueMapping st = Inl UndefinedBehaviour" if that: "outcomes st = StaticFail # os"
    using that by (simp add: AInitializeHashValueMapping_def InitializeTable_def AAllocStatic_def)
qed

theorem id_hash_init_witness:
  "\<exists>st'. AInitializeHashValueMapping (fresh_hashes []) = Inr st' \<and> hv_inv st'"
  using id_hash_init [of "fresh_hashes []"] by (auto simp: fresh_hashes_def Let_def)

end
