(* ===== verification/Spec2Isabelle.thy ===== *)
theory Spec2Isabelle
  imports Array_Props Str_Compose Str_Int Str_Strip Bitop_Props Long_Div_Props Encodings_Props Eight_Bit_Props Hash_Set Std_Sort Base64 Sym_Table Hash_Value
begin

text \<open>
  Verification of the runtime of Alore, an interpreter of an object-oriented language written in
  C (\<^verbatim>\<open>src/src\<close>).

  \<^bold>\<open>The program.\<close>  A source file passes through the tokenizer (\<^verbatim>\<open>lex.c\<close>, which interns names in
  the symbol table \<^verbatim>\<open>symtable.c\<close>), the module scanner (\<^verbatim>\<open>scan.c\<close>) and the parser and code
  generator (\<^verbatim>\<open>parse.c\<close>, \<^verbatim>\<open>parseexpr.c\<close>, \<^verbatim>\<open>output.c\<close>) into byte code that \<^verbatim>\<open>interp.c\<close> runs.  Values
  are tagged words (\<^verbatim>\<open>value.h\<close>) that live in a garbage collected heap (\<^verbatim>\<open>gc.c\<close>, \<^verbatim>\<open>heapalloc.c\<close>).  On
  them work the built-in types: integers of any size, strings, arrays, maps, sets, sorting, and
  the C modules (bit operations, base64, encodings and others).  The development
  models the data types of this runtime, the tables that the compiler and the collector share with
  them, and the conversions between them.

  \<^bold>\<open>The runtime model\<close> (\<^verbatim>\<open>Alore_Prelude\<close>).  An operation that may allocate is a function of the
  thread, which carries the outcome of every allocation to come: it fails, or it returns a block
  with left-over contents, perhaps after a collection that moves objects to the old generation.
  Exceptions, undefined C behaviour and loops that do not end are values of \<^verbatim>\<open>aerror\<close>.  The
  contract \<open>meets\<close> says that an operation returns a value with a property or raises a memory error
  after a failed allocation, and that it balances the stack of temporaries.  No theorem assumes
  that memory suffices or that no collection runs, unless it says so: some error paths of the code do
  not notice a failed allocation (\<^verbatim>\<open>unnoticed\<close>), and some pointers do not survive a collection, which
  is undefined behaviour in the model.  The 64-bit configuration is modelled: values are 64-bit
  words, digits of long integers 32-bit words.  Where the code keeps a length or an index in a C \<^verbatim>\<open>int\<close>, the
  definition cuts it to 32 bits or treats the overflow as undefined, and the theorem has the bound as
  a hypothesis; the theories of the encodings and of the identity hash values declare the limit in
  their header instead.

  \<^bold>\<open>Integers.\<close>  \<^verbatim>\<open>Long_Int\<close> has the blocks of long integers (\<^verbatim>\<open>std_int_long.c\<close>), with the padding
  cell behind the digits and normalisation, and the digit loops; \<^verbatim>\<open>Long_Int_Lemmas\<close> and
  \<^verbatim>\<open>Long_Int_Ops\<close> show that the loops compute on the numbers the digits write.  \<^verbatim>\<open>Int_Arith\<close> has the
  operations on Int values, short and long, and the conversions from and to C integers
  (\<^verbatim>\<open>std_int.c\<close>, \<^verbatim>\<open>runtime.c\<close>, \<^verbatim>\<open>aloreapi.c\<close>, \<^verbatim>\<open>int.h\<close>); \<^verbatim>\<open>Int_Arith_Lemmas\<close> and \<^verbatim>\<open>Int_Props\<close> give
  their exact results, including the inputs on which the code is wrong.  \<^verbatim>\<open>Long_Div\<close> has long division and powers.
  \<^verbatim>\<open>Long_Div_Lemmas\<close> shows that a digit of the quotient is estimated with an error of at most one,
  which the code corrects, and that the rounds divide; \<^verbatim>\<open>Long_Div_Ops\<close> lifts this to Int values and
  keeps track of the blocks that a collection may move; \<^verbatim>\<open>Long_Pow\<close> has the invariants of squaring
  and multiplying, which keep its products out of the hole of the overflow test; the properties are
  in \<^verbatim>\<open>Long_Div_Props\<close>.  \<^verbatim>\<open>Int_Text\<close> has reading and
  printing (\<^verbatim>\<open>strtonum.c\<close>, \<^verbatim>\<open>std_int.c\<close>, \<^verbatim>\<open>std_str.c\<close>, \<^verbatim>\<open>string_module.c\<close>), with the room of every
  character buffer; \<^verbatim>\<open>Int_Text_Props\<close> shows that they are inverse in every radix and what the scanner
  accepts.  \<^verbatim>\<open>Str_Int\<close> has the constructor on strings of every representation, what it accepts, and that
  it inverts decimal printing.  \<^verbatim>\<open>Bitop\<close> has the
  bit operations (\<^verbatim>\<open>bitop_module.c\<close>), which \<^verbatim>\<open>Bitop_Lemmas\<close> relates to integers in two's complement.

  \<^bold>\<open>Hash tables.\<close>  \<^verbatim>\<open>Hash_Probe\<close> is the probe sequence that maps and sets share, \<^verbatim>\<open>Hash_Map\<close> the Map
  class (\<^verbatim>\<open>std_map.c\<close>) and \<^verbatim>\<open>Hash_Set\<close> the Set class (\<^verbatim>\<open>set_module.c\<close>).  Keys are used through
  their hash and equality; the locale \<open>key_contract\<close> states what the tables rely on, the lemmas of
  \<^verbatim>\<open>Hash_Map_Lemmas\<close>, \<^verbatim>\<open>Map_Refine\<close> and \<^verbatim>\<open>Hash_Set\<close> are proved in it, and it is interpreted by the
  hash and the equality of Int values and of strings.  Sequences of calls refine a finite map and a finite set.
  Probing has a bound, the size of the table, within which a free slot is found under the invariant.
  An insertion resizes at most once, so that the recursion of depth one is enough.

  \<^bold>\<open>Sorting\<close> (\<^verbatim>\<open>Std_Sort\<close>, \<^verbatim>\<open>std_sort.c\<close>).  The array is one of \<^verbatim>\<open>Std_Array\<close>, whose stores may run out
  of memory in the middle of a swap.  The comparison is a parameter that may raise exceptions; the
  locale \<open>sort_order\<close> states that it is an order, and it is interpreted by the
  comparison of Int values and of strings.

  \<^bold>\<open>Symbols\<close> (\<^verbatim>\<open>Sym_Table\<close>, \<^verbatim>\<open>symtable.c\<close>).  The table is kept at the level of its links: an
  array of chains of records with next pointers, which growth splits in place.  A chain is followed
  for at most as many steps as there are symbols, which is enough in a table without cycles.

  \<^bold>\<open>Identity hash values\<close> (\<^verbatim>\<open>Hash_Value\<close>, \<^verbatim>\<open>std_hashvalue.c\<close>).  Two tables map addresses of
  nursery and old objects to numbers.  The collector is a parameter: the new address of each live
  object.  An allocation may move the object whose hash is asked for; the call then starts over,
  and two rounds are enough because an old object does not move.

  \<^bold>\<open>Base64\<close> (\<^verbatim>\<open>Base64\<close>, \<^verbatim>\<open>base64_module.c\<close>).  Encoding and decoding with the tables of the code, the
  lengths of the results as C \<^verbatim>\<open>int\<close>s, and stores outside the results as undefined behaviour.

  \<^bold>\<open>Encodings\<close> (\<^verbatim>\<open>Encodings\<close>, \<^verbatim>\<open>encodings_module.c\<close>).  Decoder objects that are fed a text in pieces,
  with the buffer that holds an incomplete character.  \<^verbatim>\<open>Encodings_Lemmas\<close> describes a decoder by the
  stream of bytes it has seen, and \<^verbatim>\<open>Encodings_Props\<close> shows that the pieces do not matter and that
  decoding inverts encoding.  \<^verbatim>\<open>Eight_Bit\<close> has the codecs that are described by the tables of
  \<^verbatim>\<open>encodings_tables.c\<close> (\<^verbatim>\<open>Codec_Tables\<close>): the expansion of a description and the hash table from
  Unicode to codes, which is probed for at most its size.  All descriptions are evaluated in
  \<^verbatim>\<open>Eight_Bit_Lemmas\<close>, and \<^verbatim>\<open>Eight_Bit_Props\<close> shows that the codecs are bijections.

  \<^bold>\<open>Strings.\<close>  \<^verbatim>\<open>Str_Data\<close> has the representations of a string (\<^verbatim>\<open>std_str.c\<close>): a block of 8-bit or
  16-bit characters, or a substring object that shares a block, and the operations that depend on
  them; \<^verbatim>\<open>Str_Search\<close> and \<^verbatim>\<open>Str_Methods\<close> have the methods of the Str class, with each loop over
  characters a function of its own.  The outer loops of replacing and splitting run on fuel, one more
  step than the string has characters, which every step consumes; \<^verbatim>\<open>Str_Safe\<close> shows that it is
  enough for all arguments, and that every string that is returned is well-formed.  \<^verbatim>\<open>Str_Lemmas\<close>,
  \<^verbatim>\<open>Str_Method_Lemmas\<close>, \<^verbatim>\<open>Str_Replace_Lemmas\<close> and \<^verbatim>\<open>Str_Strip\<close> relate the operations to functions on lists of
  characters, among them the parts that remain when occurrences are cut out (\<^verbatim>\<open>Str_Cut\<close>), which is
  the common reference for counting, replacing and splitting.  \<^verbatim>\<open>Str_Props\<close> has the properties, and
  \<^verbatim>\<open>Str_Compose\<close> uses strings as keys of maps and as items to sort, by interpreting \<open>key_contract\<close>
  and \<open>sort_order\<close> once more.

  \<^bold>\<open>Arrays.\<close>  \<^verbatim>\<open>Std_Array\<close> has the Array object (\<^verbatim>\<open>std_array.c\<close>): a buffer, its capacity and the
  number of cells in use, and the methods that change it.  An operation returns the array also when
  it raises an exception, so that what a failed operation leaves behind can be stated.
  \<^verbatim>\<open>Array_Seq\<close> has the operations that make new arrays, iteration, hash values and the comparison of
  nested arrays, whose recursion is on the levels that the code admits; \<^verbatim>\<open>Array_Text\<close> has the text of
  an array, which is collected in an array of strings and joined.  \<^verbatim>\<open>Array_Lemmas\<close>,
  \<^verbatim>\<open>Array_Index_Lemmas\<close>, \<^verbatim>\<open>Array_Update_Lemmas\<close> and \<^verbatim>\<open>Array_Seq_Lemmas\<close> relate the operations to the
  list of items by rules that work backwards through an operation.  \<^verbatim>\<open>Array_Refine\<close> states what
  arrays rely on as the locale \<open>item_contract\<close>, of which \<open>key_contract\<close> is a case, and shows in it
  that sequences of calls refine a list; \<^verbatim>\<open>Array_Props\<close> has the properties.  Equality of items does
  not change the array in this model; user code could.

  \<^bold>\<open>Not modelled.\<close>  The parser, the code generator and the interpreter loop, whose data structures
  are shared with every other part; the collector itself, of which the tables above use the effect
  on addresses; floating point arithmetic, which HOL has no machine model of here; the methods that
  call back into user code (\<^verbatim>\<open>_str\<close>, \<^verbatim>\<open>_int\<close>), apart from comparison and hash of keys; Unicode tables;
  files, sockets, threads, dynamic loading and other operating system services.
\<close>

end
